(* ===== verification/Prelude.thy ===== *)
theory Prelude
  imports Main "HOL-Library.Word" "HOL-Library.Char_ord" "HOL-Library.List_Lexorder"
    "HOL-Library.Sublist"
begin

text \<open>
  Shared vocabulary of the development: outcomes of C++ code (a value, a thrown exception, or
  an aborted process), the pieces of the C++ standard library that several components call
  (\<open>std::to_string\<close>, \<open>std::search\<close>, \<open>std::string::find\<close>, \<open>std::copy\<close>,
  \<open>vector::resize\<close>, insertion into a \<open>std::map\<close>), and the lemmas about them.

  Bytes are \<open>char\<close>, byte strings are \<open>string\<close>. The order on \<open>char\<close> of
  \<open>Char_ord\<close> is the order of the unsigned byte values, and \<open>List_Lexorder\<close> makes
  the order on \<open>string\<close> the one of \<open>std::string::compare\<close>.
\<close>

named_theorems buf_simps \<open>facts about the byte buffer\<close>
named_theorems scan_simps \<open>facts about scanning characters\<close>

section \<open>Outcomes\<close>

text \<open>
  \<open>Ret\<close>: the call returns. \<open>Throw\<close>: it throws an exception the program declares.
  \<open>Abort\<close>: an \<open>assert\<close> fails, or the behaviour is undefined.
\<close>

datatype ('e, 'a) outcome = Ret 'a | Throw 'e | Abort

fun out_bind :: "('e, 'a) outcome \<Rightarrow> ('a \<Rightarrow> ('e, 'b) outcome) \<Rightarrow> ('e, 'b) outcome" where
  "out_bind (Ret x) f = f x"
| "out_bind (Throw e) f = Throw e"
| "out_bind Abort f = Abort"

fun of_option :: "'a option \<Rightarrow> ('e, 'a) outcome" where
  "of_option None = Abort"
| "of_option (Some x) = Ret x"

lemma out_bind_eq_Ret [simp]:
  "out_bind m f = Ret y \<longleftrightarrow> (\<exists>x. m = Ret x \<and> f x = Ret y)"
  by (cases m) auto

lemma out_bind_assoc: "out_bind (out_bind m f) g = out_bind m (\<lambda>x. out_bind (f x) g)"
  by (cases m) auto

lemma of_option_Ret [simp]: "of_option m = Ret x \<longleftrightarrow> m = Some x"
  by (cases m) auto

lemma of_option_not_Throw [simp]: "of_option m \<noteq> Throw e"
  by (cases m) auto

section \<open>Decimal numerals: \<open>std::to_string\<close>\<close>

abbreviation digit_char :: "nat \<Rightarrow> char" where
  "digit_char d \<equiv> char_of (48 + d)"

definition isDigit :: "char \<Rightarrow> bool" where
  "isDigit ch \<longleftrightarrow> CHR ''0'' \<le> ch \<and> ch \<le> CHR ''9''"

definition isDigit19 :: "char \<Rightarrow> bool" where
  "isDigit19 ch \<longleftrightarrow> CHR ''1'' \<le> ch \<and> ch \<le> CHR ''9''"

fun nat_to_string :: "nat \<Rightarrow> string" where
  "nat_to_string n =
     (if n < 10 then [digit_char n] else nat_to_string (n div 10) @ [digit_char (n mod 10)])"

declare nat_to_string.simps [simp del]

definition int_to_string :: "int \<Rightarrow> string" where
  "int_to_string i =
     (if i < 0 then CHR ''-'' # nat_to_string (nat (- i)) else nat_to_string (nat i))"

definition digit_val :: "char \<Rightarrow> nat" where
  "digit_val c = of_char c - 48"

definition digits_val :: "nat \<Rightarrow> string \<Rightarrow> nat" where
  "digits_val = foldl (\<lambda>a c. 10 * a + digit_val c)"

lemma char_le_iff: "(a :: char) \<le> b \<longleftrightarrow> (of_char a :: nat) \<le> of_char b"
  by (simp add: less_eq_char_def)

lemma char_less_iff: "(a :: char) < b \<longleftrightarrow> (of_char a :: nat) < of_char b"
  by (simp add: less_char_def)

lemma isDigit_iff: "isDigit c \<longleftrightarrow> 48 \<le> (of_char c :: nat) \<and> (of_char c :: nat) \<le> 57"
  by (simp add: isDigit_def char_le_iff)

lemma isDigit19_iff: "isDigit19 c \<longleftrightarrow> 49 \<le> (of_char c :: nat) \<and> (of_char c :: nat) \<le> 57"
  by (simp add: isDigit19_def char_le_iff)

lemma isDigit_NUL [simp]: "\<not> isDigit (CHR 0x00)"
  by (simp add: isDigit_iff)

lemma isDigit19_NUL [simp]: "\<not> isDigit19 (CHR 0x00)"
  by (simp add: isDigit19_iff)

lemma isDigit19_isDigit: "isDigit19 c \<Longrightarrow> isDigit c"
  by (simp add: isDigit_iff isDigit19_iff)

lemma isDigit_digit_char [simp]: "d < 10 \<Longrightarrow> isDigit (digit_char d)"
  by (simp add: isDigit_iff)

lemma digit_val_digit_char [simp]: "d < 10 \<Longrightarrow> digit_val (digit_char d) = d"
  by (simp add: digit_val_def)

lemma nat_to_string_nonempty [simp]: "nat_to_string n \<noteq> []"
  by (subst nat_to_string.simps) simp

lemma nat_to_string_digits: "list_all isDigit (nat_to_string n)"
proof (induction n rule: nat_to_string.induct)
  case (1 n)
  then show ?case
    by (cases "n < 10") (simp_all add: nat_to_string.simps [of n])
qed

lemma digits_val_append [simp]:
  "digits_val a (s @ t) = digits_val (digits_val a s) t"
  by (simp add: digits_val_def)

lemma digits_val_Nil [simp]: "digits_val a [] = a"
  by (simp add: digits_val_def)

lemma digits_val_Cons [simp]: "digits_val a (c # s) = digits_val (10 * a + digit_val c) s"
  by (simp add: digits_val_def)

lemma digits_val_nat_to_string [simp]: "digits_val 0 (nat_to_string n) = n"
proof (induction n rule: nat_to_string.induct)
  case (1 n)
  show ?case
  proof (cases "n < 10")
    case True
    then show ?thesis by (simp add: nat_to_string.simps [of n])
  next
    case False
    with "1.IH" have "digits_val 0 (nat_to_string (n div 10)) = n div 10" by simp
    with False show ?thesis by (simp add: nat_to_string.simps [of n])
  qed
qed

lemma nat_to_string_head:
  "0 < n \<Longrightarrow> isDigit19 (hd (nat_to_string n))"
proof (induction n rule: nat_to_string.induct)
  case (1 n)
  show ?case
  proof (cases "n < 10")
    case True
    with "1.prems" show ?thesis by (simp add: nat_to_string.simps [of n] isDigit19_iff)
  next
    case False
    with "1.IH" have "isDigit19 (hd (nat_to_string (n div 10)))" by simp
    with False show ?thesis by (simp add: nat_to_string.simps [of n])
  qed
qed

lemma nat_to_string_0 [simp]: "nat_to_string 0 = ''0''"
  by code_simp

section \<open>Searching: \<open>std::search\<close> and \<open>std::string::find\<close>\<close>

text \<open>
  \<open>std_search p s\<close> is the offset of the first occurrence of \<open>p\<close> in \<open>s\<close>, and the
  length of \<open>s\<close> (the \<open>last\<close> iterator) if there is none.
\<close>

fun std_search :: "string \<Rightarrow> string \<Rightarrow> nat" where
  "std_search p [] = 0"
| "std_search p (c # s) = (if prefix p (c # s) then 0 else Suc (std_search p s))"

text \<open>\<open>str_find p s\<close> is \<open>s.find(p)\<close>, with \<open>None\<close> for \<open>npos\<close>.\<close>

fun str_find :: "string \<Rightarrow> string \<Rightarrow> nat option" where
  "str_find p [] = (if p = [] then Some 0 else None)"
| "str_find p (c # s) = (if prefix p (c # s) then Some 0 else map_option Suc (str_find p s))"

lemma std_search_le: "std_search p s \<le> length s"
  by (induction p s rule: std_search.induct) auto

lemma std_search_less_iff:
  "p \<noteq> [] \<Longrightarrow> std_search p s < length s \<longleftrightarrow> sublist p s"
proof (induction p s rule: std_search.induct)
  case (1 p)
  then show ?case by simp
next
  case (2 p c s)
  then show ?case by (auto simp: sublist_Cons_right)
qed

lemma std_search_prefix:
  "std_search p s < length s \<Longrightarrow> prefix p (drop (std_search p s) s)"
  by (induction p s rule: std_search.induct) (auto split: if_splits)

lemma str_find_lt: "str_find p s = Some i \<Longrightarrow> p \<noteq> [] \<Longrightarrow> i < length s"
  by (induction p s arbitrary: i rule: str_find.induct) (auto split: if_splits)

section \<open>Overwriting and resizing a byte array\<close>

text \<open>\<open>std::copy(data, data + len, begin + pos)\<close> within the array.\<close>

definition copy_to :: "nat \<Rightarrow> 'a list \<Rightarrow> 'a list \<Rightarrow> 'a list" where
  "copy_to pos dat buf = take pos buf @ dat @ drop (pos + length dat) buf"

definition vec_resize :: "nat \<Rightarrow> string \<Rightarrow> string" where
  "vec_resize n buf = take n buf @ replicate (n - length buf) (CHR 0x00)"

lemma length_copy_to [simp]:
  "pos + length dat \<le> length buf \<Longrightarrow> length (copy_to pos dat buf) = length buf"
  by (simp add: copy_to_def)

lemma length_vec_resize [simp]: "length (vec_resize n buf) = n"
  by (simp add: vec_resize_def)

end
