(* ===== verification/NetAddress.thy ===== *)
theory NetAddress
  imports Prelude "HOL-Library.Word"
begin

text \<open>
  \<open>NetServer/InetAddress.h\<close> and \<open>InetAddress.cpp\<close>: IPv4 addresses with a port, in network byte
  order in memory, and as text. The host is little-endian. \<open>inet_pton\<close> and \<open>inet_ntop\<close> of the C
  library are modelled for \<open>AF_INET\<close>: four decimal numbers up to 255 without leading zeros.
\<close>

section \<open>Byte order\<close>

text \<open>Byte \<open>k\<close> of a number in memory is its digit \<open>k\<close> to the base 256.\<close>

definition mem_byte :: "nat \<Rightarrow> nat \<Rightarrow> nat" where
  "mem_byte k n = n div 256 ^ k mod 256"

definition of_bytes :: "nat list \<Rightarrow> nat" where
  "of_bytes bs = foldr (\<lambda>b n. b + 256 * n) bs 0"

definition htonl :: "32 word \<Rightarrow> 32 word" where
  "htonl w = word_of_nat (of_bytes (map (\<lambda>k. mem_byte k (unat w)) [3, 2, 1, 0]))"

definition htons :: "16 word \<Rightarrow> 16 word" where
  "htons w = word_of_nat (of_bytes (map (\<lambda>k. mem_byte k (unat w)) [1, 0]))"

definition ntohs :: "16 word \<Rightarrow> 16 word" where
  "ntohs w = htons w"

lemma mem_byte_less: "mem_byte k n < 256"
  by (simp add: mem_byte_def)

lemma mem_byte_Suc: "mem_byte (Suc k) n = mem_byte k (n div 256)"
  by (simp add: mem_byte_def div_mult2_eq)

lemma mem_byte_0: "mem_byte 0 n = n mod 256"
  by (simp add: mem_byte_def)

lemma of_bytes_simps [simp]: "of_bytes [] = 0" "of_bytes (b # bs) = b + 256 * of_bytes bs"
  by (simp_all add: of_bytes_def)

lemma of_bytes_mem: "of_bytes (map (\<lambda>k. mem_byte k n) [0..<m]) = n mod 256 ^ m"
proof (induction m arbitrary: n)
  case (Suc m)
  have "[0..<Suc m] = 0 # map Suc [0..<m]" by (simp add: map_Suc_upt upt_conv_Cons)
  then show ?case
    using Suc.IH [of "n div 256"] by (simp add: mem_byte_Suc mem_byte_0 comp_def mod_mult2_eq)
qed simp

lemma mem_of_bytes: "k < length bs \<Longrightarrow> list_all (\<lambda>b. b < 256) bs \<Longrightarrow> mem_byte k (of_bytes bs) = bs ! k"
proof (induction bs arbitrary: k)
  case (Cons b bs)
  then show ?case by (cases k) (simp_all add: mem_byte_Suc mem_byte_0)
qed simp

lemma of_bytes_less: "list_all (\<lambda>b. b < 256) bs \<Longrightarrow> of_bytes bs < 256 ^ length bs"
  by (induction bs) auto

lemma unat32_less: "unat (w :: 32 word) < 2 ^ 32"
  using unsigned_less [of w] by simp

lemma unat16_less: "unat (w :: 16 word) < 2 ^ 16"
  using unsigned_less [of w] by simp

lemma of_bytes_mem4: "of_bytes [mem_byte 0 n, mem_byte 1 n, mem_byte 2 n, mem_byte 3 n] = n mod 2 ^ 32"
proof -
  have "[0..<4] = [0, 1, 2, 3 :: nat]" by code_simp
  then show ?thesis using of_bytes_mem [of n 4] by (simp only: list.map) simp
qed

lemma of_bytes_mem2: "of_bytes [mem_byte 0 n, mem_byte 1 n] = n mod 2 ^ 16"
proof -
  have "[0..<2] = [0, 1 :: nat]" by code_simp
  then show ?thesis using of_bytes_mem [of n 2] by (simp only: list.map) simp
qed

lemma unat_of_nat32: "n < 2 ^ 32 \<Longrightarrow> unat (word_of_nat n :: 32 word) = n"
  by (simp add: unat_of_nat take_bit_nat_eq_self)

lemma unat_of_nat16: "n < 2 ^ 16 \<Longrightarrow> unat (word_of_nat n :: 16 word) = n"
  by (simp add: unat_of_nat take_bit_nat_eq_self)

lemma word_of_mem4: "word_of_nat (of_bytes [mem_byte 0 (unat w), mem_byte 1 (unat w), mem_byte 2 (unat w), mem_byte 3 (unat w)]) = w"
  for w :: "32 word"
  using unat32_less [of w] unfolding of_bytes_mem4 by simp

lemma word_of_mem2: "word_of_nat (of_bytes [mem_byte 0 (unat w), mem_byte 1 (unat w)]) = w" for w :: "16 word"
  using unat16_less [of w] unfolding of_bytes_mem2 by simp

lemma htons_htons [simp]: "htons (htons w) = w"
proof -
  let ?bs = "[mem_byte 1 (unat w), mem_byte 0 (unat w)]"
  have b: "list_all (\<lambda>b. b < 256) ?bs" by (simp add: mem_byte_less)
  have u: "unat (htons w) = of_bytes ?bs"
    unfolding htons_def list.map by (rule unat_of_nat16) (use of_bytes_less [OF b] in simp)
  have "mem_byte 0 (of_bytes ?bs) = mem_byte 1 (unat w)" "mem_byte 1 (of_bytes ?bs) = mem_byte 0 (unat w)"
    using mem_of_bytes [OF _ b, of 0] mem_of_bytes [OF _ b, of 1] by simp_all
  then show ?thesis using word_of_mem2 [of w] by (simp only: htons_def [of "htons w"] u list.map)
qed

lemma htonl_htonl [simp]: "htonl (htonl w) = w"
proof -
  let ?bs = "[mem_byte 3 (unat w), mem_byte 2 (unat w), mem_byte 1 (unat w), mem_byte 0 (unat w)]"
  have b: "list_all (\<lambda>b. b < 256) ?bs" by (simp add: mem_byte_less)
  have u: "unat (htonl w) = of_bytes ?bs"
    unfolding htonl_def list.map by (rule unat_of_nat32) (use of_bytes_less [OF b] in simp)
  have "mem_byte 0 (of_bytes ?bs) = mem_byte 3 (unat w)" "mem_byte 1 (of_bytes ?bs) = mem_byte 2 (unat w)"
    "mem_byte 2 (of_bytes ?bs) = mem_byte 1 (unat w)" "mem_byte 3 (of_bytes ?bs) = mem_byte 0 (unat w)"
    using mem_of_bytes [OF _ b, of 0] mem_of_bytes [OF _ b, of 1] mem_of_bytes [OF _ b, of 2] mem_of_bytes [OF _ b, of 3]
    by simp_all
  then show ?thesis using word_of_mem4 [of w] by (simp only: htonl_def [of "htonl w"] u list.map)
qed

section \<open>Text\<close>

definition inet_ntop :: "32 word \<Rightarrow> string" where
  "inet_ntop addr =
     (let octet = (\<lambda>k. nat_to_string (mem_byte k (unat addr)))
      in octet 0 @ ''.'' @ octet 1 @ ''.'' @ octet 2 @ ''.'' @ octet 3)"

definition read_octet :: "string \<Rightarrow> nat option" where
  "read_octet s =
     (if s \<noteq> [] \<and> list_all isDigit s \<and> (1 < length s \<longrightarrow> hd s \<noteq> CHR ''0'') \<and> digits_val 0 s < 256
      then Some (digits_val 0 s) else None)"

fun split_at :: "char \<Rightarrow> string \<Rightarrow> string list" where
  "split_at sep [] = [[]]"
| "split_at sep (c # s) =
     (if c = sep then [] # split_at sep s
      else (case split_at sep s of [] \<Rightarrow> [[c]] | w # ws \<Rightarrow> (c # w) # ws))"

definition c_str :: "string \<Rightarrow> string" where
  "c_str s = takeWhile (\<lambda>c. c \<noteq> CHR 0x00) s"

definition inet_pton :: "string \<Rightarrow> 32 word option" where
  "inet_pton text =
     (case map read_octet (split_at CHR ''.'' text) of
        [Some a, Some b, Some c, Some d] \<Rightarrow> Some (word_of_nat (of_bytes [a, b, c, d]))
      | _ \<Rightarrow> None)"

section \<open>InetAddress\<close>

definition AF_INET :: "16 word" where "AF_INET = 2"

definition INADDR_ANY :: "32 word" where "INADDR_ANY = 0"

definition INADDR_LOOPBACK :: "32 word" where "INADDR_LOOPBACK = 0x7f000001"

record InetAddress =
  sin_family :: "16 word"
  sin_port :: "16 word"
  s_addr :: "32 word"

definition InetAddress_port :: "16 word \<Rightarrow> bool \<Rightarrow> InetAddress" where
  "InetAddress_port port loopback =
     (let ip = (if loopback then INADDR_LOOPBACK else INADDR_ANY)
      in \<lparr>sin_family = AF_INET, sin_port = htons port, s_addr = htonl ip\<rparr>)"

text \<open>If the text is no address the constructor only writes a line to the log: the address stays zero.\<close>

definition InetAddress_ip :: "string \<Rightarrow> 16 word \<Rightarrow> InetAddress" where
  "InetAddress_ip ip port =
     (let a = \<lparr>sin_family = AF_INET, sin_port = htons port, s_addr = 0\<rparr>
      in case inet_pton (c_str ip) of None \<Rightarrow> a | Some addr \<Rightarrow> a\<lparr>s_addr := addr\<rparr>)"

definition setAddress :: "InetAddress \<Rightarrow> InetAddress \<Rightarrow> InetAddress" where
  "setAddress addr a = addr"

text \<open>The buffer of 16 characters holds every address.\<close>

definition INET_ADDRSTRLEN :: nat where "INET_ADDRSTRLEN = 16"

definition toIp :: "InetAddress \<Rightarrow> string" where
  "toIp a = (let buf = inet_ntop (s_addr a) in if length buf < INET_ADDRSTRLEN then buf else [])"

definition toPort :: "InetAddress \<Rightarrow> 16 word" where
  "toPort a = ntohs (sin_port a)"

definition toIpPort :: "InetAddress \<Rightarrow> string" where
  "toIpPort a = toIp a @ '':'' @ nat_to_string (unat (toPort a))"

text \<open>\<open>TcpConnection::name\<close>.\<close>

definition connection_name :: "InetAddress \<Rightarrow> InetAddress \<Rightarrow> string" where
  "connection_name local peer = toIpPort local @ '' -> '' @ toIpPort peer"

section \<open>Facts\<close>

lemma nat_to_string_inject: "nat_to_string m = nat_to_string n \<longleftrightarrow> m = n"
  by (metis digits_val_nat_to_string)

lemma nat_to_string_zero_lead: "1 < length (nat_to_string n) \<Longrightarrow> hd (nat_to_string n) \<noteq> CHR ''0''"
  using nat_to_string_head [of n] by (cases "n = 0") (auto simp: isDigit19_iff)

lemma read_octet_print: "n < 256 \<Longrightarrow> read_octet (nat_to_string n) = Some n"
  using nat_to_string_digits [of n] nat_to_string_zero_lead [of n] by (simp add: read_octet_def)

lemma not_in_digits: "\<not> isDigit c \<Longrightarrow> c \<notin> set (nat_to_string n)"
  using nat_to_string_digits [of n] by (auto simp: list_all_iff)

lemma split_at_no_sep: "sep \<notin> set s \<Longrightarrow> split_at sep s = [s]"
  by (induction s) auto

lemma split_at_append: "sep \<notin> set s \<Longrightarrow> split_at sep (s @ sep # t) = s # split_at sep t"
  by (induction s) auto

lemma dot_no_digit: "\<not> isDigit (CHR ''.'')" "\<not> isDigit (CHR '':'')"
  by (simp_all add: isDigit_iff)

lemma inet_pton_ntop: "inet_pton (inet_ntop addr) = Some addr"
  using not_in_digits [OF dot_no_digit(1)] word_of_mem4 [of addr]
  by (simp add: inet_ntop_def inet_pton_def split_at_append split_at_no_sep read_octet_print mem_byte_less)

lemma length_octet: "n < 256 \<Longrightarrow> length (nat_to_string n) \<le> 3"
  by (simp add: nat_to_string.simps [of n] nat_to_string.simps [of "n div 10"] nat_to_string.simps [of "n div 10 div 10"])

lemma length_ntop: "length (inet_ntop addr) < INET_ADDRSTRLEN"
proof -
  have "length (nat_to_string (mem_byte k n)) \<le> 3" for k n by (rule length_octet [OF mem_byte_less])
  from this [of 0 "unat addr"] this [of 1 "unat addr"] this [of 2 "unat addr"] this [of 3 "unat addr"]
  show ?thesis by (simp add: inet_ntop_def INET_ADDRSTRLEN_def)
qed

lemma toIp_ntop: "toIp a = inet_ntop (s_addr a)"
  using length_ntop by (simp add: toIp_def)

text \<open>A number without leading zeros is the text that is printed for its value.\<close>

lemma digits_val_ge: "a \<le> digits_val a s"
proof (induction s arbitrary: a)
  case (Cons c s)
  from Cons [of "10 * a + digit_val c"] show ?case by simp
qed simp

lemma digit_val_pos: "isDigit c \<Longrightarrow> c \<noteq> CHR ''0'' \<Longrightarrow> 0 < digit_val c"
proof -
  assume d: "isDigit c" and z: "c \<noteq> CHR ''0''"
  have "(of_char c :: nat) \<noteq> of_char (CHR ''0'')" using z by (metis of_char_eq_iff)
  then have "(of_char c :: nat) \<noteq> 48" by simp
  then show "0 < digit_val c" using d by (simp add: isDigit_iff digit_val_def)
qed

lemma digit_char_val: "isDigit c \<Longrightarrow> digit_char (digit_val c) = c"
proof -
  assume d: "isDigit c"
  then have "48 + digit_val c = of_char c" by (simp add: isDigit_iff digit_val_def)
  then show ?thesis by (simp add: add.commute)
qed

lemma digit_val_less: "isDigit c \<Longrightarrow> digit_val c < 10"
  unfolding isDigit_iff digit_val_def by linarith

lemma digits_unique:
  "s \<noteq> [] \<Longrightarrow> list_all isDigit s \<Longrightarrow> 1 < length s \<longrightarrow> hd s \<noteq> CHR ''0'' \<Longrightarrow> nat_to_string (digits_val 0 s) = s"
proof (induction s rule: rev_induct)
  case (snoc c s)
  have c: "isDigit c" using snoc.prems by simp
  show ?case
  proof (cases "s = []")
    case True
    then show ?thesis using digit_val_less [OF c] digit_char_val [OF c] by (simp add: nat_to_string.simps)
  next
    case False
    then obtain h t where s: "s = h # t" by (cases s) auto
    have "0 < digit_val h" using snoc.prems s by (intro digit_val_pos) auto
    then have "0 < digits_val 0 s" using digits_val_ge [of "digit_val h" t] s by simp
    moreover have "nat_to_string (digits_val 0 s) = s" using snoc s by simp
    ultimately show ?thesis
      using digit_val_less [OF c] digit_char_val [OF c]
      by (simp add: nat_to_string.simps [of "10 * digits_val 0 s + digit_val c"])
  qed
qed simp

lemma read_octet_unique: "read_octet s = Some n \<Longrightarrow> n < 256 \<and> s = nat_to_string n"
  using digits_unique by (auto simp: read_octet_def split: if_splits)

fun join_with :: "char \<Rightarrow> string list \<Rightarrow> string" where
  "join_with sep [] = []"
| "join_with sep [w] = w"
| "join_with sep (w # ws) = w @ sep # join_with sep ws"

lemma split_at_nonempty [simp]: "split_at sep s \<noteq> []"
  by (induction s) (auto split: list.splits)

lemma join_split: "join_with sep (split_at sep s) = s"
proof (induction s)
  case (Cons c s)
  then show ?case
    by (cases "split_at sep s" rule: list.exhaust; cases "tl (split_at sep s)") (auto split: list.splits)
qed simp

lemma inet_pton_unique: "inet_pton str = Some addr \<Longrightarrow> inet_ntop addr = str"
proof -
  assume p: "inet_pton str = Some addr"
  obtain a b c d where m: "map read_octet (split_at CHR ''.'' str) = [Some a, Some b, Some c, Some d]"
    and addr: "addr = word_of_nat (of_bytes [a, b, c, d])"
    using p by (auto simp: inet_pton_def split: list.splits option.splits)
  then obtain w x y z where s: "split_at CHR ''.'' str = [w, x, y, z]"
    "read_octet w = Some a" "read_octet x = Some b" "read_octet y = Some c" "read_octet z = Some d"
    by (auto simp: map_eq_Cons_conv)
  then have l: "a < 256" "b < 256" "c < 256" "d < 256" "w = nat_to_string a" "x = nat_to_string b"
    "y = nat_to_string c" "z = nat_to_string d"
    using read_octet_unique by blast+
  then have t: "str = nat_to_string a @ ''.'' @ nat_to_string b @ ''.'' @ nat_to_string c @ ''.'' @ nat_to_string d"
    using join_split [of "CHR ''.''" str] s by simp
  let ?bs = "[a, b, c, d]"
  have bs: "list_all (\<lambda>b. b < 256) ?bs" using l by simp
  have u: "unat addr = of_bytes ?bs"
    unfolding addr by (rule unat_of_nat32) (use of_bytes_less [OF bs] in simp)
  have "mem_byte 0 (of_bytes ?bs) = a" "mem_byte 1 (of_bytes ?bs) = b" "mem_byte 2 (of_bytes ?bs) = c"
    "mem_byte 3 (of_bytes ?bs) = d"
    using mem_of_bytes [OF _ bs, of 0] mem_of_bytes [OF _ bs, of 1] mem_of_bytes [OF _ bs, of 2] mem_of_bytes [OF _ bs, of 3]
    by simp_all
  then show ?thesis unfolding inet_ntop_def u Let_def t by (simp only:)
qed

lemma colon_not_in_ntop: "CHR '':'' \<notin> set (inet_ntop addr)"
  using not_in_digits [OF dot_no_digit(2)] by (simp add: inet_ntop_def)

lemma ntop_no_nul: "c_str (inet_ntop addr) = inet_ntop addr"
  using not_in_digits [of "CHR 0x00"] by (simp add: c_str_def takeWhile_eq_all_conv inet_ntop_def) blast

section \<open>Property\<close>

text \<open>
  C40: an address that was constructed from a text prints as that text, and one that was read from a
  socket is constructed again from what it prints, with its port; different addresses print
  differently; and a text that is no address stands, silently, for 0.0.0.0.
\<close>

theorem address_roundtrip:
  "(inet_pton (c_str ip) = Some addr \<longrightarrow> toIp (InetAddress_ip ip port) = c_str ip) \<and>
   (inet_pton (c_str ip) = None \<longrightarrow> toIp (InetAddress_ip ip port) = ''0.0.0.0'') \<and>
   toPort (InetAddress_ip ip port) = port \<and>
   (sin_family a = AF_INET \<longrightarrow> InetAddress_ip (toIp a) (toPort a) = a) \<and>
   (sin_family a = AF_INET \<and> sin_family b = AF_INET \<and> toIpPort a = toIpPort b \<longrightarrow> a = b)"
proof -
  have again: "InetAddress_ip (toIp a) (toPort a) = a" if "sin_family a = AF_INET" for a
    using that by (cases a) (simp add: InetAddress_ip_def toIp_ntop toPort_def ntohs_def inet_pton_ntop ntop_no_nul)
  have port: "toPort (InetAddress_ip ip port) = port"
    by (simp add: InetAddress_ip_def toPort_def ntohs_def Let_def split: option.split)
  have zero: "inet_ntop 0 = ''0.0.0.0''" by (simp add: inet_ntop_def mem_byte_def)
  have same: "a = b" if f: "sin_family a = AF_INET" "sin_family b = AF_INET" and t: "toIpPort a = toIpPort b"
  proof -
    have "split_at CHR '':'' (toIpPort c) = [toIp c, nat_to_string (unat (toPort c))]" for c
      using colon_not_in_ntop [of "s_addr c"] not_in_digits [OF dot_no_digit(2)]
      by (simp add: toIpPort_def toIp_ntop split_at_append split_at_no_sep)
    from this [of a] this [of b] t have "toIp a = toIp b" "toPort a = toPort b"
      by (simp_all add: nat_to_string_inject word_unat_eq_iff)
    then show ?thesis using again f by metis
  qed
  show ?thesis
    using again port zero same inet_pton_unique [of "c_str ip" addr]
    by (auto simp: InetAddress_ip_def toIp_ntop)
qed

theorem address_roundtrip_witness:
  "toIp (InetAddress_ip ''127.0.0.1'' 7777) = ''127.0.0.1'' \<and> toIp (InetAddress_ip ''127.0.0.256'' 80) = ''0.0.0.0''"
proof -
  have "inet_pton (c_str ''127.0.0.1'') = Some 16777343" "inet_pton (c_str ''127.0.0.256'') = None"
    "c_str ''127.0.0.1'' = ''127.0.0.1''"
    by (simp_all add: c_str_def inet_pton_def read_octet_def isDigit_iff digit_val_def)
  then show ?thesis
    using address_roundtrip [where ip = "''127.0.0.1''" and addr = 16777343 and port = 7777]
      address_roundtrip [where ip = "''127.0.0.256''" and port = 80]
    by metis
qed

end
