(* ===== verification/NetLog.thy ===== *)
theory NetLog
  imports Prelude "HOL-Library.Word"
begin

text \<open>
  \<open>NetServer/Log.h\<close>, \<open>TimeTool.h\<close> and \<open>TimeTool.cpp\<close>: the fields and the text of a time, and the
  lines that the macros \<open>trace\<close> to \<open>fatal\<close> print through a buffer of 512 characters. The broken-down
  time is what \<open>localtime_r\<close> gave; what \<open>printf\<close> makes of a format and its arguments is given as the
  expanded text. \<open>None\<close> is a write outside the buffer.
\<close>

section \<open>TimeTool\<close>

record tm =
  tm_year :: int
  tm_mon :: int
  tm_mday :: int
  tm_hour :: int
  tm_min :: int
  tm_sec :: int

definition GetYear :: "tm \<Rightarrow> int" where "GetYear t = tm_year t + 1900"
definition GetMonth :: "tm \<Rightarrow> int" where "GetMonth t = tm_mon t"
definition GetDay :: "tm \<Rightarrow> int" where "GetDay t = tm_mday t"
definition GetHour :: "tm \<Rightarrow> int" where "GetHour t = tm_hour t"
definition GetMin :: "tm \<Rightarrow> int" where "GetMin t = tm_min t"
definition GetSec :: "tm \<Rightarrow> int" where "GetSec t = tm_sec t"

text \<open>\<open>%Y\<close>, \<open>%m\<close> and so on of \<open>strftime\<close>: two digits each but for the year.\<close>

definition two_digits :: "int \<Rightarrow> string" where
  "two_digits i = [digit_char (nat i div 10), digit_char (nat i mod 10)]"

definition GetFormatTime :: "tm \<Rightarrow> string" where
  "GetFormatTime t = int_to_string (tm_year t + 1900) @ ''-'' @ two_digits (tm_mon t + 1) @ ''-'' @ two_digits (tm_mday t)
     @ '' '' @ two_digits (tm_hour t) @ '':'' @ two_digits (tm_min t) @ '':'' @ two_digits (tm_sec t)"

definition wf_tm :: "tm \<Rightarrow> bool" where
  "wf_tm t \<longleftrightarrow> tm_mon t \<in> {0..11} \<and> tm_mday t \<in> {1..31} \<and> tm_hour t \<in> {0..23} \<and> tm_min t \<in> {0..59} \<and> tm_sec t \<in> {0..60}"

section \<open>The line\<close>

definition log_size :: nat where "log_size = 512"

text \<open>
  \<open>snprintf\<close> at an offset of the buffer: up to \<open>n - 1\<close> characters and a NUL, nothing if \<open>n\<close> is 0.
\<close>

definition snprintf_at :: "nat \<Rightarrow> nat \<Rightarrow> string \<Rightarrow> string \<Rightarrow> string option" where
  "snprintf_at off n txt buf =
     (if n = 0 then Some buf
      else let w = take (n - 1) txt @ [CHR 0x00]
           in if off + length w \<le> length buf then Some (copy_to off w buf) else None)"

text \<open>\<open>size_t\<close> arithmetic: \<open>sizeof(log_str) - curlen\<close>.\<close>

definition size_minus :: "nat \<Rightarrow> nat \<Rightarrow> nat" where
  "size_minus a b = nat ((int a - int b) mod 2 ^ 64)"

definition log_prefix :: "string \<Rightarrow> string \<Rightarrow> string \<Rightarrow> string \<Rightarrow> 32 word \<Rightarrow> string" where
  "log_prefix time level filename function line =
     ''['' @ time @ ''] ['' @ level @ ''] ['' @ filename @ ''-'' @ function @ ''-'' @ int_to_string (sint line) @ '']''"

text \<open>What is printed, and whether the process is aborted; \<open>junk\<close> is the uninitialised buffer.\<close>

definition net_log :: "string \<Rightarrow> bool \<Rightarrow> string \<Rightarrow> string \<Rightarrow> (string \<times> bool) option" where
  "net_log junk to_abort pre msg =
     (let curlen = length pre; nextlen = length msg
      in Option.bind (snprintf_at 0 log_size pre junk) (\<lambda>b1.
         Option.bind (snprintf_at curlen (size_minus log_size curlen) msg b1) (\<lambda>b2.
           (let b3 = (if curlen + nextlen \<ge> log_size then b2[log_size - 1 := CHR 0x00] else b2)
            in Some (takeWhile (\<lambda>c. c \<noteq> CHR 0x00) b3 @ [CHR 0x0A], to_abort)))))"

text \<open>The macros: \<open>PRINT\<close> ignores the level it is given.\<close>

datatype log_macro = Trace | Debug | Info | Warn | Error | Fatal

fun macro_level :: "log_macro \<Rightarrow> string" where
  "macro_level Trace = ''trace''"
| "macro_level Debug = ''debug''"
| "macro_level Info = ''info''"
| "macro_level Warn = ''warn''"
| "macro_level Error = ''error''"
| "macro_level Fatal = ''error''"

definition PRINT ::
    "string \<Rightarrow> bool \<Rightarrow> string \<Rightarrow> tm \<Rightarrow> string \<Rightarrow> string \<Rightarrow> 32 word \<Rightarrow> string \<Rightarrow> (string \<times> bool) option" where
  "PRINT junk to_abort level now filename function line msg =
     net_log junk to_abort (log_prefix (GetFormatTime now) ''info'' filename function line) msg"

definition print_macro ::
    "log_macro \<Rightarrow> string \<Rightarrow> tm \<Rightarrow> string \<Rightarrow> string \<Rightarrow> 32 word \<Rightarrow> string \<Rightarrow> (string \<times> bool) option" where
  "print_macro m junk now filename function line msg =
     PRINT junk (m = Fatal) (macro_level m) now filename function line msg"

section \<open>Facts\<close>

lemma copy_to_over: "off + length w \<le> length buf \<Longrightarrow> copy_to off w buf = take off buf @ w @ drop (off + length w) buf"
  by (simp add: copy_to_def)

definition printable :: "string \<Rightarrow> bool" where
  "printable s \<longleftrightarrow> CHR 0x00 \<notin> set s"

lemma takeWhile_printable: "printable s \<Longrightarrow> takeWhile (\<lambda>c. c \<noteq> CHR 0x00) (s @ CHR 0x00 # t) = s"
  by (subst takeWhile_append2) (auto simp: printable_def)

lemma log_fits:
  assumes j: "length junk = log_size" and p: "printable pre" "printable msg" and l: "length pre \<le> log_size"
  shows "net_log junk to_abort pre msg = Some (take 511 (pre @ msg) @ [CHR 0x0A], to_abort)"
proof (cases "length pre = log_size")
  case True
  let ?b = "take 511 pre @ [CHR 0x00]"
  have n: "length pre = 512" "length junk = 512" using True j by (simp_all add: log_size_def)
  have "snprintf_at 0 log_size pre junk = Some ?b"
    using n by (simp add: snprintf_at_def log_size_def copy_to_over)
  moreover have "size_minus log_size (length pre) = 0" using True by (simp add: size_minus_def)
  moreover have "?b[511 := CHR 0x00] = ?b" using n by (simp add: list_update_append)
  moreover have "printable (take 511 pre)" using p by (auto simp: printable_def dest: in_set_takeD)
  ultimately show ?thesis
    using n takeWhile_printable [of "take 511 pre" "[]"]
    by (simp add: net_log_def snprintf_at_def log_size_def)
next
  case False
  let ?n = "length pre"
  have n: "?n < 512" "length junk = 512" using False l j by (simp_all add: log_size_def)
  define b1 where "b1 = pre @ CHR 0x00 # drop (Suc ?n) junk"
  have 1: "snprintf_at 0 log_size pre junk = Some b1"
    using n by (simp add: snprintf_at_def log_size_def copy_to_over b1_def)
  have lb: "length b1 = 512" using n by (simp add: b1_def)
  have m: "size_minus log_size ?n = 512 - ?n" using n by (simp add: size_minus_def log_size_def)
  define t where "t = take (511 - ?n) msg"
  define b2 where "b2 = pre @ t @ CHR 0x00 # drop (?n + Suc (length t)) b1"
  have lt: "length t \<le> 511 - ?n" by (simp add: t_def)
  have 2: "snprintf_at ?n (512 - ?n) msg b1 = Some b2"
    using n lb lt unfolding snprintf_at_def by (simp add: copy_to_over b2_def t_def [symmetric]) (simp add: b1_def)
  have pt: "printable (pre @ t)" using p by (auto simp: printable_def t_def dest: in_set_takeD)
  have tk: "take 511 (pre @ msg) = pre @ t" using n by (simp add: t_def)
  let ?b3 = "if ?n + length msg \<ge> log_size then b2[log_size - 1 := CHR 0x00] else b2"
  have "?b3 = b2"
  proof (cases "?n + length msg \<ge> log_size")
    case True
    then have "length t = 511 - ?n" using n by (simp add: t_def log_size_def)
    then have "b2 ! 511 = CHR 0x00" using n by (simp add: b2_def nth_append)
    then have "b2[511 := CHR 0x00] = b2" by (metis list_update_id)
    then show ?thesis by (simp add: log_size_def)
  qed simp
  moreover have "takeWhile (\<lambda>c. c \<noteq> CHR 0x00) b2 = pre @ t"
    using takeWhile_printable [OF pt] by (simp add: b2_def)
  ultimately show ?thesis
    using 1 2 m unfolding tk by (simp add: net_log_def Let_def del: if_split)
qed

lemma log_overruns:
  assumes "length junk = log_size" "log_size < length pre" "length pre < 2 ^ 31"
  shows "net_log junk to_abort pre msg = None"
proof -
  let ?n = "length pre"
  have "(512 - int ?n) mod 2 ^ 64 = 2 ^ 64 + (512 - int ?n)"
    using assms(2,3) by (intro mod_add_self1 [of "2 ^ 64" "512 - int ?n", THEN trans [OF sym], THEN trans]) (simp_all add: log_size_def)
  then have m: "size_minus log_size ?n \<noteq> 0" using assms(3) by (simp add: size_minus_def log_size_def)
  have "snprintf_at ?n (size_minus log_size ?n) msg b1 = None" if "length b1 = log_size" for b1
    using m that assms(2) by (simp add: snprintf_at_def Let_def)
  moreover have "length b1 = log_size" if "snprintf_at 0 log_size pre junk = Some b1" for b1
    using that assms(1) by (auto simp: snprintf_at_def Let_def split: if_splits)
  ultimately show ?thesis by (cases "snprintf_at 0 log_size pre junk") (simp_all add: net_log_def)
qed

section \<open>Properties\<close>

text \<open>
  A log line is printed in full up to 511 characters and cut there, without a write outside the
  buffer, exactly as long as its prefix (time, level, file, function, line) has at most 512 characters;
  a longer prefix makes the remaining size wrap around and the message is written past the buffer. The
  level printed is \<open>info\<close> for every macro.
\<close>

theorem log_bounds:
  assumes "length junk = 512" and "printable (GetFormatTime now)" "printable filename" "printable function" "printable msg"
    and "length (log_prefix (GetFormatTime now) ''info'' filename function line) < 2 ^ 31"
  shows "print_macro m junk now filename function line msg =
    (let pre = log_prefix (GetFormatTime now) ''info'' filename function line
     in if length pre \<le> 512 then Some (take 511 (pre @ msg) @ [CHR 0x0A], m = Fatal) else None)"
proof -
  let ?p = "log_prefix (GetFormatTime now) ''info'' filename function line"
  have "CHR 0x00 \<notin> set (int_to_string i)" for i
    using nat_to_string_digits [of "nat i"] nat_to_string_digits [of "nat (- i)"]
    by (auto simp: int_to_string_def list_all_iff)
  then have "printable ?p" using assms(2-4) by (simp add: printable_def log_prefix_def)
  then show ?thesis
    using log_fits [of junk ?p msg "m = Fatal"] log_overruns [of junk ?p "m = Fatal" msg] assms
    by (simp add: print_macro_def PRINT_def log_size_def Let_def)
qed

definition noon :: tm where
  "noon = \<lparr>tm_year = 121, tm_mon = 4, tm_mday = 9, tm_hour = 12, tm_min = 0, tm_sec = 30\<rparr>"

theorem log_bounds_witness:
  "print_macro Warn (replicate 512 CHR 0x00) noon ''a.cpp'' ''f'' 7 ''hi''
     = Some (''[2021-05-09 12:00:30] [info] [a.cpp-f-7]hi'' @ [CHR 0x0A], False)"
proof -
  have t: "GetFormatTime noon = ''2021-05-09 12:00:30''" by code_simp
  have "log_prefix (GetFormatTime noon) ''info'' ''a.cpp'' ''f'' 7 = ''[2021-05-09 12:00:30] [info] [a.cpp-f-7]''"
    unfolding t by (simp add: log_prefix_def int_to_string_def) code_simp
  then show ?thesis
    using log_bounds [of "replicate 512 (CHR 0x00)" noon "''a.cpp''" "''f''" "''hi''" 7 Warn] t
    by (simp add: printable_def)
qed

lemma length_year:
  assumes "1000 \<le> n" "n < 10000"
  shows "length (nat_to_string n) = 4"
proof -
  have "\<not> n < 10" "\<not> n div 10 < 10" "\<not> n div 10 div 10 < 10" "n div 10 div 10 div 10 < 10" using assms by linarith+
  then show ?thesis
    by (simp add: nat_to_string.simps [of n] nat_to_string.simps [of "n div 10"]
        nat_to_string.simps [of "n div 10 div 10"] nat_to_string.simps [of "n div 10 div 10 div 10"])
qed

text \<open>
  The getters of \<open>TimeTool\<close> give the numbers that the formatted time shows, but the month counts
  from 0 there and from 1 in the text.
\<close>

theorem time_getters:
  assumes "wf_tm t" "- 900 \<le> tm_year t" "tm_year t \<le> 8099"
  shows "length (GetFormatTime t) = 19 \<and>
    digits_val 0 (take 4 (GetFormatTime t)) = nat (GetYear t) \<and>
    digits_val 0 (take 2 (drop 5 (GetFormatTime t))) = nat (GetMonth t) + 1 \<and>
    digits_val 0 (take 2 (drop 8 (GetFormatTime t))) = nat (GetDay t) \<and>
    digits_val 0 (take 2 (drop 11 (GetFormatTime t))) = nat (GetHour t) \<and>
    digits_val 0 (take 2 (drop 14 (GetFormatTime t))) = nat (GetMin t) \<and>
    digits_val 0 (take 2 (drop 17 (GetFormatTime t))) = nat (GetSec t)"
proof -
  let ?y = "nat (tm_year t + 1900)"
  have y: "1000 \<le> ?y" "?y < 10000" "int_to_string (tm_year t + 1900) = nat_to_string ?y"
    using assms(2,3) by (auto simp: int_to_string_def)
  have l: "length (nat_to_string ?y) = 4"
    using length_year y(1,2) .
  have two: "digits_val 0 (two_digits i) = nat i" if "0 \<le> i" "i < 100" for i
    using that by (simp add: two_digits_def)
  have two_len: "length (two_digits i) = 2" for i by (simp add: two_digits_def)
  show ?thesis
    using assms(1) y(3) l two two_len
    by (simp add: GetFormatTime_def wf_tm_def GetYear_def GetMonth_def GetDay_def GetHour_def GetMin_def GetSec_def nat_add_distrib)
qed

theorem time_getters_witness:
  "digits_val 0 (take 2 (drop 5 (GetFormatTime noon))) = 5 \<and> GetMonth noon = 4"
  using time_getters [of noon] by (simp add: noon_def wf_tm_def GetMonth_def)

end
