(* ===== verification/Machines.thy ===== *)
theory Machines
  imports Prelude
begin

text \<open>
  What the state machines of the development share: the states reached by steps of a relation, the
  states reached by the permitted actions of a program, and the two contracts under which an
  invariant holds in all of them. The components instantiate the contracts with their own steps.
\<close>

inductive reached :: "('s \<Rightarrow> bool) \<Rightarrow> ('s \<Rightarrow> 's \<Rightarrow> bool) \<Rightarrow> 's \<Rightarrow> bool" for initial step where
  reached_initial: "initial s \<Longrightarrow> reached initial step s"
| reached_step: "reached initial step s \<Longrightarrow> step s s' \<Longrightarrow> reached initial step s'"

text \<open>\<open>acts legal act\<close> is the relation of a partial action that its caller may only use legally.\<close>

definition acts :: "('a \<Rightarrow> 's \<Rightarrow> bool) \<Rightarrow> ('a \<Rightarrow> 's \<Rightarrow> 's option) \<Rightarrow> 's \<Rightarrow> 's \<Rightarrow> bool" where
  "acts legal act s s' \<longleftrightarrow> (\<exists>a. legal a s \<and> act a s = Some s')"

locale step_system =
  fixes initial :: "'s \<Rightarrow> bool"
    and step :: "'s \<Rightarrow> 's \<Rightarrow> bool"
    and inv :: "'s \<Rightarrow> bool"
  assumes initial_inv: "initial s \<Longrightarrow> inv s"
    and step_inv: "step s s' \<Longrightarrow> inv s \<Longrightarrow> inv s'"
begin

lemma reached_inv: "reached initial step s \<Longrightarrow> inv s"
  by (induction rule: reached.induct) (auto intro: initial_inv step_inv)

end

text \<open>
  A machine whose legal actions never fail (\<open>None\<close> is the failed assertion): it is a step system,
  and every reachable state can take every action that is legal in it.
\<close>

locale machine =
  fixes initial :: "'s \<Rightarrow> bool"
    and legal :: "'a \<Rightarrow> 's \<Rightarrow> bool"
    and act :: "'a \<Rightarrow> 's \<Rightarrow> 's option"
    and inv :: "'s \<Rightarrow> bool"
  assumes initial_inv: "initial s \<Longrightarrow> inv s"
    and act_inv: "inv s \<Longrightarrow> legal a s \<Longrightarrow> \<exists>s'. act a s = Some s' \<and> inv s'"

sublocale machine \<subseteq> steps: step_system initial "acts legal act" inv
proof
  show "inv s" if "initial s" for s using initial_inv that .
  show "inv s'" if "acts legal act s s'" "inv s" for s s'
    using act_inv that unfolding acts_def by fastforce
qed

context machine
begin

lemma never_fails:
  assumes r: "reached initial (acts legal act) s" and l: "legal a s"
  shows "\<exists>s'. act a s = Some s' \<and> reached initial (acts legal act) s'"
proof -
  obtain s' where s': "act a s = Some s'" using act_inv [OF steps.reached_inv [OF r] l] by blast
  then have "acts legal act s s'" using l by (auto simp: acts_def)
  from reached_step [OF r this] show ?thesis using s' by simp
qed

end

end
