(* ===== verification/NetChannel.thy ===== *)
theory NetChannel
  imports Machines
begin

unbundle bit_operations_syntax

text \<open>
  \<open>NetServer/Channel.h\<close>, \<open>Channel.cpp\<close> and the registration part of \<open>EPoller.cpp\<close>: the
  interest set of a descriptor and the \<open>epoll_ctl\<close> calls that keep the kernel informed. The
  calls are recorded in the channel; that they succeed is the kernel's part. All of it runs in
  the loop's thread.
\<close>

section \<open>Interest\<close>

definition EPOLLIN :: "32 word" where "EPOLLIN = 0x001"
definition EPOLLPRI :: "32 word" where "EPOLLPRI = 0x002"
definition EPOLLOUT :: "32 word" where "EPOLLOUT = 0x004"
definition EPOLLERR :: "32 word" where "EPOLLERR = 0x008"
definition EPOLLHUP :: "32 word" where "EPOLLHUP = 0x010"
definition EPOLLRDHUP :: "32 word" where "EPOLLRDHUP = 0x2000"

lemmas epoll_defs = EPOLLIN_def EPOLLPRI_def EPOLLOUT_def EPOLLERR_def EPOLLHUP_def EPOLLRDHUP_def

datatype channel_state = IN | OUT

datatype epoll_op = EpollAdd "32 word" | EpollMod "32 word" | EpollDel

record Channel =
  chState :: channel_state
  events :: "32 word"
  ctl :: "epoll_op list"

definition Channel_new :: Channel where
  "Channel_new = \<lparr>chState = OUT, events = 0, ctl = []\<rparr>"

definition isNoneEvents :: "Channel \<Rightarrow> bool" where "isNoneEvents ch \<longleftrightarrow> events ch = 0"

definition isReading :: "Channel \<Rightarrow> bool" where "isReading ch \<longleftrightarrow> events ch AND EPOLLIN \<noteq> 0"

definition isWriting :: "Channel \<Rightarrow> bool" where "isWriting ch \<longleftrightarrow> events ch AND EPOLLOUT \<noteq> 0"

text \<open>\<open>Channel::update\<close>, through \<open>EventLoop::updateChannel\<close> to \<open>EPoller::updateChannel\<close>.\<close>

definition updateChannel :: "Channel \<Rightarrow> Channel option" where
  "updateChannel ch =
     (if chState ch = OUT then
        (if isNoneEvents ch then None
         else Some (ch\<lparr>chState := IN, ctl := ctl ch @ [EpollAdd (events ch)]\<rparr>))
      else if \<not> isNoneEvents ch then Some (ch\<lparr>ctl := ctl ch @ [EpollMod (events ch)]\<rparr>)
      else Some (ch\<lparr>chState := OUT, ctl := ctl ch @ [EpollDel]\<rparr>))"

definition enableRead :: "Channel \<Rightarrow> Channel option" where
  "enableRead ch = updateChannel (ch\<lparr>events := events ch OR (EPOLLIN OR EPOLLPRI)\<rparr>)"

definition enableWrite :: "Channel \<Rightarrow> Channel option" where
  "enableWrite ch = updateChannel (ch\<lparr>events := events ch OR EPOLLOUT\<rparr>)"

definition disableRead :: "Channel \<Rightarrow> Channel option" where
  "disableRead ch = updateChannel (ch\<lparr>events := events ch AND NOT EPOLLIN\<rparr>)"

definition disableWrite :: "Channel \<Rightarrow> Channel option" where
  "disableWrite ch = updateChannel (ch\<lparr>events := events ch AND NOT EPOLLOUT\<rparr>)"

definition disableAll :: "Channel \<Rightarrow> Channel option" where
  "disableAll ch = updateChannel (ch\<lparr>events := 0\<rparr>)"

text \<open>\<open>EventLoop::removeChannel\<close>.\<close>

definition removeChannel :: "Channel \<Rightarrow> Channel option" where
  "removeChannel ch = disableAll ch"

section \<open>Dispatch\<close>

text \<open>
  \<open>handleEventsWithGuard\<close>: which callbacks are called for the events that \<open>epoll_wait\<close>
  reported, in order (all four callbacks set, as \<open>TcpConnection\<close> does).
\<close>

datatype channel_callback = CloseCallback | ErrorCallback | ReadCallback | WriteCallback

definition handleEventsWithGuard :: "32 word \<Rightarrow> channel_callback list" where
  "handleEventsWithGuard revents =
     (if revents AND EPOLLHUP \<noteq> 0 \<and> revents AND EPOLLIN = 0 then [CloseCallback] else [])
     @ (if revents AND EPOLLERR \<noteq> 0 then [ErrorCallback] else [])
     @ (if revents AND (EPOLLIN OR EPOLLPRI OR EPOLLRDHUP) \<noteq> 0 then [ReadCallback] else [])
     @ (if revents AND EPOLLOUT \<noteq> 0 then [WriteCallback] else [])"

text \<open>
  \<open>EPoller::poll\<close>: the channels that \<open>epoll_wait\<close> reported (\<open>None\<close> if it failed) and the new
  size of the array of events, which doubles when it was full.
\<close>

definition poller_poll ::
    "(nat \<times> 32 word) list option \<Rightarrow> nat \<Rightarrow> (nat \<times> 32 word) list \<times> nat" where
  "poller_poll r maxEvents =
     (case r of
        None \<Rightarrow> ([], maxEvents)
      | Some evs \<Rightarrow> (evs, if evs \<noteq> [] \<and> length evs = maxEvents then 2 * maxEvents else maxEvents))"

lemma poller_poll_room:
  assumes "0 < maxEvents" "\<And>evs. r = Some evs \<Longrightarrow> length evs \<le> maxEvents"
  shows "length (fst (poller_poll r maxEvents)) < snd (poller_poll r maxEvents)"
  using assms by (auto simp: poller_poll_def le_less split: option.split)

section \<open>Life of a channel\<close>

datatype channel_call = CEnableRead | CEnableWrite | CDisableRead | CDisableWrite | CDisableAll | CRemove

fun channel_step :: "channel_call \<Rightarrow> Channel \<Rightarrow> Channel option" where
  "channel_step CEnableRead = enableRead"
| "channel_step CEnableWrite = enableWrite"
| "channel_step CDisableRead = disableRead"
| "channel_step CDisableWrite = disableWrite"
| "channel_step CDisableAll = disableAll"
| "channel_step CRemove = removeChannel"

text \<open>The states that a sequence of calls on a new channel leads to.\<close>

definition channel_reach :: "Channel \<Rightarrow> bool" where
  "channel_reach = reached (\<lambda>ch. ch = Channel_new) (acts (\<lambda>c ch. True) channel_step)"

lemma chan_new: "channel_reach Channel_new"
  by (simp add: channel_reach_def reached_initial)

lemma chan_call: "channel_reach ch \<Longrightarrow> channel_step c ch = Some ch' \<Longrightarrow> channel_reach ch'"
  unfolding channel_reach_def by (erule reached_step) (auto simp: acts_def)

text \<open>
  The registration that a sequence of \<open>epoll_ctl\<close> calls describes: adding a registered
  descriptor (\<open>EEXIST\<close>) and changing or removing an unregistered one (\<open>ENOENT\<close>) are
  errors, which the code would only log.
\<close>

fun epoll_ctl :: "epoll_op \<Rightarrow> 32 word option \<Rightarrow> 32 word option option" where
  "epoll_ctl (EpollAdd e) None = Some (Some e)"
| "epoll_ctl (EpollAdd e) (Some _) = None"
| "epoll_ctl (EpollMod e) (Some _) = Some (Some e)"
| "epoll_ctl (EpollMod e) None = None"
| "epoll_ctl EpollDel (Some _) = Some None"
| "epoll_ctl EpollDel None = None"

fun registration :: "epoll_op list \<Rightarrow> 32 word option \<Rightarrow> 32 word option option" where
  "registration [] r = Some r"
| "registration (c # cs) r = Option.bind (epoll_ctl c r) (registration cs)"

definition channel_registration :: "Channel \<Rightarrow> 32 word option" where
  "channel_registration ch = (if events ch = 0 then None else Some (events ch))"

definition channel_ok :: "Channel \<Rightarrow> bool" where
  "channel_ok ch \<longleftrightarrow> registration (ctl ch) None = Some (channel_registration ch) \<and>
     (chState ch = OUT \<longleftrightarrow> events ch = 0)"

section \<open>Facts\<close>

lemma not_OUT_iff [simp]: "s \<noteq> OUT \<longleftrightarrow> s = IN"
  by (cases s) simp_all

lemma and_bit_iff:
  "w AND EPOLLIN \<noteq> 0 \<longleftrightarrow> bit w 0" "w AND EPOLLOUT \<noteq> 0 \<longleftrightarrow> bit w 2" for w :: "32 word"
  using and_exp_eq_0_iff_not_bit [of w 0] and_exp_eq_0_iff_not_bit [of w 2]
  by (simp_all add: epoll_defs)

lemmas interest_iff = isReading_def [unfolded and_bit_iff] isWriting_def [unfolded and_bit_iff]

lemma bit_epoll:
  "bit EPOLLIN n \<longleftrightarrow> n = 0" "bit EPOLLPRI n \<longleftrightarrow> n = 1" "bit EPOLLOUT n \<longleftrightarrow> n = 2"
proof -
  have *: "bit (2 ^ k :: 32 word) n \<longleftrightarrow> n = k" if "k < 32" for k
    using that by (auto simp: bit_exp_iff)
  have pow: "EPOLLIN = 2 ^ 0" "EPOLLPRI = 2 ^ 1" "EPOLLOUT = 2 ^ 2" by (simp_all add: epoll_defs)
  show "bit EPOLLIN n \<longleftrightarrow> n = 0" "bit EPOLLPRI n \<longleftrightarrow> n = 1" "bit EPOLLOUT n \<longleftrightarrow> n = 2"
    unfolding pow by (rule *, simp)+
qed

lemma updateChannel_events: "updateChannel ch = Some ch' \<Longrightarrow> events ch' = events ch"
  by (auto simp: updateChannel_def split: if_splits)

lemma updateChannel_chState:
  "updateChannel ch = Some ch' \<Longrightarrow> chState ch' = (if events ch = 0 then OUT else IN)"
  by (auto simp: updateChannel_def isNoneEvents_def split: if_splits)

lemma updateChannel_Some: "events ch \<noteq> 0 \<Longrightarrow> \<exists>ch'. updateChannel ch = Some ch'"
  by (auto simp: updateChannel_def isNoneEvents_def)

lemmas channel_op_defs = enableRead_def enableWrite_def disableRead_def disableWrite_def
  disableAll_def removeChannel_def

lemma reading_writing:
  "enableRead ch = Some ch' \<Longrightarrow> isReading ch' \<and> isWriting ch' = isWriting ch"
  "enableWrite ch = Some ch' \<Longrightarrow> isWriting ch' \<and> isReading ch' = isReading ch"
  "disableRead ch = Some ch' \<Longrightarrow> \<not> isReading ch' \<and> isWriting ch' = isWriting ch"
  "disableWrite ch = Some ch' \<Longrightarrow> \<not> isWriting ch' \<and> isReading ch' = isReading ch"
  "disableAll ch = Some ch' \<Longrightarrow> \<not> isWriting ch' \<and> \<not> isReading ch'"
  by (auto simp: interest_iff channel_op_defs bit_epoll bit_or_iff bit_and_iff bit_not_iff
      dest!: updateChannel_events)

lemma events_nonzero: "bit w n \<Longrightarrow> w \<noteq> 0" for w :: "32 word"
  by auto

lemma enable_Some:
  "\<exists>ch'. enableRead ch = Some ch'" "\<exists>ch'. enableWrite ch = Some ch'"
proof -
  have "events ch OR (EPOLLIN OR EPOLLPRI) \<noteq> 0" "events ch OR EPOLLOUT \<noteq> 0"
    by (rule events_nonzero [of _ 0], simp add: bit_or_iff bit_epoll)
      (rule events_nonzero [of _ 2], simp add: bit_or_iff bit_epoll)
  then show "\<exists>ch'. enableRead ch = Some ch'" "\<exists>ch'. enableWrite ch = Some ch'"
    by (simp_all add: channel_op_defs updateChannel_Some)
qed

lemma registration_snoc:
  "registration (cs @ [c]) r = Option.bind (registration cs r) (epoll_ctl c)"
  by (induction cs arbitrary: r) (simp_all split: Option.bind_split)

lemma channel_step_update:
  "\<exists>w. channel_step c ch = updateChannel (ch\<lparr>events := w\<rparr>)"
  by (cases c) (auto simp: channel_op_defs)

lemma updateChannel_ok:
  assumes "channel_ok ch" and "updateChannel (ch\<lparr>events := w\<rparr>) = Some ch'"
  shows "channel_ok ch'"
  using assms by (auto simp: updateChannel_def isNoneEvents_def channel_ok_def
      channel_registration_def registration_snoc split: if_splits)

lemma channel_step_ok: "channel_ok ch \<Longrightarrow> channel_step c ch = Some ch' \<Longrightarrow> channel_ok ch'"
  using channel_step_update [of c ch] updateChannel_ok by metis

interpretation chan: step_system "\<lambda>ch. ch = Channel_new" "acts (\<lambda>c ch. True) channel_step" channel_ok
proof
  show "channel_ok ch" if "ch = Channel_new" for ch
    by (simp add: that channel_ok_def Channel_new_def channel_registration_def)
  show "channel_ok ch'" if "acts (\<lambda>c ch. True) channel_step ch ch'" "channel_ok ch" for ch ch'
    using that channel_step_ok by (auto simp: acts_def)
qed

lemma channel_reach_ok: "channel_reach ch \<Longrightarrow> channel_ok ch"
  unfolding channel_reach_def by (rule chan.reached_inv)

section \<open>Properties\<close>

text \<open>
  C25: whatever sequence of calls leads to a channel, every \<open>epoll_ctl\<close> it made was
  legitimate (no descriptor is added twice, changed or deleted while it is not registered), and
  the kernel's registration is the channel's interest set.
\<close>

theorem registration_tracks_interest:
  assumes "channel_reach ch"
  shows "registration (ctl ch) None = Some (channel_registration ch)"
  using channel_reach_ok [OF assms] by (simp add: channel_ok_def)

theorem registration_tracks_interest_witness:
  "\<exists>ch. channel_step CEnableRead Channel_new = Some ch \<and>
     registration (ctl ch) None = Some (channel_registration ch)"
proof -
  obtain ch where ch: "channel_step CEnableRead Channel_new = Some ch"
    using enable_Some by auto
  then have "channel_reach ch" by (rule chan_call [OF chan_new])
  then show ?thesis using ch registration_tracks_interest [of ch] by blast
qed

text \<open>
  Removing a channel or disabling its last interest succeeds exactly when it is registered;
  on a channel that is not, the assertion in \<open>EPoller::updateChannel\<close> aborts, so that a
  channel may not be removed twice.
\<close>

theorem remove_needs_registration:
  assumes "channel_reach ch"
  shows "(removeChannel ch = None \<longleftrightarrow> channel_registration ch = None) \<and>
    Option.bind (removeChannel ch) removeChannel = None"
  using channel_reach_ok [OF assms]
  by (auto simp: channel_ok_def channel_registration_def channel_op_defs updateChannel_def
      isNoneEvents_def)

theorem remove_needs_registration_witness:
  "removeChannel Channel_new = None \<and> channel_registration Channel_new = None"
  using remove_needs_registration [OF chan_new]
  by (simp add: channel_registration_def Channel_new_def)

end
