(* ===== verification/NetDispatch.thy ===== *)
theory NetDispatch
  imports NetChannel
begin

text \<open>
  \<open>NetServer/Channel.cpp\<close>, \<open>handleEvents\<close> with its \<open>tie\<close>: the callbacks of a channel, which may
  change the channel and take or drop shared pointers to the object that the channel is a member
  of. The destructors and the use of a destroyed channel are in the model: \<open>None\<close> is a failed
  assertion or an access to a destroyed object.
\<close>

section \<open>A channel and its owner\<close>

datatype handler_call = OnChannel channel_call | TakeShared | DropShared

text \<open>\<open>tie_\<close> points to the owner when \<open>tied_\<close> is set.\<close>

record 'cb TiedChannel =
  inner :: Channel
  revents :: "32 word"
  tied :: bool
  handlingEvents :: bool
  readCallback :: "'cb option"
  writeCallback :: "'cb option"
  closeCallback :: "'cb option"
  errorCallback :: "'cb option"

definition TiedChannel_new :: "'cb TiedChannel" where
  "TiedChannel_new = \<lparr>inner = Channel_new, revents = 0, tied = False, handlingEvents = False,
     readCallback = None, writeCallback = None, closeCallback = None, errorCallback = None\<rparr>"

definition setReadCallback :: "'cb option \<Rightarrow> 'cb TiedChannel \<Rightarrow> 'cb TiedChannel" where
  "setReadCallback cb ch = ch\<lparr>readCallback := cb\<rparr>"

definition setWriteCallback :: "'cb option \<Rightarrow> 'cb TiedChannel \<Rightarrow> 'cb TiedChannel" where
  "setWriteCallback cb ch = ch\<lparr>writeCallback := cb\<rparr>"

definition setCloseCallback :: "'cb option \<Rightarrow> 'cb TiedChannel \<Rightarrow> 'cb TiedChannel" where
  "setCloseCallback cb ch = ch\<lparr>closeCallback := cb\<rparr>"

definition setErrorCallback :: "'cb option \<Rightarrow> 'cb TiedChannel \<Rightarrow> 'cb TiedChannel" where
  "setErrorCallback cb ch = ch\<lparr>errorCallback := cb\<rparr>"

definition setRevents :: "32 word \<Rightarrow> 'cb TiedChannel \<Rightarrow> 'cb TiedChannel" where
  "setRevents r ch = ch\<lparr>revents := r\<rparr>"

definition tie :: "'cb TiedChannel \<Rightarrow> 'cb TiedChannel" where
  "tie ch = ch\<lparr>tied := True\<rparr>"

text \<open>
  The owner: \<open>useCount\<close> shared pointers besides the guard of \<open>handleEvents\<close>, which is there when
  \<open>guarded\<close> is set; \<open>called\<close> records the callbacks.
\<close>

record 'cb Owner =
  channel :: "'cb TiedChannel"
  useCount :: nat
  guarded :: bool
  live :: bool
  called :: "channel_callback list"

text \<open>Without a pointer the owner is destroyed, and \<open>~Channel\<close> asserts that no event is handled.\<close>

definition Channel_destroy :: "'cb TiedChannel \<Rightarrow> bool" where
  "Channel_destroy ch \<longleftrightarrow> \<not> handlingEvents ch"

definition drop_owner :: "'cb Owner \<Rightarrow> 'cb Owner option" where
  "drop_owner w = (if useCount w = 0 \<and> \<not> guarded w
     then if Channel_destroy (channel w) then Some (w\<lparr>live := False\<rparr>) else None
     else Some w)"

definition on_inner :: "Channel \<Rightarrow> 'cb Owner \<Rightarrow> 'cb Owner" where
  "on_inner c w = w\<lparr>channel := (channel w)\<lparr>inner := c\<rparr>\<rparr>"

fun handler_do :: "handler_call \<Rightarrow> 'cb Owner \<Rightarrow> 'cb Owner option" where
  "handler_do (OnChannel c) w =
     (if live w then map_option (\<lambda>ch. on_inner ch w) (channel_step c (inner (channel w))) else None)"
| "handler_do TakeShared w = (if live w then Some (w\<lparr>useCount := Suc (useCount w)\<rparr>) else None)"
| "handler_do DropShared w =
     (if useCount w = 0 then None else drop_owner (w\<lparr>useCount := useCount w - 1\<rparr>))"

fun handler_run :: "handler_call list \<Rightarrow> 'cb Owner \<Rightarrow> 'cb Owner option" where
  "handler_run [] w = Some w"
| "handler_run (c # cs) w = Option.bind (handler_do c w) (handler_run cs)"

section \<open>handleEvents\<close>

text \<open>One \<open>if\<close> of \<open>handleEventsWithGuard\<close>; it reads the members of the channel.\<close>

fun handler_of :: "channel_callback \<Rightarrow> 'cb TiedChannel \<Rightarrow> 'cb option" where
  "handler_of CloseCallback ch = closeCallback ch"
| "handler_of ErrorCallback ch = errorCallback ch"
| "handler_of ReadCallback ch = readCallback ch"
| "handler_of WriteCallback ch = writeCallback ch"

fun wanted :: "channel_callback \<Rightarrow> 32 word \<Rightarrow> bool" where
  "wanted CloseCallback r = (r AND EPOLLHUP \<noteq> 0 \<and> r AND EPOLLIN = 0)"
| "wanted ErrorCallback r = (r AND EPOLLERR \<noteq> 0)"
| "wanted ReadCallback r = (r AND (EPOLLIN OR EPOLLPRI OR EPOLLRDHUP) \<noteq> 0)"
| "wanted WriteCallback r = (r AND EPOLLOUT \<noteq> 0)"

definition call_back :: "('cb \<Rightarrow> handler_call list) \<Rightarrow> channel_callback \<Rightarrow> 'cb Owner \<Rightarrow> 'cb Owner option" where
  "call_back act k w =
     (if \<not> live w then None
      else if wanted k (revents (channel w)) then
        (case handler_of k (channel w) of
           None \<Rightarrow> Some w
         | Some cb \<Rightarrow> handler_run (act cb) (w\<lparr>called := called w @ [k]\<rparr>))
      else Some w)"

fun call_backs :: "('cb \<Rightarrow> handler_call list) \<Rightarrow> channel_callback list \<Rightarrow> 'cb Owner \<Rightarrow> 'cb Owner option" where
  "call_backs act [] w = Some w"
| "call_backs act (k # ks) w = Option.bind (call_back act k w) (call_backs act ks)"

definition callback_order :: "channel_callback list" where
  "callback_order = [CloseCallback, ErrorCallback, ReadCallback, WriteCallback]"

definition set_handling :: "bool \<Rightarrow> 'cb Owner \<Rightarrow> 'cb Owner option" where
  "set_handling b w = (if live w then Some (w\<lparr>channel := (channel w)\<lparr>handlingEvents := b\<rparr>\<rparr>) else None)"

definition withGuard :: "('cb \<Rightarrow> handler_call list) \<Rightarrow> 'cb Owner \<Rightarrow> 'cb Owner option" where
  "withGuard act w =
     Option.bind (set_handling True w) (\<lambda>w1.
       Option.bind (call_backs act callback_order w1) (set_handling False))"

definition handleEvents :: "bool \<Rightarrow> ('cb \<Rightarrow> handler_call list) \<Rightarrow> 'cb Owner \<Rightarrow> 'cb Owner option" where
  "handleEvents inLoop act w =
     (if \<not> inLoop \<or> \<not> live w then None
      else if tied (channel w) then
        if useCount w = 0 then Some w
        else Option.bind (withGuard act (w\<lparr>guarded := True\<rparr>)) (\<lambda>w1. drop_owner (w1\<lparr>guarded := False\<rparr>))
      else withGuard act w)"

section \<open>What the handlers ask for\<close>

text \<open>
  The calls on the registration and the count alone, with an owner that cannot go away: a call fails
  only if the handlers drop a pointer they do not have, or the channel refuses an update.
\<close>

fun asked :: "handler_call list \<Rightarrow> Channel \<times> nat \<Rightarrow> (Channel \<times> nat) option" where
  "asked [] s = Some s"
| "asked (OnChannel c # cs) (ch, n) = Option.bind (channel_step c ch) (\<lambda>ch'. asked cs (ch', n))"
| "asked (TakeShared # cs) (ch, n) = asked cs (ch, Suc n)"
| "asked (DropShared # cs) (ch, n) = (case n of 0 \<Rightarrow> None | Suc m \<Rightarrow> asked cs (ch, m))"

lemma asked_append: "asked (xs @ ys) s = Option.bind (asked xs s) (asked ys)"
  by (induction xs s rule: asked.induct) (auto split: nat.splits Option.bind_splits)

text \<open>The callbacks that an event calls.\<close>

definition calls_of :: "'cb TiedChannel \<Rightarrow> channel_callback list" where
  "calls_of ch = filter (\<lambda>k. handler_of k ch \<noteq> None) (handleEventsWithGuard (revents ch))"

definition work_of :: "('cb \<Rightarrow> handler_call list) \<Rightarrow> channel_callback list \<Rightarrow> 'cb TiedChannel \<Rightarrow> handler_call list" where
  "work_of act ks ch = concat (map (\<lambda>k. act (the (handler_of k ch))) ks)"

text \<open>An owner after some calls, while the guard holds it.\<close>

definition after :: "'cb Owner \<Rightarrow> channel_callback list \<Rightarrow> Channel \<times> nat \<Rightarrow> 'cb Owner" where
  "after w ks s = (on_inner (fst s) w)\<lparr>useCount := snd s, called := called w @ ks\<rparr>"

lemma after_fields [simp]:
  "live (after w ks s) = live w" "guarded (after w ks s) = guarded w" "called (after w ks s) = called w @ ks"
  "useCount (after w ks s) = snd s" "inner (channel (after w ks s)) = fst s"
  "revents (channel (after w ks s)) = revents (channel w)"
  "handler_of k (channel (after w ks s)) = handler_of k (channel w)"
  by (cases k; simp add: after_def on_inner_def)+

lemma after_after: "after (after w ks s) ks' s' = after w (ks @ ks') s'"
  by (simp add: after_def on_inner_def)

lemma after_start: "after w [] (inner (channel w), useCount w) = w"
  by (simp add: after_def on_inner_def)

lemma after_moves:
  "on_inner c (after w ks (ch, n)) = after w ks (c, n)"
  "(after w ks (ch, n))\<lparr>useCount := m\<rparr> = after w ks (ch, m)"
  "(after w ks s)\<lparr>called := called w @ ks @ [k]\<rparr> = after w (ks @ [k]) s"
  by (cases w, simp add: after_def on_inner_def)+

lemma handler_guarded:
  "live w \<Longrightarrow> guarded w \<Longrightarrow>
     handler_run cs (after w ks s) = map_option (after w ks) (asked cs s)"
proof (induction cs s rule: asked.induct)
  case (2 c cs ch n)
  then show ?case by (cases "channel_step c ch") (simp_all add: after_moves)
next
  case (4 cs ch n)
  then show ?case by (cases n) (simp_all add: after_moves drop_owner_def)
qed (simp_all add: after_moves)

lemma call_back_guarded:
  assumes "live w" "guarded w"
  shows "call_back act k (after w ks s) =
    (if wanted k (revents (channel w)) \<and> handler_of k (channel w) \<noteq> None
     then map_option (after w (ks @ [k])) (asked (act (the (handler_of k (channel w)))) s)
     else Some (after w ks s))"
  using assms handler_guarded [OF assms] by (cases s) (auto simp: call_back_def after_moves)

lemma call_backs_guarded:
  assumes "live w" "guarded w"
  shows "call_backs act ks (after w js s) =
    (let ks' = filter (\<lambda>k. wanted k (revents (channel w)) \<and> handler_of k (channel w) \<noteq> None) ks
     in map_option (after w (js @ ks')) (asked (work_of act ks' (channel w)) s))"
proof (induction ks arbitrary: js s)
  case (Cons k ks)
  show ?case
  proof (cases "wanted k (revents (channel w)) \<and> handler_of k (channel w) \<noteq> None")
    case True
    then show ?thesis
      by (cases "asked (act (the (handler_of k (channel w)))) s")
        (simp_all add: call_back_guarded [OF assms] Cons.IH work_of_def asked_append Let_def)
  next
    case False
    then show ?thesis by (auto simp: call_back_guarded [OF assms] Cons.IH Let_def)
  qed
qed (simp add: work_of_def)

lemma filter_wanted:
  "filter (\<lambda>k. wanted k (revents ch) \<and> handler_of k ch \<noteq> None) callback_order =
     calls_of ch"
  by (simp add: calls_of_def handleEventsWithGuard_def callback_order_def)

section \<open>Properties\<close>

text \<open>The state of an owner between two events.\<close>

definition at_rest :: "'cb Owner \<Rightarrow> bool" where
  "at_rest w \<longleftrightarrow> live w \<and> 0 < useCount w \<and> \<not> guarded w \<and> \<not> handlingEvents (channel w)"

text \<open>
  C18: on a tied channel the guard keeps the owner alive: every callback of the event runs, in its
  order, on a live owner, whatever pointers the callbacks drop; the owner is destroyed after the last
  of them, if no pointer is left, and then \<open>~Channel\<close> finds that no event is being handled.
\<close>

theorem tied_dispatch:
  assumes w: "at_rest w" "tied (channel w)"
  shows "handleEvents True act w =
    map_option (\<lambda>(ch, n). (after w (calls_of (channel w)) (ch, n))\<lparr>live := 0 < n\<rparr>)
      (asked (work_of act (calls_of (channel w)) (channel w)) (inner (channel w), useCount w))"
proof -
  let ?w = "w\<lparr>guarded := True, channel := (channel w)\<lparr>handlingEvents := True\<rparr>\<rparr>"
  let ?s = "(inner (channel w), useCount w)" and ?ks = "calls_of (channel w)"
  have live: "live w" "0 < useCount w" "\<not> guarded w" "\<not> handlingEvents (channel w)"
    using w(1) by (simp_all add: at_rest_def)
  have cb: "handler_of k ((channel w)\<lparr>handlingEvents := True\<rparr>) = handler_of k (channel w)" for k by (cases k) simp_all
  have same: "calls_of (channel ?w) = ?ks" "work_of act ks (channel ?w) = work_of act ks (channel w)" for ks
    by (simp_all add: calls_of_def work_of_def cb)
  have run: "call_backs act callback_order ?w =
      map_option (after ?w ?ks) (asked (work_of act ?ks (channel w)) ?s)"
    using call_backs_guarded [of ?w act "callback_order" "[]" ?s]
      filter_wanted [of "channel ?w"] same live after_start [of ?w] by (simp only: Let_def) simp
  have begins: "set_handling True (w\<lparr>guarded := True\<rparr>) = Some ?w" using live by (simp add: set_handling_def)
  have ends: "Option.bind (set_handling False (after ?w ?ks (ch, n))) (\<lambda>w1. drop_owner (w1\<lparr>guarded := False\<rparr>)) =
      Some ((after w ?ks (ch, n))\<lparr>live := 0 < n\<rparr>)" for ch n
    using live by (cases w, cases "channel w")
      (auto simp: set_handling_def after_def on_inner_def drop_owner_def Channel_destroy_def)
  have "handleEvents True act w = Option.bind (Option.bind (call_backs act callback_order ?w) (set_handling False))
      (\<lambda>w1. drop_owner (w1\<lparr>guarded := False\<rparr>))"
    using w(2) live begins by (simp add: handleEvents_def withGuard_def)
  then show ?thesis
    unfolding run by (cases "asked (work_of act ?ks (channel w)) ?s") (use ends in auto)
qed

text \<open>A connection whose read callback drops the last pointer while its write callback waits.\<close>

definition closing_owner :: "string Owner" where
  "closing_owner = \<lparr>channel = tie (setRevents (EPOLLIN OR EPOLLOUT) (setReadCallback (Some ''read'')
       (setWriteCallback (Some ''write'') (setCloseCallback (Some ''close'') TiedChannel_new)))),
     useCount = 1, guarded = False, live = True, called = []\<rparr>"

definition dropping :: "string \<Rightarrow> handler_call list" where
  "dropping cb = (if cb = ''read'' then [DropShared] else [])"

lemma closing_calls: "calls_of (channel closing_owner) = [ReadCallback, WriteCallback]"
  by (simp add: calls_of_def closing_owner_def tie_def setRevents_def setReadCallback_def setWriteCallback_def
      setCloseCallback_def TiedChannel_new_def handleEventsWithGuard_def epoll_defs)

theorem tied_dispatch_witness:
  "\<exists>w. handleEvents True dropping closing_owner = Some w \<and> called w = [ReadCallback, WriteCallback] \<and> \<not> live w"
proof -
  have a: "at_rest closing_owner" "tied (channel closing_owner)"
    by (simp_all add: at_rest_def closing_owner_def tie_def setRevents_def setReadCallback_def setWriteCallback_def
        setCloseCallback_def TiedChannel_new_def)
  have "work_of dropping [ReadCallback, WriteCallback] (channel closing_owner) = [DropShared]"
    by (simp add: work_of_def dropping_def closing_owner_def tie_def setRevents_def setReadCallback_def
        setWriteCallback_def setCloseCallback_def)
  then show ?thesis
    using tied_dispatch [OF a, of dropping] closing_calls by (simp add: closing_owner_def)
qed

text \<open>
  Without the tie, a callback that drops the last pointer to the owner destroys the channel that
  is handling its event: \<open>~Channel\<close> aborts.
\<close>

theorem untied_dispatch_aborts:
  assumes w: "at_rest w" "\<not> tied (channel w)" "useCount w = 1"
    and k: "calls_of (channel w) = k # ks" "handler_of k (channel w) = Some cb" "act cb = [DropShared]"
  shows "handleEvents True act w = None"
proof -
  let ?w = "w\<lparr>channel := (channel w)\<lparr>handlingEvents := True\<rparr>\<rparr>"
  have live: "live w" "\<not> guarded w" using w(1) by (simp_all add: at_rest_def)
  have cb: "handler_of j ((channel w)\<lparr>handlingEvents := b\<rparr>) = handler_of j (channel w)" for j b by (cases j) simp_all
  have gone: "call_backs act js ?w = None"
    if "filter (\<lambda>j. wanted j (revents (channel w)) \<and> handler_of j (channel w) \<noteq> None) js = k # ks'" for js ks'
    using that
  proof (induction js)
    case (Cons j js)
    show ?case
    proof (cases "wanted j (revents (channel w)) \<and> handler_of j (channel w) \<noteq> None")
      case True
      then have "j = k" using Cons.prems by simp
      then show ?thesis
        using True k w(3) live by (simp add: call_back_def cb drop_owner_def Channel_destroy_def)
    next
      case False
      then have "call_back act j ?w = Some ?w" using live by (auto simp: call_back_def cb)
      then show ?thesis using Cons False by auto
    qed
  qed simp
  have "call_backs act callback_order ?w = None"
    using gone filter_wanted [of "channel w"] k(1) by simp
  then show ?thesis using w(2) live by (simp add: handleEvents_def withGuard_def set_handling_def)
qed

theorem untied_dispatch_aborts_witness:
  "handleEvents True dropping (closing_owner\<lparr>channel := (channel closing_owner)\<lparr>tied := False\<rparr>\<rparr>) = None"
proof -
  let ?w = "closing_owner\<lparr>channel := (channel closing_owner)\<lparr>tied := False\<rparr>\<rparr>"
  have "calls_of (channel ?w) = [ReadCallback, WriteCallback]"
    by (simp add: calls_of_def closing_owner_def tie_def setRevents_def setReadCallback_def setWriteCallback_def
        setCloseCallback_def TiedChannel_new_def handleEventsWithGuard_def epoll_defs)
  then show ?thesis
    by (intro untied_dispatch_aborts [where k = ReadCallback and ks = "[WriteCallback]" and cb = "''read''"])
      (simp_all add: at_rest_def closing_owner_def tie_def setRevents_def setReadCallback_def setWriteCallback_def
        setCloseCallback_def TiedChannel_new_def dropping_def)
qed

end
