(* ===== verification/NetBuffer.thy ===== *)
theory NetBuffer
  imports Prelude
begin

text \<open>
  The byte buffer of \<open>NetServer/Buffer.h\<close> and \<open>Buffer.cpp\<close>: a vector with a
  prependable, a readable and a writable zone. Every operation is a function on the record of
  the three members (\<open>buffer_\<close>, \<open>readerIndex_\<close>, \<open>writerIndex_\<close>); \<open>None\<close> is a failed \<open>assert\<close> (or a copy out of bounds). The
  contract that the RPC layer uses is the locale \<open>byte_queue\<close>, interpreted at the end on
  these operations. \<open>size_t\<close> is \<open>nat\<close>: under the invariant no sum of sizes comes near
  \<open>2 ^ 64\<close>, except in \<open>readFd\<close>, where the conversion of \<open>-1\<close> is written out.
\<close>

section \<open>The state and its zones\<close>

record Buffer =
  bytes :: string
  readerIndex :: nat
  writerIndex :: nat

definition kCheapPrepend :: nat where "kCheapPrepend = 8"

definition kInitialSize :: nat where "kInitialSize = 1024"

definition KCRLF :: string where "KCRLF = [CHR 0x0D, CHR 0x0A]"

definition Buffer_new :: "nat \<Rightarrow> Buffer" where
  "Buffer_new initialSize =
     \<lparr>bytes = replicate (kCheapPrepend + initialSize) (CHR 0x00),
      readerIndex = kCheapPrepend, writerIndex = kCheapPrepend\<rparr>"

definition buffer_swap :: "Buffer \<times> Buffer \<Rightarrow> Buffer \<times> Buffer" where
  "buffer_swap = (\<lambda>(this, rhs).
     (this\<lparr>bytes := bytes rhs, readerIndex := readerIndex rhs,
            writerIndex := writerIndex rhs\<rparr>,
      rhs\<lparr>bytes := bytes this, readerIndex := readerIndex this,
           writerIndex := writerIndex this\<rparr>))"

definition readableBytes :: "Buffer \<Rightarrow> nat" where
  "readableBytes b = writerIndex b - readerIndex b"

definition writableBytes :: "Buffer \<Rightarrow> nat" where
  "writableBytes b = length (bytes b) - writerIndex b"

definition prependableBytes :: "Buffer \<Rightarrow> nat" where
  "prependableBytes b = readerIndex b"

text \<open>The bytes from \<open>peek()\<close> to \<open>beginWrite()\<close>.\<close>

definition readable :: "Buffer \<Rightarrow> string" where
  "readable b = take (readableBytes b) (drop (readerIndex b) (bytes b))"

definition buffer_inv :: "Buffer \<Rightarrow> bool" where
  "buffer_inv b \<longleftrightarrow> readerIndex b \<le> writerIndex b \<and> writerIndex b \<le> length (bytes b)
     \<and> kCheapPrepend \<le> length (bytes b)"

section \<open>Searching\<close>

text \<open>
  Pointers into the readable zone are offsets from \<open>peek()\<close>; \<open>None\<close> is \<open>nullptr\<close>.
  The overloads with a start pointer return the outer \<open>None\<close> when an \<open>assert\<close> on the
  pointer fails.
\<close>

definition findCRLF :: "Buffer \<Rightarrow> nat option" where
  "findCRLF b =
     (let crlf = std_search KCRLF (readable b)
      in if crlf = readableBytes b then None else Some crlf)"

definition findCRLF_from :: "Buffer \<Rightarrow> nat \<Rightarrow> nat option option" where
  "findCRLF_from b start =
     (if start \<le> readableBytes b
      then (let crlf = start + std_search KCRLF (drop start (readable b))
            in Some (if crlf = readableBytes b then None else Some crlf))
      else None)"

definition memchr :: "char \<Rightarrow> string \<Rightarrow> nat option" where
  "memchr c s = str_find [c] s"

definition findEOL :: "Buffer \<Rightarrow> nat option" where
  "findEOL b = memchr (CHR 0x0A) (readable b)"

definition findEOL_from :: "Buffer \<Rightarrow> nat \<Rightarrow> nat option option" where
  "findEOL_from b start =
     (if start \<le> readableBytes b
      then Some (map_option ((+) start) (memchr (CHR 0x0A) (drop start (readable b))))
      else None)"

section \<open>Consuming\<close>

definition retrieveAll :: "Buffer \<Rightarrow> Buffer" where
  "retrieveAll b = b\<lparr>readerIndex := kCheapPrepend, writerIndex := kCheapPrepend\<rparr>"

definition retrieve :: "Buffer \<Rightarrow> nat \<Rightarrow> Buffer option" where
  "retrieve b len =
     (if len \<le> readableBytes b
      then Some (if len < readableBytes b
                 then b\<lparr>readerIndex := readerIndex b + len\<rparr>
                 else retrieveAll b)
      else None)"

definition retrieveUtil :: "Buffer \<Rightarrow> nat \<Rightarrow> Buffer option" where
  "retrieveUtil b end = (if end \<le> readableBytes b then retrieve b end else None)"

definition retrieveInt64 :: "Buffer \<Rightarrow> Buffer option" where
  "retrieveInt64 b = retrieve b 8"

definition retrieveInt32 :: "Buffer \<Rightarrow> Buffer option" where
  "retrieveInt32 b = retrieve b 4"

definition retrieveInt16 :: "Buffer \<Rightarrow> Buffer option" where
  "retrieveInt16 b = retrieve b 2"

definition retrieveInt8 :: "Buffer \<Rightarrow> Buffer option" where
  "retrieveInt8 b = retrieve b 1"

definition retrieveAsString :: "Buffer \<Rightarrow> nat \<Rightarrow> (string \<times> Buffer) option" where
  "retrieveAsString b len =
     (if len \<le> readableBytes b
      then map_option (Pair (take len (readable b))) (retrieve b len)
      else None)"

definition retrieveAllAsString :: "Buffer \<Rightarrow> (string \<times> Buffer) option" where
  "retrieveAllAsString b = retrieveAsString b (readableBytes b)"

section \<open>Producing\<close>

definition makeSpace :: "Buffer \<Rightarrow> nat \<Rightarrow> Buffer option" where
  "makeSpace b len =
     (if writableBytes b + prependableBytes b < len + kCheapPrepend
      then Some (b\<lparr>bytes := vec_resize (writerIndex b + len) (bytes b)\<rparr>)
      else if kCheapPrepend < readerIndex b
      then Some (b\<lparr>bytes := copy_to kCheapPrepend (readable b) (bytes b),
                   readerIndex := kCheapPrepend,
                   writerIndex := kCheapPrepend + readableBytes b\<rparr>)
      else None)"

definition ensureWriteableBytes :: "Buffer \<Rightarrow> nat \<Rightarrow> Buffer option" where
  "ensureWriteableBytes b len =
     Option.bind (if writableBytes b < len then makeSpace b len else Some b)
       (\<lambda>b'. if len \<le> writableBytes b' then Some b' else None)"

definition hasWritten :: "Buffer \<Rightarrow> nat \<Rightarrow> Buffer option" where
  "hasWritten b len =
     (if len \<le> writableBytes b then Some (b\<lparr>writerIndex := writerIndex b + len\<rparr>) else None)"

text \<open>
  \<open>append(data, len)\<close> for \<open>data\<close> an array of the bytes \<open>dat\<close>: reading past its end is
  undefined behaviour.
\<close>

definition append_ptr :: "Buffer \<Rightarrow> string \<Rightarrow> nat \<Rightarrow> Buffer option" where
  "append_ptr b dat len =
     Option.bind (ensureWriteableBytes b len) (\<lambda>b'.
       if length dat < len then None
       else hasWritten (b'\<lparr>bytes := copy_to (writerIndex b') (take len dat) (bytes b')\<rparr>) len)"

definition append_str :: "Buffer \<Rightarrow> string \<Rightarrow> Buffer option" where
  "append_str b dat = append_ptr b dat (length dat)"

definition prepend :: "Buffer \<Rightarrow> string \<Rightarrow> Buffer option" where
  "prepend b dat =
     (if length dat \<le> prependableBytes b
      then (let r = readerIndex b - length dat
            in Some (b\<lparr>readerIndex := r, bytes := copy_to r dat (bytes b)\<rparr>))
      else None)"

section \<open>Integers in network byte order\<close>

text \<open>
  \<open>htobe\<^bsub>n\<^esub>\<close> followed by copying the object representation gives the bytes from the
  most significant one down; \<open>memcpy\<close> and \<open>be\<^bsub>n\<^esub>toh\<close> read them back. An
  \<open>intN_t\<close> is the \<open>N word\<close> of its bits.
\<close>

fun be_bytes :: "nat \<Rightarrow> nat \<Rightarrow> string" where
  "be_bytes 0 n = []"
| "be_bytes (Suc k) n = be_bytes k (n div 256) @ [char_of (n mod 256)]"

definition be_val :: "string \<Rightarrow> nat" where
  "be_val = foldl (\<lambda>a c. a * 256 + of_char c) 0"

definition appendInt64 :: "Buffer \<Rightarrow> 64 word \<Rightarrow> Buffer option" where
  "appendInt64 b x = append_str b (be_bytes 8 (unat x))"

definition appendInt32 :: "Buffer \<Rightarrow> 32 word \<Rightarrow> Buffer option" where
  "appendInt32 b x = append_str b (be_bytes 4 (unat x))"

definition appendInt16 :: "Buffer \<Rightarrow> 16 word \<Rightarrow> Buffer option" where
  "appendInt16 b x = append_str b (be_bytes 2 (unat x))"

definition appendInt8 :: "Buffer \<Rightarrow> 8 word \<Rightarrow> Buffer option" where
  "appendInt8 b x = append_str b [char_of (unat x)]"

definition peekInt64 :: "Buffer \<Rightarrow> 64 word option" where
  "peekInt64 b =
     (if 8 \<le> readableBytes b then Some (word_of_nat (be_val (take 8 (readable b)))) else None)"

definition peekInt32 :: "Buffer \<Rightarrow> 32 word option" where
  "peekInt32 b =
     (if 4 \<le> readableBytes b then Some (word_of_nat (be_val (take 4 (readable b)))) else None)"

definition peekInt16 :: "Buffer \<Rightarrow> 16 word option" where
  "peekInt16 b =
     (if 2 \<le> readableBytes b then Some (word_of_nat (be_val (take 2 (readable b)))) else None)"

definition peekInt8 :: "Buffer \<Rightarrow> 8 word option" where
  "peekInt8 b =
     (if 1 \<le> readableBytes b then Some (word_of_nat (of_char (hd (readable b)))) else None)"

definition readInt64 :: "Buffer \<Rightarrow> (64 word \<times> Buffer) option" where
  "readInt64 b = Option.bind (peekInt64 b) (\<lambda>r. map_option (Pair r) (retrieveInt64 b))"

definition readInt32 :: "Buffer \<Rightarrow> (32 word \<times> Buffer) option" where
  "readInt32 b = Option.bind (peekInt32 b) (\<lambda>r. map_option (Pair r) (retrieveInt32 b))"

definition readInt16 :: "Buffer \<Rightarrow> (16 word \<times> Buffer) option" where
  "readInt16 b = Option.bind (peekInt16 b) (\<lambda>r. map_option (Pair r) (retrieveInt16 b))"

definition readInt8 :: "Buffer \<Rightarrow> (8 word \<times> Buffer) option" where
  "readInt8 b = Option.bind (peekInt8 b) (\<lambda>r. map_option (Pair r) (retrieveInt8 b))"

definition prependInt64 :: "Buffer \<Rightarrow> 64 word \<Rightarrow> Buffer option" where
  "prependInt64 b x = prepend b (be_bytes 8 (unat x))"

definition prependInt32 :: "Buffer \<Rightarrow> 32 word \<Rightarrow> Buffer option" where
  "prependInt32 b x = prepend b (be_bytes 4 (unat x))"

definition prependInt16 :: "Buffer \<Rightarrow> 16 word \<Rightarrow> Buffer option" where
  "prependInt16 b x = prepend b (be_bytes 2 (unat x))"

definition prependInt8 :: "Buffer \<Rightarrow> 8 word \<Rightarrow> Buffer option" where
  "prependInt8 b x = prepend b [char_of (unat x)]"

section \<open>Reading from a descriptor\<close>

text \<open>
  What \<open>readv\<close> does to the two vectors: it fails with an \<open>errno\<close>, or delivers bytes, the
  first \<open>writable\<close> of them into the writable zone and the others into \<open>extrabuf\<close>. The
  result of \<open>readFd\<close> is the new buffer with the value it returns and \<open>*saveErrno\<close>
  (\<open>None\<close> if not set).

  \<open>n\<close> is declared \<open>size_t\<close>: the \<open>-1\<close> of a failed call becomes \<open>2 ^ 64 - 1\<close>, the
  test \<open>n < 0\<close> is never true, and \<open>append(extrabuf, n - writable)\<close> is called.
\<close>

datatype readv_result = ReadvError nat | ReadvData string

definition extrabuf_size :: nat where "extrabuf_size = 65536"

definition readv_capacity :: "Buffer \<Rightarrow> nat" where
  "readv_capacity b =
     (if writableBytes b < extrabuf_size then writableBytes b + extrabuf_size else writableBytes b)"

definition readFd :: "Buffer \<Rightarrow> readv_result \<Rightarrow> (Buffer \<times> int \<times> nat option) option" where
  "readFd b r =
     (let writable = writableBytes b;
          dat = (case r of ReadvError _ \<Rightarrow> [] | ReadvData s \<Rightarrow> s);
          n = (case r of ReadvError _ \<Rightarrow> 2 ^ 64 - 1 | ReadvData s \<Rightarrow> length s) :: nat;
          b1 = b\<lparr>bytes := copy_to (writerIndex b) (take writable dat) (bytes b)\<rparr>;
          extrabuf = vec_resize extrabuf_size (drop writable dat);
          ret = (if n < 2 ^ 63 then int n else int n - 2 ^ 64)
      in if n < 0 then Some (b1, ret, (case r of ReadvError e \<Rightarrow> Some e | _ \<Rightarrow> None))
         else if n \<le> writable then Some (b1\<lparr>writerIndex := writerIndex b + n\<rparr>, ret, None)
         else map_option (\<lambda>b2. (b2, ret, None))
                (append_ptr (b1\<lparr>writerIndex := length (bytes b1)\<rparr>) extrabuf (n - writable)))"


section \<open>Facts about the operations\<close>

lemma length_readable [buf_simps]:
  "buffer_inv b \<Longrightarrow> length (readable b) = readableBytes b"
  by (auto simp: readable_def readableBytes_def buffer_inv_def)

lemma buffer_new_inv: "buffer_inv (Buffer_new n)" and readable_new: "readable (Buffer_new n) = []"
  by (simp_all add: Buffer_new_def buffer_inv_def readable_def readableBytes_def)

lemma retrieveAll_inv: "buffer_inv b \<Longrightarrow> buffer_inv (retrieveAll b)"
  and readable_retrieveAll [simp]: "readable (retrieveAll b) = []"
  by (auto simp: retrieveAll_def buffer_inv_def readable_def readableBytes_def)

lemma retrieve_fails: "retrieve b n = None \<longleftrightarrow> readableBytes b < n"
  by (auto simp: retrieve_def)

lemma retrieve_ok:
  assumes "buffer_inv b" "n \<le> readableBytes b"
  shows "\<exists>b'. retrieve b n = Some b' \<and> buffer_inv b' \<and> readable b' = drop n (readable b)"
proof (cases "n < readableBytes b")
  case True
  then show ?thesis
    using assms by (auto simp: retrieve_def buffer_inv_def readable_def readableBytes_def drop_take
        add.commute)
next
  case False
  with assms have "drop n (readable b) = []"
    by (simp add: length_readable)
  with False assms show ?thesis
    by (simp add: retrieve_def retrieveAll_inv)
qed

lemma makeSpace_ok:
  assumes "buffer_inv b" "writableBytes b < len"
  shows "\<exists>b'. makeSpace b len = Some b' \<and> buffer_inv b' \<and> readable b' = readable b
    \<and> len \<le> writableBytes b'"
proof (cases "writableBytes b + prependableBytes b < len + kCheapPrepend")
  case True
  with assms show ?thesis
    by (auto simp: makeSpace_def vec_resize_def buffer_inv_def readable_def readableBytes_def
        writableBytes_def)
next
  case False
  define rd where "rd = readable b"
  from False assms have pre: "kCheapPrepend < readerIndex b"
    by (simp add: prependableBytes_def writableBytes_def)
  let ?b' = "b\<lparr>bytes := copy_to kCheapPrepend rd (bytes b), readerIndex := kCheapPrepend,
    writerIndex := kCheapPrepend + readableBytes b\<rparr>"
  have len: "length rd = readableBytes b" using assms by (simp add: rd_def length_readable)
  have fits: "kCheapPrepend + readableBytes b \<le> length (bytes b)"
    using assms pre by (auto simp: buffer_inv_def readableBytes_def)
  have rb: "readableBytes ?b' = readableBytes b" by (simp add: readableBytes_def)
  have "readable ?b' = rd"
    unfolding readable_def [of ?b'] rb using fits by (simp add: copy_to_def len)
  moreover have "buffer_inv ?b'"
    using fits len assms by (simp add: buffer_inv_def)
  moreover have "len \<le> writableBytes ?b'"
    using False pre fits len assms
    by (auto simp: writableBytes_def prependableBytes_def buffer_inv_def readableBytes_def)
  ultimately show ?thesis using False pre by (simp add: makeSpace_def rd_def)
qed

lemma ensureWriteableBytes_ok:
  assumes "buffer_inv b"
  shows "\<exists>b'. ensureWriteableBytes b len = Some b' \<and> buffer_inv b' \<and> readable b' = readable b
    \<and> len \<le> writableBytes b'"
proof (cases "writableBytes b < len")
  case True
  from makeSpace_ok [OF assms True] True show ?thesis
    by (auto simp: ensureWriteableBytes_def)
next
  case False
  with assms show ?thesis by (simp add: ensureWriteableBytes_def)
qed

text \<open>Writing at \<open>writerIndex\<close> and advancing it extends the readable zone.\<close>

lemma write_at_end:
  assumes "buffer_inv b" "length dat \<le> writableBytes b"
  shows "let b' = b\<lparr>bytes := copy_to (writerIndex b) dat (bytes b),
      writerIndex := writerIndex b + length dat\<rparr>
    in buffer_inv b' \<and> readable b' = readable b @ dat"
proof -
  let ?w = "writerIndex b" and ?r = "readerIndex b" and ?bs = "bytes b"
  have le: "?r \<le> ?w" "?w \<le> length ?bs" "?w + length dat \<le> length ?bs"
    using assms by (auto simp: buffer_inv_def writableBytes_def)
  have "drop ?r (copy_to ?w dat ?bs) = drop ?r (take ?w ?bs) @ dat @ drop (?w + length dat) ?bs"
    using le by (simp add: copy_to_def)
  moreover have "drop ?r (take ?w ?bs) = readable b"
    by (simp add: readable_def readableBytes_def drop_take)
  moreover have "length (readable b) = ?w - ?r"
    using assms(1) by (simp add: length_readable readableBytes_def)
  ultimately have "take (?w + length dat - ?r) (drop ?r (copy_to ?w dat ?bs)) = readable b @ dat"
    using le by simp
  then show ?thesis
    using assms(1) le by (simp add: Let_def readable_def readableBytes_def buffer_inv_def)
qed

lemma append_ptr_ok:
  assumes "buffer_inv b" "len \<le> length dat"
  shows "\<exists>b'. append_ptr b dat len = Some b' \<and> buffer_inv b'
    \<and> readable b' = readable b @ take len dat"
proof -
  obtain b1 where b1: "ensureWriteableBytes b len = Some b1" "buffer_inv b1"
    "readable b1 = readable b" "len \<le> writableBytes b1"
    using ensureWriteableBytes_ok [OF assms(1)] by blast
  let ?d = "take len dat"
  let ?b2 = "b1\<lparr>bytes := copy_to (writerIndex b1) ?d (bytes b1),
    writerIndex := writerIndex b1 + length ?d\<rparr>"
  have len: "length ?d = len" using assms(2) by simp
  have w: "writerIndex b1 \<le> length (bytes b1)" using b1(2) by (simp add: buffer_inv_def)
  have "append_ptr b dat len = Some ?b2"
    using b1 assms(2) len w by (simp add: append_ptr_def hasWritten_def writableBytes_def)
  with write_at_end [of b1 ?d] b1 len show ?thesis by (simp add: Let_def)
qed

lemma append_ok:
  "buffer_inv b \<Longrightarrow> \<exists>b'. append_str b s = Some b' \<and> buffer_inv b' \<and> readable b' = readable b @ s"
  using append_ptr_ok [of b "length s" s] by (simp add: append_str_def)

lemma retrieveAsString_ok:
  assumes "buffer_inv b" "n \<le> readableBytes b"
  shows "\<exists>b'. retrieveAsString b n = Some (take n (readable b), b') \<and> buffer_inv b'
    \<and> readable b' = drop n (readable b)"
  using assms retrieve_ok [OF assms] by (auto simp: retrieveAsString_def)

lemma prepend_ok:
  assumes "buffer_inv b" "length dat \<le> prependableBytes b"
  shows "\<exists>b'. prepend b dat = Some b' \<and> buffer_inv b' \<and> readable b' = dat @ readable b"
proof -
  let ?r = "readerIndex b - length dat"
  let ?b' = "b\<lparr>readerIndex := ?r, bytes := copy_to ?r dat (bytes b)\<rparr>"
  have le: "length dat \<le> readerIndex b" "readerIndex b \<le> writerIndex b"
    "writerIndex b \<le> length (bytes b)"
    using assms by (simp_all add: prependableBytes_def buffer_inv_def)
  have "drop ?r (copy_to ?r dat (bytes b)) = dat @ drop (readerIndex b) (bytes b)"
    using le by (simp add: copy_to_def)
  moreover have "writerIndex b - ?r = length dat + (writerIndex b - readerIndex b)"
    using le by simp
  ultimately have "readable ?b' = dat @ readable b"
    by (simp add: readable_def readableBytes_def)
  moreover have "buffer_inv ?b'" using assms le by (simp add: buffer_inv_def)
  ultimately show ?thesis using assms by (simp add: prepend_def Let_def)
qed

text \<open>A successful \<open>readv\<close> appends what it delivered; a failed one reads out of bounds.\<close>

lemma readFd_ok:
  assumes "buffer_inv b" "length s \<le> readv_capacity b" "length s < 2 ^ 63"
  shows "\<exists>b'. readFd b (ReadvData s) = Some (b', int (length s), None) \<and> buffer_inv b'
    \<and> readable b' = readable b @ s"
proof (cases "length s \<le> writableBytes b")
  case True
  with write_at_end [OF assms(1) True] assms(3) show ?thesis
    by (simp add: readFd_def Let_def)
next
  case False
  let ?w = "writableBytes b"
  let ?b1 = "b\<lparr>bytes := copy_to (writerIndex b) (take ?w s) (bytes b)\<rparr>"
  let ?b2 = "b\<lparr>bytes := copy_to (writerIndex b) (take ?w s) (bytes b),
    writerIndex := writerIndex b + ?w\<rparr>"
  have inv: "buffer_inv ?b2" "readable ?b2 = readable b @ take ?w s"
    using write_at_end [OF assms(1), of "take ?w s"] False by (simp_all add: Let_def min_def)
  have wend: "writerIndex b + ?w = length (bytes ?b1)"
    using assms(1) False by (simp add: writableBytes_def buffer_inv_def min_def)
  have ex: "length s - ?w \<le> length (vec_resize extrabuf_size (drop ?w s))"
    and tk: "take (length s - ?w) (vec_resize extrabuf_size (drop ?w s)) = drop ?w s"
    using assms(2) False by (auto simp: readv_capacity_def vec_resize_def split: if_splits)
  show ?thesis
    using append_ptr_ok [OF inv(1) ex] False assms(3)
    unfolding inv(2) tk by (auto simp: readFd_def Let_def wend)
qed

lemma readFd_error:
  assumes "length (bytes b) < 2 ^ 63"
  shows "readFd b (ReadvError e) = None"
proof -
  have w: "writableBytes b < 2 ^ 63" using assms by (simp add: writableBytes_def)
  have "length (vec_resize extrabuf_size (drop (writableBytes b) [])) < 2 ^ 64 - 1 - writableBytes b"
    using w by (simp add: extrabuf_size_def)
  then show ?thesis
    using w by (auto simp: readFd_def Let_def append_ptr_def bind_eq_None_conv)
qed

section \<open>Integers\<close>

lemma length_be_bytes [simp]: "length (be_bytes k n) = k"
  by (induction k n rule: be_bytes.induct) auto

lemma be_val_snoc [simp]: "be_val (s @ [c]) = be_val s * 256 + of_char c"
  by (simp add: be_val_def)

lemma be_val_be_bytes: "be_val (be_bytes k n) = n mod 256 ^ k"
proof (induction k arbitrary: n)
  case 0
  then show ?case by (simp add: be_val_def)
next
  case (Suc k)
  have "be_val (be_bytes (Suc k) n) = (n div 256) mod 256 ^ k * 256 + n mod 256"
    by (simp add: Suc.IH)
  also have "\<dots> = n mod (256 * 256 ^ k)"
    by (simp add: mod_mult2_eq)
  finally show ?case by simp
qed

section \<open>The contract of the buffer\<close>

text \<open>
  What a client of the buffer relies on: the bytes it holds are a queue. \<open>inv\<close> is the
  provider's invariant and \<open>content\<close> its abstraction.
\<close>

locale byte_queue =
  fixes inv :: "'b \<Rightarrow> bool"
    and content :: "'b \<Rightarrow> string"
    and app :: "'b \<Rightarrow> string \<Rightarrow> 'b option"
    and skip :: "'b \<Rightarrow> nat \<Rightarrow> 'b option"
    and get :: "'b \<Rightarrow> nat \<Rightarrow> (string \<times> 'b) option"
  assumes app_spec: "inv b \<Longrightarrow> \<exists>b'. app b s = Some b' \<and> inv b' \<and> content b' = content b @ s"
    and skip_spec: "inv b \<Longrightarrow> n \<le> length (content b) \<Longrightarrow>
      \<exists>b'. skip b n = Some b' \<and> inv b' \<and> content b' = drop n (content b)"
    and get_spec: "inv b \<Longrightarrow> n \<le> length (content b) \<Longrightarrow>
      \<exists>b'. get b n = Some (take n (content b), b') \<and> inv b' \<and> content b' = drop n (content b)"
begin

lemma skip_front:
  assumes "inv b" "content b = x @ y" "n = length x"
  shows "\<exists>b'. skip b n = Some b' \<and> inv b' \<and> content b' = y"
  using skip_spec [OF assms(1), of n] assms by simp

lemma get_front:
  assumes "inv b" "content b = x @ y" "n = length x"
  shows "\<exists>b'. get b n = Some (x, b') \<and> inv b' \<and> content b' = y"
  using get_spec [OF assms(1), of n] assms by simp

text \<open>Appending chunk by chunk appends the concatenation: how bytes arrive does not matter.\<close>

lemma app_chunks:
  assumes "inv b"
  shows "\<exists>b'. foldl (\<lambda>m s. Option.bind m (\<lambda>b. app b s)) (Some b) ss = Some b' \<and> inv b'
    \<and> content b' = content b @ concat ss"
  using assms
proof (induction ss arbitrary: b)
  case Nil
  then show ?case by simp
next
  case (Cons s ss)
  from app_spec [OF Cons.prems] obtain b1 where
    "app b s = Some b1" "inv b1" "content b1 = content b @ s" by blast
  with Cons.IH [of b1] show ?case by simp
qed

lemma get_after_app:
  assumes "inv b" "content b = []"
  shows "\<exists>b1 b2. app b s = Some b1 \<and> get b1 (length s) = Some (s, b2) \<and> content b2 = []"
proof -
  from app_spec [OF assms(1)] assms obtain b1 where
    b1: "app b s = Some b1" "inv b1" "content b1 = s @ []" by force
  with get_front [OF b1(2,3) refl] show ?thesis by auto
qed

end

interpretation bq: byte_queue buffer_inv readable append_str retrieve retrieveAsString
  by unfold_locales
    (simp_all add: append_ok retrieve_ok retrieveAsString_ok length_readable)

end
