(* ===== verification/TcpConnection.thy ===== *)
theory TcpConnection
  imports NetChannel NetBuffer
begin

text \<open>
  \<open>NetServer/TcpConnection.h\<close> and \<open>TcpConnection.cpp\<close>: one connection, its channel, its two
  buffers, and the tasks it queues in its event loop. What the kernel answers to \<open>readv\<close> and
  \<open>write\<close> is an argument; \<open>None\<close> is a failed \<open>assert\<close>. The callbacks that run inside an
  operation (connection, message and close callback) are always its last statement, so that
  what they do to the connection are the next actions of the loop's thread; here they are only
  recorded. Calls of other threads are split where the code tests and changes \<open>state_\<close>
  separately, in the second part of the theory.
\<close>

section \<open>The connection\<close>

datatype ConnectionState = kConnecting | kConnected | kDisconnecting | kDisconnected

text \<open>The states in the order of their numbers in the \<open>enum\<close>.\<close>

fun rank :: "ConnectionState \<Rightarrow> nat" where
  "rank kConnecting = 0" | "rank kConnected = 1" | "rank kDisconnecting = 2" | "rank kDisconnected = 3"

instantiation ConnectionState :: linorder
begin

definition less_eq_ConnectionState :: "ConnectionState \<Rightarrow> ConnectionState \<Rightarrow> bool" where
  "less_eq_ConnectionState s t \<longleftrightarrow> rank s \<le> rank t"

definition less_ConnectionState :: "ConnectionState \<Rightarrow> ConnectionState \<Rightarrow> bool" where
  "less_ConnectionState s t \<longleftrightarrow> rank s < rank t"

instance
proof
  fix s t :: ConnectionState
  show "s \<le> t \<Longrightarrow> t \<le> s \<Longrightarrow> s = t"
    by (cases s; cases t) (simp_all add: less_eq_ConnectionState_def)
qed (auto simp: less_eq_ConnectionState_def less_ConnectionState_def)

end

datatype errno = EAGAIN | EPIPE | ECONNRESET | EOTHER

datatype write_result = Written nat | WriteError errno

text \<open>The tasks in the event loop that belong to this connection.\<close>

datatype loop_task = SendInLoop string | ShutdownInLoop | ForceCloseInLoop | StopRead | StartRead
  | WriteComplete | HighWater nat | ConnectDestroyed

datatype conn_callback = ConnectionCb bool | MessageCb | CloseCb | WriteCompleteCb
  | HighWaterMarkCb nat

text \<open>
  \<open>hasWriteComplete\<close> and \<open>hasHighWater\<close>: the callback is set. \<open>pending\<close> are the queued
  tasks, \<open>called\<close> the callbacks made so far; \<open>wire\<close> are the bytes that \<open>write\<close> has
  accepted, \<open>shutWr\<close> tells that \<open>shutdown(SHUT_WR)\<close> was called.
\<close>

record TcpConnection =
  state :: ConnectionState
  channel :: Channel
  inputBuffer :: Buffer
  outputBuffer :: Buffer
  highWaterMark :: nat
  hasWriteComplete :: bool
  hasHighWater :: bool
  pending :: "loop_task list"
  called :: "conn_callback list"
  wire :: string
  shutWr :: bool

definition TcpConnection_new :: "bool \<Rightarrow> nat option \<Rightarrow> TcpConnection" where
  "TcpConnection_new writeComplete highWater =
     \<lparr>state = kConnecting, channel = Channel_new, inputBuffer = Buffer_new kInitialSize,
      outputBuffer = Buffer_new kInitialSize,
      highWaterMark = (case highWater of None \<Rightarrow> 0 | Some mark \<Rightarrow> mark),
      hasWriteComplete = writeComplete, hasHighWater = (highWater \<noteq> None),
      pending = [], called = [], wire = [], shutWr = False\<rparr>"

definition connected :: "TcpConnection \<Rightarrow> bool" where
  "connected c \<longleftrightarrow> state c = kConnected"

definition disconnected :: "TcpConnection \<Rightarrow> bool" where
  "disconnected c \<longleftrightarrow> state c = kDisconnected"

definition queueInLoop :: "loop_task \<Rightarrow> TcpConnection \<Rightarrow> TcpConnection" where
  "queueInLoop t c = c\<lparr>pending := pending c @ [t]\<rparr>"

definition callback :: "conn_callback \<Rightarrow> TcpConnection \<Rightarrow> TcpConnection" where
  "callback cb c = c\<lparr>called := called c @ [cb]\<rparr>"

definition on_channel ::
    "(Channel \<Rightarrow> Channel option) \<Rightarrow> TcpConnection \<Rightarrow> TcpConnection option" where
  "on_channel f c = map_option (\<lambda>ch. c\<lparr>channel := ch\<rparr>) (f (channel c))"

definition connectEstablished :: "TcpConnection \<Rightarrow> TcpConnection option" where
  "connectEstablished c =
     (if state c \<noteq> kConnecting then None
      else map_option (callback (ConnectionCb True)) (on_channel enableRead (c\<lparr>state := kConnected\<rparr>)))"

definition connectDestroyed :: "TcpConnection \<Rightarrow> TcpConnection" where
  "connectDestroyed c = callback (ConnectionCb (connected c)) c"

text \<open>The destructor: \<open>false\<close> is its failed assertion.\<close>

definition destructible :: "TcpConnection \<Rightarrow> bool" where
  "destructible c \<longleftrightarrow> state c = kDisconnected"

section \<open>Sending\<close>

definition outputRest :: "bool \<Rightarrow> string \<Rightarrow> nat \<Rightarrow> TcpConnection \<Rightarrow> TcpConnection option" where
  "outputRest faultError dat n c =
     (let remain = length dat - n
      in if \<not> faultError \<and> remain > 0
         then (let oldLen = readableBytes (outputBuffer c);
                   newLen = oldLen + remain;
                   c1 = (if hasHighWater c \<and> oldLen < highWaterMark c \<and> newLen \<ge> highWaterMark c
                         then queueInLoop (HighWater newLen) c else c)
               in case append_ptr (outputBuffer c1) (drop n dat) remain of
                    None \<Rightarrow> None
                  | Some ob \<Rightarrow> on_channel enableWrite (c1\<lparr>outputBuffer := ob\<rparr>))
         else Some c)"

definition sendInLoop :: "write_result \<Rightarrow> string \<Rightarrow> TcpConnection \<Rightarrow> TcpConnection option" where
  "sendInLoop w dat c =
     (if state c = kDisconnected then Some c
      else if \<not> isWriting (channel c)
      then (if readableBytes (outputBuffer c) \<noteq> 0 then None
            else case w of
                   WriteError e \<Rightarrow> outputRest (e = EPIPE \<or> e = ECONNRESET) dat 0 c
                 | Written n \<Rightarrow>
                     (let c1 = c\<lparr>wire := wire c @ take n dat\<rparr>;
                          c2 = (if length dat - n = 0 \<and> hasWriteComplete c
                                then queueInLoop WriteComplete c1 else c1)
                      in outputRest False dat n c2))
      else outputRest False dat 0 c)"

text \<open>\<open>send\<close> of a string (or of bytes): \<open>inLoop\<close> is \<open>isInLoopThread()\<close>.\<close>

definition send :: "bool \<Rightarrow> write_result \<Rightarrow> string \<Rightarrow> TcpConnection \<Rightarrow> TcpConnection option" where
  "send inLoop w dat c =
     (if state c \<noteq> kConnected then Some c
      else if inLoop then sendInLoop w dat c
      else Some (queueInLoop (SendInLoop dat) c))"

text \<open>\<open>send\<close> of a buffer empties it, unless the connection is not connected.\<close>

definition send_buffer ::
    "bool \<Rightarrow> write_result \<Rightarrow> Buffer \<Rightarrow> TcpConnection \<Rightarrow> (Buffer \<times> TcpConnection) option" where
  "send_buffer inLoop w b c =
     (if state c \<noteq> kConnected then Some (b, c)
      else if inLoop then map_option (Pair (retrieveAll b)) (sendInLoop w (readable b) c)
      else map_option (\<lambda>(str, b1). (b1, queueInLoop (SendInLoop str) c)) (retrieveAllAsString b))"

section \<open>Shutting down and closing\<close>

definition stateAtomicGetAndSet ::
    "ConnectionState \<Rightarrow> TcpConnection \<Rightarrow> ConnectionState \<times> TcpConnection" where
  "stateAtomicGetAndSet newState c = (state c, c\<lparr>state := newState\<rparr>)"

definition shutdownInLoop :: "TcpConnection \<Rightarrow> TcpConnection" where
  "shutdownInLoop c =
     (if state c \<noteq> kDisconnected \<and> \<not> isWriting (channel c) then c\<lparr>shutWr := True\<rparr> else c)"

definition shutdown :: "bool \<Rightarrow> TcpConnection \<Rightarrow> TcpConnection option" where
  "shutdown inLoop c =
     (if state c = kDisconnected then None
      else let (old, c1) = stateAtomicGetAndSet kDisconnecting c
           in Some (if old = kConnected
                    then (if inLoop then shutdownInLoop c1 else queueInLoop ShutdownInLoop c1)
                    else c1))"

definition handleClose :: "TcpConnection \<Rightarrow> TcpConnection option" where
  "handleClose c =
     (if state c = kConnected \<or> state c = kDisconnecting
      then map_option (callback CloseCb) (on_channel removeChannel (c\<lparr>state := kDisconnected\<rparr>))
      else None)"

definition forceClose :: "TcpConnection \<Rightarrow> TcpConnection" where
  "forceClose c =
     (if state c \<noteq> kDisconnected
      then (let (old, c1) = stateAtomicGetAndSet kDisconnecting c
            in if old \<noteq> kDisconnected then queueInLoop ForceCloseInLoop c1 else c1)
      else c)"

definition forceCloseInLoop :: "TcpConnection \<Rightarrow> TcpConnection option" where
  "forceCloseInLoop c = (if state c \<noteq> kDisconnected then handleClose c else Some c)"

definition stopReadInLoop :: "TcpConnection \<Rightarrow> TcpConnection option" where
  "stopReadInLoop c = (if isReading (channel c) then on_channel disableRead c else Some c)"

definition startReadInLoop :: "TcpConnection \<Rightarrow> TcpConnection option" where
  "startReadInLoop c = (if \<not> isReading (channel c) then on_channel enableRead c else Some c)"

section \<open>Events of the channel\<close>

definition handleRead :: "readv_result \<Rightarrow> TcpConnection \<Rightarrow> TcpConnection option" where
  "handleRead r c =
     (if state c = kDisconnected then None
      else case readFd (inputBuffer c) r of
             None \<Rightarrow> None
           | Some (b, n, savedErrno) \<Rightarrow>
               (let c1 = c\<lparr>inputBuffer := b\<rparr>
                in if n = - 1 then Some c1
                   else if n = 0 then handleClose c1
                   else Some (callback MessageCb c1)))"

definition handleWrite :: "write_result \<Rightarrow> TcpConnection \<Rightarrow> TcpConnection option" where
  "handleWrite w c =
     (if state c = kDisconnected then Some c
      else if readableBytes (outputBuffer c) = 0 \<or> \<not> isWriting (channel c) then None
      else case w of
             WriteError e \<Rightarrow> Some c
           | Written n \<Rightarrow>
               (case retrieve (outputBuffer c) n of
                  None \<Rightarrow> None
                | Some ob \<Rightarrow>
                    (let c1 = c\<lparr>outputBuffer := ob, wire := wire c @ take n (readable (outputBuffer c))\<rparr>
                     in if readableBytes ob = 0
                        then map_option
                          (\<lambda>c2. let c3 = (if state c2 = kDisconnecting then shutdownInLoop c2 else c2)
                                in if hasWriteComplete c3 then queueInLoop WriteComplete c3 else c3)
                          (on_channel disableWrite c1)
                        else Some c1)))"

text \<open>\<open>handleError\<close> only reads and logs the socket's error.\<close>

fun runTask :: "write_result \<Rightarrow> loop_task \<Rightarrow> TcpConnection \<Rightarrow> TcpConnection option" where
  "runTask w (SendInLoop dat) c = sendInLoop w dat c"
| "runTask w ShutdownInLoop c = Some (shutdownInLoop c)"
| "runTask w ForceCloseInLoop c = forceCloseInLoop c"
| "runTask w StopRead c = stopReadInLoop c"
| "runTask w StartRead c = startReadInLoop c"
| "runTask w WriteComplete c = Some (callback WriteCompleteCb c)"
| "runTask w (HighWater n) c = Some (callback (HighWaterMarkCb n) c)"
| "runTask w ConnectDestroyed c = Some (connectDestroyed c)"

fun onChannelEvent ::
    "readv_result \<Rightarrow> write_result \<Rightarrow> channel_callback \<Rightarrow> TcpConnection \<Rightarrow> TcpConnection option" where
  "onChannelEvent r w ReadCallback c = handleRead r c"
| "onChannelEvent r w WriteCallback c = handleWrite w c"
| "onChannelEvent r w CloseCallback c = handleClose c"
| "onChannelEvent r w ErrorCallback c = Some c"

section \<open>The connection among threads\<close>

text \<open>
  \<open>shutdown\<close> and \<open>forceClose\<close> on another thread: the test of \<open>state_\<close>, the exchange and the
  queueing of the task are separate steps, between which the loop's thread may act; \<open>send\<close>
  tests and then queues. \<open>midway\<close> are the calls of other threads that have passed their test.
  \<open>dispatch\<close> are the callbacks that remain of the channel event being handled.
\<close>

datatype foreign_call = MidShutdown | MidForceClose | MidQueue loop_task

record ConnSystem =
  conn :: TcpConnection
  dispatch :: "channel_callback list"
  midway :: "foreign_call list"

definition ConnSystem_new :: "bool \<Rightarrow> nat option \<Rightarrow> ConnSystem" where
  "ConnSystem_new writeComplete highWater =
     \<lparr>conn = TcpConnection_new writeComplete highWater, dispatch = [], midway = []\<rparr>"

text \<open>
  \<open>L\<close>: a call on the loop's thread (from a callback or a task), \<open>O\<close>: a call on another
  thread, up to its test. \<open>LRetrieve\<close> is the message callback consuming input.
\<close>

datatype conn_action = Establish | Destroyed
  | LSend write_result string | LShutdown | LForceClose | LStopRead | LStartRead | LRetrieve nat
  | OSend string | OShutdown | OForceClose | OStopRead | OStartRead | OResume nat
  | Poll "32 word" | Dispatch readv_result write_result | RunPending write_result

definition on_conn ::
    "(TcpConnection \<Rightarrow> TcpConnection option) \<Rightarrow> ConnSystem \<Rightarrow> ConnSystem option" where
  "on_conn f s = map_option (\<lambda>c. s\<lparr>conn := c\<rparr>) (f (conn s))"

definition enter :: "foreign_call \<Rightarrow> ConnSystem \<Rightarrow> ConnSystem" where
  "enter call s = s\<lparr>midway := midway s @ [call]\<rparr>"

fun resume :: "foreign_call \<Rightarrow> ConnSystem \<Rightarrow> ConnSystem" where
  "resume MidShutdown s =
     (let (old, c) = stateAtomicGetAndSet kDisconnecting (conn s); s1 = s\<lparr>conn := c\<rparr>
      in if old = kConnected then enter (MidQueue ShutdownInLoop) s1 else s1)"
| "resume MidForceClose s =
     (let (old, c) = stateAtomicGetAndSet kDisconnecting (conn s); s1 = s\<lparr>conn := c\<rparr>
      in if old \<noteq> kDisconnected then enter (MidQueue ForceCloseInLoop) s1 else s1)"
| "resume (MidQueue t) s = s\<lparr>conn := queueInLoop t (conn s)\<rparr>"

definition retrieveInput :: "nat \<Rightarrow> TcpConnection \<Rightarrow> TcpConnection option" where
  "retrieveInput n c = map_option (\<lambda>b. c\<lparr>inputBuffer := b\<rparr>) (retrieve (inputBuffer c) n)"

fun perform :: "conn_action \<Rightarrow> ConnSystem \<Rightarrow> ConnSystem option" where
  "perform Establish s = on_conn connectEstablished s"
| "perform Destroyed s = on_conn (\<lambda>c. Some (queueInLoop ConnectDestroyed c)) s"
| "perform (LSend w dat) s = on_conn (send True w dat) s"
| "perform LShutdown s = on_conn (shutdown True) s"
| "perform LForceClose s = on_conn (\<lambda>c. Some (forceClose c)) s"
| "perform LStopRead s = on_conn stopReadInLoop s"
| "perform LStartRead s = on_conn startReadInLoop s"
| "perform (LRetrieve n) s = on_conn (retrieveInput n) s"
| "perform (OSend dat) s =
     Some (if state (conn s) = kConnected then enter (MidQueue (SendInLoop dat)) s else s)"
| "perform OShutdown s =
     (if state (conn s) = kDisconnected then None else Some (enter MidShutdown s))"
| "perform OForceClose s =
     Some (if state (conn s) \<noteq> kDisconnected then enter MidForceClose s else s)"
| "perform OStopRead s = Some (enter (MidQueue StopRead) s)"
| "perform OStartRead s = Some (enter (MidQueue StartRead) s)"
| "perform (OResume i) s =
     Some (resume (midway s ! i) (s\<lparr>midway := take i (midway s) @ drop (Suc i) (midway s)\<rparr>))"
| "perform (Poll revents) s = Some (s\<lparr>dispatch := handleEventsWithGuard revents\<rparr>)"
| "perform (Dispatch r w) s =
     (case dispatch s of [] \<Rightarrow> Some s
      | cb # rest \<Rightarrow> on_conn (onChannelEvent r w cb) (s\<lparr>dispatch := rest\<rparr>))"
| "perform (RunPending w) s =
     (case pending (conn s) of [] \<Rightarrow> Some s
      | t # ts \<Rightarrow> on_conn (\<lambda>c. runTask w t (c\<lparr>pending := ts\<rparr>)) s)"

text \<open>
  What the kernel and the event loop guarantee of an action: a \<open>write\<close> accepts no more than
  it is given, a \<open>readv\<close> delivers no more than there is room, events are reported for
  registered channels, \<open>EPOLLOUT\<close> only on request, \<open>EPOLLRDHUP\<close> never (it is not requested);
  tasks are run after the events of a round.
\<close>

definition write_ok :: "nat \<Rightarrow> write_result \<Rightarrow> bool" where
  "write_ok len w = (case w of Written n \<Rightarrow> n \<le> len | WriteError _ \<Rightarrow> True)"

definition read_ok :: "Buffer \<Rightarrow> readv_result \<Rightarrow> bool" where
  "read_ok b r = (case r of ReadvData s \<Rightarrow> length s \<le> readv_capacity b \<and> length s < 2 ^ 63
                 | ReadvError _ \<Rightarrow> True)"

definition poll_ok :: "32 word \<Rightarrow> Channel \<Rightarrow> bool" where
  "poll_ok revents ch \<longleftrightarrow> events ch \<noteq> 0 \<and> revents AND EPOLLRDHUP = 0 \<and>
     (revents AND EPOLLOUT \<noteq> 0 \<longrightarrow> isWriting ch)"

fun enabled :: "conn_action \<Rightarrow> ConnSystem \<Rightarrow> bool" where
  "enabled (LSend w dat) s = write_ok (length dat) w"
| "enabled (OResume i) s = (i < length (midway s))"
| "enabled (Poll revents) s = (dispatch s = [] \<and> poll_ok revents (channel (conn s)))"
| "enabled (Dispatch r w) s = (dispatch s \<noteq> [] \<and> read_ok (inputBuffer (conn s)) r \<and>
     write_ok (readableBytes (outputBuffer (conn s))) w)"
| "enabled (RunPending w) s = (dispatch s = [] \<and>
     (case pending (conn s) of SendInLoop dat # _ \<Rightarrow> write_ok (length dat) w
      | t # _ \<Rightarrow> True | [] \<Rightarrow> False))"
| "enabled a s = True"

text \<open>
  What the code silently relies on besides: nobody uses the connection before it is
  established; it is not shut down, nor its reading restarted, after it was closed, and it is
  not closed while another thread is between test and exchange of \<open>shutdown\<close> or
  \<open>forceClose\<close>; \<open>readv\<close> does not fail; a hangup without input comes without urgent data.
\<close>

definition is_open :: "TcpConnection \<Rightarrow> bool" where
  "is_open c \<longleftrightarrow> state c = kConnected \<or> state c = kDisconnecting"

fun polite :: "conn_action \<Rightarrow> ConnSystem \<Rightarrow> bool" where
  "polite Establish s = (state (conn s) = kConnecting)"
| "polite LShutdown s = is_open (conn s)"
| "polite LStartRead s = is_open (conn s)"
| "polite (LRetrieve n) s =
     (state (conn s) \<noteq> kConnecting \<and> n \<le> readableBytes (inputBuffer (conn s)))"
| "polite OShutdown s = is_open (conn s)"
| "polite (OResume i) s =
     (case midway s ! i of MidQueue _ \<Rightarrow> True | _ \<Rightarrow> is_open (conn s))"
| "polite (Poll revents) s =
     (revents AND EPOLLHUP \<noteq> 0 \<and> revents AND EPOLLIN = 0 \<longrightarrow> revents AND EPOLLPRI = 0)"
| "polite (Dispatch r w) s =
     (case dispatch s of ReadCallback # _ \<Rightarrow> (case r of ReadvData _ \<Rightarrow> True | _ \<Rightarrow> False) | _ \<Rightarrow> True)"
| "polite (RunPending w) s =
     (case pending (conn s) of StartRead # _ \<Rightarrow> is_open (conn s) | _ \<Rightarrow> True)"
| "polite a s = (state (conn s) \<noteq> kConnecting)"

text \<open>The bytes that an action hands over to the connection's output.\<close>

definition handed ::
    "write_result \<Rightarrow> string \<Rightarrow> TcpConnection \<Rightarrow> string" where
  "handed w dat c =
     (if \<not> isWriting (channel c) \<and> (w = WriteError EPIPE \<or> w = WriteError ECONNRESET) then []
      else dat)"

fun payload :: "conn_action \<Rightarrow> ConnSystem \<Rightarrow> string" where
  "payload (LSend w dat) s =
     (if state (conn s) = kConnected then handed w dat (conn s) else [])"
| "payload (RunPending w) s =
     (case pending (conn s) of
        SendInLoop dat # _ \<Rightarrow> (if state (conn s) = kDisconnected then [] else handed w dat (conn s))
      | _ \<Rightarrow> [])"
| "payload a s = []"

text \<open>Runs of allowed actions, with the bytes handed over.\<close>

inductive conn_run ::
    "(conn_action \<Rightarrow> ConnSystem \<Rightarrow> bool) \<Rightarrow> ConnSystem \<Rightarrow> string \<Rightarrow> ConnSystem \<Rightarrow> bool"
  for ok s where
  run_start: "conn_run ok s [] s"
| run_action: "conn_run ok s sent s1 \<Longrightarrow> ok a s1 \<Longrightarrow> perform a s1 = Some s2 \<Longrightarrow>
     conn_run ok s (sent @ payload a s1) s2"

text \<open>The same for a given list of actions, computed.\<close>

fun actions_ok :: "(conn_action \<Rightarrow> ConnSystem \<Rightarrow> bool) \<Rightarrow> conn_action list \<Rightarrow> ConnSystem \<Rightarrow> ConnSystem option"
  where
  "actions_ok ok [] s = Some s"
| "actions_ok ok (a # as) s =
     (if ok a s then Option.bind (perform a s) (actions_ok ok as) else None)"

definition good :: "conn_action \<Rightarrow> ConnSystem \<Rightarrow> bool" where
  "good a s \<longleftrightarrow> enabled a s \<and> polite a s"

end
