(* ===== verification/TcpConnectionInv.thy ===== *)
theory TcpConnectionInv
  imports TcpConnection
begin

text \<open>
  The invariant of a connection among threads, the effect of every operation of the connection
  under it, and the lemma that every permitted action returns, preserves it, moves the state
  forward and extends the output by what was handed over.
\<close>

section \<open>The channel of an established connection\<close>

lemma PRI_nonzero: "bit w 1 \<Longrightarrow> w \<noteq> 0" for w :: "32 word"
  by auto

lemma channel_op_ok:
  assumes "channel_ok ch" "f = channel_step op"
  shows "f ch = Some ch' \<Longrightarrow> channel_ok ch'"
  using channel_step_ok assms by auto

lemma enableRead_ok:
  assumes "channel_ok ch"
  shows "\<exists>ch'. enableRead ch = Some ch' \<and> channel_ok ch' \<and> bit (events ch') 1
    \<and> isWriting ch' = isWriting ch"
proof -
  obtain ch' where ch': "enableRead ch = Some ch'" using enable_Some by blast
  then have "events ch' = events ch OR (EPOLLIN OR EPOLLPRI)"
    by (auto simp: enableRead_def dest: updateChannel_events)
  then have "bit (events ch') 1" by (simp add: bit_or_iff bit_epoll)
  with ch' show ?thesis
    using reading_writing(1) [OF ch'] channel_step_ok [OF assms, of CEnableRead ch'] by simp
qed

lemma enableWrite_ok:
  assumes "channel_ok ch"
  shows "\<exists>ch'. enableWrite ch = Some ch' \<and> channel_ok ch' \<and> isWriting ch'
    \<and> (bit (events ch') 1 = bit (events ch) 1)"
proof -
  obtain ch' where ch': "enableWrite ch = Some ch'" using enable_Some by blast
  then have "events ch' = events ch OR EPOLLOUT"
    by (auto simp: enableWrite_def dest: updateChannel_events)
  then have "bit (events ch') 1 = bit (events ch) 1" by (simp add: bit_or_iff bit_epoll)
  with ch' show ?thesis
    using reading_writing(2) [OF ch'] channel_step_ok [OF assms, of CEnableWrite ch'] by simp
qed

lemma disable_ok:
  assumes "channel_ok ch" "bit (events ch) 1"
  shows "\<exists>ch'. disableRead ch = Some ch' \<and> channel_ok ch' \<and> bit (events ch') 1
      \<and> isWriting ch' = isWriting ch"
    and "\<exists>ch'. disableWrite ch = Some ch' \<and> channel_ok ch' \<and> bit (events ch') 1 \<and> \<not> isWriting ch'"
proof -
  have b: "bit (events ch AND NOT EPOLLIN) 1" "bit (events ch AND NOT EPOLLOUT) 1"
    using assms(2) by (simp_all add: bit_and_iff bit_not_iff bit_epoll)
  then obtain ch' where ch': "disableRead ch = Some ch'"
    unfolding disableRead_def by (metis updateChannel_Some PRI_nonzero Channel.simps(2) Channel.select_convs(2)
        Channel.surjective Channel.update_convs(2))
  then have "events ch' = events ch AND NOT EPOLLIN"
    by (auto simp: disableRead_def dest: updateChannel_events)
  with ch' b show "\<exists>ch'. disableRead ch = Some ch' \<and> channel_ok ch' \<and> bit (events ch') 1
      \<and> isWriting ch' = isWriting ch"
    using reading_writing(3) [OF ch'] channel_step_ok [OF assms(1), of CDisableRead ch'] by simp
  obtain ch2 where ch2: "disableWrite ch = Some ch2"
    using b(2) updateChannel_Some [of "ch\<lparr>events := events ch AND NOT EPOLLOUT\<rparr>"] PRI_nonzero
    unfolding disableWrite_def by fastforce
  then have "events ch2 = events ch AND NOT EPOLLOUT"
    by (auto simp: disableWrite_def dest: updateChannel_events)
  with ch2 b show "\<exists>ch'. disableWrite ch = Some ch' \<and> channel_ok ch' \<and> bit (events ch') 1
      \<and> \<not> isWriting ch'"
    using reading_writing(4) [OF ch2] channel_step_ok [OF assms(1), of CDisableWrite ch2] by simp
qed

lemma removeChannel_ok:
  assumes "channel_ok ch" "bit (events ch) 1"
  shows "\<exists>ch'. removeChannel ch = Some ch' \<and> channel_ok ch' \<and> events ch' = 0"
proof -
  have "chState ch \<noteq> OUT" using assms PRI_nonzero by (auto simp: channel_ok_def)
  then obtain ch' where ch': "removeChannel ch = Some ch'" "events ch' = 0"
    by (auto simp: removeChannel_def disableAll_def updateChannel_def isNoneEvents_def)
  then show ?thesis using channel_step_ok [OF assms(1), of CRemove ch'] by simp
qed

section \<open>Every operation does what it should under the invariant\<close>

definition conn_inv :: "TcpConnection \<Rightarrow> bool" where
  "conn_inv c \<longleftrightarrow> buffer_inv (inputBuffer c) \<and> buffer_inv (outputBuffer c) \<and> channel_ok (channel c) \<and>
     (case state c of
        kConnecting \<Rightarrow> events (channel c) = 0 \<and> readable (outputBuffer c) = [] \<and> CloseCb \<notin> set (called c)
      | kDisconnected \<Rightarrow> events (channel c) = 0 \<and> count_list (called c) CloseCb = 1
      | _ \<Rightarrow> bit (events (channel c)) 1 \<and> CloseCb \<notin> set (called c) \<and>
             (isWriting (channel c) \<longleftrightarrow> readable (outputBuffer c) \<noteq> []))"

text \<open>The connection after an operation that leaves its state and keeps its write interest.\<close>

definition keeps :: "TcpConnection \<Rightarrow> TcpConnection \<Rightarrow> bool" where
  "keeps c c' \<longleftrightarrow> conn_inv c' \<and> state c' = state c \<and>
     (isWriting (channel c) \<longrightarrow> isWriting (channel c'))"

lemma conn_inv_open:
  "is_open c \<Longrightarrow> conn_inv c \<longleftrightarrow> buffer_inv (inputBuffer c) \<and> buffer_inv (outputBuffer c) \<and>
     channel_ok (channel c) \<and> bit (events (channel c)) 1 \<and> CloseCb \<notin> set (called c) \<and>
     (isWriting (channel c) \<longleftrightarrow> readable (outputBuffer c) \<noteq> [])"
  by (auto simp: conn_inv_def is_open_def)

lemma is_open_simps [simp]:
  "state c = kConnected \<Longrightarrow> is_open c" "state c = kDisconnecting \<Longrightarrow> is_open c"
  "state c = kDisconnected \<Longrightarrow> \<not> is_open c" "state c = kConnecting \<Longrightarrow> \<not> is_open c"
  by (simp_all add: is_open_def)

lemma is_open_iff: "is_open c \<longleftrightarrow> state c \<noteq> kConnecting \<and> state c \<noteq> kDisconnected"
  by (cases "state c") (simp_all add: is_open_def)

lemma not_writing: "events ch = 0 \<Longrightarrow> \<not> isWriting ch" "events ch = 0 \<Longrightarrow> \<not> isReading ch"
  by (simp_all add: isWriting_def isReading_def)

lemma readable_Nil_iff: "buffer_inv b \<Longrightarrow> readableBytes b = 0 \<longleftrightarrow> readable b = []"
  using length_readable [of b] by auto

lemma conn_inv_new: "conn_inv (TcpConnection_new wc hw)"
  using channel_reach_ok [OF chan_new]
  by (simp add: conn_inv_def TcpConnection_new_def Channel_new_def buffer_new_inv readable_new)

text \<open>Fields that the invariant does not constrain.\<close>

lemma conn_inv_fields [simp]:
  "conn_inv (c\<lparr>wire := v\<rparr>) = conn_inv c" "conn_inv (c\<lparr>pending := ts\<rparr>) = conn_inv c"
  "conn_inv (c\<lparr>shutWr := b\<rparr>) = conn_inv c"
  by (simp_all add: conn_inv_def split: ConnectionState.split)

lemma conn_inv_queue [simp]: "conn_inv (queueInLoop t c) = conn_inv c"
  by (simp add: queueInLoop_def)

lemma conn_inv_callback [simp]: "cb \<noteq> CloseCb \<Longrightarrow> conn_inv (callback cb c) = conn_inv c"
  by (simp add: conn_inv_def callback_def split: ConnectionState.split)

lemma queue_fields [simp]:
  "state (queueInLoop t c) = state c" "channel (queueInLoop t c) = channel c"
  "inputBuffer (queueInLoop t c) = inputBuffer c" "outputBuffer (queueInLoop t c) = outputBuffer c"
  "wire (queueInLoop t c) = wire c" "called (queueInLoop t c) = called c"
  "shutWr (queueInLoop t c) = shutWr c" "hasWriteComplete (queueInLoop t c) = hasWriteComplete c"
  "is_open (queueInLoop t c) = is_open c"
  by (simp_all add: queueInLoop_def is_open_def)

lemma callback_fields [simp]:
  "state (callback cb c) = state c" "channel (callback cb c) = channel c"
  "inputBuffer (callback cb c) = inputBuffer c" "outputBuffer (callback cb c) = outputBuffer c"
  "wire (callback cb c) = wire c" "called (callback cb c) = called c @ [cb]"
  "shutWr (callback cb c) = shutWr c" "pending (callback cb c) = pending c"
  by (simp_all add: callback_def)

lemma is_open_fields [simp]:
  "is_open (c\<lparr>channel := ch\<rparr>) = is_open c" "is_open (c\<lparr>outputBuffer := b\<rparr>) = is_open c"
  "is_open (c\<lparr>inputBuffer := b\<rparr>) = is_open c" "is_open (c\<lparr>wire := v\<rparr>) = is_open c"
  "is_open (c\<lparr>shutWr := x\<rparr>) = is_open c" "is_open (c\<lparr>pending := ts\<rparr>) = is_open c"
  "is_open (c\<lparr>called := l\<rparr>) = is_open c"
  by (simp_all add: is_open_def)

lemma outputRest_ok:
  assumes inv: "conn_inv c" and op: "is_open c" and n: "n \<le> length dat"
    and f: "f \<longrightarrow> n = 0" and w: "isWriting (channel c) \<longrightarrow> n = 0"
  shows "\<exists>c'. outputRest f dat n c = Some c' \<and> keeps c c' \<and> wire c' = wire c \<and> shutWr c' = shutWr c \<and>
    readable (outputBuffer c') = readable (outputBuffer c) @ (if f then [] else drop n dat)"
proof (cases "\<not> f \<and> length dat - n > 0")
  case False
  then show ?thesis using assms by (auto simp: outputRest_def keeps_def)
next
  case True
  note i = inv [unfolded conn_inv_open [OF op]]
  let ?rem = "length dat - n"
  define c1 where "c1 = (if hasHighWater c \<and> readableBytes (outputBuffer c) < highWaterMark c
      \<and> readableBytes (outputBuffer c) + ?rem \<ge> highWaterMark c
    then queueInLoop (HighWater (readableBytes (outputBuffer c) + ?rem)) c else c)"
  have c1 [simp]: "state c1 = state c" "channel c1 = channel c" "inputBuffer c1 = inputBuffer c"
    "outputBuffer c1 = outputBuffer c" "wire c1 = wire c" "called c1 = called c" "shutWr c1 = shutWr c"
    "is_open c1 = is_open c"
    by (simp_all add: c1_def)
  obtain ob where ob: "append_ptr (outputBuffer c) (drop n dat) ?rem = Some ob" "buffer_inv ob"
    "readable ob = readable (outputBuffer c) @ drop n dat"
    using append_ptr_ok [of "outputBuffer c" ?rem "drop n dat"] i by auto
  obtain ch where ch: "enableWrite (channel c) = Some ch" "channel_ok ch" "isWriting ch"
    "bit (events ch) 1"
    using enableWrite_ok i by blast
  have "outputRest f dat n c = Some (c1\<lparr>outputBuffer := ob, channel := ch\<rparr>)"
    using True ob ch by (simp add: outputRest_def Let_def c1_def on_channel_def)
  moreover have "conn_inv (c1\<lparr>outputBuffer := ob, channel := ch\<rparr>)"
    using i ob ch op True by (subst conn_inv_open) simp_all
  ultimately show ?thesis using ob ch True by (simp add: keeps_def)
qed

lemma sendInLoop_ok:
  assumes inv: "conn_inv c" and st: "state c \<noteq> kConnecting" and w: "write_ok (length dat) w"
  shows "\<exists>c'. sendInLoop w dat c = Some c' \<and> keeps c c' \<and> shutWr c' = shutWr c \<and>
    wire c' @ readable (outputBuffer c') = wire c @ readable (outputBuffer c) @
      (if state c = kDisconnected then [] else handed w dat c)"
proof (cases "state c = kDisconnected")
  case True
  with inv show ?thesis by (simp add: sendInLoop_def keeps_def)
next
  case False
  with st have op: "is_open c" by (simp add: is_open_iff)
  note i = inv [unfolded conn_inv_open [OF op]]
  show ?thesis
  proof (cases "isWriting (channel c)")
    case True
    then show ?thesis
      using outputRest_ok [OF inv op, of 0 dat False] False by (auto simp: sendInLoop_def handed_def)
  next
    case nw: False
    then have e: "readable (outputBuffer c) = []" "readableBytes (outputBuffer c) = 0"
      using i by (simp_all add: readable_Nil_iff)
    show ?thesis
    proof (cases w)
      case (WriteError e)
      then show ?thesis
        using outputRest_ok [OF inv op, of 0 dat "e = EPIPE \<or> e = ECONNRESET"] nw False \<open>readableBytes _ = 0\<close>
        by (auto simp: sendInLoop_def handed_def)
    next
      case (Written n)
      then have n: "n \<le> length dat" using w by (simp add: write_ok_def)
      let ?c1 = "c\<lparr>wire := wire c @ take n dat\<rparr>"
      define c2 where "c2 = (if length dat - n = 0 \<and> hasWriteComplete c
        then queueInLoop WriteComplete ?c1 else ?c1)"
      have c2: "conn_inv c2" "is_open c2" "state c2 = state c" "wire c2 = wire c @ take n dat"
        "channel c2 = channel c" "outputBuffer c2 = outputBuffer c" "shutWr c2 = shutWr c"
        using inv op by (simp_all add: c2_def)
      obtain c' where "outputRest False dat n c2 = Some c'" "keeps c2 c'" "wire c' = wire c2"
        "shutWr c' = shutWr c2" "readable (outputBuffer c') = drop n dat"
        using outputRest_ok [OF c2(1,2) n, of False] nw e c2 by auto
      moreover have "sendInLoop w dat c = outputRest False dat n c2"
        using False nw e Written by (simp add: sendInLoop_def c2_def Let_def)
      ultimately show ?thesis
        using c2 nw e False Written by (simp add: keeps_def handed_def)
    qed
  qed
qed

lemma shutdownInLoop_ok:
  "conn_inv c \<Longrightarrow> keeps c (shutdownInLoop c) \<and> wire (shutdownInLoop c) = wire c \<and>
     outputBuffer (shutdownInLoop c) = outputBuffer c"
  by (simp add: shutdownInLoop_def keeps_def)

lemma shutdownInLoop_drained:
  assumes "conn_inv c" "state c \<noteq> kConnecting" "\<not> shutWr c" "shutWr (shutdownInLoop c)"
  shows "readable (outputBuffer (shutdownInLoop c)) = []"
  using assms by (cases "is_open c")
    (auto simp: shutdownInLoop_def conn_inv_open is_open_iff split: if_splits)

lemma handleClose_ok:
  assumes "conn_inv c" "is_open c"
  shows "\<exists>c'. handleClose c = Some c' \<and> conn_inv c' \<and> state c' = kDisconnected \<and> wire c' = wire c \<and>
    outputBuffer c' = outputBuffer c \<and> shutWr c' = shutWr c \<and> pending c' = pending c"
proof -
  note i = assms(1) [unfolded conn_inv_open [OF assms(2)]]
  obtain ch where "removeChannel (channel c) = Some ch" "channel_ok ch" "events ch = 0"
    using removeChannel_ok i by blast
  then show ?thesis
    using i assms(2) by (auto simp: handleClose_def is_open_def on_channel_def conn_inv_def)
qed

lemma handleRead_ok:
  assumes inv: "conn_inv c" and op: "is_open c" and r: "read_ok (inputBuffer c) (ReadvData s)"
  shows "\<exists>c'. handleRead (ReadvData s) c = Some c' \<and> conn_inv c' \<and> wire c' = wire c \<and>
    outputBuffer c' = outputBuffer c \<and> shutWr c' = shutWr c \<and> pending c' = pending c \<and>
    (if s = [] then state c' = kDisconnected
     else keeps c c' \<and> readable (inputBuffer c') = readable (inputBuffer c) @ s \<and>
          called c' = called c @ [MessageCb])"
proof -
  note i = inv [unfolded conn_inv_open [OF op]]
  obtain b where b: "readFd (inputBuffer c) (ReadvData s) = Some (b, int (length s), None)"
    "buffer_inv b" "readable b = readable (inputBuffer c) @ s"
    using readFd_ok i r by (fastforce simp: read_ok_def)
  have st: "state c \<noteq> kDisconnected" using op by (simp add: is_open_iff)
  have inv1: "conn_inv (c\<lparr>inputBuffer := b\<rparr>)" using i b op by (simp add: conn_inv_open)
  show ?thesis
  proof (cases "s = []")
    case True
    then show ?thesis
      using handleClose_ok [OF inv1] op b st by (auto simp: handleRead_def Let_def)
  next
    case False
    then show ?thesis
      using b st inv1 by (simp add: handleRead_def Let_def keeps_def)
  qed
qed

lemma handleWrite_ok:
  assumes inv: "conn_inv c" and st: "state c = kDisconnected \<or> is_open c \<and> isWriting (channel c)"
    and w: "write_ok (readableBytes (outputBuffer c)) w"
  shows "\<exists>c'. handleWrite w c = Some c' \<and> conn_inv c' \<and> state c' = state c \<and>
    wire c' @ readable (outputBuffer c') = wire c @ readable (outputBuffer c) \<and>
    (\<not> shutWr c \<and> shutWr c' \<longrightarrow> readable (outputBuffer c') = []) \<and>
    (state c = kDisconnecting \<and> w = Written (readableBytes (outputBuffer c)) \<longrightarrow>
       shutWr c' \<and> readable (outputBuffer c') = [])"
proof (cases "state c = kDisconnected")
  case True
  with inv show ?thesis by (simp add: handleWrite_def)
next
  case False
  then have op: "is_open c" and wr: "isWriting (channel c)" using st by auto
  note i = inv [unfolded conn_inv_open [OF op]]
  have ne: "readableBytes (outputBuffer c) \<noteq> 0"
    using i wr readable_Nil_iff [of "outputBuffer c"] by simp
  show ?thesis
  proof (cases w)
    case (WriteError e)
    then show ?thesis using False ne wr inv by (simp add: handleWrite_def)
  next
    case (Written n)
    then have n: "n \<le> readableBytes (outputBuffer c)" using w by (simp add: write_ok_def)
    then obtain ob where ob: "retrieve (outputBuffer c) n = Some ob" "buffer_inv ob"
      "readable ob = drop n (readable (outputBuffer c))"
      using retrieve_ok i by blast
    let ?c1 = "c\<lparr>outputBuffer := ob, wire := wire c @ take n (readable (outputBuffer c))\<rparr>"
    show ?thesis
    proof (cases "readableBytes ob = 0")
      case nz: False
      then have ne2: "readable ob \<noteq> []" using readable_Nil_iff [OF ob(2)] by simp
      then have inv1: "conn_inv ?c1"
        using i ob(2) wr op by (subst conn_inv_open) (simp_all only: is_open_fields, simp_all)
      have nn: "n \<noteq> readableBytes (outputBuffer c)"
        using ne2 ob(3) i by (auto simp: length_readable)
      have "handleWrite w c = Some ?c1"
        unfolding handleWrite_def Written
        by (simp only: False ne wr ob nz Let_def write_result.case option.case if_True if_False simp_thms)
      then show ?thesis using inv1 nn False ob(3) Written by simp
    next
      case z: True
      then have ze: "readable ob = []" using readable_Nil_iff [OF ob(2)] by simp
      obtain ch where ch: "disableWrite (channel c) = Some ch" "channel_ok ch" "bit (events ch) 1"
        "\<not> isWriting ch"
        using disable_ok(2) i by blast
      let ?c2 = "?c1\<lparr>channel := ch\<rparr>"
      define c3 where "c3 = (if state c = kDisconnecting then shutdownInLoop ?c2 else ?c2)"
      define c4 where "c4 = (if hasWriteComplete c3 then queueInLoop WriteComplete c3 else c3)"
      have "conn_inv ?c2" using i ob ch op ze by (subst conn_inv_open) simp_all
      then have inv4: "conn_inv c4"
        using shutdownInLoop_ok [of ?c2] by (simp add: c4_def c3_def keeps_def)
      have sh: "state c = kDisconnecting \<longrightarrow> shutWr c4"
        using ch by (simp add: c4_def c3_def shutdownInLoop_def)
      have fields: "state c4 = state c" "outputBuffer c4 = ob"
        "wire c4 = wire c @ take n (readable (outputBuffer c))"
        by (simp_all add: c4_def c3_def shutdownInLoop_def)
      have oc: "on_channel disableWrite ?c1 = Some ?c2" using ch by (simp add: on_channel_def)
      have "state ?c2 = state c" by simp
      then have "handleWrite w c = Some c4"
        unfolding handleWrite_def Written c4_def c3_def
        by (simp only: False ne wr ob z oc Let_def write_result.case option.case if_True if_False
            simp_thms option.map)
      then show ?thesis using inv4 sh fields ob ze by simp
    qed
  qed
qed

lemma keeps_refl: "conn_inv c \<Longrightarrow> keeps c c"
  by (simp add: keeps_def)

lemma send_ok:
  assumes "conn_inv c" "write_ok (length dat) w"
  shows "\<exists>c'. send True w dat c = Some c' \<and> keeps c c' \<and> shutWr c' = shutWr c \<and>
    wire c' @ readable (outputBuffer c') = wire c @ readable (outputBuffer c) @
      (if state c = kConnected then handed w dat c else [])"
  using sendInLoop_ok [OF assms(1) _ assms(2)] assms(1) by (auto simp: send_def keeps_def)

text \<open>What remains the same when only the state, the tasks or the reading interest change.\<close>

definition same_output :: "TcpConnection \<Rightarrow> TcpConnection \<Rightarrow> bool" where
  "same_output c c' \<longleftrightarrow> wire c' = wire c \<and> outputBuffer c' = outputBuffer c"

lemma stopRead_ok:
  assumes "conn_inv c"
  shows "\<exists>c'. stopReadInLoop c = Some c' \<and> keeps c c' \<and> same_output c c' \<and> shutWr c' = shutWr c"
proof (cases "isReading (channel c)")
  case False
  with assms show ?thesis by (simp add: stopReadInLoop_def keeps_def same_output_def)
next
  case True
  then have "events (channel c) \<noteq> 0" using not_writing(2) by blast
  then have op: "is_open c" using assms by (auto simp: conn_inv_def is_open_iff)
  note i = assms [unfolded conn_inv_open [OF op]]
  obtain ch where ch: "disableRead (channel c) = Some ch" "channel_ok ch" "bit (events ch) 1"
    "isWriting ch = isWriting (channel c)"
    using disable_ok(1) i by blast
  have "conn_inv (c\<lparr>channel := ch\<rparr>)" using i ch op by (subst conn_inv_open) simp_all
  then show ?thesis using True ch by (simp add: stopReadInLoop_def on_channel_def keeps_def same_output_def)
qed

lemma startRead_ok:
  assumes "conn_inv c" and op: "is_open c"
  shows "\<exists>c'. startReadInLoop c = Some c' \<and> keeps c c' \<and> same_output c c' \<and> shutWr c' = shutWr c"
proof (cases "isReading (channel c)")
  case True
  with assms show ?thesis by (simp add: startReadInLoop_def keeps_def same_output_def)
next
  case False
  note i = assms(1) [unfolded conn_inv_open [OF op]]
  obtain ch where ch: "enableRead (channel c) = Some ch" "channel_ok ch" "bit (events ch) 1"
    "isWriting ch = isWriting (channel c)"
    using enableRead_ok i by blast
  have "conn_inv (c\<lparr>channel := ch\<rparr>)" using i ch op by (subst conn_inv_open) simp_all
  then show ?thesis using False ch by (simp add: startReadInLoop_def on_channel_def keeps_def same_output_def)
qed

lemma establish_ok:
  assumes "conn_inv c" "state c = kConnecting"
  shows "\<exists>c'. connectEstablished c = Some c' \<and> conn_inv c' \<and> state c' = kConnected \<and> same_output c c'
    \<and> shutWr c' = shutWr c \<and> pending c' = pending c"
proof -
  have i: "buffer_inv (inputBuffer c)" "buffer_inv (outputBuffer c)" "channel_ok (channel c)"
    "events (channel c) = 0" "readable (outputBuffer c) = []" "CloseCb \<notin> set (called c)"
    using assms by (auto simp: conn_inv_def)
  obtain ch where ch: "enableRead (channel c) = Some ch" "channel_ok ch" "bit (events ch) 1"
    "\<not> isWriting ch"
    using enableRead_ok [OF i(3)] not_writing [OF i(4)] by blast
  have "conn_inv (c\<lparr>state := kConnected, channel := ch\<rparr>)"
    using i ch by (subst conn_inv_open) simp_all
  then show ?thesis
    using ch assms(2) by (simp add: connectEstablished_def on_channel_def same_output_def)
qed

lemma disconnecting_ok:
  assumes "conn_inv c" "is_open c"
  shows "conn_inv (c\<lparr>state := kDisconnecting\<rparr>)"
  using assms by (auto simp: conn_inv_open is_open_def)

lemma retrieveInput_ok:
  assumes "conn_inv c" "n \<le> readableBytes (inputBuffer c)"
  shows "\<exists>c'. retrieveInput n c = Some c' \<and> keeps c c' \<and> same_output c c' \<and> shutWr c' = shutWr c"
proof -
  obtain b where b: "retrieve (inputBuffer c) n = Some b" "buffer_inv b"
    using retrieve_ok assms by (metis conn_inv_def)
  then have "conn_inv (c\<lparr>inputBuffer := b\<rparr>)"
    using assms(1) by (auto simp: conn_inv_def split: ConnectionState.splits)
  then show ?thesis using b by (simp add: retrieveInput_def keeps_def same_output_def)
qed

section \<open>The system\<close>

definition sys_inv :: "ConnSystem \<Rightarrow> bool" where
  "sys_inv s \<longleftrightarrow> conn_inv (conn s) \<and> distinct (dispatch s) \<and>
     (state (conn s) = kConnecting \<longrightarrow> pending (conn s) = [] \<and> dispatch s = [] \<and> midway s = []) \<and>
     (CloseCallback \<in> set (dispatch s) \<longrightarrow> ReadCallback \<notin> set (dispatch s) \<and> is_open (conn s)) \<and>
     (ReadCallback \<in> set (dispatch s) \<longrightarrow> is_open (conn s)) \<and>
     (WriteCallback \<in> set (dispatch s) \<longrightarrow>
        state (conn s) = kDisconnected \<or> is_open (conn s) \<and> isWriting (channel (conn s)))"

lemma sys_inv_keeps:
  assumes "sys_inv s" "keeps (conn s) c'" "state (conn s) \<noteq> kConnecting"
  shows "sys_inv (s\<lparr>conn := c'\<rparr>)"
  using assms by (auto simp: sys_inv_def keeps_def is_open_def)

lemma sys_inv_midway:
  "sys_inv s \<Longrightarrow> state (conn s) \<noteq> kConnecting \<Longrightarrow> sys_inv (s\<lparr>midway := m\<rparr>)"
  by (auto simp: sys_inv_def)

lemma sys_inv_dispatch_rest:
  assumes "sys_inv s" "dispatch s = cb # rest"
  shows "sys_inv (s\<lparr>dispatch := rest\<rparr>)" "state (conn s) \<noteq> kConnecting" "cb \<notin> set rest"
  using assms by (auto simp: sys_inv_def)

lemma sys_inv_new: "sys_inv (ConnSystem_new wc hw)"
  using conn_inv_new by (simp add: sys_inv_def ConnSystem_new_def TcpConnection_new_def)

lemma sys_inv_open_change:
  assumes "sys_inv s" "is_open (conn s)" "conn_inv c'" "is_open c'"
    "isWriting (channel (conn s)) \<longrightarrow> isWriting (channel c')"
  shows "sys_inv (s\<lparr>conn := c'\<rparr>)"
proof -
  have "state c' \<noteq> kConnecting" using assms(4) by (simp add: is_open_iff)
  moreover have "state (conn s) \<noteq> kDisconnected" using assms(2) by (simp add: is_open_iff)
  ultimately show ?thesis using assms unfolding sys_inv_def by simp
qed

text \<open>After the state has moved on to \<open>kDisconnecting\<close> from an open one.\<close>

lemma sys_inv_disconnecting:
  "sys_inv s \<Longrightarrow> is_open (conn s) \<Longrightarrow> sys_inv (s\<lparr>conn := (conn s)\<lparr>state := kDisconnecting\<rparr>\<rparr>)"
  by (rule sys_inv_open_change) (auto simp: disconnecting_ok sys_inv_def)

lemma sys_inv_closed:
  assumes "sys_inv s" "conn_inv c'" "state c' = kDisconnected"
    "ReadCallback \<notin> set (dispatch s)" "CloseCallback \<notin> set (dispatch s)"
  shows "sys_inv (s\<lparr>conn := c'\<rparr>)"
  using assms by (auto simp: sys_inv_def)

text \<open>
  What one action may change: the state moves forward, the output is
  extended by the payload, and \<open>SHUT_WR\<close> comes when nothing is left to write.
\<close>

definition stream_of :: "TcpConnection \<Rightarrow> string" where
  "stream_of c = wire c @ readable (outputBuffer c)"

definition advances :: "string \<Rightarrow> TcpConnection \<Rightarrow> TcpConnection \<Rightarrow> bool" where
  "advances p c c' \<longleftrightarrow> rank (state c) \<le> rank (state c') \<and> stream_of c' = stream_of c @ p \<and>
     (\<not> shutWr c \<and> shutWr c' \<longrightarrow> readable (outputBuffer c') = [])"

lemma advances_same:
  "rank (state c) \<le> rank (state c') \<Longrightarrow> same_output c c' \<Longrightarrow> shutWr c' = shutWr c \<Longrightarrow> advances [] c c'"
  by (simp add: advances_def same_output_def stream_of_def)

text \<open>What every allowed action achieves.\<close>

definition progress :: "conn_action \<Rightarrow> ConnSystem \<Rightarrow> bool" where
  "progress a s \<longleftrightarrow> (\<exists>s'. perform a s = Some s' \<and> sys_inv s' \<and> advances (payload a s) (conn s) (conn s'))"

lemma progressI:
  "perform a s = Some s' \<Longrightarrow> sys_inv s' \<Longrightarrow> advances (payload a s) (conn s) (conn s') \<Longrightarrow> progress a s"
  by (auto simp: progress_def)

lemma progress_keeps:
  assumes "sys_inv s" "state (conn s) \<noteq> kConnecting" "perform a s = on_conn f s"
    and "f (conn s) = Some c'" "keeps (conn s) c'" "shutWr c' = shutWr (conn s)"
    and "stream_of c' = stream_of (conn s) @ payload a s"
  shows "progress a s"
proof (rule progressI)
  show "perform a s = Some (s\<lparr>conn := c'\<rparr>)" using assms(3,4) by (simp add: on_conn_def)
  show "sys_inv (s\<lparr>conn := c'\<rparr>)" using sys_inv_keeps [OF assms(1,5,2)] .
  show "advances (payload a s) (conn s) (conn (s\<lparr>conn := c'\<rparr>))"
    using assms(5-) by (simp add: advances_def keeps_def)
qed

lemma stream_same: "same_output c c' \<Longrightarrow> stream_of c' = stream_of c"
  by (simp add: same_output_def stream_of_def)

lemma progress_midway:
  assumes "sys_inv s" "state (conn s) \<noteq> kConnecting" "perform a s = Some (s\<lparr>midway := m\<rparr>)"
    "payload a s = []"
  shows "progress a s"
proof (rule progressI [OF assms(3)])
  show "sys_inv (s\<lparr>midway := m\<rparr>)" using sys_inv_midway assms(1,2) .
  show "advances (payload a s) (conn s) (conn (s\<lparr>midway := m\<rparr>))"
    using assms(4) by (simp add: advances_def)
qed

lemma perform_establish:
  assumes "sys_inv s" "state (conn s) = kConnecting"
  shows "progress Establish s"
proof -
  obtain c' where c': "connectEstablished (conn s) = Some c'" "conn_inv c'" "state c' = kConnected"
    "same_output (conn s) c'" "shutWr c' = shutWr (conn s)" "pending c' = pending (conn s)"
    using establish_ok [of "conn s"] assms by (auto simp: sys_inv_def)
  show ?thesis
  proof (rule progressI)
    show "perform Establish s = Some (s\<lparr>conn := c'\<rparr>)" using c' by (simp add: on_conn_def)
    show "sys_inv (s\<lparr>conn := c'\<rparr>)" using assms c' by (simp add: sys_inv_def)
    show "advances (payload Establish s) (conn s) (conn (s\<lparr>conn := c'\<rparr>))"
      using c' assms(2) by (simp add: advances_same)
  qed
qed

lemma perform_send:
  assumes "sys_inv s" "state (conn s) \<noteq> kConnecting" "write_ok (length dat) w"
  shows "progress (LSend w dat) s"
proof -
  obtain c' where "send True w dat (conn s) = Some c'" "keeps (conn s) c'" "shutWr c' = shutWr (conn s)"
    "stream_of c' = stream_of (conn s) @ payload (LSend w dat) s"
    using send_ok [of "conn s" dat w] assms by (auto simp: sys_inv_def stream_of_def)
  then show ?thesis using progress_keeps [OF assms(1,2), of _ "send True w dat"] by simp
qed

lemma perform_shutdown:
  assumes "sys_inv s" "is_open (conn s)"
  shows "progress LShutdown s"
proof -
  let ?d = "(conn s)\<lparr>state := kDisconnecting\<rparr>"
  let ?c = "if state (conn s) = kConnected then shutdownInLoop ?d else ?d"
  have d: "conn_inv ?d" using disconnecting_ok assms by (auto simp: sys_inv_def)
  have c: "conn_inv ?c" "state ?c = kDisconnecting" "isWriting (channel ?c) = isWriting (channel (conn s))"
    "stream_of ?c = stream_of (conn s)"
    using d by (auto simp: shutdownInLoop_def stream_of_def)
  show ?thesis
  proof (rule progressI)
    show "perform LShutdown s = Some (s\<lparr>conn := ?c\<rparr>)"
      using assms(2) by (auto simp: on_conn_def shutdown_def stateAtomicGetAndSet_def is_open_def)
    show "sys_inv (s\<lparr>conn := ?c\<rparr>)"
      using sys_inv_open_change [OF assms] c by (simp add: is_open_def)
    have "\<not> shutWr (conn s) \<and> shutWr ?c \<longrightarrow> readable (outputBuffer ?c) = []"
      using shutdownInLoop_drained [OF d] by simp
    then show "advances (payload LShutdown s) (conn s) (conn (s\<lparr>conn := ?c\<rparr>))"
      using c assms(2) by (simp add: advances_def is_open_def) auto
  qed
qed

lemma perform_forceClose:
  assumes "sys_inv s" "state (conn s) \<noteq> kConnecting"
  shows "progress LForceClose s"
proof -
  let ?d = "(conn s)\<lparr>state := kDisconnecting\<rparr>"
  let ?c = "if state (conn s) = kDisconnected then conn s else queueInLoop ForceCloseInLoop ?d"
  have p: "perform LForceClose s = Some (s\<lparr>conn := ?c\<rparr>)"
    by (simp add: on_conn_def forceClose_def stateAtomicGetAndSet_def)
  show ?thesis
  proof (cases "is_open (conn s)")
    case True
    show ?thesis
    proof (rule progressI [OF p])
      show "sys_inv (s\<lparr>conn := ?c\<rparr>)"
        using sys_inv_open_change [OF assms(1) True, of ?c] disconnecting_ok [of "conn s"] True assms(1)
        by (auto simp: sys_inv_def is_open_iff)
      show "advances (payload LForceClose s) (conn s) (conn (s\<lparr>conn := ?c\<rparr>))"
        using True by (auto simp: advances_def stream_of_def is_open_def)
    qed
  next
    case False
    then show ?thesis
      using assms progressI [OF p] by (simp add: is_open_iff advances_def)
  qed
qed

lemma perform_reading:
  assumes "sys_inv s" "state (conn s) \<noteq> kConnecting"
  shows "progress LStopRead s"
    and "is_open (conn s) \<Longrightarrow> progress LStartRead s"
    and "n \<le> readableBytes (inputBuffer (conn s)) \<Longrightarrow> progress (LRetrieve n) s"
proof -
  have inv: "conn_inv (conn s)" using assms by (simp add: sys_inv_def)
  note k = progress_keeps [OF assms]
  show "progress LStopRead s"
    using stopRead_ok [OF inv] k [of LStopRead stopReadInLoop] stream_same by auto
  show "progress LStartRead s" if "is_open (conn s)"
    using startRead_ok [OF inv that] k [of LStartRead startReadInLoop] stream_same by auto
  show "progress (LRetrieve n) s" if "n \<le> readableBytes (inputBuffer (conn s))"
    using retrieveInput_ok [OF inv that] k [of "LRetrieve n" "retrieveInput n"] stream_same by auto
qed

lemma perform_enter:
  assumes "sys_inv s" "state (conn s) \<noteq> kConnecting"
  shows "progress (OSend dat) s" "progress OForceClose s" "progress OStopRead s"
    "progress OStartRead s" "is_open (conn s) \<Longrightarrow> progress OShutdown s"
proof -
  have *: "progress a s" if "perform a s = Some (s\<lparr>midway := m\<rparr>)" "payload a s = []" for a m
    using that progress_midway [OF assms] by auto
  have self: "s = s\<lparr>midway := midway s\<rparr>" by simp
  show "progress OStopRead s" "progress OStartRead s"
    by (rule * [of _ "midway s @ [MidQueue _]"], simp_all add: enter_def)+
  show "progress OShutdown s" if "is_open (conn s)"
    using that by (intro * [of _ "midway s @ [MidShutdown]"]) (simp_all add: enter_def is_open_iff)
  show "progress (OSend dat) s"
    using * [of "OSend dat" "midway s @ [MidQueue (SendInLoop dat)]"] * [of "OSend dat" "midway s"]
    by (cases "state (conn s) = kConnected") (simp_all add: enter_def)
  show "progress OForceClose s"
    using * [of OForceClose "midway s @ [MidForceClose]"] * [of OForceClose "midway s"]
    by (cases "state (conn s) = kDisconnected") (simp_all add: enter_def)
qed

lemma advances_disconnecting:
  "is_open c \<Longrightarrow> advances [] c (c\<lparr>state := kDisconnecting\<rparr>)"
  by (auto simp: advances_def stream_of_def is_open_def)

lemma perform_resume:
  assumes "sys_inv s" "i < length (midway s)"
    and "case midway s ! i of MidQueue _ \<Rightarrow> True | _ \<Rightarrow> is_open (conn s)"
  shows "progress (OResume i) s"
proof -
  have st: "state (conn s) \<noteq> kConnecting" using assms(1,2) by (auto simp: sys_inv_def)
  let ?m = "take i (midway s) @ drop (Suc i) (midway s)"
  let ?d = "s\<lparr>conn := (conn s)\<lparr>state := kDisconnecting\<rparr>\<rparr>"
  have fin: "progress (OResume i) s"
    if "perform (OResume i) s = Some (s1\<lparr>midway := m\<rparr>)" "sys_inv s1"
      "state (conn s1) \<noteq> kConnecting" "advances [] (conn s) (conn s1)" for s1 m
    using that progressI [OF that(1)] sys_inv_midway [OF that(2,3)] by simp
  show ?thesis
  proof (cases "midway s ! i")
    case MidShutdown
    then have op: "is_open (conn s)" using assms(3) by simp
    then show ?thesis
      using fin [of ?m ?d] fin [of "?m @ [MidQueue ShutdownInLoop]" ?d] MidShutdown sys_inv_disconnecting [OF assms(1) op] advances_disconnecting [OF op]
      by (cases "state (conn s) = kConnected") (simp_all add: enter_def stateAtomicGetAndSet_def)
  next
    case MidForceClose
    then have op: "is_open (conn s)" using assms(3) by simp
    then show ?thesis
      using fin [of "?m @ [MidQueue ForceCloseInLoop]" ?d] MidForceClose sys_inv_disconnecting [OF assms(1) op] advances_disconnecting [OF op]
      by (simp add: enter_def stateAtomicGetAndSet_def is_open_iff)
  next
    case (MidQueue t)
    let ?q = "queueInLoop t (conn s)"
    have "keeps (conn s) ?q" using assms(1) by (simp add: keeps_def sys_inv_def)
    then have inv: "sys_inv (s\<lparr>conn := ?q\<rparr>)" using sys_inv_keeps assms(1) st by blast
    have "advances [] (conn s) ?q" by (simp add: advances_def stream_of_def)
    then show ?thesis
      using fin [of ?m "s\<lparr>conn := ?q\<rparr>"] MidQueue inv st by simp
  qed
qed

lemma perform_poll:
  assumes "sys_inv s" "dispatch s = []" "poll_ok revs (channel (conn s))"
    and "revs AND EPOLLHUP \<noteq> 0 \<and> revs AND EPOLLIN = 0 \<longrightarrow> revs AND EPOLLPRI = 0"
  shows "progress (Poll revs) s"
proof -
  have op: "is_open (conn s)"
    using assms(1,3) by (cases "state (conn s)") (simp_all add: sys_inv_def conn_inv_def poll_ok_def)
  have w: "revs AND EPOLLOUT \<noteq> 0 \<longrightarrow> isWriting (channel (conn s))" using assms(3) by (simp add: poll_ok_def)
  have r: "revs AND (EPOLLIN OR EPOLLPRI OR EPOLLRDHUP) = 0"
    if "revs AND EPOLLHUP \<noteq> 0" "revs AND EPOLLIN = 0"
    using that assms(3,4) by (simp add: poll_ok_def bit.conj_disj_distrib)
  show ?thesis
  proof (rule progressI)
    show "perform (Poll revs) s = Some (s\<lparr>dispatch := handleEventsWithGuard revs\<rparr>)" by simp
    show "sys_inv (s\<lparr>dispatch := handleEventsWithGuard revs\<rparr>)"
      using assms(1,2) op w r unfolding sys_inv_def
      by (auto simp: handleEventsWithGuard_def is_open_iff)
    show "advances (payload (Poll revs) s) (conn s) (conn (s\<lparr>dispatch := handleEventsWithGuard revs\<rparr>))"
      by (simp add: advances_def)
  qed
qed

lemma closed_stream:
  "wire c' = wire c \<Longrightarrow> outputBuffer c' = outputBuffer c \<Longrightarrow> shutWr c' = shutWr c \<Longrightarrow>
   state c' = kDisconnected \<Longrightarrow> advances [] c c'"
  by (cases "state c") (simp_all add: advances_def stream_of_def)

lemma perform_dispatch:
  assumes inv: "sys_inv s" and ne: "dispatch s \<noteq> []" and r: "read_ok (inputBuffer (conn s)) r"
    and w: "write_ok (readableBytes (outputBuffer (conn s))) w"
    and p: "case dispatch s of ReadCallback # _ \<Rightarrow> (case r of ReadvData _ \<Rightarrow> True | _ \<Rightarrow> False) | _ \<Rightarrow> True"
  shows "progress (Dispatch r w) s"
proof -
  obtain cb rest where d: "dispatch s = cb # rest" using ne by (cases "dispatch s") auto
  let ?s = "s\<lparr>dispatch := rest\<rparr>"
  note rest = sys_inv_dispatch_rest [OF inv d]
  have ci: "conn_inv (conn s)" using inv by (simp add: sys_inv_def)
  have perf: "perform (Dispatch r w) s = on_conn (onChannelEvent r w cb) ?s" using d by simp
  have did: "progress (Dispatch r w) s"
    if "onChannelEvent r w cb (conn s) = Some c'" "sys_inv (?s\<lparr>conn := c'\<rparr>)" "advances [] (conn s) c'" for c'
    using progressI [of "Dispatch r w" s "?s\<lparr>conn := c'\<rparr>"] that perf by (simp add: on_conn_def)
  show ?thesis
  proof (cases cb)
    case CloseCallback
    then have op: "is_open (conn s)" and nr: "ReadCallback \<notin> set rest" "CloseCallback \<notin> set rest"
      using inv d by (auto simp: sys_inv_def)
    obtain c' where c': "handleClose (conn s) = Some c'" "conn_inv c'" "state c' = kDisconnected"
      "wire c' = wire (conn s)" "outputBuffer c' = outputBuffer (conn s)" "shutWr c' = shutWr (conn s)"
      using handleClose_ok [OF ci op] by blast
    then show ?thesis
      using did [of c'] CloseCallback sys_inv_closed [OF rest(1), of c'] nr closed_stream [of c' "conn s"]
      by simp
  next
    case ErrorCallback
    then show ?thesis using did [of "conn s"] rest by (simp add: advances_def)
  next
    case ReadCallback
    then obtain dat where dat: "r = ReadvData dat" using p d by (cases r) auto
    have op: "is_open (conn s)" and nr: "ReadCallback \<notin> set rest" "CloseCallback \<notin> set rest"
      using inv d ReadCallback by (auto simp: sys_inv_def)
    obtain c' where c': "handleRead r (conn s) = Some c'" "conn_inv c'" "wire c' = wire (conn s)"
      "outputBuffer c' = outputBuffer (conn s)" "shutWr c' = shutWr (conn s)"
      "if dat = [] then state c' = kDisconnected else keeps (conn s) c'"
      using handleRead_ok [OF ci op, of dat] r dat by (auto split: if_splits)
    show ?thesis
    proof (cases "dat = []")
      case True
      then show ?thesis
        using did [of c'] ReadCallback c' sys_inv_closed [OF rest(1), of c'] nr
          closed_stream [of c' "conn s"] by simp
    next
      case False
      then have k: "keeps (conn s) c'" using c' by simp
      then have "advances [] (conn s) c'"
        using c' by (simp add: advances_def stream_of_def keeps_def)
      then show ?thesis
        using did [of c'] ReadCallback c' sys_inv_keeps [OF rest(1), of c'] k rest(2) by simp
    qed
  next
    case WriteCallback
    then have st: "state (conn s) = kDisconnected \<or> is_open (conn s) \<and> isWriting (channel (conn s))"
      and nw: "WriteCallback \<notin> set rest"
      using inv d by (auto simp: sys_inv_def)
    obtain c' where c': "handleWrite w (conn s) = Some c'" "conn_inv c'" "state c' = state (conn s)"
      "stream_of c' = stream_of (conn s)" "\<not> shutWr (conn s) \<and> shutWr c' \<longrightarrow> readable (outputBuffer c') = []"
      using handleWrite_ok [OF ci st w] by (auto simp: stream_of_def)
    have "sys_inv (?s\<lparr>conn := c'\<rparr>)"
      using rest(1,2) nw c'(2,3) by (simp add: sys_inv_def is_open_iff)
    then show ?thesis using did [of c'] WriteCallback c' by (simp add: advances_def)
  qed
qed

lemma perform_task:
  assumes inv: "sys_inv s" and d: "dispatch s = []" and en: "enabled (RunPending w) s"
    and pol: "polite (RunPending w) s"
  shows "progress (RunPending w) s"
proof -
  obtain t ts where t: "pending (conn s) = t # ts"
    using en by (cases "pending (conn s)") auto
  have st: "state (conn s) \<noteq> kConnecting" using inv t by (auto simp: sys_inv_def)
  let ?c = "(conn s)\<lparr>pending := ts\<rparr>"
  have ci: "conn_inv ?c" using inv by (simp add: sys_inv_def)
  have perf: "perform (RunPending w) s = on_conn (\<lambda>c. runTask w t (c\<lparr>pending := ts\<rparr>)) s"
    using t by simp
  have did: "progress (RunPending w) s"
    if "runTask w t ?c = Some c'" "keeps ?c c'" "shutWr c' = shutWr ?c"
      "stream_of c' = stream_of ?c @ payload (RunPending w) s" for c'
    using progress_keeps [OF inv st perf, of c'] that by (simp add: keeps_def stream_of_def)
  have plain: "progress (RunPending w) s"
    if "runTask w t ?c = Some c'" "keeps ?c c'" "shutWr c' = shutWr ?c" "same_output ?c c'"
      "payload (RunPending w) s = []" for c'
    using did [of c'] that stream_same [OF that(4)] by simp
  show ?thesis
  proof (cases t)
    case (SendInLoop dat)
    then have "write_ok (length dat) w" using en t by simp
    then obtain c' where "sendInLoop w dat ?c = Some c'" "keeps ?c c'" "shutWr c' = shutWr ?c"
      "stream_of c' = stream_of ?c @ payload (RunPending w) s"
      using sendInLoop_ok [OF ci, of dat w] st t SendInLoop by (auto simp: stream_of_def handed_def)
    then show ?thesis using did SendInLoop by simp
  next
    case ShutdownInLoop
    let ?s = "s\<lparr>conn := shutdownInLoop ?c\<rparr>"
    have k: "keeps ?c (shutdownInLoop ?c)" "same_output ?c (shutdownInLoop ?c)"
      using shutdownInLoop_ok [OF ci] by (simp_all add: same_output_def)
    show ?thesis
    proof (rule progressI)
      show "perform (RunPending w) s = Some ?s" using perf ShutdownInLoop by (simp add: on_conn_def)
      show "sys_inv ?s" using sys_inv_keeps [OF inv _ st, of "shutdownInLoop ?c"] k by (simp add: keeps_def)
      have "\<not> shutWr (conn s) \<and> shutWr (shutdownInLoop ?c) \<longrightarrow> readable (outputBuffer (shutdownInLoop ?c)) = []"
        using shutdownInLoop_drained [OF ci] st by simp
      then show "advances (payload (RunPending w) s) (conn s) (conn ?s)"
        using k t ShutdownInLoop by (simp add: advances_def keeps_def same_output_def stream_of_def)
    qed
  next
    case ForceCloseInLoop
    show ?thesis
    proof (cases "state (conn s) = kDisconnected")
      case True
      then show ?thesis using plain [of ?c] ForceCloseInLoop ci t
        by (simp add: forceCloseInLoop_def keeps_def same_output_def)
    next
      case False
      then have "is_open ?c" using st by (simp add: is_open_iff)
      then obtain c' where c': "handleClose ?c = Some c'" "conn_inv c'" "state c' = kDisconnected"
        "wire c' = wire ?c" "outputBuffer c' = outputBuffer ?c" "shutWr c' = shutWr ?c"
        using handleClose_ok [OF ci] by blast
      show ?thesis
      proof (rule progressI)
        show "perform (RunPending w) s = Some (s\<lparr>conn := c'\<rparr>)"
          using perf ForceCloseInLoop c' False by (simp add: on_conn_def forceCloseInLoop_def)
        show "sys_inv (s\<lparr>conn := c'\<rparr>)" using sys_inv_closed [OF inv c'(2,3)] d by simp
        show "advances (payload (RunPending w) s) (conn s) (conn (s\<lparr>conn := c'\<rparr>))"
          using closed_stream [of c' "conn s"] c' t ForceCloseInLoop by simp
      qed
    qed
  next
    case StopRead
    then show ?thesis using stopRead_ok [OF ci] plain t by auto
  next
    case StartRead
    then have "is_open ?c" using pol t by simp
    then show ?thesis using startRead_ok [OF ci] plain t StartRead by auto
  next
    case WriteComplete
    then show ?thesis using plain [of "callback WriteCompleteCb ?c"] ci t
      by (simp add: keeps_def same_output_def)
  next
    case (HighWater n)
    then show ?thesis using plain [of "callback (HighWaterMarkCb n) ?c"] ci t
      by (simp add: keeps_def same_output_def)
  next
    case ConnectDestroyed
    then show ?thesis using plain [of "connectDestroyed ?c"] ci t
      by (simp add: keeps_def same_output_def connectDestroyed_def)
  qed
qed

lemma perform_destroyed:
  assumes "sys_inv s" "state (conn s) \<noteq> kConnecting"
  shows "progress Destroyed s"
  using progress_keeps [OF assms, of Destroyed "\<lambda>c. Some (queueInLoop ConnectDestroyed c)"] assms
  by (simp add: keeps_def sys_inv_def stream_of_def)

lemma good_progress:
  assumes "sys_inv s" "good a s"
  shows "progress a s"
  using assms
  by (cases a) (auto simp: good_def intro: perform_establish perform_destroyed perform_send perform_shutdown
      perform_forceClose perform_reading perform_enter perform_resume perform_poll perform_dispatch
      perform_task simp del: perform.simps payload.simps split del: if_split)

end
