(* ===== verification/TcpConnectionFacts.thy ===== *)
theory TcpConnectionFacts
  imports TcpConnectionInv
begin

text \<open>
  The properties of a connection among threads: no assertion fails, bytes are written in order,
  a graceful shutdown comes after the last byte, a connection is closed once, and what goes
  wrong when a thread is overtaken between test and exchange.
\<close>

section \<open>Runs\<close>

lemma good_step:
  assumes "sys_inv s" "good a s" "perform a s = Some s'"
  shows "sys_inv s'" "advances (payload a s) (conn s) (conn s')"
  using good_progress [OF assms(1,2)] assms(3) by (auto simp: progress_def)

lemma good_run:
  assumes "conn_run good s0 sent s" "sys_inv s0" "stream_of (conn s0) = []"
  shows "sys_inv s \<and> stream_of (conn s) = sent"
  using assms
proof (induction rule: conn_run.induct)
  case (run_action sent s1 a s2)
  then have i: "sys_inv s1" "stream_of (conn s1) = sent" by auto
  show ?case
    using good_step [OF i(1) run_action.hyps(2,3)] i(2) by (simp add: advances_def)
qed simp_all

lemma stream_new: "stream_of (conn (ConnSystem_new wc hw)) = []"
  by (simp add: ConnSystem_new_def TcpConnection_new_def stream_of_def readable_new)

lemmas good_run_new = good_run [OF _ sys_inv_new stream_new]

text \<open>A run with a message received and one sent, for the witnesses.\<close>

lemma run_established:
  "\<exists>s. conn_run good (ConnSystem_new wc hw) [] s \<and> state (conn s) = kConnected \<and>
     pending (conn s) = [] \<and> dispatch s = [] \<and> \<not> shutWr (conn s)"
proof -
  let ?s = "ConnSystem_new wc hw"
  have n: "state (conn ?s) = kConnecting" "pending (conn ?s) = []" "dispatch ?s = []" "\<not> shutWr (conn ?s)"
    by (simp_all add: ConnSystem_new_def TcpConnection_new_def)
  obtain c' where c': "connectEstablished (conn ?s) = Some c'" "state c' = kConnected"
    "shutWr c' = shutWr (conn ?s)" "pending c' = pending (conn ?s)"
    using establish_ok [of "conn ?s"] n sys_inv_new [of wc hw] by (auto simp: sys_inv_def)
  then have p: "perform Establish ?s = Some (?s\<lparr>conn := c'\<rparr>)" by (simp add: on_conn_def)
  have "conn_run good ?s ([] @ payload Establish ?s) (?s\<lparr>conn := c'\<rparr>)"
    by (rule run_action [OF run_start _ p]) (simp add: good_def n)
  then show ?thesis using c' n by (intro exI [of _ "?s\<lparr>conn := c'\<rparr>"]) simp
qed

text \<open>The peer closes while another thread is within \<open>forceClose\<close>.\<close>

definition overtaken :: "conn_action list" where
  "overtaken = [Establish, OForceClose, Poll EPOLLIN, Dispatch (ReadvData []) (Written 0), OResume 0]"

section \<open>Properties\<close>

text \<open>
  No assertion of the connection, its channel or its buffers fails: in every state that a
  run of permitted actions of the loop's thread, other threads and the kernel reaches, every
  further permitted action returns.
\<close>

theorem connection_never_aborts:
  assumes "conn_run good (ConnSystem_new wc hw) sent s" and "good a s"
  shows "\<exists>s'. perform a s = Some s'"
  using good_progress [of s a] good_run_new [OF assms(1)] assms(2) by (auto simp: progress_def)

theorem connection_never_aborts_witness:
  "\<exists>s s'. conn_run good (ConnSystem_new True (Some 10)) [] s \<and> perform LForceClose s = Some s'"
proof -
  obtain s where s: "conn_run good (ConnSystem_new True (Some 10)) [] s" "state (conn s) = kConnected"
    using run_established by blast
  then have "good LForceClose s" by (simp add: good_def)
  then show ?thesis using connection_never_aborts [OF s(1)] s(1) by blast
qed

text \<open>
  C11: the peer is sent the bytes handed to the connection, each once and in the order in which
  the loop's thread took them: what \<open>write\<close> accepted followed by what the output buffer holds
  is the concatenation of what was handed over, and the channel asks for \<open>EPOLLOUT\<close> exactly
  while there is something left; in all runs that keep the rules of \<open>good\<close>.
\<close>

theorem sent_in_order:
  assumes "conn_run good (ConnSystem_new wc hw) sent s"
  shows "wire (conn s) @ readable (outputBuffer (conn s)) = sent \<and>
    (is_open (conn s) \<longrightarrow> (isWriting (channel (conn s)) \<longleftrightarrow> readable (outputBuffer (conn s)) \<noteq> []))"
  using good_run_new [OF assms] by (auto simp: stream_of_def sys_inv_def conn_inv_open)

theorem sent_in_order_witness:
  "\<exists>s. conn_run good (ConnSystem_new True (Some 4)) ''hello'' s \<and>
     wire (conn s) @ readable (outputBuffer (conn s)) = ''hello''"
proof -
  obtain s where s: "conn_run good (ConnSystem_new True (Some 4)) [] s" "state (conn s) = kConnected"
    using run_established by blast
  have g: "good (LSend (WriteError EAGAIN) ''hello'') s" using s by (simp add: good_def write_ok_def)
  obtain s' where p: "perform (LSend (WriteError EAGAIN) ''hello'') s = Some s'"
    using good_progress [OF _ g] good_run_new [OF s(1)] unfolding progress_def by blast
  have "conn_run good (ConnSystem_new True (Some 4)) ''hello'' s'"
    using run_action [OF s(1) g p] s(2) by (simp add: handed_def)
  then show ?thesis using sent_in_order [of True "Some 4" "''hello''" s'] by blast
qed

text \<open>
  C24: a graceful shutdown loses nothing: when an action sends the FIN (\<open>SHUT_WR\<close>), every byte
  handed over so far has been accepted by \<open>write\<close> and the output buffer is empty.
\<close>

theorem shutdown_after_last_byte:
  assumes "conn_run good (ConnSystem_new wc hw) sent s" and "good a s" and "perform a s = Some s'"
    and "\<not> shutWr (conn s)" and "shutWr (conn s')"
  shows "wire (conn s') = sent @ payload a s \<and> readable (outputBuffer (conn s')) = []"
  using good_step [OF _ assms(2,3)] good_run_new [OF assms(1)] assms(4,5)
  by (auto simp: advances_def stream_of_def)

theorem shutdown_after_last_byte_witness:
  "\<exists>s s'. conn_run good (ConnSystem_new False None) [] s \<and> perform LShutdown s = Some s' \<and>
     wire (conn s') = [] \<and> readable (outputBuffer (conn s')) = []"
proof -
  obtain s where s: "conn_run good (ConnSystem_new False None) [] s" "state (conn s) = kConnected"
    "\<not> shutWr (conn s)"
    using run_established by blast
  have inv: "conn_inv (conn s)" "stream_of (conn s) = []"
    using good_run_new [OF s(1)] by (auto simp: sys_inv_def)
  then have nw: "\<not> isWriting (channel (conn s))"
    using s(2) by (auto simp: conn_inv_open stream_of_def)
  define s' where "s' = s\<lparr>conn := (conn s)\<lparr>state := kDisconnecting, shutWr := True\<rparr>\<rparr>"
  have p: "perform LShutdown s = Some s'"
    using s nw by (simp add: s'_def on_conn_def shutdown_def stateAtomicGetAndSet_def shutdownInLoop_def)
  have "good LShutdown s" using s by (simp add: good_def)
  then have "wire (conn s') = [] @ payload LShutdown s \<and> readable (outputBuffer (conn s')) = []"
    by (rule shutdown_after_last_byte [OF s(1) _ p s(3)]) (simp add: s'_def)
  then show ?thesis using s p by auto
qed

text \<open>
  A shutdown comes to its end: in every reachable state that is shutting down with bytes
  left, one write event in which the kernel accepts all of them empties the buffer and sends
  the FIN.
\<close>

theorem shutdown_finishes:
  assumes "conn_run good (ConnSystem_new wc hw) sent s" and "state (conn s) = kDisconnecting"
    and "isWriting (channel (conn s))"
  shows "\<exists>c. handleWrite (Written (readableBytes (outputBuffer (conn s)))) (conn s) = Some c \<and>
    wire c = sent \<and> readable (outputBuffer c) = [] \<and> shutWr c"
proof -
  have i: "conn_inv (conn s)" "stream_of (conn s) = sent"
    using good_run_new [OF assms(1)] by (auto simp: sys_inv_def)
  show ?thesis
    using handleWrite_ok [OF i(1), of "Written (readableBytes (outputBuffer (conn s)))"] assms(2,3) i(2)
    by (auto simp: write_ok_def stream_of_def)
qed

theorem shutdown_finishes_witness:
  "\<exists>s c. conn_run good (ConnSystem_new False None) ''bye'' s \<and> state (conn s) = kDisconnecting \<and>
     handleWrite (Written (readableBytes (outputBuffer (conn s)))) (conn s) = Some c \<and> shutWr c"
proof -
  let ?send = "LSend (WriteError EAGAIN) ''bye''"
  obtain s where s: "conn_run good (ConnSystem_new False None) [] s" "state (conn s) = kConnected"
    using run_established by blast
  have g: "good ?send s" using s by (simp add: good_def write_ok_def)
  have i: "sys_inv s" "stream_of (conn s) = []" using good_run_new [OF s(1)] by auto
  have o: "readableBytes (outputBuffer (conn s)) = 0" "\<not> isWriting (channel (conn s))"
    using i s(2) by (auto simp: sys_inv_def conn_inv_open stream_of_def readable_Nil_iff)
  obtain c1 where c1: "sendInLoop (WriteError EAGAIN) ''bye'' (conn s) = Some c1" "keeps (conn s) c1"
    "wire c1 @ readable (outputBuffer c1) = ''bye''" "wire c1 = wire (conn s)"
    using sendInLoop_ok [of "conn s" "''bye''" "WriteError EAGAIN"]
      outputRest_ok [of "conn s" 0 "''bye''" False] i s(2) o
    by (auto simp: sys_inv_def write_ok_def stream_of_def handed_def sendInLoop_def)
  let ?s1 = "s\<lparr>conn := c1\<rparr>" and ?s2 = "s\<lparr>conn := c1\<lparr>state := kDisconnecting\<rparr>\<rparr>"
  have w: "isWriting (channel c1)" "state c1 = kConnected"
    using c1 i(2) s(2) by (auto simp: keeps_def conn_inv_open stream_of_def)
  have p1: "perform ?send s = Some ?s1" using c1 s(2) by (simp add: on_conn_def send_def)
  have r1: "conn_run good (ConnSystem_new False None) ''bye'' ?s1"
    using run_action [OF s(1) g p1] s(2) by (simp add: handed_def)
  have p2: "perform LShutdown ?s1 = Some ?s2"
    using w by (simp add: on_conn_def shutdown_def stateAtomicGetAndSet_def shutdownInLoop_def)
  have "conn_run good (ConnSystem_new False None) (''bye'' @ payload LShutdown ?s1) ?s2"
    by (rule run_action [OF r1 _ p2]) (simp add: good_def w)
  then show ?thesis using shutdown_finishes [of False None "''bye''" ?s2] w by auto
qed

text \<open>
  The state only moves forward (connecting, connected, disconnecting, disconnected), and the
  close callback is called once, when the connection becomes disconnected and leaves the poller.
\<close>

theorem closed_once:
  assumes "conn_run good (ConnSystem_new wc hw) sent s" and "good a s" and "perform a s = Some s'"
  shows "state (conn s) \<le> state (conn s') \<and>
    count_list (called (conn s')) CloseCb = (if state (conn s') = kDisconnected then 1 else 0) \<and>
    (channel_registration (channel (conn s')) = None \<longleftrightarrow>
       state (conn s') = kConnecting \<or> state (conn s') = kDisconnected)"
proof -
  have st: "sys_inv s'" "rank (state (conn s)) \<le> rank (state (conn s'))"
    using good_step [OF _ assms(2,3)] good_run_new [OF assms(1)] by (auto simp: advances_def)
  have i: "conn_inv (conn s')" using st(1) by (simp add: sys_inv_def)
  have e: "events (channel (conn s')) \<noteq> 0 \<and> CloseCb \<notin> set (called (conn s'))" if "is_open (conn s')"
    using i that PRI_nonzero by (auto simp: conn_inv_open)
  have c: "\<not> is_open (conn s') \<Longrightarrow> events (channel (conn s')) = 0"
    "state (conn s') = kConnecting \<Longrightarrow> CloseCb \<notin> set (called (conn s'))"
    "state (conn s') = kDisconnected \<Longrightarrow> count_list (called (conn s')) CloseCb = 1"
    using i by (auto simp: conn_inv_def is_open_iff split: ConnectionState.splits)
  show ?thesis
    using e c st(2) by (cases "state (conn s')") (simp_all add: channel_registration_def less_eq_ConnectionState_def)
qed

theorem closed_once_witness:
  "\<exists>s s'. conn_run good (ConnSystem_new False None) [] s \<and> perform LForceClose s = Some s' \<and>
     count_list (called (conn s')) CloseCb = 0"
proof -
  obtain s where s: "conn_run good (ConnSystem_new False None) [] s" "state (conn s) = kConnected"
    using run_established by blast
  have g: "good LForceClose s" using s by (simp add: good_def)
  let ?s' = "s\<lparr>conn := forceClose (conn s)\<rparr>"
  have p: "perform LForceClose s = Some ?s'" by (simp add: on_conn_def)
  have "state (conn ?s') \<noteq> kDisconnected"
    using s by (simp add: forceClose_def stateAtomicGetAndSet_def)
  then show ?thesis using closed_once [OF s(1) g p] s(1) p by auto
qed

text \<open>
  Without that courtesy the process aborts: another thread has passed the test of
  \<open>forceClose\<close> when the peer closes the connection; its exchange then takes the closed
  connection back to \<open>kDisconnecting\<close>, although no close is queued. The destructor's assertion
  fails on it, and so does a further \<open>forceClose\<close>, which would remove the channel again.
\<close>

theorem forceClose_overtaken:
  "\<exists>s s2. actions_ok enabled overtaken (ConnSystem_new wc hw) = Some s \<and>
     called (conn s) = [ConnectionCb True, CloseCb] \<and> state (conn s) = kDisconnecting \<and>
     pending (conn s) = [] \<and> \<not> destructible (conn s) \<and>
     perform LForceClose s = Some s2 \<and> enabled (RunPending w) s2 \<and> perform (RunPending w) s2 = None"
proof -
  let ?c0 = "TcpConnection_new wc hw"
  let ?sys = "\<lambda>c d m. \<lparr>conn = c, dispatch = d, midway = m\<rparr>"
  have n: "conn_inv ?c0" "state ?c0 = kConnecting" "called ?c0 = []" "pending ?c0 = []"
    using conn_inv_new by (simp_all add: TcpConnection_new_def)
  obtain ch where ch: "enableRead (channel ?c0) = Some ch"
    using enable_Some by blast
  define c1 where "c1 = callback (ConnectionCb True) (?c0\<lparr>state := kConnected, channel := ch\<rparr>)"
  have e1: "connectEstablished ?c0 = Some c1"
    using ch n by (simp add: connectEstablished_def on_channel_def c1_def)
  have c1: "conn_inv c1" "state c1 = kConnected" "called c1 = [ConnectionCb True]" "pending c1 = []"
    using establish_ok [OF n(1,2)] e1 n(3,4) by (auto simp: c1_def)
  have ev: "events (channel c1) \<noteq> 0"
    using c1(1,2) PRI_nonzero by (auto simp: conn_inv_open)
  obtain c2 where c2: "handleRead (ReadvData []) c1 = Some c2" "conn_inv c2" "state c2 = kDisconnected"
    "pending c2 = []"
    using handleRead_ok [OF c1(1), of "[]"] c1 by (auto simp: read_ok_def)
  have cl: "called c2 = [ConnectionCb True, CloseCb]"
    using c2(1,3) c1(2,3) by (auto simp: handleRead_def handleClose_def on_channel_def
        Let_def split: option.splits if_splits)
  have z: "EPOLLIN AND EPOLLHUP = 0" "EPOLLIN AND EPOLLERR = 0" "EPOLLIN AND EPOLLOUT = 0"
    "EPOLLIN AND EPOLLRDHUP = 0" "EPOLLIN AND (EPOLLIN OR EPOLLPRI OR EPOLLRDHUP) \<noteq> 0"
    by (simp_all add: epoll_defs)
  define c3 where "c3 = c2\<lparr>state := kDisconnecting\<rparr>"
  have 1: "perform Establish (?sys ?c0 [] []) = Some (?sys c1 [] [])"
    using e1 by (simp add: on_conn_def)
  have 2: "perform OForceClose (?sys c1 [] []) = Some (?sys c1 [] [MidForceClose])"
    using c1 by (simp add: enter_def)
  have 3: "perform (Poll EPOLLIN) (?sys c1 [] [MidForceClose]) = Some (?sys c1 [ReadCallback] [MidForceClose])"
    using z by (simp add: handleEventsWithGuard_def)
  have 4: "perform (Dispatch (ReadvData []) (Written 0)) (?sys c1 [ReadCallback] [MidForceClose])
      = Some (?sys c2 [] [MidForceClose])"
    using c2 by (simp add: on_conn_def)
  have 5: "perform (OResume 0) (?sys c2 [] [MidForceClose]) = Some (?sys c3 [] [])"
    using c2 by (simp add: stateAtomicGetAndSet_def c3_def)
  have e3: "enabled (Poll EPOLLIN) (?sys c1 [] [MidForceClose])"
    using ev z by (simp add: poll_ok_def)
  have e4: "enabled (Dispatch (ReadvData []) (Written 0)) (?sys c1 [ReadCallback] [MidForceClose])"
    by (simp add: read_ok_def write_ok_def)
  have run: "actions_ok enabled overtaken (ConnSystem_new wc hw) = Some (?sys c3 [] [])"
    using e3 e4 by (simp add: overtaken_def ConnSystem_new_def 1 2 3 4 5 del: perform.simps)
  define c4 where "c4 = queueInLoop ForceCloseInLoop c3"
  have c3: "pending c3 = []" "state c3 = kDisconnecting" "called c3 = called c2" "channel c3 = channel c2"
    using c2 by (simp_all add: c3_def)
  then have 6: "perform LForceClose (?sys c3 [] []) = Some (?sys c4 [] [])"
    by (simp add: on_conn_def forceClose_def stateAtomicGetAndSet_def c4_def c3_def)
  have out: "removeChannel (channel c3) = None"
    using c2(2,3) c3(4) by (auto simp: conn_inv_def channel_ok_def removeChannel_def disableAll_def
        updateChannel_def isNoneEvents_def)
  have "pending c4 = [ForceCloseInLoop]" using c3 by (simp add: c4_def queueInLoop_def)
  then have "enabled (RunPending w) (?sys c4 [] [])" "perform (RunPending w) (?sys c4 [] []) = None"
    using out c3 by (simp_all add: c4_def on_conn_def forceCloseInLoop_def handleClose_def on_channel_def)
  then show ?thesis
    using run cl c3 6 by (intro exI [of _ "?sys c3 [] []"] exI [of _ "?sys c4 [] []"])
      (simp add: destructible_def del: perform.simps)
qed

end
