(* ===== verification/NetEcho.thy ===== *)
theory NetEcho
  imports TcpConnectionFacts
begin

text \<open>
  \<open>NetServer/Echo/EchoServer.cpp\<close>: the callbacks of the echo server on one connection, with the
  connection's own handlers. All of it runs in the connection's loop.
\<close>

section \<open>The server's callbacks\<close>

text \<open>The connection and write-complete callbacks only log.\<close>

definition messageCallBack :: "write_result \<Rightarrow> TcpConnection \<Rightarrow> TcpConnection option" where
  "messageCallBack w c =
     map_option (\<lambda>(b, c1). c1\<lparr>inputBuffer := b\<rparr>) (send_buffer True w (inputBuffer c) c)"

text \<open>\<open>heard\<close> are the bytes that the peer has sent, as far as they were read.\<close>

record EchoConn =
  echoConn :: TcpConnection
  heard :: string

definition on_echo :: "(TcpConnection \<Rightarrow> TcpConnection option) \<Rightarrow> EchoConn \<Rightarrow> EchoConn option" where
  "on_echo f s = map_option (\<lambda>c. s\<lparr>echoConn := c\<rparr>) (f (echoConn s))"

text \<open>An empty read is the end of the peer's stream.\<close>

datatype echo_event = Readable string write_result | Writable write_result | TaskRuns write_result

fun echo_handle :: "echo_event \<Rightarrow> EchoConn \<Rightarrow> EchoConn option" where
  "echo_handle (Readable s w) e =
     Option.bind (on_echo (handleRead (ReadvData s)) e) (\<lambda>e1.
       if s = [] then Some e1 else on_echo (messageCallBack w) (e1\<lparr>heard := heard e1 @ s\<rparr>))"
| "echo_handle (Writable w) e = on_echo (handleWrite w) e"
| "echo_handle (TaskRuns w) e =
     (case pending (echoConn e) of
        [] \<Rightarrow> Some e
      | t # ts \<Rightarrow> on_echo (\<lambda>c. runTask w t (c\<lparr>pending := ts\<rparr>)) e)"

text \<open>The kernel's part, and that the peer does not reset the connection.\<close>

definition no_fault :: "write_result \<Rightarrow> bool" where
  "no_fault w \<longleftrightarrow> w \<noteq> WriteError EPIPE \<and> w \<noteq> WriteError ECONNRESET"

fun echo_legal :: "echo_event \<Rightarrow> EchoConn \<Rightarrow> bool" where
  "echo_legal (Readable s w) e =
     (state (echoConn e) = kConnected \<and> read_ok (inputBuffer (echoConn e)) (ReadvData s) \<and>
      write_ok (length (readable (inputBuffer (echoConn e))) + length s) w \<and> no_fault w)"
| "echo_legal (Writable w) e =
     (state (echoConn e) = kConnected \<and> isWriting (channel (echoConn e)) \<and>
      write_ok (readableBytes (outputBuffer (echoConn e))) w)"
| "echo_legal (TaskRuns w) e = (pending (echoConn e) \<noteq> [])"

definition EchoConn_new :: "EchoConn \<Rightarrow> bool" where
  "EchoConn_new e \<longleftrightarrow> connectEstablished (TcpConnection_new True None) = Some (echoConn e) \<and> heard e = []"

definition echo_reach :: "EchoConn \<Rightarrow> bool" where
  "echo_reach = reached EchoConn_new (acts echo_legal echo_handle)"

section \<open>The invariant\<close>

definition echo_inv :: "EchoConn \<Rightarrow> bool" where
  "echo_inv e \<longleftrightarrow> (let c = echoConn e in conn_inv c \<and> (state c = kConnected \<or> state c = kDisconnected) \<and>
     stream_of c = heard e \<and> (state c = kConnected \<longrightarrow> readable (inputBuffer c) = []) \<and>
     set (pending c) \<subseteq> {WriteComplete} \<and> \<not> hasHighWater c)"

text \<open>Only the write-complete callback is ever queued.\<close>

definition quiet :: "TcpConnection \<Rightarrow> TcpConnection \<Rightarrow> bool" where
  "quiet c c' \<longleftrightarrow> hasHighWater c' = hasHighWater c \<and> set (pending c') \<subseteq> insert WriteComplete (set (pending c))"

lemma outputRest_quiet:
  "outputRest f dat n c = Some c' \<Longrightarrow> \<not> hasHighWater c \<Longrightarrow>
     hasHighWater c' = hasHighWater c \<and> pending c' = pending c \<and> inputBuffer c' = inputBuffer c"
  by (auto simp: outputRest_def on_channel_def Let_def split: if_splits option.splits)

lemma sendInLoop_quiet:
  assumes s: "sendInLoop w dat c = Some c'" and h: "\<not> hasHighWater c"
  shows "quiet c c' \<and> inputBuffer c' = inputBuffer c"
proof (cases "state c = kDisconnected \<or> isWriting (channel c) \<or> (\<exists>x. w = WriteError x)")
  case True
  then have "c' = c \<or> (\<exists>f. outputRest f dat 0 c = Some c')" using s by (auto simp: sendInLoop_def split: if_splits)
  then show ?thesis using outputRest_quiet h by (fastforce simp: quiet_def)
next
  case False
  then obtain n where w: "w = Written n" by (cases w) auto
  let ?c1 = "c\<lparr>wire := wire c @ take n dat\<rparr>"
  let ?c2 = "if length dat - n = 0 \<and> hasWriteComplete c then queueInLoop WriteComplete ?c1 else ?c1"
  have "outputRest False dat n ?c2 = Some c'" using s False w by (auto simp: sendInLoop_def Let_def split: if_splits)
  moreover have "\<not> hasHighWater ?c2" "inputBuffer ?c2 = inputBuffer c" "set (pending ?c2) \<subseteq> insert WriteComplete (set (pending c))"
    using h by (auto simp: queueInLoop_def)
  ultimately show ?thesis using outputRest_quiet [of False dat n ?c2 c'] h by (simp add: quiet_def)
qed

lemma handleRead_quiet: "handleRead r c = Some c' \<Longrightarrow> quiet c c'"
  by (auto simp: quiet_def handleRead_def handleClose_def on_channel_def callback_def Let_def
      split: if_splits option.splits prod.splits)

lemma handleWrite_quiet:
  assumes h: "handleWrite w c = Some c'"
  shows "quiet c c' \<and> inputBuffer c' = inputBuffer c \<and> (state c \<noteq> kDisconnecting \<longrightarrow> shutWr c' = shutWr c)"
proof (cases "state c = kDisconnected \<or> (\<exists>x. w = WriteError x)")
  case True
  then show ?thesis using h by (auto simp: quiet_def handleWrite_def split: if_splits)
next
  case False
  then obtain n where w: "w = Written n" by (cases w) auto
  obtain ob where ob: "retrieve (outputBuffer c) n = Some ob"
    using h False w by (auto simp: handleWrite_def split: if_splits option.splits)
  let ?c1 = "c\<lparr>outputBuffer := ob, wire := wire c @ take n (readable (outputBuffer c))\<rparr>"
  show ?thesis
  proof (cases "readableBytes ob = 0")
    case True
    moreover have "readableBytes (outputBuffer c) \<noteq> 0" "isWriting (channel c)"
      using h False by (auto simp: handleWrite_def split: if_splits)
    ultimately have "map_option
        (\<lambda>c2. let c3 = (if state c2 = kDisconnecting then shutdownInLoop c2 else c2)
              in if hasWriteComplete c3 then queueInLoop WriteComplete c3 else c3) (on_channel disableWrite ?c1) = Some c'"
      using h False w ob by (simp add: handleWrite_def Let_def)
    then obtain c2 where c2: "on_channel disableWrite ?c1 = Some c2"
      "c' = (let c3 = (if state c2 = kDisconnecting then shutdownInLoop c2 else c2)
             in if hasWriteComplete c3 then queueInLoop WriteComplete c3 else c3)"
      unfolding map_option_eq_Some by blast
    then obtain ch where "c2 = ?c1\<lparr>channel := ch\<rparr>" by (auto simp: on_channel_def)
    then show ?thesis using c2(2) by (simp add: quiet_def shutdownInLoop_def queueInLoop_def Let_def subset_insertI)
  next
    case False
    then have "c' = ?c1" using h ob w \<open>\<not> (state c = kDisconnected \<or> (\<exists>x. w = WriteError x))\<close>
      by (simp add: handleWrite_def Let_def split: if_splits)
    then show ?thesis by (simp add: quiet_def subset_insertI)
  qed
qed

lemma conn_inv_input:
  "conn_inv c \<Longrightarrow> buffer_inv b \<Longrightarrow> conn_inv (c\<lparr>inputBuffer := b\<rparr>)"
  by (auto simp: conn_inv_def split: ConnectionState.splits)

lemma echo_readable:
  assumes inv: "echo_inv e" and legal: "echo_legal (Readable s w) e"
  shows "\<exists>e'. echo_handle (Readable s w) e = Some e' \<and> echo_inv e'"
proof -
  let ?c = "echoConn e"
  have c: "conn_inv ?c" "state ?c = kConnected" "stream_of ?c = heard e" "readable (inputBuffer ?c) = []"
    "set (pending ?c) \<subseteq> {WriteComplete}" "\<not> hasHighWater ?c"
    using inv legal by (auto simp: echo_inv_def Let_def)
  obtain c1 where r: "handleRead (ReadvData s) ?c = Some c1" and c1: "conn_inv c1" "wire c1 = wire ?c"
    "outputBuffer c1 = outputBuffer ?c"
    "if s = [] then state c1 = kDisconnected else keeps ?c c1 \<and> readable (inputBuffer c1) = readable (inputBuffer ?c) @ s"
    using handleRead_ok [OF c(1) _, of s] c(2) legal by auto
  have q1: "set (pending c1) \<subseteq> {WriteComplete}" "\<not> hasHighWater c1"
    using handleRead_quiet [OF r] c(5,6) by (auto simp: quiet_def)
  have s1: "stream_of c1 = heard e" using c1 c(3) by (simp add: stream_of_def)
  show ?thesis
  proof (cases "s = []")
    case True
    then show ?thesis using r c1 q1 s1 by (auto simp: on_echo_def echo_inv_def Let_def)
  next
    case False
    then have k: "state c1 = kConnected" "readable (inputBuffer c1) = s"
      using c1(4) c by (auto simp: keeps_def)
    have w: "write_ok (length s) w" using legal c(4) by simp
    obtain c2 where m: "sendInLoop w s c1 = Some c2" and c2: "keeps c1 c2" "stream_of c2 = stream_of c1 @ s"
      using sendInLoop_ok [OF c1(1) _ w] k legal by (auto simp: stream_of_def handed_def no_fault_def)
    have i2: "buffer_inv (inputBuffer c1)" using c1(1) by (simp add: conn_inv_def)
    have q2: "set (pending c2) \<subseteq> {WriteComplete}" "\<not> hasHighWater c2"
      using sendInLoop_quiet [OF m q1(2)] q1 by (auto simp: quiet_def)
    let ?c3 = "c2\<lparr>inputBuffer := retrieveAll (inputBuffer c1)\<rparr>"
    have "conn_inv ?c3" using conn_inv_input retrieveAll_inv [OF i2] c2(1) by (simp add: keeps_def)
    then have "echo_inv (e\<lparr>heard := heard e @ s, echoConn := ?c3\<rparr>)"
      using c2 k(1) q2 s1 by (simp add: echo_inv_def Let_def stream_of_def keeps_def)
    moreover have "messageCallBack w c1 = Some ?c3" using m k by (simp add: messageCallBack_def send_buffer_def)
    ultimately show ?thesis using r False by (simp add: on_echo_def)
  qed
qed

lemma echo_writable:
  assumes inv: "echo_inv e" and legal: "echo_legal (Writable w) e"
  shows "\<exists>e'. echo_handle (Writable w) e = Some e' \<and> echo_inv e'"
proof -
  let ?c = "echoConn e"
  have c: "conn_inv ?c" "state ?c = kConnected" "stream_of ?c = heard e" "readable (inputBuffer ?c) = []"
    "set (pending ?c) \<subseteq> {WriteComplete}" "\<not> hasHighWater ?c"
    using inv legal by (auto simp: echo_inv_def Let_def)
  obtain c1 where h: "handleWrite w ?c = Some c1" and c1: "conn_inv c1" "state c1 = state ?c" "stream_of c1 = stream_of ?c"
    using handleWrite_ok [OF c(1), of w] c(2) legal by (auto simp: stream_of_def)
  have "echo_inv (e\<lparr>echoConn := c1\<rparr>)"
    using c c1 handleWrite_quiet [OF h] by (auto simp: echo_inv_def Let_def quiet_def)
  then show ?thesis using h by (simp add: on_echo_def)
qed

lemma echo_task:
  assumes inv: "echo_inv e" and legal: "echo_legal (TaskRuns w) e"
  shows "\<exists>e'. echo_handle (TaskRuns w) e = Some e' \<and> echo_inv e'"
proof -
  let ?c = "echoConn e"
  obtain t ts where t: "pending ?c = t # ts" using legal by (cases "pending ?c") auto
  then have wc: "t = WriteComplete" "set ts \<subseteq> {WriteComplete}" using inv by (auto simp: echo_inv_def Let_def)
  have "hasHighWater (callback cb c) = hasHighWater c" for cb c by (simp add: callback_def)
  then have "echo_inv (e\<lparr>echoConn := callback WriteCompleteCb (?c\<lparr>pending := ts\<rparr>)\<rparr>)"
    using inv wc(2) by (simp add: echo_inv_def Let_def stream_of_def)
  then show ?thesis using t wc(1) by (simp add: on_echo_def)
qed

lemma echo_inv_new: "EchoConn_new e \<Longrightarrow> echo_inv e"
proof -
  assume e: "EchoConn_new e"
  let ?c = "TcpConnection_new True None"
  have c: "conn_inv ?c" by (rule conn_inv_new)
  have st: "state ?c = kConnecting" by (simp add: TcpConnection_new_def)
  obtain c' where "connectEstablished ?c = Some c'" "conn_inv c'" "state c' = kConnected" "same_output ?c c'" "pending c' = pending ?c"
    using establish_ok [OF c st] by blast
  moreover from this(1) have "inputBuffer c' = inputBuffer ?c" "hasHighWater c' = hasHighWater ?c"
    by (auto simp: connectEstablished_def on_channel_def callback_def split: if_splits)
  moreover have "stream_of ?c = []" "readable (inputBuffer ?c) = []" "\<not> hasHighWater ?c" "pending ?c = []"
    by (simp_all add: stream_of_def TcpConnection_new_def readable_new)
  ultimately show ?thesis using e by (auto simp: echo_inv_def EchoConn_new_def Let_def same_output_def stream_of_def)
qed

interpretation echo: machine EchoConn_new echo_legal echo_handle echo_inv
proof
  show "echo_inv s" if "EchoConn_new s" for s using that by (rule echo_inv_new)
  show "\<exists>s'. echo_handle a s = Some s' \<and> echo_inv s'" if "echo_inv s" "echo_legal a s" for s a
    using that echo_readable echo_writable echo_task by (cases a) blast+
qed

section \<open>Properties\<close>

text \<open>
  C19: the echo server sends every byte back, each once and in order: at any time what \<open>write\<close>
  accepted, followed by what waits in the output buffer, is what was read; no handler fails; while the
  connection is open its input buffer is empty and \<open>EPOLLOUT\<close> is asked for exactly while something
  waits; and one \<open>write\<close> that takes all of it completes the echo. This is as long as no read fails and
  no write of the callback finds the peer gone (\<open>no_fault\<close>).
\<close>

theorem echo_returns:
  assumes r: "echo_reach e"
  shows "wire (echoConn e) @ readable (outputBuffer (echoConn e)) = heard e \<and>
    (\<forall>a. echo_legal a e \<longrightarrow> (\<exists>e'. echo_handle a e = Some e' \<and> echo_reach e')) \<and>
    (state (echoConn e) = kConnected \<longrightarrow> readable (inputBuffer (echoConn e)) = [] \<and>
       (isWriting (channel (echoConn e)) \<longleftrightarrow> readable (outputBuffer (echoConn e)) \<noteq> []))"
proof (intro conjI allI impI)
  have inv: "echo_inv e" using r unfolding echo_reach_def by (rule echo.steps.reached_inv)
  then show "wire (echoConn e) @ readable (outputBuffer (echoConn e)) = heard e"
    by (simp add: echo_inv_def Let_def stream_of_def)
  show "\<exists>e'. echo_handle a e = Some e' \<and> echo_reach e'" if "echo_legal a e" for a
    using echo.never_fails r that unfolding echo_reach_def by blast
  show "readable (inputBuffer (echoConn e)) = []" if "state (echoConn e) = kConnected"
    using inv that by (simp add: echo_inv_def Let_def)
  show "isWriting (channel (echoConn e)) \<longleftrightarrow> readable (outputBuffer (echoConn e)) \<noteq> []"
    if "state (echoConn e) = kConnected"
    using inv that by (auto simp: echo_inv_def Let_def conn_inv_open)
qed

theorem echo_returns_witness:
  "\<exists>e. heard e = ''hi'' \<and> echo_reach e \<and> wire (echoConn e) @ readable (outputBuffer (echoConn e)) = ''hi''"
proof -
  obtain c where c: "connectEstablished (TcpConnection_new True None) = Some c" "state c = kConnected"
    using establish_ok [OF conn_inv_new, of True None] by (auto simp: TcpConnection_new_def)
  let ?e = "\<lparr>echoConn = c, heard = []\<rparr>" and ?a = "Readable ''hi'' (WriteError EAGAIN)"
  have new: "EchoConn_new ?e" using c by (simp add: EchoConn_new_def)
  then have r: "echo_reach ?e" unfolding echo_reach_def by (rule reached_initial)
  have "read_ok (inputBuffer c) (ReadvData ''hi'')"
    by (simp add: read_ok_def readv_capacity_def extrabuf_size_def)
  then have l: "echo_legal ?a ?e" using c by (simp add: write_ok_def no_fault_def)
  obtain e' where e': "echo_handle ?a ?e = Some e'" using echo_readable [OF echo_inv_new [OF new] l] by blast
  then have "heard e' = ''hi''" by (auto simp: on_echo_def bind_eq_Some_conv)
  moreover have "acts echo_legal echo_handle ?e e'" using l e' unfolding acts_def by blast
  then have "echo_reach e'" using reached_step [OF r [unfolded echo_reach_def]] unfolding echo_reach_def by blast
  ultimately show ?thesis using echo_returns [of e'] by auto
qed

end
