(* ===== verification/NetThreads.thy ===== *)
theory NetThreads
  imports Machines
begin

text \<open>
  \<open>NetServer/CountDownLatch.cpp\<close>, \<open>EventLoopThread.cpp\<close> and \<open>EventLoopThreadPool.cpp\<close>: the
  latch, the start of a loop in a thread of its own, and the pool that hands loops out in turn.
  \<open>None\<close> is a failed assertion.
\<close>

section \<open>CountDownLatch\<close>

text \<open>\<open>sleepers\<close> are the threads asleep on the condition variable.\<close>

record CountDownLatch =
  latchCount :: int
  sleepers :: nat

definition CountDownLatch_new :: "int \<Rightarrow> CountDownLatch" where
  "CountDownLatch_new count = \<lparr>latchCount = count, sleepers = 0\<rparr>"

text \<open>\<open>wait\<close> tests the count under the mutex: it returns (\<open>True\<close>) or goes to sleep.\<close>

definition latch_wait :: "CountDownLatch \<Rightarrow> bool \<times> CountDownLatch" where
  "latch_wait l = (if latchCount l \<le> 0 then (True, l) else (False, l\<lparr>sleepers := Suc (sleepers l)\<rparr>))"

definition countDown :: "CountDownLatch \<Rightarrow> CountDownLatch" where
  "countDown l =
     (let l1 = l\<lparr>latchCount := latchCount l - 1\<rparr>
      in if latchCount l1 = 0 then l1\<lparr>sleepers := 0\<rparr> else l1)"

definition getCount :: "CountDownLatch \<Rightarrow> int" where
  "getCount l = latchCount l"

definition latch_inv :: "CountDownLatch \<Rightarrow> bool" where
  "latch_inv l \<longleftrightarrow> (0 < sleepers l \<longrightarrow> 0 < latchCount l)"

lemma latch_inv_ops:
  "latch_inv (CountDownLatch_new n)"
  "latch_inv l \<Longrightarrow> latch_inv (snd (latch_wait l))"
  "latch_inv l \<Longrightarrow> latch_inv (countDown l)"
  by (auto simp: latch_inv_def CountDownLatch_new_def latch_wait_def countDown_def Let_def)

section \<open>EventLoopThread\<close>

text \<open>
  \<open>loopSet\<close>: \<open>loop_\<close> is not null. The thread sets \<open>loop_\<close>, counts the latch down and enters
  its loop, which ends only when somebody quits it; the starter waits on the latch and then
  uses \<open>loop_\<close>.
\<close>

datatype thread_pc = NotStarted | ThreadBegin | LoopKnown | InLoop | ThreadEnd

datatype starter_pc = BeforeStart | Awaiting | Asleep | Returned

record EventLoopThread =
  threadPc :: thread_pc
  starterPc :: starter_pc
  loopSet :: bool
  latch :: CountDownLatch

definition EventLoopThread_new :: EventLoopThread where
  "EventLoopThread_new = \<lparr>threadPc = NotStarted, starterPc = BeforeStart, loopSet = False,
     latch = CountDownLatch_new 1\<rparr>"

text \<open>\<open>thread_quits\<close>: the loop is quit by one who has got it from \<open>startLoop\<close>.\<close>

inductive thread_step :: "EventLoopThread \<Rightarrow> EventLoopThread \<Rightarrow> bool" where
  start_thread: "starterPc t = BeforeStart \<Longrightarrow>
    thread_step t (t\<lparr>starterPc := Awaiting, threadPc := ThreadBegin\<rparr>)"
| start_waits: "starterPc t = Awaiting \<Longrightarrow> latch_wait (latch t) = (ready, l) \<Longrightarrow>
    thread_step t (t\<lparr>latch := l, starterPc := (if ready then Returned else Asleep)\<rparr>)"
| start_woken: "starterPc t = Asleep \<Longrightarrow> sleepers (latch t) = 0 \<Longrightarrow> thread_step t (t\<lparr>starterPc := Awaiting\<rparr>)"
| thread_sets: "threadPc t = ThreadBegin \<Longrightarrow> thread_step t (t\<lparr>loopSet := True, threadPc := LoopKnown\<rparr>)"
| thread_counts: "threadPc t = LoopKnown \<Longrightarrow>
    thread_step t (t\<lparr>latch := countDown (latch t), threadPc := InLoop\<rparr>)"
| thread_quits: "threadPc t = InLoop \<Longrightarrow> starterPc t = Returned \<Longrightarrow>
    thread_step t (t\<lparr>loopSet := False, threadPc := ThreadEnd\<rparr>)"

definition thread_reach :: "EventLoopThread \<Rightarrow> bool" where
  "thread_reach = reached (\<lambda>t. t = EventLoopThread_new) thread_step"

definition thread_inv :: "EventLoopThread \<Rightarrow> bool" where
  "thread_inv t \<longleftrightarrow> latch_inv (latch t) \<and> (starterPc t = BeforeStart \<longleftrightarrow> threadPc t = NotStarted) \<and>
     latchCount (latch t) = (if threadPc t = InLoop \<or> threadPc t = ThreadEnd then 0 else 1) \<and>
     (loopSet t \<longleftrightarrow> threadPc t = LoopKnown \<or> threadPc t = InLoop) \<and>
     (starterPc t = Returned \<longrightarrow> threadPc t = InLoop \<or> threadPc t = ThreadEnd) \<and>
     (threadPc t = ThreadEnd \<longrightarrow> starterPc t = Returned)"

lemma thread_inv_step: "thread_step t t' \<Longrightarrow> thread_inv t \<Longrightarrow> thread_inv t'"
proof (induction rule: thread_step.induct)
  case (start_waits t ready l)
  then show ?case
    by (cases "threadPc t") (auto simp: thread_inv_def latch_inv_def latch_wait_def split: if_splits)
next
  case (start_woken t)
  then show ?case by (cases "threadPc t"; cases "starterPc t") (auto simp: thread_inv_def)
next
  case (thread_counts t)
  then show ?case
    by (simp add: thread_inv_def latch_inv_def countDown_def)
next
  case (thread_sets t)
  then show ?case by (simp add: thread_inv_def)
next
  case (start_thread t)
  then show ?case by (cases "threadPc t") (auto simp: thread_inv_def)
next
  case (thread_quits t)
  then show ?case by (auto simp: thread_inv_def)
qed

interpretation thread: step_system "\<lambda>t. t = EventLoopThread_new" thread_step thread_inv
proof
  show "thread_inv t" if "t = EventLoopThread_new" for t
    by (simp add: that thread_inv_def EventLoopThread_new_def CountDownLatch_new_def latch_inv_def)
qed (rule thread_inv_step)

lemma thread_reach_inv: "thread_reach t \<Longrightarrow> thread_inv t"
  unfolding thread_reach_def by (rule thread.reached_inv)

text \<open>\<open>startLoop\<close> returns a loop: when it has, the thread has set it and is in its loop, until quit.\<close>

lemma startLoop_returns:
  assumes "thread_reach t" "starterPc t = Returned" "threadPc t \<noteq> ThreadEnd"
  shows "loopSet t \<and> threadPc t = InLoop"
  using thread_reach_inv [OF assms(1)] assms(2,3) by (auto simp: thread_inv_def)

text \<open>While the starter sleeps, the thread has still to count down: no wake-up is lost.\<close>

lemma startLoop_woken:
  assumes "thread_reach t" "starterPc t = Asleep" "0 < sleepers (latch t)"
  shows "threadPc t = ThreadBegin \<or> threadPc t = LoopKnown"
  using thread_reach_inv [OF assms(1)] assms(2,3)
  by (cases "threadPc t") (auto simp: thread_inv_def latch_inv_def)

section \<open>EventLoopThreadPool\<close>

text \<open>Loop number \<open>i\<close> is that of the \<open>i\<close>-th thread; the base loop is \<open>None\<close>.\<close>

record EventLoopThreadPool =
  poolStarted :: bool
  numThreads :: nat
  nextLoop :: nat
  poolLoops :: "nat list"

definition EventLoopThreadPool_new :: EventLoopThreadPool where
  "EventLoopThreadPool_new = \<lparr>poolStarted = False, numThreads = 0, nextLoop = 0, poolLoops = []\<rparr>"

definition setThreadNums :: "nat \<Rightarrow> EventLoopThreadPool \<Rightarrow> EventLoopThreadPool" where
  "setThreadNums n p = p\<lparr>numThreads := n\<rparr>"

definition pool_start :: "EventLoopThreadPool \<Rightarrow> EventLoopThreadPool option" where
  "pool_start p =
     (if poolStarted p then None
      else Some (p\<lparr>poolStarted := True, poolLoops := poolLoops p @ [0..<numThreads p]\<rparr>))"

definition getNextLoop :: "EventLoopThreadPool \<Rightarrow> (nat option \<times> EventLoopThreadPool) option" where
  "getNextLoop p =
     (if \<not> poolStarted p then None
      else if poolLoops p \<noteq> []
      then (let loop = poolLoops p ! nextLoop p;
                n = Suc (nextLoop p)
            in Some (Some loop, p\<lparr>nextLoop := (if n \<ge> length (poolLoops p) then 0 else n)\<rparr>))
      else Some (None, p))"

text \<open>\<open>getAllLoop\<close>: \<open>{1, baseLoop_}\<close> is a vector of one base loop.\<close>

definition getAllLoop :: "EventLoopThreadPool \<Rightarrow> nat option list option" where
  "getAllLoop p =
     (if \<not> poolStarted p then None
      else Some (if poolLoops p = [] then [None] else map Some (poolLoops p)))"

definition pool_ok :: "nat \<Rightarrow> nat \<Rightarrow> EventLoopThreadPool \<Rightarrow> bool" where
  "pool_ok n k p \<longleftrightarrow> poolStarted p \<and> poolLoops p = [0..<n] \<and> nextLoop p = (if n = 0 then 0 else k mod n)"

lemma pool_start_ok: "\<exists>p. pool_start (setThreadNums n EventLoopThreadPool_new) = Some p \<and> pool_ok n 0 p"
  by (simp add: pool_start_def EventLoopThreadPool_new_def setThreadNums_def pool_ok_def)

lemma getNextLoop_ok:
  assumes "pool_ok n k p"
  shows "\<exists>p'. getNextLoop p = Some (if n = 0 then None else Some (k mod n), p') \<and> pool_ok n (Suc k) p'"
proof (cases "n = 0")
  case False
  then have "k mod n < n" by simp
  with False assms show ?thesis
    by (auto simp: getNextLoop_def pool_ok_def Let_def mod_Suc)
qed (use assms in \<open>simp add: getNextLoop_def pool_ok_def\<close>)

end
