(* ===== verification/NetAcceptor.thy ===== *)
theory NetAcceptor
  imports NetChannel
begin

text \<open>
  \<open>NetServer/Acceptor.cpp\<close>: the listening socket, its channel and the spare descriptor that is
  given up when the process has no descriptors left. What the kernel answers is an argument;
  \<open>None\<close> is a failed assertion. \<open>owned\<close> are the descriptors the acceptor has to close.
\<close>

section \<open>The acceptor\<close>

record Acceptor =
  listening :: bool
  acceptFd :: nat
  idleFd :: "nat option"
  acceptChannel :: Channel
  hasNewConnection :: bool
  owned :: "nat list"

text \<open>\<open>idle\<close> is the descriptor of \<open>/dev/null\<close>, \<open>None\<close> (that is -1) if it could not be opened.\<close>

definition Acceptor_new :: "nat \<Rightarrow> nat option \<Rightarrow> Acceptor" where
  "Acceptor_new fd idle =
     \<lparr>listening = False, acceptFd = fd, idleFd = idle, acceptChannel = Channel_new,
      hasNewConnection = False, owned = fd # (case idle of None \<Rightarrow> [] | Some i \<Rightarrow> [i])\<rparr>"

definition acceptor_listen :: "Acceptor \<Rightarrow> Acceptor option" where
  "acceptor_listen a =
     map_option (\<lambda>ch. a\<lparr>listening := True, acceptChannel := ch\<rparr>) (enableRead (acceptChannel a))"

text \<open>
  The answer of \<open>accept4\<close>: a descriptor; no descriptor left (\<open>EMFILE\<close>), together with the
  answers of the second \<open>accept\<close> and of \<open>open\<close>; or another error.
\<close>

datatype accept_result = AcceptOk nat | AcceptEmfile "nat option" "nat option" | AcceptError

definition close_fd :: "nat option \<Rightarrow> Acceptor \<Rightarrow> Acceptor" where
  "close_fd f a = (case f of None \<Rightarrow> a | Some fd \<Rightarrow> a\<lparr>owned := remove1 fd (owned a)\<rparr>)"

definition open_fd :: "nat option \<Rightarrow> Acceptor \<Rightarrow> Acceptor" where
  "open_fd f a = (case f of None \<Rightarrow> a | Some fd \<Rightarrow> a\<lparr>owned := owned a @ [fd]\<rparr>)"

text \<open>The result is the descriptor handed to the callback, which owns it from then on.\<close>

definition acceptor_handleRead :: "accept_result \<Rightarrow> Acceptor \<Rightarrow> Acceptor \<times> nat option" where
  "acceptor_handleRead r a =
     (case r of
        AcceptOk sockfd \<Rightarrow>
          if hasNewConnection a then (a, Some sockfd)
          else (close_fd (Some sockfd) (open_fd (Some sockfd) a), None)
      | AcceptEmfile second reopened \<Rightarrow>
          (let a1 = close_fd (idleFd a) a;
               a2 = (open_fd second a1)\<lparr>idleFd := second\<rparr>;
               a3 = close_fd (idleFd a2) a2
           in ((open_fd reopened a3)\<lparr>idleFd := reopened\<rparr>, None))
      | AcceptError \<Rightarrow> (a, None))"

section \<open>Facts\<close>

definition acceptor_inv :: "Acceptor \<Rightarrow> bool" where
  "acceptor_inv a \<longleftrightarrow> owned a = acceptFd a # (case idleFd a of None \<Rightarrow> [] | Some i \<Rightarrow> [i])"

definition accept_ok :: "accept_result \<Rightarrow> Acceptor \<Rightarrow> bool" where
  "accept_ok r a \<longleftrightarrow> (case r of
      AcceptOk fd \<Rightarrow> fd \<notin> set (owned a)
    | AcceptEmfile second reopened \<Rightarrow> Some (acceptFd a) \<notin> {idleFd a, second, reopened}
    | AcceptError \<Rightarrow> True)"

text \<open>No descriptor leaks: the acceptor owns its socket and the spare descriptor, nothing else.\<close>

lemma acceptor_descriptors:
  assumes "acceptor_inv a" "accept_ok r a"
  shows "acceptor_inv (fst (acceptor_handleRead r a))"
  using assms
  by (auto simp: acceptor_inv_def accept_ok_def acceptor_handleRead_def close_fd_def open_fd_def Let_def
      remove1_append split: accept_result.splits option.splits)

lemma acceptor_new_inv: "acceptor_inv (Acceptor_new fd idle)"
  by (simp add: acceptor_inv_def Acceptor_new_def)

lemma acceptor_listen_ok:
  "\<exists>a'. acceptor_listen a = Some a' \<and> listening a' \<and> owned a' = owned a \<and> isReading (acceptChannel a')"
proof -
  obtain ch where ch: "enableRead (acceptChannel a) = Some ch" using enable_Some by blast
  then show ?thesis using reading_writing(1) [OF ch] by (simp add: acceptor_listen_def)
qed

end
