(* ===== verification/NetTcpServer.thy ===== *)
theory NetTcpServer
  imports NetThreads NetAcceptor
begin

text \<open>
  \<open>NetServer/TcpServer.cpp\<close>: the start of a server, the distribution of accepted connections to
  the loops of the pool, and the set of its connections. A connection is a number; \<open>closing\<close> are
  the \<open>closeConnectionInLoop\<close> tasks queued in the base loop by other loops, \<open>destroyed\<close> the
  connections whose \<open>connectDestroyed\<close> was queued. \<open>None\<close> is a failed assertion.
\<close>

section \<open>The server\<close>

record TcpServer =
  serverStarted :: bool
  acceptor :: Acceptor
  threadPool :: EventLoopThreadPool
  connections :: "nat list"
  assigned :: "(nat \<times> nat option) list"
  closing :: "nat list"
  destroyed :: "nat list"

definition TcpServer_new :: "nat \<Rightarrow> nat option \<Rightarrow> TcpServer" where
  "TcpServer_new fd idle =
     \<lparr>serverStarted = False, acceptor = (Acceptor_new fd idle)\<lparr>hasNewConnection := True\<rparr>, threadPool = EventLoopThreadPool_new,
      connections = [], assigned = [], closing = [], destroyed = []\<rparr>"

definition setNumThread :: "nat \<Rightarrow> TcpServer \<Rightarrow> TcpServer" where
  "setNumThread threadNums s = s\<lparr>threadPool := setThreadNums threadNums (threadPool s)\<rparr>"

definition server_start :: "TcpServer \<Rightarrow> TcpServer option" where
  "server_start s =
     (if serverStarted s then None
      else case pool_start (threadPool s) of
             None \<Rightarrow> None
           | Some p \<Rightarrow>
               if listening (acceptor s) then None
               else map_option (\<lambda>a. s\<lparr>threadPool := p, acceptor := a, serverStarted := True\<rparr>)
                      (acceptor_listen (acceptor s)))"

definition newConnection :: "nat \<Rightarrow> TcpServer \<Rightarrow> TcpServer option" where
  "newConnection connection s =
     (case getNextLoop (threadPool s) of
        None \<Rightarrow> None
      | Some (ioLoop, p) \<Rightarrow>
          Some (s\<lparr>threadPool := p, connections := List.insert connection (connections s),
                  assigned := assigned s @ [(connection, ioLoop)]\<rparr>))"

definition closeConnectionInLoop :: "nat \<Rightarrow> TcpServer \<Rightarrow> TcpServer option" where
  "closeConnectionInLoop connection s =
     (if connections s = [] then None
      else Some (s\<lparr>connections := remove1 connection (connections s),
                   destroyed := destroyed s @ [connection]\<rparr>))"

text \<open>\<open>runInLoop\<close> on the base loop: at once if the caller is the base loop.\<close>

definition closeConnection :: "bool \<Rightarrow> nat \<Rightarrow> TcpServer \<Rightarrow> TcpServer option" where
  "closeConnection inLoop connection s =
     (if inLoop then closeConnectionInLoop connection s
      else Some (s\<lparr>closing := closing s @ [connection]\<rparr>))"

section \<open>Runs\<close>

text \<open>
  A connection is accepted, its close callback is called, a queued close is run. The callback
  comes once for each connection (as the connection guarantees).
\<close>

datatype server_event = Accepted nat | CloseCalled bool nat | RunClosing

fun server_do :: "server_event \<Rightarrow> TcpServer \<Rightarrow> TcpServer option" where
  "server_do (Accepted c) s = newConnection c s"
| "server_do (CloseCalled inLoop c) s = closeConnection inLoop c s"
| "server_do RunClosing s =
     (case closing s of [] \<Rightarrow> Some s | c # cs \<Rightarrow> closeConnectionInLoop c (s\<lparr>closing := cs\<rparr>))"

fun server_legal :: "server_event \<Rightarrow> TcpServer \<Rightarrow> bool" where
  "server_legal (Accepted c) s = (c \<notin> fst ` set (assigned s))"
| "server_legal (CloseCalled inLoop c) s =
     (c \<in> fst ` set (assigned s) \<and> c \<notin> set (closing s) \<and> c \<notin> set (destroyed s))"
| "server_legal RunClosing s = True"

definition server_initial :: "nat \<Rightarrow> TcpServer \<Rightarrow> bool" where
  "server_initial n s \<longleftrightarrow> (\<exists>fd idle. server_start (setNumThread n (TcpServer_new fd idle)) = Some s)"

definition server_reach :: "nat \<Rightarrow> TcpServer \<Rightarrow> bool" where
  "server_reach n = reached (server_initial n) (acts server_legal server_do)"

section \<open>Facts\<close>

definition turn :: "nat \<Rightarrow> nat \<Rightarrow> nat option" where
  "turn n k = (if n = 0 then None else Some (k mod n))"

definition server_inv :: "nat \<Rightarrow> TcpServer \<Rightarrow> bool" where
  "server_inv n s \<longleftrightarrow> pool_ok n (length (assigned s)) (threadPool s) \<and>
     map snd (assigned s) = map (turn n) [0..<length (assigned s)] \<and>
     distinct (connections s) \<and> distinct (closing s @ destroyed s) \<and>
     set (connections s) = fst ` set (assigned s) - set (destroyed s) \<and>
     set (closing s) \<subseteq> set (connections s) \<and> set (destroyed s) \<subseteq> fst ` set (assigned s)"

lemma closeInLoop_ok:
  assumes "server_inv n s" "c \<in> set (connections s)" "c \<notin> set (closing s)"
  shows "\<exists>s'. closeConnectionInLoop c s = Some s' \<and> server_inv n s'"
  using assms by (auto simp: closeConnectionInLoop_def server_inv_def)

lemma server_do_ok:
  assumes inv: "server_inv n s" and legal: "server_legal a s"
  shows "\<exists>s'. server_do a s = Some s' \<and> server_inv n s'"
proof (cases a)
  case (Accepted c)
  let ?k = "length (assigned s)"
  have "pool_ok n ?k (threadPool s)" using inv by (simp add: server_inv_def)
  from getNextLoop_ok [OF this]
  obtain p where p: "getNextLoop (threadPool s) = Some (turn n ?k, p)" "pool_ok n (Suc ?k) p"
    unfolding turn_def by blast
  let ?s = "s\<lparr>threadPool := p, connections := List.insert c (connections s),
    assigned := assigned s @ [(c, turn n ?k)]\<rparr>"
  have fresh: "c \<notin> fst ` set (assigned s)" using legal Accepted by simp
  then have "c \<notin> set (destroyed s)" using inv by (auto simp: server_inv_def)
  then have "server_inv n ?s"
    using inv p(2) by (simp add: server_inv_def insert_Diff_if) blast
  then show ?thesis using p(1) Accepted by (simp add: newConnection_def)
next
  case (CloseCalled inLoop c)
  then have c: "c \<in> set (connections s)" "c \<notin> set (closing s)" "c \<notin> set (destroyed s)"
    using inv legal by (auto simp: server_inv_def)
  show ?thesis
  proof (cases inLoop)
    case True
    then show ?thesis using closeInLoop_ok [OF inv c(1,2)] CloseCalled by (simp add: closeConnection_def)
  next
    case False
    then show ?thesis using inv c CloseCalled by (auto simp: closeConnection_def server_inv_def)
  qed
next
  case RunClosing
  show ?thesis
  proof (cases "closing s")
    case (Cons c cs)
    then have "server_inv n (s\<lparr>closing := cs\<rparr>)" "c \<in> set (connections (s\<lparr>closing := cs\<rparr>))"
      "c \<notin> set (closing (s\<lparr>closing := cs\<rparr>))"
      using inv by (auto simp: server_inv_def)
    then show ?thesis using closeInLoop_ok RunClosing Cons by simp
  qed (use inv RunClosing in simp)
qed

lemma server_start_ok:
  "\<exists>s. server_start (setNumThread n (TcpServer_new fd idle)) = Some s \<and> server_inv n s \<and> assigned s = []"
proof -
  let ?a = "(Acceptor_new fd idle)\<lparr>hasNewConnection := True\<rparr>"
  obtain a where a: "acceptor_listen ?a = Some a" using acceptor_listen_ok by blast
  have "\<not> listening ?a" by (simp add: Acceptor_new_def)
  then show ?thesis
    using pool_start_ok [of n] a
    by (auto simp: server_start_def setNumThread_def TcpServer_new_def server_inv_def)
qed

lemma server_initial_inv: "server_initial n s \<Longrightarrow> server_inv n s"
  unfolding server_initial_def using server_start_ok [of n] by (metis option.inject)

interpretation server: machine "server_initial n" server_legal server_do "server_inv n" for n
  by unfold_locales (erule server_initial_inv, erule (1) server_do_ok)

lemma server_reach_inv: "server_reach n s \<Longrightarrow> server_inv n s"
  unfolding server_reach_def by (rule server.steps.reached_inv)

section \<open>Property\<close>

text \<open>
  A started server never fails an assertion while every connection reports its close once;
  the connections accepted go to the loops of the pool in turn (all to the base loop without
  threads); and its set holds exactly the connections not destroyed yet, each of which is
  destroyed once.
\<close>

theorem server_connections:
  assumes "server_reach n s"
  shows "map snd (assigned s) = map (turn n) [0..<length (assigned s)] \<and>
    set (connections s) = fst ` set (assigned s) - set (destroyed s) \<and> distinct (destroyed s) \<and>
    (server_legal a s \<longrightarrow> (\<exists>s'. server_do a s = Some s'))"
  using server_reach_inv [OF assms] server_do_ok [of n s a] by (auto simp: server_inv_def)

theorem server_connections_witness:
  "\<exists>s. server_reach 2 s \<and> map snd (assigned s) = [Some 0, Some 1, Some 0]"
proof -
  obtain s0 where s0: "server_start (setNumThread 2 (TcpServer_new 3 (Some 4))) = Some s0" and a0: "assigned s0 = []"
    using server_start_ok by blast
  have r0: "server_reach 2 s0"
    unfolding server_reach_def
    by (rule reached_initial) (use s0 in \<open>auto simp: server_initial_def\<close>)
  have acc: "\<exists>s'. server_reach 2 s' \<and> map fst (assigned s') = map fst (assigned s) @ [c]"
    if r: "server_reach 2 s" and c: "c \<notin> fst ` set (assigned s)" for s c
  proof -
    obtain s' where s': "server_do (Accepted c) s = Some s'"
      using server_connections [OF r, of "Accepted c"] c by auto
    have "server_reach 2 s'"
      using server.never_fails [of 2 s "Accepted c"] r c s' by (auto simp: server_reach_def)
    then show ?thesis using s' by (auto simp: newConnection_def split: option.splits)
  qed
  obtain s1 where s1: "server_reach 2 s1" "map fst (assigned s1) = [10]" using acc [OF r0, of 10] a0 by auto
  have f1: "fst ` set (assigned s1) = {10}" using arg_cong [OF s1(2), of set] by simp
  obtain s2 where s2: "server_reach 2 s2" "map fst (assigned s2) = [10, 11]"
    using acc [OF s1(1), of 11] s1(2) f1 by auto
  have "fst ` set (assigned s2) = {10, 11}" using arg_cong [OF s2(2), of set] by simp
  then obtain s3 where s3: "server_reach 2 s3" "map fst (assigned s3) = [10, 11, 12]"
    using acc [OF s2(1), of 12] s2(2) by auto
  have "length (assigned s3) = 3" using arg_cong [OF s3(2), of length] by simp
  then have "map snd (assigned s3) = map (turn 2) [0..<3]"
    using server_connections [OF s3(1)] by simp
  then show ?thesis using s3(1) by (auto simp: turn_def upt_rec numeral_eq_Suc)
qed

end
