(* ===== verification/ConnHistory.thy ===== *)
theory ConnHistory
  imports TcpConnectionFacts
begin

text \<open>
  What the actions of a connection add to its history: the callbacks that tell of its life (up,
  closed, down) and the tasks they queue. It is what the server that holds the connection relies on.
\<close>

fun life :: "conn_callback \<Rightarrow> bool" where
  "life (ConnectionCb up) = True"
| "life CloseCb = True"
| "life _ = False"

definition life_events :: "TcpConnection \<Rightarrow> conn_callback list" where
  "life_events c = filter life (called c)"

text \<open>
  A task holds the connection with a \<open>shared_ptr\<close>, except the lambdas of \<open>stopRead\<close> and
  \<open>startRead\<close>, which capture \<open>this\<close>.
\<close>

fun owning :: "loop_task \<Rightarrow> bool" where
  "owning StopRead = False"
| "owning StartRead = False"
| "owning _ = True"

definition plain :: "loop_task \<Rightarrow> bool" where
  "plain t \<longleftrightarrow> owning t \<and> t \<noteq> ConnectDestroyed"

lemma plain_task_simps [simp]:
  "plain (SendInLoop dat)" "plain ShutdownInLoop" "plain ForceCloseInLoop" "plain WriteComplete"
  "plain (HighWater n)" "\<not> plain StopRead" "\<not> plain StartRead" "\<not> plain ConnectDestroyed"
  by (simp_all add: plain_def)

text \<open>\<open>c'\<close> has called callbacks after \<open>c\<close>, of its life exactly \<open>cbs\<close>, and queued plain tasks.\<close>

definition grows :: "conn_callback list \<Rightarrow> TcpConnection \<Rightarrow> TcpConnection \<Rightarrow> bool" where
  "grows cbs c c' \<longleftrightarrow> (\<exists>new. called c' = called c @ new \<and> filter life new = cbs) \<and>
     (\<exists>ts. pending c' = pending c @ ts \<and> list_all plain ts)"

lemma growsI:
  "called c' = called c @ new \<Longrightarrow> filter life new = cbs \<Longrightarrow> pending c' = pending c @ ts \<Longrightarrow> list_all plain ts \<Longrightarrow>
     grows cbs c c'"
  by (auto simp: grows_def)

lemma grows_same: "called c' = called c \<Longrightarrow> pending c' = pending c \<Longrightarrow> grows [] c c'"
  by (rule growsI [of _ _ "[]" _ "[]"]) simp_all

lemma grows_refl [simp]: "grows [] c c"
  by (simp add: grows_same)

lemma grows_trans: "grows xs c c' \<Longrightarrow> grows ys c' c'' \<Longrightarrow> grows (xs @ ys) c c''"
  unfolding grows_def by (elim conjE exE) (intro conjI; fastforce)

lemma grows_queue: "plain t \<Longrightarrow> grows [] c (queueInLoop t c)"
  by (rule growsI [of _ _ "[]" _ "[t]"]) (simp_all add: queueInLoop_def)

lemma grows_callback: "\<not> life cb \<Longrightarrow> grows [] c (callback cb c)"
  by (rule growsI [of _ _ "[cb]" _ "[]"]) (simp_all add: callback_def)

lemma grows_life: "grows cbs c c' \<Longrightarrow> life_events c' = life_events c @ cbs"
  by (auto simp: grows_def life_events_def)

lemma grows_closes: "grows cbs c c' \<Longrightarrow> CloseCb \<in> set (drop (length (called c)) (called c')) \<longleftrightarrow> CloseCb \<in> set cbs"
  by (auto simp: grows_def)

text \<open>Only the callbacks and the tasks matter.\<close>

lemma grows_fields [simp]:
  "grows cbs (c\<lparr>inputBuffer := b\<rparr>) c' = grows cbs c c'" "grows cbs c (c'\<lparr>inputBuffer := b\<rparr>) = grows cbs c c'"
  "grows cbs (c\<lparr>outputBuffer := b\<rparr>) c' = grows cbs c c'" "grows cbs c (c'\<lparr>outputBuffer := b\<rparr>) = grows cbs c c'"
  "grows cbs (c\<lparr>wire := v\<rparr>) c' = grows cbs c c'" "grows cbs c (c'\<lparr>wire := v\<rparr>) = grows cbs c c'"
  "grows cbs (c\<lparr>channel := ch\<rparr>) c' = grows cbs c c'" "grows cbs c (c'\<lparr>channel := ch\<rparr>) = grows cbs c c'"
  "grows cbs (c\<lparr>state := st\<rparr>) c' = grows cbs c c'" "grows cbs c (c'\<lparr>state := st\<rparr>) = grows cbs c c'"
  "grows cbs (c\<lparr>shutWr := x\<rparr>) c' = grows cbs c c'" "grows cbs c (c'\<lparr>shutWr := x\<rparr>) = grows cbs c c'"
  by (simp_all add: grows_def)

lemma on_channel_grows: "on_channel f c = Some d \<Longrightarrow> grows cbs d c' = grows cbs c c' \<and> grows cbs c' d = grows cbs c' c"
  by (auto simp: on_channel_def)

lemma grows_after: "grows [] c d \<Longrightarrow> grows cbs d c' \<Longrightarrow> grows cbs c c'"
  using grows_trans by fastforce

lemma grows_then: "grows cbs c d \<Longrightarrow> grows [] d c' \<Longrightarrow> grows cbs c c'"
  using grows_trans by fastforce

lemma grows_queue_after: "plain t \<Longrightarrow> grows cbs c d \<Longrightarrow> grows cbs c (queueInLoop t d)"
  using grows_then grows_queue by blast

lemma grows_callback_after: "\<not> life cb \<Longrightarrow> grows cbs c d \<Longrightarrow> grows cbs c (callback cb d)"
  using grows_then grows_callback by blast

lemma grows_queue_before: "plain t \<Longrightarrow> grows cbs (queueInLoop t c) c' \<Longrightarrow> grows cbs c c'"
  using grows_after grows_queue by blast

lemma grows_shutdown_after: "grows cbs c d \<Longrightarrow> grows cbs c (shutdownInLoop d)"
  by (simp add: shutdownInLoop_def)

lemma on_channel_history:
  "on_channel f c = Some c' \<Longrightarrow> called c' = called c \<and> pending c' = pending c \<and> state c' = state c"
  by (auto simp: on_channel_def)

section \<open>The operations\<close>

lemma outputRest_grows: "outputRest f dat n c = Some c' \<Longrightarrow> grows [] c c' \<and> state c' = state c"
  by (auto simp: outputRest_def Let_def on_channel_grows split: if_splits option.splits
      intro: grows_queue dest: on_channel_history)

lemma sendInLoop_grows: "sendInLoop w dat c = Some c' \<Longrightarrow> grows [] c c' \<and> state c' = state c"
  by (auto simp: sendInLoop_def Let_def split: if_splits write_result.splits
      dest!: outputRest_grows grows_queue_before [rotated])

lemma shutdownInLoop_grows: "grows [] c (shutdownInLoop c)" "state (shutdownInLoop c) = state c"
  by (simp_all add: grows_shutdown_after) (simp add: shutdownInLoop_def)

lemma handleClose_grows:
  "handleClose c = Some c' \<Longrightarrow> grows [CloseCb] c c' \<and> state c' = kDisconnected \<and> state c \<noteq> kDisconnected"
  by (auto simp: handleClose_def split: if_splits dest!: on_channel_history intro: growsI [of _ _ "[CloseCb]" _ "[]"])

lemma forceClose_grows: "grows [] c (forceClose c)" "state (forceClose c) = kDisconnected \<longleftrightarrow> state c = kDisconnected"
  by (simp_all add: forceClose_def stateAtomicGetAndSet_def grows_queue_after)

text \<open>The close callback is called when the state becomes \<open>kDisconnected\<close>.\<close>

definition closing_events :: "TcpConnection \<Rightarrow> TcpConnection \<Rightarrow> conn_callback list" where
  "closing_events c c' = (if state c' = kDisconnected \<and> state c \<noteq> kDisconnected then [CloseCb] else [])"

definition evolves :: "TcpConnection \<Rightarrow> TcpConnection \<Rightarrow> bool" where
  "evolves c c' \<longleftrightarrow> grows (closing_events c c') c c'"

lemma evolvesI: "grows [] c c' \<Longrightarrow> state c' = state c \<Longrightarrow> evolves c c'"
  "grows [CloseCb] c c' \<Longrightarrow> state c' = kDisconnected \<Longrightarrow> state c \<noteq> kDisconnected \<Longrightarrow> evolves c c'"
  by (simp_all add: evolves_def closing_events_def)

lemma evolves_refl [simp]: "evolves c c"
  by (rule evolvesI) simp_all

lemma evolves_callback: "\<not> life cb \<Longrightarrow> evolves c (callback cb c)"
  by (rule evolvesI(1)) (simp_all add: grows_callback)

lemma handleClose_evolves: "handleClose c = Some c' \<Longrightarrow> evolves c c'"
  using handleClose_grows by (auto intro: evolvesI)

lemma handleRead_evolves: "handleRead r c = Some c' \<Longrightarrow> evolves c c'"
proof -
  assume a: "handleRead r c = Some c'"
  obtain b n e where b: "readFd (inputBuffer c) r = Some (b, n, e)" and d: "state c \<noteq> kDisconnected"
    using a by (auto simp: handleRead_def split: if_splits option.splits)
  have "evolves c c'" if "handleClose (c\<lparr>inputBuffer := b\<rparr>) = Some c'"
    using handleClose_grows [OF that] by (intro evolvesI(2)) auto
  then show ?thesis
    using a b d by (auto simp: handleRead_def Let_def split: if_splits intro: evolvesI(1) intro!: grows_callback_after)
qed

lemma handleWrite_evolves: "handleWrite w c = Some c' \<Longrightarrow> evolves c c'"
  by (rule evolvesI(1)) (auto simp: handleWrite_def Let_def on_channel_grows shutdownInLoop_grows
      split: if_splits write_result.splits option.splits dest: on_channel_history
      intro!: grows_queue_after grows_shutdown_after)

lemma sendInLoop_evolves: "sendInLoop w dat c = Some c' \<Longrightarrow> evolves c c'"
  using sendInLoop_grows by (auto intro: evolvesI)

lemma send_evolves: "send True w dat c = Some c' \<Longrightarrow> evolves c c'"
  by (auto simp: send_def intro: sendInLoop_evolves evolvesI split: if_splits)

lemma shutdown_evolves: "shutdown True c = Some c' \<Longrightarrow> evolves c c'"
  by (auto simp: shutdown_def stateAtomicGetAndSet_def evolves_def closing_events_def shutdownInLoop_grows
      intro!: grows_shutdown_after split: if_splits)

lemma forceClose_evolves: "evolves c (forceClose c)"
  using forceClose_grows [of c] by (simp add: evolves_def closing_events_def)

lemma reading_evolves:
  "stopReadInLoop c = Some c' \<Longrightarrow> evolves c c'" "startReadInLoop c = Some c' \<Longrightarrow> evolves c c'"
  "retrieveInput n c = Some c' \<Longrightarrow> evolves c c'"
  by (auto simp: stopReadInLoop_def startReadInLoop_def retrieveInput_def on_channel_grows
      intro!: evolvesI(1) split: if_splits dest: on_channel_history)

lemma runTask_evolves: "runTask w t c = Some c' \<Longrightarrow> t \<noteq> ConnectDestroyed \<Longrightarrow> evolves c c'"
  by (cases t) (auto simp: forceCloseInLoop_def shutdownInLoop_grows split: if_splits
      intro: sendInLoop_evolves handleClose_evolves reading_evolves evolvesI(1) evolves_callback)

lemma onChannelEvent_evolves: "onChannelEvent r w cb c = Some c' \<Longrightarrow> evolves c c'"
  by (cases cb) (auto intro: handleRead_evolves handleWrite_evolves handleClose_evolves evolvesI(1))

section \<open>The actions\<close>

text \<open>Calls of threads other than the loop's.\<close>

fun foreign :: "conn_action \<Rightarrow> bool" where
  "foreign (OSend dat) = True"
| "foreign OShutdown = True"
| "foreign OForceClose = True"
| "foreign OStopRead = True"
| "foreign OStartRead = True"
| "foreign (OResume i) = True"
| "foreign a = False"

text \<open>No task of \<open>connectDestroyed\<close> waits in the loop of the connection: the server runs it in its own.\<close>

definition no_destroy :: "ConnSystem \<Rightarrow> bool" where
  "no_destroy s \<longleftrightarrow> ConnectDestroyed \<notin> set (pending (conn s)) \<and> MidQueue ConnectDestroyed \<notin> set (midway s)"

definition history_of :: "conn_action \<Rightarrow> TcpConnection \<Rightarrow> TcpConnection \<Rightarrow> conn_callback list" where
  "history_of a c c' = (if a = Establish then [ConnectionCb True] else closing_events c c')"

lemma evolves_history:
  "evolves c c' \<Longrightarrow> a \<noteq> Establish \<Longrightarrow>
     \<exists>ts. set ts \<subseteq> set (pending c) \<and> grows (history_of a c c') (c\<lparr>pending := ts\<rparr>) c'"
  by (intro exI [of _ "pending c"]) (simp add: evolves_def history_of_def)

lemma perform_inner:
  assumes p: "perform a s = Some s'" and a: "\<not> foreign a" "a \<noteq> Destroyed" and n: "no_destroy s"
  shows "midway s' = midway s \<and> (\<exists>ts. set ts \<subseteq> set (pending (conn s)) \<and>
    grows (history_of a (conn s) (conn s')) ((conn s)\<lparr>pending := ts\<rparr>) (conn s'))"
proof -
  have e: "\<exists>ts. set ts \<subseteq> set (pending (conn s)) \<and>
      grows (history_of a (conn s) (conn s')) ((conn s)\<lparr>pending := ts\<rparr>) (conn s')"
    if "evolves ((conn s)\<lparr>pending := ts\<rparr>) (conn s')" "set ts \<subseteq> set (pending (conn s))" "a \<noteq> Establish" for ts
    using that by (auto simp: evolves_def history_of_def closing_events_def)
  have u: "\<exists>c'. f (conn s) = Some c' \<and> s' = s\<lparr>conn := c'\<rparr>" if "on_conn f s = Some s'" for f
    using that by (auto simp: on_conn_def)
  show ?thesis
    using p a n
  proof (cases a)
    case Establish
    then obtain c' where c': "connectEstablished (conn s) = Some c'" "s' = s\<lparr>conn := c'\<rparr>" using p u by auto
    then have "grows [ConnectionCb True] (conn s) c'"
      by (auto simp: connectEstablished_def dest!: on_channel_history split: if_splits
          intro: growsI [of _ _ "[ConnectionCb True]" _ "[]"])
    then show ?thesis using c' Establish
      by (intro conjI exI [of _ "pending (conn s)"]) (simp_all add: history_of_def)
  next
    case (Dispatch r w)
    then show ?thesis
    proof (cases "dispatch s")
      case (Cons cb rest)
      then show ?thesis using p Dispatch
        by (auto simp: on_conn_def dest!: onChannelEvent_evolves intro!: evolves_history)
    qed (use p in \<open>auto intro!: evolves_history\<close>)
  next
    case (RunPending w)
    show ?thesis
    proof (cases "pending (conn s)")
      case (Cons t ts)
      then have "t \<noteq> ConnectDestroyed" using n by (auto simp: no_destroy_def)
      then obtain c' where c': "s' = s\<lparr>conn := c'\<rparr>" "evolves ((conn s)\<lparr>pending := ts\<rparr>) c'"
        using p RunPending Cons by (auto simp: on_conn_def dest!: runTask_evolves)
      have "\<exists>ts. set ts \<subseteq> set (pending (conn s)) \<and>
          grows (history_of a (conn s) (conn s')) ((conn s)\<lparr>pending := ts\<rparr>) (conn s')"
        by (rule e [of ts]) (use c' RunPending Cons in auto)
      then show ?thesis using c' by simp
    qed (use p RunPending in \<open>auto simp: history_of_def closing_events_def intro: grows_same\<close>)
  qed (auto dest!: u intro!: evolves_history intro: send_evolves shutdown_evolves forceClose_evolves reading_evolves)
qed

lemma drop_call: "set (take i xs @ drop (Suc i) xs) \<subseteq> set xs"
  by (auto dest: in_set_takeD in_set_dropD)

lemma perform_foreign:
  assumes p: "perform a s = Some s'" and a: "foreign a" and n: "no_destroy s" and inv: "sys_inv s" and g: "good a s"
  shows "no_destroy s' \<and> called (conn s') = called (conn s) \<and> dispatch s' = dispatch s \<and>
    (state (conn s') = kDisconnected \<longleftrightarrow> state (conn s) = kDisconnected)"
proof (cases "\<exists>i. a = OResume i")
  case True
  then obtain i where i: "a = OResume i" by blast
  then have l: "i < length (midway s)" using g by (simp add: good_def)
  have m: "MidQueue ConnectDestroyed \<notin> set (take i (midway s) @ drop (Suc i) (midway s))" "midway s ! i \<noteq> MidQueue ConnectDestroyed"
    using n l drop_call [of i "midway s"] nth_mem [OF l] by (auto simp: no_destroy_def simp del: nth_mem)
  have o: "is_open (conn s)" if "midway s ! i = MidShutdown \<or> midway s ! i = MidForceClose"
    using g i that by (auto simp: good_def)
  show ?thesis
    using p i n m o by (cases "midway s ! i")
      (auto simp: stateAtomicGetAndSet_def enter_def no_destroy_def is_open_iff queueInLoop_def Let_def split: if_splits)
next
  case False
  then show ?thesis using p a n by (cases a) (auto simp: enter_def no_destroy_def split: if_splits)
qed

text \<open>
  What a permitted action of a connection that is not being destroyed adds to the life of it; and
  only other threads can queue a task that does not hold it.
\<close>

lemma perform_life:
  assumes p: "perform a s = Some s'" and a: "a \<noteq> Destroyed" and n: "no_destroy s" and inv: "sys_inv s" and g: "good a s"
  shows "no_destroy s'"
    and "life_events (conn s') = life_events (conn s) @ history_of a (conn s) (conn s')"
    and "CloseCb \<in> set (drop (length (called (conn s))) (called (conn s'))) \<longleftrightarrow>
      state (conn s') = kDisconnected \<and> state (conn s) \<noteq> kDisconnected"
    and "\<not> foreign a \<Longrightarrow> midway s' = midway s \<and>
      (list_all owning (pending (conn s)) \<longrightarrow> list_all owning (pending (conn s')))"
proof -
  have est: "state (conn s') \<noteq> kDisconnected \<or> state (conn s) = kDisconnected" if "a = Establish"
    using p that by (auto simp: on_conn_def connectEstablished_def split: if_splits dest!: on_channel_history)
  have inner: "no_destroy s' \<and> life_events (conn s') = life_events (conn s) @ history_of a (conn s) (conn s') \<and>
      (CloseCb \<in> set (drop (length (called (conn s))) (called (conn s'))) \<longleftrightarrow>
        state (conn s') = kDisconnected \<and> state (conn s) \<noteq> kDisconnected) \<and> midway s' = midway s \<and>
      (list_all owning (pending (conn s)) \<longrightarrow> list_all owning (pending (conn s')))" if f: "\<not> foreign a"
  proof -
    obtain ts where ts: "set ts \<subseteq> set (pending (conn s))" "midway s' = midway s"
      "grows (history_of a (conn s) (conn s')) ((conn s)\<lparr>pending := ts\<rparr>) (conn s')"
      using perform_inner [OF p f a n] by blast
    then obtain qs where qs: "pending (conn s') = ts @ qs" "list_all plain qs" by (auto simp: grows_def)
    then have "no_destroy s'" using ts n by (auto simp: no_destroy_def list_all_iff)
    moreover have "list_all owning (pending (conn s'))" if "list_all owning (pending (conn s))"
      using that qs ts(1) by (auto simp: list_all_iff plain_def)
    ultimately show ?thesis
      using grows_life [OF ts(3)] grows_closes [OF ts(3)] ts(2) est
      by (auto simp: life_events_def history_of_def closing_events_def split: if_splits)
  qed
  have outer: "no_destroy s' \<and> life_events (conn s') = life_events (conn s) @ history_of a (conn s) (conn s') \<and>
      (CloseCb \<in> set (drop (length (called (conn s))) (called (conn s'))) \<longleftrightarrow>
        state (conn s') = kDisconnected \<and> state (conn s) \<noteq> kDisconnected)" if f: "foreign a"
    using perform_foreign [OF p f n inv g] f by (auto simp: life_events_def history_of_def closing_events_def)
  show "no_destroy s'" "life_events (conn s') = life_events (conn s) @ history_of a (conn s) (conn s')"
    "CloseCb \<in> set (drop (length (called (conn s))) (called (conn s'))) \<longleftrightarrow>
      state (conn s') = kDisconnected \<and> state (conn s) \<noteq> kDisconnected"
    using inner outer by blast+
  show "midway s' = midway s \<and> (list_all owning (pending (conn s)) \<longrightarrow> list_all owning (pending (conn s')))"
    if "\<not> foreign a"
    using inner [OF that] by blast
qed

end
