(* ===== verification/NetServed.thy ===== *)
theory NetServed
  imports NetTcpServer ConnHistory
begin

text \<open>
  A server together with its connections: the set of \<open>TcpServer\<close>, the tasks of the base loop, every
  connection in the loop it was given to, and the \<open>shared_ptr\<close>s that keep the connection objects
  alive (\<open>TcpServer.cpp\<close>, \<open>TcpConnection.cpp\<close>, \<open>Channel::tie\<close>). The steps of all threads
  interleave. \<open>None\<close> is a failed assertion, or an access to a destroyed connection.
\<close>

section \<open>The system\<close>

text \<open>
  \<open>establishing\<close>: the task of \<open>connectEstablished\<close> is still queued; \<open>owners\<close> are the pointers
  that code of the user holds. \<open>downs\<close> are the connections whose \<open>connectDestroyed\<close> has run; those
  queued before and not run are the rest of \<open>destroyed\<close>.
\<close>

record Served =
  sys :: ConnSystem
  establishing :: bool
  owners :: nat
  gone :: bool

record ServerSystem =
  srv :: TcpServer
  served :: "nat \<Rightarrow> Served option"
  downs :: "nat list"

definition destroyQueue :: "ServerSystem \<Rightarrow> nat list" where
  "destroyQueue S = drop (length (downs S)) (destroyed (srv S))"

text \<open>
  What holds a connection: the server's set, tasks of the base loop, tasks of its own loop, the guard
  of \<open>handleEvents\<close>, the user. A task counts until it has run; the vector of \<open>doPendingTasks\<close> keeps
  it a little longer.
\<close>

definition held :: "nat \<Rightarrow> ServerSystem \<Rightarrow> Served \<Rightarrow> bool" where
  "held i S k \<longleftrightarrow> i \<in> set (connections (srv S)) \<or> i \<in> set (closing (srv S)) \<or> i \<in> set (destroyQueue S) \<or>
     establishing k \<or> list_ex owning (pending (conn (sys k))) \<or> dispatch (sys k) \<noteq> [] \<or> 0 < owners k"

text \<open>The object is destroyed when nothing holds it any more; its destructor asserts the state.\<close>

definition settle :: "nat \<Rightarrow> Served \<Rightarrow> ServerSystem \<Rightarrow> ServerSystem option" where
  "settle i k S =
     (if held i S k then Some (S\<lparr>served := (served S)(i \<mapsto> k)\<rparr>)
      else if destructible (conn (sys k)) then Some (S\<lparr>served := (served S)(i \<mapsto> k\<lparr>gone := True\<rparr>)\<rparr>)
      else None)"

definition access :: "nat \<Rightarrow> ServerSystem \<Rightarrow> Served option" where
  "access i S = Option.bind (served S i) (\<lambda>k. if gone k then None else Some k)"

text \<open>\<open>TcpServer::newConnection\<close>; \<open>wc\<close>: the server has a write-complete callback.\<close>

definition serve_new :: "bool \<Rightarrow> nat \<Rightarrow> ServerSystem \<Rightarrow> ServerSystem option" where
  "serve_new wc i S =
     map_option (\<lambda>sv. S\<lparr>srv := sv, served := (served S)(i \<mapsto>
         \<lparr>sys = ConnSystem_new wc None, establishing = True, owners = 0, gone = False\<rparr>)\<rparr>)
       (newConnection i (srv S))"

text \<open>The connection's loop is the base loop.\<close>

definition in_base :: "nat \<Rightarrow> ServerSystem \<Rightarrow> bool" where
  "in_base i S \<longleftrightarrow> map_of (assigned (srv S)) i = Some None"

text \<open>
  An action of a connection; its close callback is \<open>TcpServer::closeConnection\<close>.
\<close>

definition serve_conn :: "nat \<Rightarrow> conn_action \<Rightarrow> ServerSystem \<Rightarrow> ServerSystem option" where
  "serve_conn i a S =
     Option.bind (access i S) (\<lambda>k.
     Option.bind (perform a (sys k)) (\<lambda>s.
     Option.bind
       (if CloseCb \<in> set (drop (length (called (conn (sys k)))) (called (conn s)))
        then closeConnection (in_base i S) i (srv S) else Some (srv S)) (\<lambda>sv.
     settle i (k\<lparr>sys := s, establishing := establishing k \<and> a \<noteq> Establish\<rparr>) (S\<lparr>srv := sv\<rparr>))))"

text \<open>The tasks of the base loop: \<open>closeConnectionInLoop\<close> and \<open>connectDestroyed\<close>.\<close>

definition serve_closing :: "ServerSystem \<Rightarrow> ServerSystem option" where
  "serve_closing S =
     (case closing (srv S) of
        [] \<Rightarrow> Some S
      | i # _ \<Rightarrow> Option.bind (access i S) (\<lambda>k. Option.bind (server_do RunClosing (srv S)) (\<lambda>sv.
          settle i k (S\<lparr>srv := sv\<rparr>))))"

definition serve_destroyed :: "ServerSystem \<Rightarrow> ServerSystem option" where
  "serve_destroyed S =
     (case destroyQueue S of
        [] \<Rightarrow> Some S
      | i # _ \<Rightarrow> Option.bind (access i S) (\<lambda>k.
          settle i (k\<lparr>sys := (sys k)\<lparr>conn := connectDestroyed (conn (sys k))\<rparr>\<rparr>) (S\<lparr>downs := downs S @ [i]\<rparr>)))"

text \<open>Code of the user takes a pointer, and drops one.\<close>

definition take_pointer :: "nat \<Rightarrow> ServerSystem \<Rightarrow> ServerSystem option" where
  "take_pointer i S = map_option (\<lambda>k. S\<lparr>served := (served S)(i \<mapsto> k\<lparr>owners := Suc (owners k)\<rparr>)\<rparr>) (access i S)"

definition drop_pointer :: "nat \<Rightarrow> ServerSystem \<Rightarrow> ServerSystem option" where
  "drop_pointer i S = Option.bind (access i S) (\<lambda>k. settle i (k\<lparr>owners := owners k - 1\<rparr>) S)"

text \<open>\<open>~TcpServer\<close>: the set of connections is destroyed.\<close>

fun settle_all :: "nat list \<Rightarrow> ServerSystem \<Rightarrow> ServerSystem option" where
  "settle_all [] S = Some S"
| "settle_all (i # is) S = Option.bind (access i S) (\<lambda>k. Option.bind (settle i k S) (settle_all is))"

definition TcpServer_destroy :: "ServerSystem \<Rightarrow> ServerSystem option" where
  "TcpServer_destroy S = settle_all (connections (srv S)) (S\<lparr>srv := (srv S)\<lparr>connections := []\<rparr>\<rparr>)"

section \<open>Runs\<close>

datatype serve_action = New bool nat | On nat conn_action | CloseTask | DestroyTask | TakePtr nat | DropPtr nat

fun serve :: "serve_action \<Rightarrow> ServerSystem \<Rightarrow> ServerSystem option" where
  "serve (New wc i) S = serve_new wc i S"
| "serve (On i a) S = serve_conn i a S"
| "serve CloseTask S = serve_closing S"
| "serve DestroyTask S = serve_destroyed S"
| "serve (TakePtr i) S = take_pointer i S"
| "serve (DropPtr i) S = drop_pointer i S"

text \<open>
  What is assumed of the connection's users (\<open>good\<close>), and of their pointers: calls of the loop's
  thread come from callbacks, so that the connection is alive; another thread calls through a pointer
  it holds, and keeps it until its call has returned and a task of \<open>stopRead\<close> or \<open>startRead\<close> has run.
\<close>

fun from_callback :: "conn_action \<Rightarrow> bool" where
  "from_callback (LSend w dat) = True"
| "from_callback LShutdown = True"
| "from_callback LForceClose = True"
| "from_callback LStopRead = True"
| "from_callback LStartRead = True"
| "from_callback (LRetrieve n) = True"
| "from_callback a = False"

definition conn_legal :: "conn_action \<Rightarrow> Served \<Rightarrow> bool" where
  "conn_legal a k \<longleftrightarrow> good a (sys k) \<and> a \<noteq> Destroyed \<and> (foreign a \<longrightarrow> 0 < owners k) \<and> (from_callback a \<longrightarrow> \<not> gone k)"

fun serve_legal :: "serve_action \<Rightarrow> ServerSystem \<Rightarrow> bool" where
  "serve_legal (New wc i) S = (served S i = None)"
| "serve_legal (On i a) S = (\<exists>k. served S i = Some k \<and> conn_legal a k)"
| "serve_legal CloseTask S = True"
| "serve_legal DestroyTask S = True"
| "serve_legal (TakePtr i) S = (\<exists>k. served S i = Some k \<and> \<not> gone k \<and> state (conn (sys k)) \<noteq> kConnecting)"
| "serve_legal (DropPtr i) S = (\<exists>k. served S i = Some k \<and> 0 < owners k \<and>
     (1 < owners k \<or> midway (sys k) = [] \<and> list_all owning (pending (conn (sys k)))))"

definition serve_initial :: "nat \<Rightarrow> ServerSystem \<Rightarrow> bool" where
  "serve_initial n S \<longleftrightarrow> server_initial n (srv S) \<and> served S = Map.empty \<and> downs S = []"

definition serve_reach :: "nat \<Rightarrow> ServerSystem \<Rightarrow> bool" where
  "serve_reach n = reached (serve_initial n) (acts serve_legal serve)"

section \<open>The invariant\<close>

text \<open>Where a connection stands with the server.\<close>

record standing =
  in_set :: bool
  in_closing :: bool
  in_destroyed :: bool
  in_downs :: bool

definition standing_of :: "nat \<Rightarrow> ServerSystem \<Rightarrow> standing" where
  "standing_of i S = \<lparr>in_set = i \<in> set (connections (srv S)), in_closing = i \<in> set (closing (srv S)),
     in_destroyed = i \<in> set (destroyed (srv S)), in_downs = i \<in> set (downs S)\<rparr>"

definition keeps_alive :: "standing \<Rightarrow> bool" where
  "keeps_alive p \<longleftrightarrow> in_set p \<or> in_closing p \<or> in_destroyed p \<and> \<not> in_downs p"

definition conn_held :: "Served \<Rightarrow> bool" where
  "conn_held k \<longleftrightarrow> establishing k \<or> list_ex owning (pending (conn (sys k))) \<or> dispatch (sys k) \<noteq> [] \<or> 0 < owners k"

text \<open>The callbacks of a life so far.\<close>

definition history :: "standing \<Rightarrow> ConnectionState \<Rightarrow> conn_callback list" where
  "history p st =
     (if st = kConnecting then []
      else if st \<noteq> kDisconnected then [ConnectionCb True]
      else [ConnectionCb True, CloseCb] @ (if in_downs p then [ConnectionCb False] else []))"

definition in_order :: "standing \<Rightarrow> Served \<Rightarrow> bool" where
  "in_order p k \<longleftrightarrow> sys_inv (sys k) \<and> no_destroy (sys k) \<and>
     (let st = state (conn (sys k)) in
       (establishing k \<longleftrightarrow> st = kConnecting) \<and> (st = kConnecting \<longrightarrow> owners k = 0) \<and>
       (st \<noteq> kDisconnected \<longrightarrow> in_set p \<and> \<not> in_closing p \<and> \<not> in_destroyed p \<and> \<not> in_downs p) \<and>
       (st = kDisconnected \<longrightarrow> in_closing p \<or> in_destroyed p) \<and>
       life_events (conn (sys k)) = history p st) \<and>
     (owners k = 0 \<longrightarrow> midway (sys k) = [] \<and> list_all owning (pending (conn (sys k))))"

definition served_ok :: "standing \<Rightarrow> Served \<Rightarrow> bool" where
  "served_ok p k \<longleftrightarrow> in_order p k \<and> (gone k \<longleftrightarrow> \<not> keeps_alive p \<and> \<not> conn_held k)"

definition serve_inv :: "nat \<Rightarrow> ServerSystem \<Rightarrow> bool" where
  "serve_inv n S \<longleftrightarrow> server_inv n (srv S) \<and> (\<forall>i. served S i \<noteq> None \<longleftrightarrow> i \<in> fst ` set (assigned (srv S))) \<and>
     (\<exists>rest. destroyed (srv S) = downs S @ rest) \<and>
     (\<forall>i k. served S i = Some k \<longrightarrow> served_ok (standing_of i S) k)"

text \<open>The invariant but for connection \<open>i\<close>, which is being changed.\<close>

definition serve_but :: "nat \<Rightarrow> nat \<Rightarrow> ServerSystem \<Rightarrow> bool" where
  "serve_but n i S \<longleftrightarrow> server_inv n (srv S) \<and> (\<forall>j. served S j \<noteq> None \<longleftrightarrow> j \<in> fst ` set (assigned (srv S))) \<and>
     (\<exists>rest. destroyed (srv S) = downs S @ rest) \<and>
     (\<forall>j k. j \<noteq> i \<longrightarrow> served S j = Some k \<longrightarrow> served_ok (standing_of j S) k)"

lemma serve_inv_but: "serve_inv n S \<Longrightarrow> serve_but n i S"
  by (simp add: serve_inv_def serve_but_def)

lemma held_iff:
  assumes "serve_but n i S"
  shows "held i S k \<longleftrightarrow> keeps_alive (standing_of i S) \<or> conn_held k"
proof -
  obtain rest where r: "destroyed (srv S) = downs S @ rest" "distinct (destroyed (srv S))"
    using assms by (auto simp: serve_but_def server_inv_def)
  then have "i \<in> set (destroyQueue S) \<longleftrightarrow> i \<in> set (destroyed (srv S)) \<and> i \<notin> set (downs S)"
    by (auto simp: destroyQueue_def)
  then show ?thesis by (auto simp: held_def keeps_alive_def conn_held_def standing_of_def)
qed

text \<open>A connection in order is kept or, if nothing holds it, destroyed, and the invariant is restored.\<close>

lemma gone_fields [simp]: "conn_held (k\<lparr>gone := g\<rparr>) = conn_held k" "in_order p (k\<lparr>gone := g\<rparr>) = in_order p k"
  by (simp_all add: conn_held_def in_order_def)

lemma standing_served [simp]: "standing_of j (S\<lparr>served := m\<rparr>) = standing_of j S"
  by (simp add: standing_of_def)

lemma serve_but_restore:
  assumes "serve_but n i S" "served S i \<noteq> None" "served_ok (standing_of i S) k"
  shows "serve_inv n (S\<lparr>served := (served S)(i \<mapsto> k)\<rparr>)"
  using assms by (auto simp: serve_but_def serve_inv_def)

lemma settle_ok:
  assumes b: "serve_but n i S" and i: "served S i \<noteq> None" and k: "in_order (standing_of i S) k" "\<not> gone k"
  shows "\<exists>S'. settle i k S = Some S' \<and> serve_inv n S'"
proof (cases "held i S k")
  case True
  then have "served_ok (standing_of i S) k"
    using k held_iff [OF b] by (simp add: served_ok_def)
  then show ?thesis using True serve_but_restore [OF b i] by (simp add: settle_def)
next
  case False
  then have d: "\<not> keeps_alive (standing_of i S) \<and> \<not> conn_held k" using held_iff [OF b] by simp
  then have ok: "served_ok (standing_of i S) (k\<lparr>gone := True\<rparr>)" using k by (simp add: served_ok_def)
  then have "state (conn (sys k)) = kDisconnected"
    using k d by (auto simp: in_order_def Let_def keeps_alive_def)
  then show ?thesis
    using False serve_but_restore [OF b i ok] by (simp add: settle_def destructible_def)
qed

section \<open>Each action keeps the invariant\<close>

lemma good_connecting:
  assumes "good a s" "sys_inv s" "a \<noteq> Destroyed"
  shows "state (conn s) = kConnecting \<longleftrightarrow> a = Establish"
proof
  assume st: "state (conn s) = kConnecting"
  then have "events (channel (conn s)) = 0" "pending (conn s) = []" "dispatch s = []" "midway s = []"
    using assms(2) by (auto simp: sys_inv_def conn_inv_def)
  then show "a = Establish"
    using assms(1,3) st by (cases a) (simp_all add: good_def is_open_def poll_ok_def)
qed (use assms(1) in \<open>simp add: good_def\<close>)

lemma not_gone_legal:
  assumes ok: "served_ok p k" and legal: "conn_legal a k"
  shows "\<not> gone k"
proof
  assume g: "gone k"
  then have o: "owners k = 0" "dispatch (sys k) = []" "\<not> establishing k" "\<not> keeps_alive p"
    and p: "\<not> list_ex owning (pending (conn (sys k)))" "list_all owning (pending (conn (sys k)))" "midway (sys k) = []"
    and st: "state (conn (sys k)) = kDisconnected"
    using ok by (auto simp: served_ok_def in_order_def Let_def conn_held_def keeps_alive_def)
  then have pe: "pending (conn (sys k)) = []" by (cases "pending (conn (sys k))") auto
  have "events (channel (conn (sys k))) = 0"
    using ok st by (auto simp: served_ok_def in_order_def sys_inv_def conn_inv_def)
  then show False
    using legal o p pe st g by (cases a) (auto simp: conn_legal_def good_def poll_ok_def)
qed

lemma access_served: "served S i = Some k \<Longrightarrow> \<not> gone k \<Longrightarrow> access i S = Some k"
  by (simp add: access_def)

lemma serve_new_ok:
  assumes inv: "serve_inv n S" and new: "served S i = None"
  shows "\<exists>S'. serve_new wc i S = Some S' \<and> serve_inv n S'"
proof -
  have si: "server_inv n (srv S)" using inv by (simp add: serve_inv_def)
  have fresh: "i \<notin> fst ` set (assigned (srv S))" using inv new by (metis serve_inv_def)
  obtain sv where sv: "newConnection i (srv S) = Some sv" "server_inv n sv"
    using server_do_ok [OF si, of "Accepted i"] fresh by auto
  have f: "connections sv = List.insert i (connections (srv S))" "closing sv = closing (srv S)"
    "destroyed sv = destroyed (srv S)" "fst ` set (assigned sv) = insert i (fst ` set (assigned (srv S)))"
    using sv(1) by (auto simp: newConnection_def split: option.splits)
  have out: "i \<notin> set (closing (srv S))" "i \<notin> set (destroyed (srv S))"
    using si fresh by (auto simp: server_inv_def)
  then have "i \<notin> set (downs S)" using inv by (auto simp: serve_inv_def)
  then have "served_ok (standing_of i (S\<lparr>srv := sv\<rparr>))
      \<lparr>sys = ConnSystem_new wc None, establishing = True, owners = 0, gone = False\<rparr>"
    using f out sys_inv_new [of wc None]
    by (simp add: served_ok_def in_order_def standing_of_def no_destroy_def conn_held_def history_def life_events_def keeps_alive_def)
      (simp add: ConnSystem_new_def TcpConnection_new_def)
  moreover have "standing_of j (S\<lparr>srv := sv\<rparr>) = standing_of j S" if "j \<noteq> i" for j
    using f that by (simp add: standing_of_def)
  ultimately show ?thesis
    using inv sv f unfolding serve_new_def serve_inv_def by auto
qed

lemma closeConnection_fields:
  assumes "closeConnection inLoop i t = Some t'" "server_inv n t"
  shows "assigned t' = assigned t" "j \<noteq> i \<Longrightarrow> j \<in> set (connections t') \<longleftrightarrow> j \<in> set (connections t)"
    "j \<noteq> i \<Longrightarrow> j \<in> set (closing t') \<longleftrightarrow> j \<in> set (closing t)"
    "j \<noteq> i \<Longrightarrow> j \<in> set (destroyed t') \<longleftrightarrow> j \<in> set (destroyed t)"
    "\<exists>rest. destroyed t' = destroyed t @ rest" "i \<in> set (closing t') \<or> i \<in> set (destroyed t')"
proof -
  have "distinct (connections t)" using assms(2) by (simp add: server_inv_def)
  then show "assigned t' = assigned t" "j \<noteq> i \<Longrightarrow> j \<in> set (connections t') \<longleftrightarrow> j \<in> set (connections t)"
    "j \<noteq> i \<Longrightarrow> j \<in> set (closing t') \<longleftrightarrow> j \<in> set (closing t)"
    "j \<noteq> i \<Longrightarrow> j \<in> set (destroyed t') \<longleftrightarrow> j \<in> set (destroyed t)"
    "\<exists>rest. destroyed t' = destroyed t @ rest" "i \<in> set (closing t') \<or> i \<in> set (destroyed t')"
    using assms(1) by (auto simp: closeConnection_def closeConnectionInLoop_def split: if_splits)
qed

lemma closeInLoop_fields:
  assumes "server_do RunClosing t = Some t'" "closing t = i # is" "server_inv n t"
  shows "assigned t' = assigned t" "j \<noteq> i \<Longrightarrow> j \<in> set (connections t') \<longleftrightarrow> j \<in> set (connections t)"
    "j \<noteq> i \<Longrightarrow> j \<in> set (closing t') \<longleftrightarrow> j \<in> set (closing t)"
    "j \<noteq> i \<Longrightarrow> j \<in> set (destroyed t') \<longleftrightarrow> j \<in> set (destroyed t)"
    "\<exists>rest. destroyed t' = destroyed t @ rest" "i \<in> set (destroyed t')"
proof -
  have "distinct (connections t)" using assms(3) by (simp add: server_inv_def)
  then show "assigned t' = assigned t" "j \<noteq> i \<Longrightarrow> j \<in> set (connections t') \<longleftrightarrow> j \<in> set (connections t)"
    "j \<noteq> i \<Longrightarrow> j \<in> set (closing t') \<longleftrightarrow> j \<in> set (closing t)"
    "j \<noteq> i \<Longrightarrow> j \<in> set (destroyed t') \<longleftrightarrow> j \<in> set (destroyed t)"
    "\<exists>rest. destroyed t' = destroyed t @ rest" "i \<in> set (destroyed t')"
    using assms(1,2) by (auto simp: closeConnectionInLoop_def split: if_splits)
qed

text \<open>A change of the server's standing of \<open>i\<close> leaves the other connections alone.\<close>

lemma serve_but_change:
  assumes inv: "serve_inv n S" and t: "server_inv n t"
    and f: "assigned t = assigned (srv S)" "\<And>j. j \<noteq> i \<Longrightarrow> j \<in> set (connections t) \<longleftrightarrow> j \<in> set (connections (srv S))"
      "\<And>j. j \<noteq> i \<Longrightarrow> j \<in> set (closing t) \<longleftrightarrow> j \<in> set (closing (srv S))"
      "\<And>j. j \<noteq> i \<Longrightarrow> j \<in> set (destroyed t) \<longleftrightarrow> j \<in> set (destroyed (srv S))"
      "\<exists>rest. destroyed t = destroyed (srv S) @ rest"
  shows "serve_but n i (S\<lparr>srv := t\<rparr>)"
proof -
  have st: "standing_of j (S\<lparr>srv := t\<rparr>) = standing_of j S" if "j \<noteq> i" for j
    using f(2-4) [OF that] by (simp add: standing_of_def)
  obtain r1 r2 where "destroyed t = destroyed (srv S) @ r1" "destroyed (srv S) = downs S @ r2"
    using f(5) inv by (auto simp: serve_inv_def)
  then show ?thesis using inv t f(1) st by (simp add: serve_inv_def serve_but_def)
qed

lemma standing_downs: "in_downs (standing_of i (S\<lparr>srv := t\<rparr>)) = in_downs (standing_of i S)"
  by (simp add: standing_of_def)

lemma serve_conn_ok:
  assumes inv: "serve_inv n S" and k: "served S i = Some k" and legal: "conn_legal a k"
  shows "\<exists>S'. serve_conn i a S = Some S' \<and> serve_inv n S'"
proof -
  let ?p = "standing_of i S"
  have si: "server_inv n (srv S)" and ok: "served_ok ?p k" using inv k by (auto simp: serve_inv_def)
  have alive: "\<not> gone k" using not_gone_legal [OF ok legal] .
  have o: "in_order ?p k" using ok by (simp add: served_ok_def)
  have g: "good a (sys k)" "a \<noteq> Destroyed" using legal by (auto simp: conn_legal_def)
  have sk: "sys_inv (sys k)" "no_destroy (sys k)" using o by (auto simp: in_order_def)
  obtain s where s: "perform a (sys k) = Some s" "sys_inv s" "advances (payload a (sys k)) (conn (sys k)) (conn s)"
    using good_progress [OF sk(1) g(1)] by (auto simp: progress_def)
  note hist = perform_life [OF s(1) g(2) sk(2,1) g(1)]
  let ?st = "state (conn (sys k))" and ?st' = "state (conn s)"
  have est: "?st = kConnecting \<longleftrightarrow> a = Establish" using good_connecting [OF g(1) sk(1) g(2)] .
  have rk: "rank ?st \<le> rank ?st'" using s(3) by (simp add: advances_def)
  have est': "?st' = kConnected" if "a = Establish"
    using s(1) that by (auto simp: on_conn_def connectEstablished_def split: if_splits dest!: on_channel_history)
  have nc: "?st' \<noteq> kConnecting" using est est' rk by (cases ?st; cases ?st') auto
  have still: "?st = kDisconnected \<Longrightarrow> ?st' = kDisconnected" using rk by (cases ?st') auto
  let ?k = "k\<lparr>sys := s, establishing := establishing k \<and> a \<noteq> Establish\<rparr>"
  let ?closes = "CloseCb \<in> set (drop (length (called (conn (sys k)))) (called (conn s)))"
  have kept: "owners k = 0 \<longrightarrow> midway s = [] \<and> list_all owning (pending (conn s))"
    using o legal hist(4) by (auto simp: in_order_def conn_legal_def)
  have es: "establishing k \<longleftrightarrow> a = Establish" using o est by (simp add: in_order_def Let_def)
  have life: "life_events (conn s) = history ?p ?st @ history_of a (conn (sys k)) (conn s)"
    using hist(2) o by (simp add: in_order_def Let_def)
  have own: "owners k = 0" if "a = Establish" using o est that by (simp add: in_order_def Let_def)
  show ?thesis
  proof (cases ?closes)
    case True
    then have c: "?st' = kDisconnected" "?st \<noteq> kDisconnected" using hist(3) by auto
    then have p: "in_set ?p" "\<not> in_closing ?p" "\<not> in_destroyed ?p" "\<not> in_downs ?p"
      using o by (simp_all add: in_order_def Let_def)
    have nE: "a \<noteq> Establish" using est' c by auto
    have "server_legal (CloseCalled (in_base i S) i) (srv S)"
      using p si by (auto simp: standing_of_def server_inv_def)
    then obtain t where t: "closeConnection (in_base i S) i (srv S) = Some t" "server_inv n t"
      using server_do_ok [OF si] by fastforce
    note f = closeConnection_fields [OF t(1) si]
    have b: "serve_but n i (S\<lparr>srv := t\<rparr>)" using serve_but_change [OF inv t(2)] f by blast
    have "in_order (standing_of i (S\<lparr>srv := t\<rparr>)) ?k"
      using s(2) hist(1) c f(6) life kept es nE p est
      by (simp add: in_order_def history_def history_of_def closing_events_def standing_downs)
        (simp add: standing_of_def)
    then obtain S' where "settle i ?k (S\<lparr>srv := t\<rparr>) = Some S'" "serve_inv n S'"
      using settle_ok [OF b, of ?k] k alive by auto
    then show ?thesis using access_served [OF k alive] s(1) True t(1) by (simp add: serve_conn_def)
  next
    case False
    then have c: "?st' = kDisconnected \<longleftrightarrow> ?st = kDisconnected" using hist(3) still by auto
    have "in_order ?p ?k"
      using o s(2) hist(1) c life kept es nc est est' own
      by (auto simp: in_order_def Let_def history_def history_of_def closing_events_def)
    then obtain S' where "settle i ?k S = Some S'" "serve_inv n S'"
      using settle_ok [OF serve_inv_but [OF inv], of i ?k] k alive by auto
    then show ?thesis using access_served [OF k alive] s(1) False by (simp add: serve_conn_def)
  qed
qed

lemma serve_closing_ok:
  assumes inv: "serve_inv n S"
  shows "\<exists>S'. serve_closing S = Some S' \<and> serve_inv n S'"
proof (cases "closing (srv S)")
  case (Cons i rest)
  have si: "server_inv n (srv S)" using inv by (simp add: serve_inv_def)
  then have "i \<in> fst ` set (assigned (srv S))" using Cons by (auto simp: server_inv_def)
  then obtain k where k: "served S i = Some k" using inv by (metis serve_inv_def not_Some_eq)
  then have ok: "served_ok (standing_of i S) k" using inv by (simp add: serve_inv_def)
  have p: "in_closing (standing_of i S)" using Cons by (simp add: standing_of_def)
  have alive: "\<not> gone k" using ok p by (simp add: served_ok_def keeps_alive_def)
  obtain t where t: "server_do RunClosing (srv S) = Some t" "server_inv n t"
    using server_do_ok [OF si, of RunClosing] by auto
  note f = closeInLoop_fields [OF t(1) Cons si]
  have b: "serve_but n i (S\<lparr>srv := t\<rparr>)" using serve_but_change [OF inv t(2)] f by blast
  have "in_order (standing_of i (S\<lparr>srv := t\<rparr>)) k"
    using ok p f(6) by (auto simp: served_ok_def in_order_def Let_def history_def standing_downs)
      (simp_all add: standing_of_def)
  then show ?thesis
    using settle_ok [OF b, of k] k alive access_served [OF k alive] Cons t(1)
    by (simp add: serve_closing_def)
qed (simp add: serve_closing_def inv)

lemma serve_destroyed_ok:
  assumes inv: "serve_inv n S"
  shows "\<exists>S'. serve_destroyed S = Some S' \<and> serve_inv n S'"
proof (cases "destroyQueue S")
  case (Cons i rest)
  have si: "server_inv n (srv S)" using inv by (simp add: serve_inv_def)
  obtain q where q: "destroyed (srv S) = downs S @ q" using inv by (auto simp: serve_inv_def)
  then have q': "q = i # rest" using Cons by (simp add: destroyQueue_def)
  have d: "i \<in> set (destroyed (srv S))" "i \<notin> set (downs S)"
    using si q q' by (auto simp: server_inv_def)
  then have "i \<in> fst ` set (assigned (srv S))" using si by (auto simp: server_inv_def)
  then obtain k where k: "served S i = Some k" using inv by (metis serve_inv_def not_Some_eq)
  then have ok: "served_ok (standing_of i S) k" using inv by (simp add: serve_inv_def)
  have p: "in_destroyed (standing_of i S)" "\<not> in_downs (standing_of i S)" using d by (simp_all add: standing_of_def)
  have alive: "\<not> gone k" using ok p by (simp add: served_ok_def keeps_alive_def)
  have st: "state (conn (sys k)) = kDisconnected" using ok p by (auto simp: served_ok_def in_order_def Let_def)
  let ?S = "S\<lparr>downs := downs S @ [i]\<rparr>"
  let ?k = "k\<lparr>sys := (sys k)\<lparr>conn := connectDestroyed (conn (sys k))\<rparr>\<rparr>"
  have "standing_of j ?S = standing_of j S" if "j \<noteq> i" for j using that by (simp add: standing_of_def)
  then have b: "serve_but n i ?S" using inv q q' by (simp add: serve_inv_def serve_but_def)
  have "in_order (standing_of i ?S) ?k"
    using ok p st d by (auto simp: served_ok_def in_order_def Let_def sys_inv_def connectDestroyed_def
        connected_def no_destroy_def history_def life_events_def standing_of_def)
  then show ?thesis
    using settle_ok [OF b, of ?k] k alive access_served [OF k alive] Cons by (simp add: serve_destroyed_def)
qed (simp add: serve_destroyed_def inv)

lemma pointer_ok:
  assumes inv: "serve_inv n S" and legal: "serve_legal a S" and a: "a = TakePtr i \<or> a = DropPtr i"
  shows "\<exists>S'. serve a S = Some S' \<and> serve_inv n S'"
  using a
proof
  assume t: "a = TakePtr i"
  then obtain k where k: "served S i = Some k" "\<not> gone k" "state (conn (sys k)) \<noteq> kConnecting"
    using legal by auto
  then have "served_ok (standing_of i S) (k\<lparr>owners := Suc (owners k)\<rparr>)"
    using inv by (auto simp: serve_inv_def served_ok_def in_order_def Let_def conn_held_def)
  then show ?thesis
    using serve_but_restore [OF serve_inv_but [OF inv]] k t access_served [OF k(1,2)] by (simp add: take_pointer_def)
next
  assume t: "a = DropPtr i"
  then obtain k where k: "served S i = Some k" "0 < owners k"
    "1 < owners k \<or> midway (sys k) = [] \<and> list_all owning (pending (conn (sys k)))"
    using legal by auto
  then have ok: "served_ok (standing_of i S) k" using inv by (simp add: serve_inv_def)
  then have alive: "\<not> gone k" using k by (simp add: served_ok_def conn_held_def)
  have "in_order (standing_of i S) (k\<lparr>owners := owners k - 1\<rparr>)"
    using ok k by (auto simp: served_ok_def in_order_def Let_def)
  then show ?thesis
    using settle_ok [OF serve_inv_but [OF inv], of i "k\<lparr>owners := owners k - 1\<rparr>"] k alive t
      access_served [OF k(1) alive] by (simp add: drop_pointer_def)
qed

lemma serve_ok:
  assumes "serve_inv n S" "serve_legal a S"
  shows "\<exists>S'. serve a S = Some S' \<and> serve_inv n S'"
proof (cases a)
  case (On i a')
  then show ?thesis using serve_conn_ok [OF assms(1)] assms(2) by auto
next
  case (TakePtr i)
  then show ?thesis using pointer_ok assms by blast
next
  case (DropPtr i)
  then show ?thesis using pointer_ok assms by blast
qed (use assms serve_new_ok serve_closing_ok serve_destroyed_ok in auto)

lemma serve_initial_inv: "serve_initial n S \<Longrightarrow> serve_inv n S"
proof -
  assume i: "serve_initial n S"
  then obtain fd idle where "server_start (setNumThread n (TcpServer_new fd idle)) = Some (srv S)"
    by (auto simp: serve_initial_def server_initial_def)
  then have "server_inv n (srv S)" "assigned (srv S) = []"
    using server_start_ok [of n fd idle] by auto
  then show ?thesis using i by (auto simp: serve_initial_def serve_inv_def server_inv_def)
qed

interpretation serving: machine "serve_initial n" serve_legal serve "serve_inv n" for n
  by unfold_locales (erule serve_initial_inv, erule (1) serve_ok)

lemma serve_reach_inv: "serve_reach n S \<Longrightarrow> serve_inv n S"
  unfolding serve_reach_def by (rule serving.steps.reached_inv)

lemma serve_next: "serve_reach n S \<Longrightarrow> serve_legal a S \<Longrightarrow> serve a S = Some S' \<Longrightarrow> serve_reach n S'"
  unfolding serve_reach_def by (rule reached_step) (auto simp: acts_def)

fun serve_run :: "serve_action list \<Rightarrow> ServerSystem \<Rightarrow> ServerSystem option" where
  "serve_run [] S = Some S"
| "serve_run (a # as) S = (if serve_legal a S then Option.bind (serve a S) (serve_run as) else None)"

lemma serve_run_reach: "serve_reach n S \<Longrightarrow> serve_run as S = Some S' \<Longrightarrow> serve_reach n S'"
  by (induction as S rule: serve_run.induct) (auto simp: bind_eq_Some_conv split: if_splits intro: serve_next)

section \<open>A connection that is up\<close>

lemma serve_initial_ex: "\<exists>S. serve_reach n S \<and> served S = Map.empty \<and> downs S = [] \<and> closing (srv S) = [] \<and> destroyed (srv S) = []"
proof -
  obtain t where t: "server_start (setNumThread n (TcpServer_new 3 None)) = Some t" "server_inv n t" "assigned t = []"
    using server_start_ok by blast
  let ?S = "\<lparr>srv = t, served = Map.empty, downs = []\<rparr>"
  have "serve_initial n ?S" using t by (auto simp: serve_initial_def server_initial_def)
  then have "serve_reach n ?S" unfolding serve_reach_def by (rule reached_initial)
  moreover have "closing t = []" "destroyed t = []" using t by (auto simp: server_inv_def)
  ultimately show ?thesis by (intro exI [of _ ?S]) simp
qed

text \<open>A connection that is up and idle.\<close>

definition idle_up :: "Served \<Rightarrow> bool" where
  "idle_up k \<longleftrightarrow> state (conn (sys k)) = kConnected \<and> pending (conn (sys k)) = [] \<and> dispatch (sys k) = [] \<and>
     midway (sys k) = [] \<and> \<not> establishing k \<and> \<not> gone k"

lemma serve_up:
  "\<exists>S k. serve_reach n S \<and> served S i = Some k \<and> idle_up k \<and> owners k = 0 \<and> downs S = [] \<and> closing (srv S) = [] \<and> destroyed (srv S) = []"
proof -
  obtain S0 where S0: "serve_reach n S0" "served S0 = Map.empty" "downs S0 = []" "closing (srv S0) = []" "destroyed (srv S0) = []"
    using serve_initial_ex by blast
  let ?k0 = "\<lparr>sys = ConnSystem_new True None, establishing = True, owners = 0, gone = False\<rparr>"
  obtain S1 where S1: "serve (New True i) S0 = Some S1" using serve_ok [OF serve_reach_inv [OF S0(1)], of "New True i"] S0(2) by auto
  then have r1: "serve_reach n S1" and k1: "served S1 i = Some ?k0" and f1: "downs S1 = []" "closing (srv S1) = []" "destroyed (srv S1) = []"
    using serve_next [OF S0(1), of "New True i"] S0 by (auto simp: serve_new_def newConnection_def split: option.splits)
  have new: "conn_inv (conn (sys ?k0))" "state (conn (sys ?k0)) = kConnecting" "pending (conn (sys ?k0)) = []"
    "dispatch (sys ?k0) = []" "midway (sys ?k0) = []"
    using conn_inv_new by (simp_all add: ConnSystem_new_def) (simp_all add: TcpConnection_new_def)
  obtain c where c: "connectEstablished (conn (sys ?k0)) = Some c" "state c = kConnected" "pending c = []"
    using establish_ok [OF new(1,2)] new(3) by auto
  have p: "perform Establish (sys ?k0) = Some ((sys ?k0)\<lparr>conn := c\<rparr>)" using c by (simp add: on_conn_def)
  have "good Establish (sys ?k0)" using new by (simp add: good_def)
  then have l: "serve_legal (On i Establish) S1" using k1 by (simp add: conn_legal_def)
  have nc: "CloseCb \<notin> set (drop (length (called (conn (sys ?k0)))) (called c))"
    using c(1) by (auto simp: connectEstablished_def dest!: on_channel_history split: if_splits)
  obtain S2 where S2: "serve (On i Establish) S1 = Some S2" using serve_ok [OF serve_reach_inv [OF r1] l] by blast
  have h: "in_set (standing_of i S1)"
    using serve_reach_inv [OF r1] k1 new(2) by (auto simp: serve_inv_def served_ok_def in_order_def Let_def)
  then have "S2 = S1\<lparr>served := (served S1)(i \<mapsto> \<lparr>sys = (sys ?k0)\<lparr>conn := c\<rparr>, establishing = False, owners = 0, gone = False\<rparr>)\<rparr>"
    using S2 access_served [OF k1] p nc
    by (simp add: serve_conn_def settle_def held_def standing_of_def split: if_splits)
  then show ?thesis
    using serve_next [OF r1 l S2] c new f1
    by (intro exI [of _ S2] exI [of _ "\<lparr>sys = (sys ?k0)\<lparr>conn := c\<rparr>, establishing = False, owners = 0, gone = False\<rparr>"])
      (simp add: idle_up_def)
qed

section \<open>The base loop runs its tasks\<close>

lemma serve_run_append: "serve_run (as @ bs) S = Option.bind (serve_run as S) (serve_run bs)"
  by (induction as S rule: serve_run.induct) (auto simp: bind_eq_Some_conv Option.bind_eq_None_conv split: Option.bind_split)

text \<open>The tasks of the base loop leave what the loop of a connection and the users see of it.\<close>

definition same_use :: "Served \<Rightarrow> Served \<Rightarrow> bool" where
  "same_use k k' \<longleftrightarrow> owners k' = owners k \<and> establishing k' = establishing k \<and> dispatch (sys k') = dispatch (sys k) \<and>
     midway (sys k') = midway (sys k) \<and> pending (conn (sys k')) = pending (conn (sys k)) \<and>
     state (conn (sys k')) = state (conn (sys k))"

definition base_step :: "ServerSystem \<Rightarrow> ServerSystem \<Rightarrow> bool" where
  "base_step S S' \<longleftrightarrow> (\<forall>i k. served S i = Some k \<longrightarrow> (\<exists>k'. served S' i = Some k' \<and> same_use k k'))"

lemma base_step_refl: "base_step S S"
  by (simp add: base_step_def same_use_def)

lemma base_step_trans: "base_step S S' \<Longrightarrow> base_step S' S'' \<Longrightarrow> base_step S S''"
  unfolding base_step_def same_use_def by fastforce

lemma base_step_settle:
  "settle i k S = Some S' \<Longrightarrow> served S i = Some k0 \<Longrightarrow> same_use k0 k \<Longrightarrow> base_step S S' \<and> srv S' = srv S \<and> downs S' = downs S"
  by (auto simp: settle_def base_step_def same_use_def split: if_splits)

lemma base_step_cong: "served T = served S \<Longrightarrow> base_step T S' = base_step S S'"
  by (simp add: base_step_def)

lemma close_task:
  assumes "serve CloseTask S = Some S'" "closing (srv S) = i # rest"
  shows "base_step S S' \<and> closing (srv S') = rest"
proof -
  obtain k t where k: "access i S = Some k" "server_do RunClosing (srv S) = Some t" "settle i k (S\<lparr>srv := t\<rparr>) = Some S'"
    using assms by (auto simp: serve_closing_def bind_eq_Some_conv)
  then have "served S i = Some k" by (auto simp: access_def bind_eq_Some_conv split: if_splits)
  then have "base_step S S'" "srv S' = t"
    using base_step_settle [OF k(3), of k] base_step_cong [of "S\<lparr>srv := t\<rparr>" S] by (auto simp: same_use_def)
  moreover have "closing t = rest" using k(2) assms(2) by (auto simp: closeConnectionInLoop_def split: if_splits)
  ultimately show ?thesis by simp
qed

lemma destroy_task:
  assumes "serve DestroyTask S = Some S'" "destroyQueue S = i # rest"
  shows "base_step S S' \<and> closing (srv S') = closing (srv S) \<and> destroyQueue S' = rest"
proof -
  let ?T = "S\<lparr>downs := downs S @ [i]\<rparr>"
  obtain k where k: "access i S = Some k"
    "settle i (k\<lparr>sys := (sys k)\<lparr>conn := connectDestroyed (conn (sys k))\<rparr>\<rparr>) ?T = Some S'"
    using assms by (auto simp: serve_destroyed_def bind_eq_Some_conv)
  then have "served S i = Some k" by (auto simp: access_def bind_eq_Some_conv split: if_splits)
  then have "base_step S S'" "srv S' = srv S" "downs S' = downs S @ [i]"
    using base_step_settle [OF k(2), of k] base_step_cong [of ?T S]
    by (auto simp: same_use_def connectDestroyed_def)
  moreover have "drop (Suc (length (downs S))) (destroyed (srv S)) = rest"
    using assms(2) by (metis destroyQueue_def drop_Suc list.sel(3) tl_drop)
  ultimately show ?thesis by (simp add: destroyQueue_def)
qed

lemma close_tasks:
  "serve_reach n S \<Longrightarrow> \<exists>S'. serve_run (replicate (length (closing (srv S))) CloseTask) S = Some S' \<and>
     serve_reach n S' \<and> base_step S S' \<and> closing (srv S') = []"
proof (induction "closing (srv S)" arbitrary: S)
  case Nil
  then show ?case using base_step_refl by simp
next
  case (Cons i rest)
  obtain S1 where S1: "serve CloseTask S = Some S1" "serve_inv n S1"
    using serve_ok [OF serve_reach_inv [OF Cons.prems], of CloseTask] by auto
  have c: "base_step S S1" "closing (srv S1) = rest" using close_task [OF S1(1) Cons.hyps(2) [symmetric]] by auto
  have r: "serve_reach n S1" using serve_next [OF Cons.prems _ S1(1)] by simp
  obtain S' where S': "serve_run (replicate (length rest) CloseTask) S1 = Some S'" "serve_reach n S'"
    "base_step S1 S'" "closing (srv S') = []"
    using Cons.hyps(1) [OF c(2) [symmetric] r] c(2) by auto
  have "serve_run (CloseTask # replicate (length rest) CloseTask) S = Some S'" using S1(1) S'(1) by simp
  then show ?case using S' base_step_trans [OF c(1)] Cons.hyps(2) by (metis length_Cons replicate_Suc)
qed

lemma destroy_tasks:
  "serve_reach n S \<Longrightarrow> \<exists>S'. serve_run (replicate (length (destroyQueue S)) DestroyTask) S = Some S' \<and>
     serve_reach n S' \<and> base_step S S' \<and> closing (srv S') = closing (srv S) \<and> destroyQueue S' = []"
proof (induction "destroyQueue S" arbitrary: S)
  case Nil
  then show ?case using base_step_refl by simp
next
  case (Cons i rest)
  obtain S1 where S1: "serve DestroyTask S = Some S1" "serve_inv n S1"
    using serve_ok [OF serve_reach_inv [OF Cons.prems], of DestroyTask] by auto
  have c: "base_step S S1" "closing (srv S1) = closing (srv S)" "destroyQueue S1 = rest"
    using destroy_task [OF S1(1) Cons.hyps(2) [symmetric]] by auto
  have r: "serve_reach n S1" using serve_next [OF Cons.prems _ S1(1)] by simp
  obtain S' where S': "serve_run (replicate (length rest) DestroyTask) S1 = Some S'" "serve_reach n S'"
    "base_step S1 S'" "closing (srv S') = closing (srv S1)" "destroyQueue S' = []"
    using Cons.hyps(1) [OF c(3) [symmetric] r] c(3) by auto
  have "serve_run (DestroyTask # replicate (length rest) DestroyTask) S = Some S'" using S1(1) S'(1) by simp
  then show ?case using S' c(2) base_step_trans [OF c(1)] Cons.hyps(2) by (metis length_Cons replicate_Suc)
qed

definition base_round :: "nat \<Rightarrow> nat \<Rightarrow> serve_action list" where
  "base_round m l = replicate m CloseTask @ replicate l DestroyTask"

lemma base_drains:
  assumes "serve_reach n S"
  shows "\<exists>m l S'. serve_run (base_round m l) S = Some S' \<and> serve_reach n S' \<and> base_step S S' \<and>
    closing (srv S') = [] \<and> destroyQueue S' = []"
proof -
  obtain S1 where 1: "serve_run (replicate (length (closing (srv S))) CloseTask) S = Some S1" "serve_reach n S1"
    "base_step S S1" "closing (srv S1) = []"
    using close_tasks [OF assms] by blast
  obtain S2 where 2: "serve_run (replicate (length (destroyQueue S1)) DestroyTask) S1 = Some S2" "serve_reach n S2"
    "base_step S1 S2" "closing (srv S2) = closing (srv S1)" "destroyQueue S2 = []"
    using destroy_tasks [OF 1(2)] by blast
  have "serve_run (base_round (length (closing (srv S))) (length (destroyQueue S1))) S = Some S2"
    using 1(1) 2(1) by (simp add: base_round_def serve_run_append)
  then show ?thesis using 2 1(4) base_step_trans [OF 1(3)] by metis
qed

text \<open>When the base loop has nothing left of a closed connection, it does not hold it.\<close>

lemma drained_standing:
  assumes "serve_inv n S" "closing (srv S) = []" "destroyQueue S = []" "served S i = Some k"
    and "state (conn (sys k)) = kDisconnected"
  shows "\<not> keeps_alive (standing_of i S)" "in_downs (standing_of i S)"
proof -
  have ok: "served_ok (standing_of i S) k" using assms by (simp add: serve_inv_def)
  then have d: "i \<in> set (destroyed (srv S))"
    using assms(2,5) by (auto simp: served_ok_def in_order_def Let_def standing_of_def)
  obtain q where q: "destroyed (srv S) = downs S @ q" using assms(1) by (auto simp: serve_inv_def)
  then have "q = []" using assms(3) by (simp add: destroyQueue_def)
  then show "in_downs (standing_of i S)" using d q by (simp add: standing_of_def)
  moreover have "i \<notin> set (connections (srv S))" using assms(1) d by (auto simp: serve_inv_def server_inv_def)
  ultimately show "\<not> keeps_alive (standing_of i S)" using assms(2) by (simp add: keeps_alive_def standing_of_def)
qed

section \<open>Properties\<close>

lemma serve_conn_owned:
  assumes "served S i = Some k" "\<not> gone k" "0 < owners k" "perform a (sys k) = Some s"
    and "called (conn s) = called (conn (sys k))"
  shows "serve_conn i a S = Some (S\<lparr>served := (served S)(i \<mapsto> k\<lparr>sys := s, establishing := establishing k \<and> a \<noteq> Establish\<rparr>)\<rparr>)"
  using assms access_served [OF assms(1,2)] by (simp add: serve_conn_def settle_def held_def)

text \<open>The peer closes a connection that is up, perhaps while calls of other threads are on their way.\<close>

lemma peer_closes:
  assumes r: "serve_reach n S" and k: "served S i = Some k" "idle_up (k\<lparr>sys := (sys k)\<lparr>midway := []\<rparr>\<rparr>)"
  shows "\<exists>S' k'. serve_reach n S' \<and> served S' i = Some k' \<and> state (conn (sys k')) = kDisconnected \<and>
    pending (conn (sys k')) = [] \<and> dispatch (sys k') = [] \<and> midway (sys k') = midway (sys k) \<and> owners k' = owners k"
proof -
  have inv: "serve_inv n S" using serve_reach_inv [OF r] .
  have up: "state (conn (sys k)) = kConnected" "pending (conn (sys k)) = []" "dispatch (sys k) = []"
    "\<not> establishing k" "\<not> gone k"
    using k(2) by (simp_all add: idle_up_def)
  have sk: "sys_inv (sys k)" "in_set (standing_of i S)"
    using inv k(1) up(1) by (auto simp: serve_inv_def served_ok_def in_order_def Let_def)
  then have ci: "conn_inv (conn (sys k))" by (simp add: sys_inv_def)
  have z: "EPOLLIN AND EPOLLHUP = 0" "EPOLLIN AND EPOLLERR = 0" "EPOLLIN AND EPOLLOUT = 0"
    "EPOLLIN AND EPOLLRDHUP = 0" "EPOLLIN AND (EPOLLIN OR EPOLLPRI OR EPOLLRDHUP) \<noteq> 0"
    by (simp_all add: epoll_defs)
  have ev: "events (channel (conn (sys k))) \<noteq> 0"
    using ci up(1) PRI_nonzero by (auto simp: conn_inv_open)
  let ?s1 = "(sys k)\<lparr>dispatch := [ReadCallback]\<rparr>"
  let ?k1 = "k\<lparr>sys := ?s1\<rparr>"
  have p1: "perform (Poll EPOLLIN) (sys k) = Some ?s1" using z by (simp add: handleEventsWithGuard_def)
  have l1: "serve_legal (On i (Poll EPOLLIN)) S"
    using k(1) up z ev by (simp add: conn_legal_def good_def poll_ok_def)
  have "serve (On i (Poll EPOLLIN)) S = Some (S\<lparr>served := (served S)(i \<mapsto> ?k1)\<rparr>)"
    using access_served [OF k(1) up(5)] p1 by (simp add: serve_conn_def settle_def held_def del: perform.simps)
  from serve_next [OF r l1 this] have r1: "serve_reach n (S\<lparr>served := (served S)(i \<mapsto> ?k1)\<rparr>)" .
  let ?S1 = "S\<lparr>served := (served S)(i \<mapsto> ?k1)\<rparr>"
  obtain c where c: "handleRead (ReadvData []) (conn (sys k)) = Some c" "state c = kDisconnected" "pending c = []"
    using handleRead_ok [OF ci, of "[]"] up by (auto simp: read_ok_def)
  let ?s2 = "?s1\<lparr>dispatch := [], conn := c\<rparr>"
  have p2: "perform (Dispatch (ReadvData []) (Written 0)) ?s1 = Some ?s2"
    using c(1) by (simp add: on_conn_def)
  have l2: "serve_legal (On i (Dispatch (ReadvData []) (Written 0))) ?S1"
    using up by (simp add: conn_legal_def good_def read_ok_def write_ok_def)
  obtain S2 where S2: "serve (On i (Dispatch (ReadvData []) (Written 0))) ?S1 = Some S2"
    using serve_ok [OF serve_reach_inv [OF r1] l2] by blast
  have "access i ?S1 = Some ?k1" using up by (simp add: access_def)
  then obtain t where "settle i (k\<lparr>sys := ?s2\<rparr>) (?S1\<lparr>srv := t\<rparr>) = Some S2"
    using S2 p2 by (auto simp: serve_conn_def bind_eq_Some_conv simp del: perform.simps)
  then obtain k2 where "served S2 i = Some k2" "sys k2 = ?s2" "owners k2 = owners k"
    by (auto simp: settle_def split: if_splits)
  then show ?thesis using serve_next [OF r1 l2 S2] c up by (intro exI [of _ S2] exI [of _ k2]) simp
qed

text \<open>
  A thread is in \<open>forceClose\<close>, between its test and its exchange, when the peer closes: the exchange takes
  the closed connection back to \<open>kDisconnecting\<close>.
\<close>

lemma forceClose_overtaken_served:
  "\<exists>S k S'. serve_reach n S \<and> served S i = Some k \<and> state (conn (sys k)) = kDisconnected \<and>
     midway (sys k) = [MidForceClose] \<and> serve (On i (OResume 0)) S = Some S' \<and>
     serve_legal (DropPtr i) S' \<and> serve (DropPtr i) S' = None"
proof -
  obtain S0 k0 where 0: "serve_reach n S0" "served S0 i = Some k0" "idle_up k0" "owners k0 = 0" using serve_up by blast
  let ?k1 = "k0\<lparr>owners := 1\<rparr>" and ?S1 = "S0\<lparr>served := (served S0)(i \<mapsto> k0\<lparr>owners := 1\<rparr>)\<rparr>"
  have u: "\<not> gone k0" "state (conn (sys k0)) = kConnected" "midway (sys k0) = []" "\<not> establishing k0"
    using 0(3) by (simp_all add: idle_up_def)
  have "serve (TakePtr i) S0 = Some ?S1" using access_served [OF 0(2) u(1)] 0(4) by (simp add: take_pointer_def)
  then have r1: "serve_reach n ?S1" using serve_next [OF 0(1), of "TakePtr i"] 0(2) u by auto
  let ?s1 = "(sys k0)\<lparr>midway := [MidForceClose]\<rparr>"
  let ?k2 = "?k1\<lparr>sys := ?s1, establishing := False\<rparr>"
  let ?S2 = "?S1\<lparr>served := (served ?S1)(i \<mapsto> ?k2)\<rparr>"
  have s2: "serve (On i OForceClose) ?S1 = Some ?S2"
    using serve_conn_owned [of ?S1 i ?k1 OForceClose ?s1] u by (simp add: enter_def)
  have "serve_legal (On i OForceClose) ?S1" using u by (simp add: conn_legal_def good_def)
  from serve_next [OF r1 this s2] have r2: "serve_reach n ?S2" .
  have "idle_up (?k2\<lparr>sys := (sys ?k2)\<lparr>midway := []\<rparr>\<rparr>)" using 0(3) by (simp add: idle_up_def)
  then obtain S3 k3 where 3: "serve_reach n S3" "served S3 i = Some k3" "state (conn (sys k3)) = kDisconnected"
    "pending (conn (sys k3)) = []" "dispatch (sys k3) = []" "midway (sys k3) = [MidForceClose]" "owners k3 = 1"
    using peer_closes [OF r2, of i ?k2] by auto
  obtain S4 where 4: "serve_reach n S4" "base_step S3 S4" "closing (srv S4) = []" "destroyQueue S4 = []"
    using base_drains [OF 3(1)] by blast
  then obtain k4 where k4: "served S4 i = Some k4" "same_use k3 k4" using 3(2) by (auto simp: base_step_def)
  then have f: "state (conn (sys k4)) = kDisconnected" "pending (conn (sys k4)) = []" "dispatch (sys k4) = []"
    "midway (sys k4) = [MidForceClose]" "owners k4 = 1"
    using 3 by (simp_all add: same_use_def)
  have inv: "serve_inv n S4" using serve_reach_inv [OF 4(1)] .
  then have "served_ok (standing_of i S4) k4" using k4(1) by (simp add: serve_inv_def)
  then have g: "\<not> gone k4" "\<not> establishing k4"
    using f by (auto simp: served_ok_def in_order_def Let_def conn_held_def)
  have "\<not> keeps_alive (standing_of i S4)" using drained_standing(1) [OF inv 4(3,4) k4(1) f(1)] .
  then have nh: "i \<notin> set (connections (srv S4))" "i \<notin> set (closing (srv S4))"
    by (auto simp: keeps_alive_def standing_of_def)
  let ?s5 = "(sys k4)\<lparr>midway := [], conn := (conn (sys k4))\<lparr>state := kDisconnecting\<rparr>\<rparr>"
  let ?k5 = "k4\<lparr>sys := ?s5, establishing := False\<rparr>"
  let ?S5 = "S4\<lparr>served := (served S4)(i \<mapsto> ?k5)\<rparr>"
  have s5: "serve (On i (OResume 0)) S4 = Some ?S5"
    using serve_conn_owned [OF k4(1) g(1), of "OResume 0" ?s5] f g by (simp add: stateAtomicGetAndSet_def)
  have "destroyQueue ?S5 = []" using 4(4) by (simp add: destroyQueue_def)
  then have "serve (DropPtr i) ?S5 = None"
    using nh f g by (simp add: drop_pointer_def access_def settle_def held_def destructible_def)
  moreover have "serve_legal (DropPtr i) ?S5" using f by simp
  ultimately show ?thesis using 4(1) k4(1) f(1,4) s5 by blast
qed

text \<open>
  C9: no connection is used after it was destroyed and no assertion of the server, of a connection or
  of its destructor fails, however the base loop, the loops of the connections, and the threads of the
  user interleave, if no close comes between the test and the exchange of a \<open>shutdown\<close> or \<open>forceClose\<close> of
  another thread (and the users keep the further rules of \<open>polite\<close>, and their pointers, as \<open>serve_legal\<close>
  says); an open connection is in the server's set; and the callbacks of its life come in the order up,
  closed, down, each once, all of them before it is destroyed. The condition on the exchange is needed,
  although \<open>TcpConnection.h\<close>, line 49, calls these operations thread safe: there is a run after which
  nothing but the exchange of an overtaken \<open>forceClose\<close> and the dropping of the thread's pointer makes the
  destructor abort.
\<close>

theorem life_of_connections:
  assumes r: "serve_reach n S" and k: "served S i = Some k"
  shows "(\<forall>a. serve_legal a S \<longrightarrow> (\<exists>S'. serve a S = Some S' \<and> serve_reach n S')) \<and>
    (is_open (conn (sys k)) \<longrightarrow> i \<in> set (connections (srv S)) \<and> life_events (conn (sys k)) = [ConnectionCb True]) \<and>
    (\<exists>rest. [ConnectionCb True, CloseCb, ConnectionCb False] = life_events (conn (sys k)) @ rest) \<and>
    (gone k \<longrightarrow> life_events (conn (sys k)) = [ConnectionCb True, CloseCb, ConnectionCb False] \<and>
       destructible (conn (sys k)) \<and> i \<notin> set (connections (srv S))) \<and>
    (\<exists>T l T'. serve_reach n T \<and> served T i = Some l \<and> state (conn (sys l)) = kDisconnected \<and>
       midway (sys l) = [MidForceClose] \<and> serve (On i (OResume 0)) T = Some T' \<and>
       serve_legal (DropPtr i) T' \<and> serve (DropPtr i) T' = None)"
proof -
  have inv: "serve_inv n S" using serve_reach_inv [OF r] .
  have ok: "served_ok (standing_of i S) k" using inv k by (simp add: serve_inv_def)
  have next_ok: "\<exists>S'. serve a S = Some S' \<and> serve_reach n S'" if "serve_legal a S" for a
    using serve_ok [OF inv that] serve_next [OF r that] by blast
  have "\<exists>rest. [ConnectionCb True, CloseCb, ConnectionCb False] = history p st @ rest" for p st
    by (simp add: history_def)
  moreover have "is_open (conn (sys k)) \<longrightarrow>
      i \<in> set (connections (srv S)) \<and> life_events (conn (sys k)) = [ConnectionCb True]"
    using ok by (auto simp: served_ok_def in_order_def Let_def is_open_iff history_def standing_of_def)
  moreover have "gone k \<longrightarrow> life_events (conn (sys k)) = [ConnectionCb True, CloseCb, ConnectionCb False] \<and>
       destructible (conn (sys k)) \<and> i \<notin> set (connections (srv S))"
    using ok by (auto simp: served_ok_def in_order_def Let_def history_def standing_of_def keeps_alive_def
        conn_held_def destructible_def)
  ultimately show ?thesis using next_ok ok forceClose_overtaken_served [of n i]
    by (simp add: served_ok_def in_order_def Let_def del: serve.simps serve_legal.simps)
qed

theorem life_of_connections_witness:
  "\<exists>S k S'. serve_reach 2 S \<and> served S 7 = Some k \<and> 7 \<in> set (connections (srv S)) \<and>
     serve (On 7 LForceClose) S = Some S'"
proof -
  obtain S k where S: "serve_reach 2 S" "served S 7 = Some k" "idle_up k" using serve_up by blast
  then have "serve_legal (On 7 LForceClose) S" "is_open (conn (sys k))"
    by (auto simp: conn_legal_def good_def idle_up_def)
  then show ?thesis using life_of_connections [OF S(1,2)] S(1,2) by blast
qed

text \<open>
  C37: a closed connection does not leak: once its loop has run its tasks and nobody holds a pointer to
  it, the tasks of the base loop lead to its destruction.
\<close>

theorem connection_destroyed:
  assumes r: "serve_reach n S" and k: "served S i = Some k" and st: "state (conn (sys k)) = kDisconnected"
    and u: "owners k = 0" "pending (conn (sys k)) = []" "dispatch (sys k) = []"
  shows "\<exists>m l S' k'. serve_run (base_round m l) S = Some S' \<and> served S' i = Some k' \<and> gone k'"
proof -
  obtain m l S' where S': "serve_run (base_round m l) S = Some S'" "serve_reach n S'" "base_step S S'"
    "closing (srv S') = []" "destroyQueue S' = []"
    using base_drains [OF r] by blast
  obtain k' where k': "served S' i = Some k'" "same_use k k'" using S'(3) k by (auto simp: base_step_def)
  have inv: "serve_inv n S'" using serve_reach_inv [OF S'(2)] .
  have s: "state (conn (sys k')) = kDisconnected" using k'(2) st by (simp add: same_use_def)
  have ok: "served_ok (standing_of i S') k'" using inv k'(1) by (simp add: serve_inv_def)
  then have "\<not> conn_held k'"
    using k'(2) u s by (auto simp: served_ok_def in_order_def Let_def conn_held_def same_use_def)
  then have "gone k'"
    using ok drained_standing(1) [OF inv S'(4,5) k'(1) s] by (simp add: served_ok_def)
  then show ?thesis using S'(1) k'(1) by blast
qed

theorem connection_destroyed_witness:
  "\<exists>S k m l S' k'. serve_reach 2 S \<and> served S 7 = Some k \<and> state (conn (sys k)) = kDisconnected \<and>
     serve_run (base_round m l) S = Some S' \<and> served S' 7 = Some k' \<and> gone k'"
proof -
  obtain S k where S: "serve_reach 2 S" "served S 7 = Some k" "idle_up k" "owners k = 0" using serve_up by blast
  have "idle_up (k\<lparr>sys := (sys k)\<lparr>midway := []\<rparr>\<rparr>)" using S(3) by (simp add: idle_up_def)
  from peer_closes [OF S(1,2) this] obtain S1 k1 where S1: "serve_reach 2 S1" "served S1 7 = Some k1"
    "state (conn (sys k1)) = kDisconnected" "owners k1 = 0" "pending (conn (sys k1)) = []" "dispatch (sys k1) = []"
    using S(4) by auto
  show ?thesis using connection_destroyed [OF S1] S1 by blast
qed

lemma settle_all_aborts:
  "i \<in> set is \<Longrightarrow> served S i = Some k \<Longrightarrow> \<not> held i S k \<Longrightarrow> \<not> destructible (conn (sys k)) \<Longrightarrow> settle_all is S = None"
proof (induction "is" arbitrary: S)
  case (Cons j js)
  show ?case
  proof (cases "j = i")
    case True
    then show ?thesis using Cons.prems by (auto simp: access_def settle_def split: Option.bind_split)
  next
    case False
    have "settle_all js S1 = None" if "settle j k' S = Some S1" for k' S1
    proof (rule Cons.IH)
      show "served S1 i = Some k" using that False Cons.prems(2) by (auto simp: settle_def split: if_splits)
      show "\<not> held i S1 k"
        using that Cons.prems(3) by (auto simp: settle_def held_def destroyQueue_def split: if_splits)
    qed (use Cons.prems False in auto)
    then show ?thesis by (auto split: Option.bind_split)
  qed
qed simp

text \<open>
  \<open>~TcpServer\<close> aborts the process if a connection is still open and only the server holds it: the
  connection is destroyed in a state that its destructor does not allow.
\<close>

theorem server_destructor_aborts:
  assumes "serve_reach n S" and "served S i = Some k" and "is_open (conn (sys k))" and "\<not> conn_held k"
  shows "TcpServer_destroy S = None"
proof -
  let ?S = "S\<lparr>srv := (srv S)\<lparr>connections := []\<rparr>\<rparr>"
  have inv: "serve_inv n S" using serve_reach_inv [OF assms(1)] .
  then have ok: "served_ok (standing_of i S) k" using assms(2) by (simp add: serve_inv_def)
  then have p: "in_set (standing_of i S)" "\<not> in_closing (standing_of i S)" "\<not> in_destroyed (standing_of i S)"
    using assms(3) by (auto simp: served_ok_def in_order_def Let_def is_open_iff)
  then have "i \<notin> set (destroyQueue S)" by (auto simp: destroyQueue_def standing_of_def dest: in_set_dropD)
  then have "\<not> held i ?S k"
    using p assms(4) by (auto simp: held_def conn_held_def standing_of_def destroyQueue_def)
  moreover have "\<not> destructible (conn (sys k))" using assms(3) by (auto simp: destructible_def)
  moreover have "i \<in> set (connections (srv S))" using p by (simp add: standing_of_def)
  ultimately show ?thesis unfolding TcpServer_destroy_def by (intro settle_all_aborts) (use assms(2) in auto)
qed

theorem server_destructor_aborts_witness:
  "\<exists>S. serve_reach 2 S \<and> TcpServer_destroy S = None"
proof -
  obtain S k where S: "serve_reach 2 S" "served S 7 = Some k" "idle_up k" "owners k = 0" using serve_up by blast
  then show ?thesis using server_destructor_aborts [OF S(1,2)] by (auto simp: idle_up_def conn_held_def)
qed

text \<open>A connection that was closed and whose \<open>connectDestroyed\<close> has run, but to which a thread holds a pointer.\<close>

lemma closed_but_owned:
  "\<exists>S k. serve_reach n S \<and> served S i = Some k \<and> state (conn (sys k)) = kDisconnected \<and> pending (conn (sys k)) = [] \<and>
     dispatch (sys k) = [] \<and> midway (sys k) = [] \<and> owners k = 1 \<and> \<not> gone k \<and> \<not> establishing k \<and>
     destroyQueue S = [] \<and> i \<notin> set (connections (srv S)) \<and> i \<notin> set (closing (srv S))"
proof -
  obtain S0 k0 where 0: "serve_reach n S0" "served S0 i = Some k0" "idle_up k0" "owners k0 = 0" using serve_up by blast
  let ?k1 = "k0\<lparr>owners := 1\<rparr>" and ?S1 = "S0\<lparr>served := (served S0)(i \<mapsto> k0\<lparr>owners := 1\<rparr>)\<rparr>"
  have u: "\<not> gone k0" "state (conn (sys k0)) = kConnected" using 0(3) by (simp_all add: idle_up_def)
  have "serve (TakePtr i) S0 = Some ?S1" using access_served [OF 0(2) u(1)] 0(4) by (simp add: take_pointer_def)
  then have r1: "serve_reach n ?S1" using serve_next [OF 0(1), of "TakePtr i"] 0(2) u by auto
  have "idle_up (?k1\<lparr>sys := (sys ?k1)\<lparr>midway := []\<rparr>\<rparr>)" "midway (sys k0) = []" using 0(3) by (simp_all add: idle_up_def)
  then obtain S2 k2 where 2: "serve_reach n S2" "served S2 i = Some k2" "state (conn (sys k2)) = kDisconnected"
    "pending (conn (sys k2)) = []" "dispatch (sys k2) = []" "midway (sys k2) = []" "owners k2 = 1"
    using peer_closes [OF r1, of i ?k1] by auto
  obtain S3 where 3: "serve_reach n S3" "base_step S2 S3" "closing (srv S3) = []" "destroyQueue S3 = []"
    using base_drains [OF 2(1)] by blast
  then obtain k3 where k3: "served S3 i = Some k3" "same_use k2 k3" using 2(2) by (auto simp: base_step_def)
  then have f3: "state (conn (sys k3)) = kDisconnected" "pending (conn (sys k3)) = []" "dispatch (sys k3) = []"
    "midway (sys k3) = []" "owners k3 = 1"
    using 2 by (simp_all add: same_use_def)
  have inv3: "serve_inv n S3" using serve_reach_inv [OF 3(1)] .
  then have "served_ok (standing_of i S3) k3" using k3(1) by (simp add: serve_inv_def)
  then have g3: "\<not> gone k3" "\<not> establishing k3"
    using f3 by (auto simp: served_ok_def in_order_def Let_def conn_held_def)
  have "\<not> keeps_alive (standing_of i S3)" using drained_standing(1) [OF inv3 3(3,4) k3(1) f3(1)] .
  then have "i \<notin> set (connections (srv S3))" "i \<notin> set (closing (srv S3))"
    by (auto simp: keeps_alive_def standing_of_def)
  then show ?thesis using 3(1,4) k3(1) f3 g3 by blast
qed

text \<open>
  C39: \<open>stopRead\<close> and \<open>startRead\<close> capture \<open>this\<close>: if the thread that called \<open>stopRead\<close> drops its
  pointer after the connection was closed, the connection is destroyed while the task is queued, and the
  task runs on the destroyed object.
\<close>

theorem stopRead_outlives_connection:
  "\<exists>S k S'. serve_reach n S \<and> served S i = Some k \<and> 0 < owners k \<and> pending (conn (sys k)) = [StopRead] \<and>
     serve (DropPtr i) S = Some S' \<and> access i S' = None \<and> (\<forall>w. serve (On i (RunPending w)) S' = None)"
proof -
  obtain S3 k3 where 3: "serve_reach n S3" "destroyQueue S3 = []" and k3: "served S3 i = Some k3"
    and f3: "state (conn (sys k3)) = kDisconnected" "pending (conn (sys k3)) = []" "dispatch (sys k3) = []"
      "midway (sys k3) = []" "owners k3 = 1" and g3: "\<not> gone k3" "\<not> establishing k3"
    and n5: "i \<notin> set (connections (srv S3))" "i \<notin> set (closing (srv S3))"
    using closed_but_owned [of n i] by blast
  let ?s4 = "(sys k3)\<lparr>midway := [MidQueue StopRead]\<rparr>"
  let ?k4 = "k3\<lparr>sys := ?s4, establishing := False\<rparr>"
  let ?S4 = "S3\<lparr>served := (served S3)(i \<mapsto> ?k4)\<rparr>"
  have s4: "serve (On i OStopRead) S3 = Some ?S4"
    using serve_conn_owned [OF k3 g3(1), of OStopRead ?s4] f3 g3 by (simp add: enter_def)
  have "serve_legal (On i OStopRead) S3" using k3 f3 by (simp add: conn_legal_def good_def)
  then have r4: "serve_reach n ?S4" using serve_next [OF 3(1) _ s4] by blast
  let ?s5 = "(sys k3)\<lparr>midway := [], conn := queueInLoop StopRead (conn (sys k3))\<rparr>"
  let ?k5 = "k3\<lparr>sys := ?s5, establishing := False\<rparr>"
  let ?S5 = "S3\<lparr>served := (served S3)(i \<mapsto> ?k5)\<rparr>"
  have s5: "serve (On i (OResume 0)) ?S4 = Some ?S5"
    using serve_conn_owned [of ?S4 i ?k4 "OResume 0" ?s5] f3 g3 by simp
  have "serve_legal (On i (OResume 0)) ?S4" using f3 by (simp add: conn_legal_def good_def)
  then have r5: "serve_reach n ?S5" using serve_next [OF r4 _ s5] by blast
  let ?k6 = "?k5\<lparr>owners := 0, gone := True\<rparr>"
  have q5: "destroyQueue ?S5 = []" using 3(2) by (simp add: destroyQueue_def)
  have s6: "serve (DropPtr i) ?S5 = Some (?S5\<lparr>served := (served ?S5)(i \<mapsto> ?k6)\<rparr>)"
    using n5 q5 f3 g3
    by (simp add: drop_pointer_def access_def settle_def held_def destructible_def) (simp add: queueInLoop_def)
  have "access i (?S5\<lparr>served := (served ?S5)(i \<mapsto> ?k6)\<rparr>) = None" by (simp add: access_def)
  moreover from this have "serve (On i (RunPending w)) (?S5\<lparr>served := (served ?S5)(i \<mapsto> ?k6)\<rparr>) = None" for w
    by (simp add: serve_conn_def)
  moreover have "pending (conn (sys ?k5)) = [StopRead]" "0 < owners ?k5"
    using f3 by (simp_all add: queueInLoop_def)
  ultimately show ?thesis using r5 s6
    by (intro exI [of _ ?S5] exI [of _ ?k5] exI [of _ "?S5\<lparr>served := (served ?S5)(i \<mapsto> ?k6)\<rparr>"]) simp
qed

end
