(* ===== verification/NetEventLoop.thy ===== *)
theory NetEventLoop
  imports Machines
begin

text \<open>
  \<open>NetServer/EventLoop.cpp\<close>: the queue of tasks of an event loop and the \<open>eventfd\<close> that wakes
  it. \<open>queueInLoop\<close> is called by any thread; it first appends the task (under the mutex) and
  then wakes the loop, and other threads act between the two. Tasks are a type parameter, what a
  task does to the loop is a parameter \<open>body\<close>; \<open>runInLoop\<close> on the loop's thread is a plain call.
  \<open>None\<close> is a failed assertion.
\<close>

section \<open>The loop and its queue\<close>

datatype loop_pc = Polling | Handling | Running | Stopped

text \<open>
  \<open>tasks\<close> is the local vector of \<open>doPendingTasks\<close>, \<open>wakeupFd\<close> the counter of the \<open>eventfd\<close>,
  \<open>waking\<close> the number of other threads that are about to call \<open>wakeup\<close>; \<open>queued\<close> and
  \<open>executed\<close> are the tasks queued and begun so far.
\<close>

record 't EventLoop =
  pc :: loop_pc
  quitFlag :: bool
  doingPendingTasks :: bool
  pendingTasks :: "'t list"
  tasks :: "'t list"
  wakeupFd :: nat
  waking :: nat
  queued :: "'t list"
  executed :: "'t list"

definition EventLoop_new :: "'t EventLoop" where
  "EventLoop_new = \<lparr>pc = Polling, quitFlag = False, doingPendingTasks = False, pendingTasks = [],
     tasks = [], wakeupFd = 0, waking = 0, queued = [], executed = []\<rparr>"

definition loop_wakeup :: "'t EventLoop \<Rightarrow> 't EventLoop" where
  "loop_wakeup e = e\<lparr>wakeupFd := Suc (wakeupFd e)\<rparr>"

text \<open>\<open>EventLoop::handleRead\<close>: reading the \<open>eventfd\<close> resets it.\<close>

definition loop_handleRead :: "'t EventLoop \<Rightarrow> 't EventLoop" where
  "loop_handleRead e = e\<lparr>wakeupFd := 0\<rparr>"

definition push_task :: "'t \<Rightarrow> 't EventLoop \<Rightarrow> 't EventLoop" where
  "push_task t e = e\<lparr>pendingTasks := pendingTasks e @ [t], queued := queued e @ [t]\<rparr>"

definition loop_queueInLoop :: "bool \<Rightarrow> 't \<Rightarrow> 't EventLoop \<Rightarrow> 't EventLoop" where
  "loop_queueInLoop inLoop t e =
     (let e1 = push_task t e
      in if \<not> inLoop \<or> doingPendingTasks e1 then loop_wakeup e1 else e1)"

definition loop_quit :: "bool \<Rightarrow> 't EventLoop \<Rightarrow> 't EventLoop option" where
  "loop_quit inLoop e =
     (if quitFlag e then None
      else let e1 = e\<lparr>quitFlag := True\<rparr> in Some (if \<not> inLoop then loop_wakeup e1 else e1))"

text \<open>What a task or a callback on the loop's thread calls.\<close>

datatype 't loop_call = LQueue 't | LQuit

fun loop_calls :: "'t loop_call list \<Rightarrow> 't EventLoop \<Rightarrow> 't EventLoop option" where
  "loop_calls [] e = Some e"
| "loop_calls (LQueue t # cs) e = loop_calls cs (loop_queueInLoop True t e)"
| "loop_calls (LQuit # cs) e = Option.bind (loop_quit True e) (loop_calls cs)"

definition swap_tasks :: "'t EventLoop \<Rightarrow> 't EventLoop" where
  "swap_tasks e = e\<lparr>tasks := pendingTasks e, pendingTasks := [], doingPendingTasks := True\<rparr>"

definition begin_task :: "'t \<Rightarrow> 't list \<Rightarrow> 't EventLoop \<Rightarrow> 't EventLoop" where
  "begin_task t ts e = e\<lparr>tasks := ts, executed := executed e @ [t]\<rparr>"

fun run_tasks ::
    "('t \<Rightarrow> 't loop_call list) \<Rightarrow> 't list \<Rightarrow> 't EventLoop \<Rightarrow> 't EventLoop option" where
  "run_tasks body [] e = Some e"
| "run_tasks body (t # ts) e =
     Option.bind (loop_calls (body t) (begin_task t ts e)) (run_tasks body ts)"

definition doPendingTasks ::
    "('t \<Rightarrow> 't loop_call list) \<Rightarrow> 't EventLoop \<Rightarrow> 't EventLoop option" where
  "doPendingTasks body e =
     (let e1 = swap_tasks e
      in map_option (\<lambda>e2. e2\<lparr>doingPendingTasks := False\<rparr>) (run_tasks body (tasks e1) e1))"

section \<open>The loop among threads\<close>

text \<open>
  The steps of other threads, and those of \<open>loop()\<close>: \<open>epoll_wait\<close> returns (for the
  \<open>eventfd\<close> or for another descriptor), callbacks run, the tasks are swapped out and run, and
  the loop tests \<open>quit_\<close>.
\<close>

inductive loop_step ::
    "('t \<Rightarrow> 't loop_call list) \<Rightarrow> 't EventLoop \<Rightarrow> 't EventLoop \<Rightarrow> bool" for body where
  other_push: "loop_step body e ((push_task t e)\<lparr>waking := Suc (waking e)\<rparr>)"
| other_quit: "\<not> quitFlag e \<Longrightarrow> loop_step body e (e\<lparr>quitFlag := True, waking := Suc (waking e)\<rparr>)"
| other_wakeup: "0 < waking e \<Longrightarrow> loop_step body e ((loop_wakeup e)\<lparr>waking := waking e - 1\<rparr>)"
| poll_returns: "pc e = Polling \<Longrightarrow> loop_step body e (e\<lparr>pc := Handling\<rparr>)"
| wakeup_event: "pc e = Handling \<Longrightarrow> loop_step body e (loop_handleRead e)"
| callback_runs: "pc e = Handling \<Longrightarrow> loop_calls cs e = Some e' \<Longrightarrow> loop_step body e e'"
| tasks_swap: "pc e = Handling \<Longrightarrow> loop_step body e ((swap_tasks e)\<lparr>pc := Running\<rparr>)"
| task_runs: "pc e = Running \<Longrightarrow> tasks e = t # ts \<Longrightarrow>
    loop_calls (body t) (begin_task t ts e) = Some e' \<Longrightarrow> loop_step body e e'"
| tasks_done: "pc e = Running \<Longrightarrow> tasks e = [] \<Longrightarrow>
    loop_step body e (e\<lparr>doingPendingTasks := False, pc := (if quitFlag e then Stopped else Polling)\<rparr>)"

definition loop_reach :: "('t \<Rightarrow> 't loop_call list) \<Rightarrow> 't EventLoop \<Rightarrow> bool" where
  "loop_reach body = reached (\<lambda>e. e = EventLoop_new) (loop_step body)"

lemma loop_start: "loop_reach body EventLoop_new"
  by (simp add: loop_reach_def reached_initial)

lemma loop_next: "loop_reach body e \<Longrightarrow> loop_step body e e' \<Longrightarrow> loop_reach body e'"
  unfolding loop_reach_def by (rule reached_step)

inductive_cases loop_stepE: "loop_step body e e'"

section \<open>Facts\<close>

definition woken :: "'t EventLoop \<Rightarrow> bool" where
  "woken e \<longleftrightarrow> 0 < wakeupFd e \<or> 0 < waking e"

definition loop_inv :: "'t EventLoop \<Rightarrow> bool" where
  "loop_inv e \<longleftrightarrow> queued e = executed e @ tasks e @ pendingTasks e \<and>
     (pc e \<noteq> Running \<longrightarrow> tasks e = []) \<and> doingPendingTasks e = (pc e = Running) \<and>
     (pc e = Polling \<or> pc e = Running \<longrightarrow> pendingTasks e \<noteq> [] \<longrightarrow> woken e) \<and>
     (pc e = Polling \<longrightarrow> quitFlag e \<longrightarrow> woken e)"

text \<open>The tasks that a sequence of calls queues.\<close>

fun queues :: "'t loop_call list \<Rightarrow> 't list" where
  "queues [] = []"
| "queues (LQueue t # cs) = t # queues cs"
| "queues (LQuit # cs) = queues cs"

lemma loop_calls_fields:
  "loop_calls cs e = Some e' \<Longrightarrow> pc e' = pc e \<and> tasks e' = tasks e \<and> executed e' = executed e \<and>
     doingPendingTasks e' = doingPendingTasks e \<and> waking e' = waking e \<and>
     pendingTasks e' = pendingTasks e @ queues cs \<and> queued e' = queued e @ queues cs \<and>
     wakeupFd e \<le> wakeupFd e' \<and>
     (doingPendingTasks e \<longrightarrow> queues cs \<noteq> [] \<longrightarrow> 0 < wakeupFd e')"
proof (induction cs e rule: loop_calls.induct)
  case (2 t cs e)
  then show ?case
    by (fastforce simp: loop_queueInLoop_def Let_def push_task_def loop_wakeup_def split: if_splits)
next
  case (3 cs e)
  then show ?case by (auto simp: loop_quit_def bind_eq_Some_conv split: if_splits)
qed simp

lemma loop_inv_step:
  assumes "loop_inv e" "loop_step body e e'"
  shows "loop_inv e'"
  using assms(2)
proof (cases rule: loop_step.cases)
  case (callback_runs cs)
  then show ?thesis using assms(1) loop_calls_fields [of cs e e'] by (auto simp: loop_inv_def woken_def)
next
  case (task_runs t ts)
  then show ?thesis
    using assms(1) loop_calls_fields [of "body t" "begin_task t ts e" e']
    by (auto simp: loop_inv_def woken_def begin_task_def)
qed (use assms(1) in \<open>auto simp: loop_inv_def woken_def push_task_def loop_wakeup_def loop_handleRead_def swap_tasks_def\<close>)

interpretation loop: step_system "\<lambda>e. e = EventLoop_new" "loop_step body" loop_inv for body
  by unfold_locales (simp add: loop_inv_def EventLoop_new_def, rule loop_inv_step)

lemma loop_reach_inv: "loop_reach body e \<Longrightarrow> loop_inv e"
  unfolding loop_reach_def by (rule loop.reached_inv)

lemma run_tasks_fields:
  "run_tasks body ts e = Some e' \<Longrightarrow> doingPendingTasks e \<Longrightarrow> (pendingTasks e \<noteq> [] \<longrightarrow> 0 < wakeupFd e) \<Longrightarrow>
     executed e' = executed e @ ts \<and> pendingTasks e' = pendingTasks e @ concat (map (\<lambda>t. queues (body t)) ts) \<and>
     (pendingTasks e' \<noteq> [] \<longrightarrow> 0 < wakeupFd e')"
proof (induction body ts e rule: run_tasks.induct)
  case (2 body t ts e)
  then obtain e1 where e1: "loop_calls (body t) (begin_task t ts e) = Some e1" "run_tasks body ts e1 = Some e'"
    by (auto simp: bind_eq_Some_conv)
  then show ?case
    using "2.IH" [OF e1] "2.prems" loop_calls_fields [OF e1(1)] by (fastforce simp: begin_task_def)
qed simp

section \<open>Properties\<close>

text \<open>
  C28: however the threads interleave, the tasks queued are executed in the order they were
  queued, each once: those begun, those swapped out and those pending are together the tasks
  queued; and the loop never sleeps on a task or on a request to quit: before \<open>epoll_wait\<close> with
  one of them outstanding the \<open>eventfd\<close> is readable, or a thread is about to make it so.
\<close>

theorem no_lost_wakeup:
  assumes "loop_reach body e"
  shows "queued e = executed e @ tasks e @ pendingTasks e \<and>
    (pc e = Polling \<and> (pendingTasks e \<noteq> [] \<or> quitFlag e) \<longrightarrow> 0 < wakeupFd e \<or> 0 < waking e)"
  using loop_reach_inv [OF assms] by (auto simp: loop_inv_def woken_def)

definition asleep :: "nat EventLoop" where
  "asleep = (push_task 7 EventLoop_new)\<lparr>waking := 1\<rparr>"

theorem no_lost_wakeup_witness:
  "pc asleep = Polling \<and> pendingTasks asleep \<noteq> [] \<and> queued asleep = [7] \<and>
   (0 < wakeupFd asleep \<or> 0 < waking asleep)"
proof -
  have "loop_step (\<lambda>_. []) EventLoop_new asleep"
    using other_push [of "\<lambda>_. []" EventLoop_new "7 :: nat"] by (simp add: asleep_def EventLoop_new_def)
  then have r: "loop_reach (\<lambda>_. []) asleep" using loop_next loop_start by blast
  have a: "pc asleep = Polling" "pendingTasks asleep = [7]" "queued asleep = [7]"
    by (simp_all add: asleep_def EventLoop_new_def push_task_def)
  then show ?thesis using no_lost_wakeup [OF r] by simp
qed

text \<open>
  One \<open>doPendingTasks\<close> runs the tasks that were pending when it began, in order, and no
  others; what they queue waits for the next round, and then the \<open>eventfd\<close> is readable, so that
  the next round comes at once.
\<close>

theorem doPendingTasks_round:
  assumes "doPendingTasks body e = Some e'"
  shows "executed e' = executed e @ pendingTasks e \<and>
    pendingTasks e' = concat (map (\<lambda>t. queues (body t)) (pendingTasks e)) \<and>
    (pendingTasks e' \<noteq> [] \<longrightarrow> 0 < wakeupFd e') \<and> \<not> doingPendingTasks e'"
proof -
  obtain e2 where e2: "run_tasks body (pendingTasks e) (swap_tasks e) = Some e2"
    "e' = e2\<lparr>doingPendingTasks := False\<rparr>"
    using assms by (auto simp: doPendingTasks_def Let_def swap_tasks_def)
  show ?thesis
    using run_tasks_fields [OF e2(1)] e2(2) by (simp add: swap_tasks_def)
qed

theorem doPendingTasks_round_witness:
  "\<exists>e'. doPendingTasks (\<lambda>t. if t = 7 then [LQueue 8, LQueue 9] else []) asleep = Some e' \<and>
     executed e' = [7] \<and> pendingTasks e' = [8, 9] \<and> 0 < wakeupFd e'"
proof -
  let ?body = "\<lambda>t :: nat. if t = 7 then [LQueue 8, LQueue 9] else []"
  obtain e' where e': "doPendingTasks ?body asleep = Some e'"
    by (simp add: doPendingTasks_def swap_tasks_def asleep_def push_task_def EventLoop_new_def Let_def)
  then show ?thesis
    using doPendingTasks_round [OF e'] by (simp add: asleep_def push_task_def EventLoop_new_def)
qed

end
