(* ===== verification/TimerQueue.thy ===== *)
theory TimerQueue
  imports Prelude "HOL-Library.Product_Lexorder"
begin

text \<open>
  \<open>NetServer/Timer.h\<close> and \<open>TimerQueue.cpp\<close>: the ordered set of timers of an event loop and the
  single \<open>timerfd\<close> that is armed for the first of them. Times are signed 64-bit counts of nanoseconds,
  written as integers; a sum that does not fit is undefined behaviour. Timers live on a heap of their own;
  \<open>None\<close> is a failed \<open>assert\<close>, an access to a deleted timer or such an overflow. Addresses are not used twice, so that a dangling
  pointer is recognised. Everything runs in the loop's thread (\<open>runInLoop\<close>).
\<close>

section \<open>Timers\<close>

record 'cb Timer =
  timerCallback :: "'cb option"
  whenT :: int
  interval :: int
  repeat :: bool
  canceled :: bool

definition Timer_new :: "'cb option \<Rightarrow> int \<Rightarrow> int \<Rightarrow> 'cb Timer" where
  "Timer_new cb w i =
     \<lparr>timerCallback = cb, whenT = w, interval = i, repeat = (i > 0), canceled = False\<rparr>"

definition timer_expired :: "int \<Rightarrow> 'cb Timer \<Rightarrow> bool" where
  "timer_expired now t \<longleftrightarrow> now \<ge> whenT t"

definition fits64 :: "int \<Rightarrow> bool" where
  "fits64 t \<longleftrightarrow> - (2 ^ 63) \<le> t \<and> t < 2 ^ 63"

definition timer_restart :: "int \<Rightarrow> 'cb Timer \<Rightarrow> 'cb Timer option" where
  "timer_restart now t =
     (if repeat t \<and> fits64 (now + interval t) then Some (t\<lparr>whenT := now + interval t\<rparr>) else None)"

definition timer_cancel :: "'cb Timer \<Rightarrow> 'cb Timer option" where
  "timer_cancel t = (if \<not> canceled t then Some (t\<lparr>canceled := True\<rparr>) else None)"

section \<open>The queue\<close>

text \<open>
  \<open>timers\<close> is the \<open>std::set\<close> of pairs, listed in its order; \<open>armed\<close> the time the
  \<open>timerfd\<close> is set to, if any; \<open>ran\<close> the callbacks called so far. The null pointer is 0.
\<close>

type_synonym entry = "int \<times> nat"

record 'cb TimerQueue =
  timers :: "entry list"
  heap :: "nat \<Rightarrow> 'cb Timer option"
  fresh :: nat
  armed :: "int option"
  ran :: "'cb list"

definition TimerQueue_new :: "'cb TimerQueue" where
  "TimerQueue_new = \<lparr>timers = [], heap = (\<lambda>_. None), fresh = 1, armed = None, ran = []\<rparr>"

text \<open>\<open>std::set::insert\<close>: nothing happens if the entry is there.\<close>

fun set_insert :: "entry \<Rightarrow> entry list \<Rightarrow> entry list" where
  "set_insert e [] = [e]"
| "set_insert e (x # xs) =
     (if e < x then e # x # xs else if e = x then x # xs else x # set_insert e xs)"

definition timerFdSet :: "int \<Rightarrow> 'cb TimerQueue \<Rightarrow> 'cb TimerQueue" where
  "timerFdSet w q = q\<lparr>armed := Some w\<rparr>"

definition addTimer ::
    "'cb option \<Rightarrow> int \<Rightarrow> int \<Rightarrow> 'cb TimerQueue \<Rightarrow> (nat \<times> 'cb TimerQueue) option" where
  "addTimer cb w i q =
     (let timer = fresh q;
          q1 = q\<lparr>heap := (heap q)(timer \<mapsto> Timer_new cb w i), fresh := Suc timer\<rparr>;
          ts = set_insert (w, timer) (timers q1);
          q2 = q1\<lparr>timers := ts\<rparr>
      in if (w, timer) \<in> set (timers q1) then None
         else Some (timer, if hd ts = (w, timer) then timerFdSet w q2 else q2))"

definition cancelTimer :: "nat \<Rightarrow> 'cb TimerQueue \<Rightarrow> 'cb TimerQueue option" where
  "cancelTimer timer q =
     (case heap q timer of
        None \<Rightarrow> None
      | Some t \<Rightarrow>
          (case timer_cancel t of
             None \<Rightarrow> None
           | Some t1 \<Rightarrow>
               Some (q\<lparr>timers := filter (\<lambda>e. e \<noteq> (whenT t1, timer)) (timers q),
                       heap := (heap q)(timer := None)\<rparr>)))"

section \<open>Expiry\<close>

text \<open>
  What a callback does to the queue is a list of calls, a parameter.
\<close>

datatype 'cb timer_call = AddTimer 'cb int int | CancelTimer nat

fun timer_do :: "'cb timer_call \<Rightarrow> 'cb TimerQueue \<Rightarrow> 'cb TimerQueue option" where
  "timer_do (AddTimer cb w i) q = map_option snd (addTimer (Some cb) w i q)"
| "timer_do (CancelTimer p) q = cancelTimer p q"

fun timer_calls :: "'cb timer_call list \<Rightarrow> 'cb TimerQueue \<Rightarrow> 'cb TimerQueue option" where
  "timer_calls [] q = Some q"
| "timer_calls (c # cs) q = Option.bind (timer_do c q) (timer_calls cs)"

definition timer_run ::
    "('cb \<Rightarrow> 'cb timer_call list) \<Rightarrow> 'cb Timer \<Rightarrow> 'cb TimerQueue \<Rightarrow> 'cb TimerQueue option" where
  "timer_run act t q =
     (case timerCallback t of
        None \<Rightarrow> Some q
      | Some cb \<Rightarrow> timer_calls (act cb) (q\<lparr>ran := ran q @ [cb]\<rparr>))"

definition getExpired :: "int \<Rightarrow> 'cb TimerQueue \<Rightarrow> entry list \<times> 'cb TimerQueue" where
  "getExpired now q =
     (let strike = (now + 1, 0 :: nat);
          entries = takeWhile (\<lambda>e. e < strike) (timers q)
      in (entries, q\<lparr>timers := dropWhile (\<lambda>e. e < strike) (timers q)\<rparr>))"

fun expiredLoop ::
    "('cb \<Rightarrow> 'cb timer_call list) \<Rightarrow> int \<Rightarrow> entry list \<Rightarrow> 'cb TimerQueue \<Rightarrow> 'cb TimerQueue option"
  where
  "expiredLoop act now [] q = Some q"
| "expiredLoop act now ((_, timer) # es) q =
     (case heap q timer of
        None \<Rightarrow> None
      | Some t \<Rightarrow>
          if \<not> timer_expired now t then None
          else Option.bind (if \<not> canceled t then timer_run act t q else Some q) (\<lambda>q1.
            case heap q1 timer of
              None \<Rightarrow> None
            | Some t1 \<Rightarrow>
                if \<not> canceled t1 \<and> repeat t1
                then Option.bind (timer_restart now t1) (\<lambda>t2.
                  expiredLoop act now es
                    (q1\<lparr>heap := (heap q1)(timer \<mapsto> t2),
                        timers := set_insert (whenT t2, timer) (timers q1)\<rparr>))
                else expiredLoop act now es (q1\<lparr>heap := (heap q1)(timer := None)\<rparr>)))"

text \<open>The \<open>timerfd\<close> is not periodic: when it is read it is no longer armed.\<close>

definition timerRead ::
    "('cb \<Rightarrow> 'cb timer_call list) \<Rightarrow> int \<Rightarrow> 'cb TimerQueue \<Rightarrow> 'cb TimerQueue option" where
  "timerRead act now q =
     (let (entries, q1) = getExpired now (q\<lparr>armed := None\<rparr>)
      in map_option (\<lambda>q2. if timers q2 \<noteq> [] then timerFdSet (fst (hd (timers q2))) q2 else q2)
           (expiredLoop act now entries q1))"

text \<open>\<open>duractionFromNow\<close>: seconds and nanoseconds until a time, at least 100 microseconds.\<close>

definition duractionFromNow :: "int \<Rightarrow> int \<Rightarrow> int \<times> int" where
  "duractionFromNow now w =
     (let ns = (if w - now < 100000 then 100000 else w - now)
      in (ns div 1000000000, ns mod 1000000000))"

section \<open>The invariant\<close>

definition entries_of :: "'cb TimerQueue \<Rightarrow> entry set" where
  "entries_of q = {(whenT t, p) | t p. heap q p = Some t}"

text \<open>
  \<open>queue_ok es q\<close>: the set and the entries \<open>es\<close> taken out of it are exactly the timers on the
  heap, none of them canceled.
\<close>

definition queue_ok :: "entry list \<Rightarrow> 'cb TimerQueue \<Rightarrow> bool" where
  "queue_ok es q \<longleftrightarrow> sorted_wrt (<) (timers q) \<and> distinct es \<and> set (timers q) \<inter> set es = {} \<and>
     set (timers q) \<union> set es = entries_of q \<and> (\<forall>p. p \<ge> fresh q \<or> p = 0 \<longrightarrow> heap q p = None) \<and>
     (\<forall>p t. heap q p = Some t \<longrightarrow> \<not> canceled t \<and> repeat t = (interval t > 0)) \<and> 0 < fresh q"

definition armed_ok :: "'cb TimerQueue \<Rightarrow> bool" where
  "armed_ok q \<longleftrightarrow> (timers q \<noteq> [] \<longrightarrow> (\<exists>a. armed q = Some a \<and> a \<le> fst (hd (timers q))))"

definition timer_inv :: "'cb TimerQueue \<Rightarrow> bool" where
  "timer_inv q \<longleftrightarrow> queue_ok [] q \<and> armed_ok q"

lemma set_set_insert [simp]: "set (set_insert e xs) = insert e (set xs)"
  by (induction e xs rule: set_insert.induct) auto

lemma sorted_set_insert: "sorted_wrt (<) xs \<Longrightarrow> sorted_wrt (<) (set_insert e xs)"
  by (induction e xs rule: set_insert.induct) (auto dest: less_trans)

lemma set_insert_nonempty [simp]: "set_insert e xs \<noteq> []"
  by (cases xs) auto

lemma hd_set_insert: "hd (set_insert e xs) = (if xs = [] \<or> e \<le> hd xs then e else hd xs)"
  by (cases xs) auto

lemma in_entries: "(w, p) \<in> entries_of q \<longleftrightarrow> (\<exists>t. heap q p = Some t \<and> whenT t = w)"
  by (auto simp: entries_of_def)

lemma entries_functional: "(w, p) \<in> entries_of q \<Longrightarrow> (w', p) \<in> entries_of q \<Longrightarrow> w = w'"
  by (auto simp: in_entries)

lemma entries_upd:
  "entries_of (q\<lparr>heap := (heap q)(p \<mapsto> t)\<rparr>) = insert (whenT t, p) {e \<in> entries_of q. snd e \<noteq> p}"
  "entries_of (q\<lparr>heap := (heap q)(p := None)\<rparr>) = {e \<in> entries_of q. snd e \<noteq> p}"
  by (auto simp: in_entries split: if_splits)

lemma entries_fields [simp]:
  "entries_of (q\<lparr>timers := ts\<rparr>) = entries_of q" "entries_of (q\<lparr>armed := a\<rparr>) = entries_of q"
  "entries_of (q\<lparr>ran := r\<rparr>) = entries_of q" "entries_of (q\<lparr>fresh := n\<rparr>) = entries_of q"
  by (simp_all add: entries_of_def)

lemma queue_ok_fields [simp]:
  "queue_ok es (q\<lparr>armed := a\<rparr>) = queue_ok es q" "queue_ok es (q\<lparr>ran := r\<rparr>) = queue_ok es q"
  by (simp_all add: queue_ok_def)

lemma queue_ok_new: "queue_ok [] TimerQueue_new"
  by (auto simp: queue_ok_def TimerQueue_new_def entries_of_def)

section \<open>Adding and cancelling\<close>

lemma addTimer_ok:
  assumes "queue_ok es q"
  shows "\<exists>q'. addTimer cb w i q = Some (fresh q, q') \<and> queue_ok es q' \<and> ran q' = ran q \<and>
    fresh q' = Suc (fresh q) \<and> heap q' = (heap q)(fresh q \<mapsto> Timer_new cb w i) \<and>
    (armed_ok q \<longrightarrow> armed_ok q')"
proof -
  let ?p = "fresh q"
  let ?h = "(heap q)(?p \<mapsto> Timer_new cb w i)"
  let ?ts = "set_insert (w, ?p) (timers q)"
  have no: "heap q ?p = None" using assms by (simp add: queue_ok_def)
  have new: "(w', ?p) \<notin> set (timers q) \<union> set es" for w'
    using assms no by (auto simp: queue_ok_def entries_of_def)
  have en: "entries_of (q\<lparr>heap := ?h\<rparr>) = insert (w, ?p) (entries_of q)"
    using no by (auto simp: in_entries Timer_new_def split: if_splits)
  define q2 where "q2 = q\<lparr>heap := ?h, fresh := Suc ?p, timers := ?ts\<rparr>"
  have en2: "entries_of q2 = insert (w, ?p) (entries_of q)"
    using en by (simp add: q2_def entries_of_def)
  have ok: "queue_ok es q2"
    using assms new unfolding queue_ok_def en2
    by (auto simp: q2_def sorted_set_insert Timer_new_def)
  define q' where "q' = (if hd ?ts = (w, ?p) then timerFdSet w q2 else q2)"
  have "addTimer cb w i q = Some (?p, q')"
    using new [of w] by (simp add: addTimer_def Let_def q'_def q2_def)
  moreover have "armed_ok q'" if "armed_ok q"
    using that by (auto simp: q'_def q2_def armed_ok_def timerFdSet_def hd_set_insert less_eq_prod_def)
  moreover have "queue_ok es q'" using ok by (simp add: q'_def timerFdSet_def)
  ultimately show ?thesis by (auto simp: q'_def q2_def timerFdSet_def)
qed

lemma hd_filter_ge:
  "sorted_wrt (<) (ts :: entry list) \<Longrightarrow> filter P ts \<noteq> [] \<Longrightarrow> fst (hd ts) \<le> fst (hd (filter P ts))"
proof -
  assume s: "sorted_wrt (<) ts" and ne: "filter P ts \<noteq> []"
  then have "hd (filter P ts) \<in> set ts" using hd_in_set [OF ne] by simp
  then have "hd ts \<le> hd (filter P ts)" using s by (cases ts) (auto simp: less_imp_le)
  then show ?thesis by (auto simp: less_eq_prod_def)
qed

text \<open>
  The entries \<open>rest\<close> that are not in the set (because the task that inserts them is still queued)
  stay as they are.
\<close>

lemma cancelTimer_rest_ok:
  assumes "queue_ok rest q" "heap q p = Some t" "(whenT t, p) \<notin> set rest"
  shows "\<exists>q'. cancelTimer p q = Some q' \<and> queue_ok rest q' \<and> heap q' = (heap q)(p := None) \<and>
    ran q' = ran q \<and> (armed_ok q \<longrightarrow> armed_ok q')"
proof -
  let ?q = "q\<lparr>timers := filter (\<lambda>e. e \<noteq> (whenT t, p)) (timers q), heap := (heap q)(p := None)\<rparr>"
  have nc: "\<not> canceled t" using assms by (auto simp: queue_ok_def)
  have en: "entries_of ?q = entries_of q - {(whenT t, p)}"
    using assms(2) by (auto simp: in_entries split: if_splits)
  have "queue_ok rest ?q"
    using assms(1,3) unfolding queue_ok_def en by (auto simp: sorted_wrt_filter)
  moreover have "cancelTimer p q = Some ?q"
    using assms(2) nc by (simp add: cancelTimer_def timer_cancel_def)
  moreover have "armed_ok ?q" if a: "armed_ok q"
  proof (cases "timers ?q = []")
    case False
    then have "timers q \<noteq> []" by auto
    with a obtain x where "armed q = Some x" "x \<le> fst (hd (timers q))" by (auto simp: armed_ok_def)
    moreover have "fst (hd (timers q)) \<le> fst (hd (timers ?q))"
      using hd_filter_ge [of "timers q"] False assms(1) by (simp add: queue_ok_def)
    ultimately show ?thesis by (simp add: armed_ok_def)
  qed (simp add: armed_ok_def)
  ultimately show ?thesis by simp
qed

lemma cancelTimer_ok:
  assumes "queue_ok [] q" "heap q p = Some t"
  shows "\<exists>q'. cancelTimer p q = Some q' \<and> queue_ok [] q' \<and> heap q' = (heap q)(p := None) \<and>
    ran q' = ran q \<and> (armed_ok q \<longrightarrow> armed_ok q')"
  using cancelTimer_rest_ok [OF assms] by simp

section \<open>Serving the expired timers\<close>

definition only_adds :: "'cb timer_call list \<Rightarrow> bool" where
  "only_adds cs \<longleftrightarrow> list_all (\<lambda>c. case c of AddTimer _ _ _ \<Rightarrow> True | CancelTimer _ \<Rightarrow> False) cs"

lemma timer_calls_ok:
  "queue_ok es q \<Longrightarrow> only_adds cs \<Longrightarrow> \<exists>q'. timer_calls cs q = Some q' \<and> queue_ok es q' \<and>
     ran q' = ran q \<and> fresh q \<le> fresh q' \<and> (\<forall>p < fresh q. heap q' p = heap q p)"
proof (induction cs arbitrary: q)
  case (Cons c cs)
  then obtain cb w i where c: "c = AddTimer cb w i" by (cases c) (auto simp: only_adds_def)
  obtain q1 where q1: "addTimer (Some cb) w i q = Some (fresh q, q1)" "queue_ok es q1" "ran q1 = ran q"
    "fresh q1 = Suc (fresh q)" "heap q1 = (heap q)(fresh q \<mapsto> Timer_new (Some cb) w i)"
    using addTimer_ok [OF Cons.prems(1)] by metis
  obtain q' where "timer_calls cs q1 = Some q'" "queue_ok es q'" "ran q' = ran q1" "fresh q1 \<le> fresh q'"
    "\<forall>p < fresh q1. heap q' p = heap q1 p"
    using Cons.IH [OF q1(2)] Cons.prems(2) by (auto simp: only_adds_def)
  then show ?case using q1 by (simp add: c)
qed simp

lemma timer_run_ok:
  assumes "queue_ok es q" "\<And>cb. only_adds (act cb)"
  shows "\<exists>q'. timer_run act t q = Some q' \<and> queue_ok es q' \<and>
    ran q' = ran q @ (case timerCallback t of None \<Rightarrow> [] | Some cb \<Rightarrow> [cb]) \<and>
    fresh q \<le> fresh q' \<and> (\<forall>p < fresh q. heap q' p = heap q p)"
proof (cases "timerCallback t")
  case (Some cb)
  then show ?thesis
    using timer_calls_ok [of es "q\<lparr>ran := ran q @ [cb]\<rparr>" "act cb"] assms by (simp add: timer_run_def)
qed (simp add: timer_run_def assms)

text \<open>Dropping a served entry, restarted or deleted.\<close>

lemma queue_ok_served:
  assumes ok: "queue_ok ((w, p) # es) q" and t: "heap q p = Some t"
  shows "queue_ok es (q\<lparr>heap := (heap q)(p := None)\<rparr>)"
    and "repeat t \<Longrightarrow> queue_ok es (q\<lparr>heap := (heap q)(p \<mapsto> t\<lparr>whenT := v\<rparr>),
      timers := set_insert (v, p) (timers q)\<rparr>)"
proof -
  have e: "set (timers q) \<union> set ((w, p) # es) = entries_of q" "distinct ((w, p) # es)"
    "(w, p) \<notin> set (timers q)" "set (timers q) \<inter> set es = {}"
    using ok by (auto simp: queue_ok_def)
  have pu: "w' = w" if "(w', p) \<in> set (timers q) \<union> set es" for w'
    using entries_functional [of w' p q w] e(1) that by auto
  then have np: "snd x \<noteq> p" if "x \<in> set (timers q) \<union> set es" for x
    using that e(2,3) by (cases x) auto
  have rest: "{x \<in> entries_of q. snd x \<noteq> p} = set (timers q) \<union> set es"
    using e(1) np by auto
  have nv: "(v, p) \<notin> set es" "(v, p) \<notin> set (timers q)" using np by fastforce+
  have fr: "p < fresh q" "p \<noteq> 0" using ok t by (auto simp: queue_ok_def not_less [symmetric])
  show "queue_ok es (q\<lparr>heap := (heap q)(p := None)\<rparr>)"
    using ok unfolding queue_ok_def entries_upd rest by auto
  show "queue_ok es (q\<lparr>heap := (heap q)(p \<mapsto> t\<lparr>whenT := v\<rparr>), timers := set_insert (v, p) (timers q)\<rparr>)"
    if "repeat t"
    using ok t fr nv unfolding queue_ok_def entries_fields entries_upd rest
    by (auto simp: sorted_set_insert)
qed

definition callbacks_of :: "'cb TimerQueue \<Rightarrow> entry list \<Rightarrow> 'cb list" where
  "callbacks_of q es = List.map_filter (\<lambda>e. Option.bind (heap q (snd e)) timerCallback) es"

text \<open>The next times of the periodic timers among \<open>es\<close> fit.\<close>

definition restarts_fit :: "int \<Rightarrow> 'cb TimerQueue \<Rightarrow> entry list \<Rightarrow> bool" where
  "restarts_fit now q es \<longleftrightarrow> (\<forall>p t. p \<in> snd ` set es \<longrightarrow> heap q p = Some t \<longrightarrow> repeat t \<longrightarrow> fits64 (now + interval t))"

definition served :: "int \<Rightarrow> 'cb Timer \<Rightarrow> 'cb Timer option" where
  "served now t = (if repeat t then Some (t\<lparr>whenT := now + interval t\<rparr>) else None)"

lemma callbacks_of_cong:
  "(\<And>e. e \<in> set es \<Longrightarrow> heap q (snd e) = heap q' (snd e)) \<Longrightarrow> callbacks_of q es = callbacks_of q' es"
  by (induction es) (simp_all add: callbacks_of_def map_filter_simps split: option.split)

lemma expiredLoop_rest_ok:
  assumes "\<And>cb. only_adds (act cb)"
  shows "queue_ok (es @ rest) q \<Longrightarrow> \<forall>e \<in> set es. fst e \<le> now \<Longrightarrow> restarts_fit now q es \<Longrightarrow>
    \<exists>q'. expiredLoop act now es q = Some q' \<and> queue_ok rest q' \<and> ran q' = ran q @ callbacks_of q es \<and>
      fresh q \<le> fresh q' \<and> (\<forall>p < fresh q. heap q' p =
        (if p \<in> snd ` set es then Option.bind (heap q p) (served now) else heap q p))"
proof (induction es arbitrary: q)
  case Nil
  then show ?case by (simp add: callbacks_of_def map_filter_simps)
next
  case (Cons e es)
  obtain w p where e: "e = (w, p)" by (cases e)
  have "(w, p) \<in> entries_of q" using Cons.prems(1) by (auto simp: queue_ok_def e)
  then obtain t where t: "heap q p = Some t" "whenT t = w" by (auto simp: entries_of_def)
  have tt: "\<not> canceled t" "timer_expired now t"
    using Cons.prems t by (auto simp: queue_ok_def timer_expired_def e)
  have pf: "x < fresh q" if "(v, x) \<in> set (e # es)" for v x
  proof -
    have "set (timers q) \<union> set (e # es @ rest) = entries_of q" using Cons.prems(1) by (simp add: queue_ok_def)
    then have "(v, x) \<in> entries_of q" using that by auto
    then have "heap q x \<noteq> None" by (auto simp: in_entries)
    then show ?thesis using Cons.prems(1) unfolding queue_ok_def by (meson not_less)
  qed
  obtain q1 where q1: "timer_run act t q = Some q1" "queue_ok (e # es @ rest) q1"
    "ran q1 = ran q @ (case timerCallback t of None \<Rightarrow> [] | Some cb \<Rightarrow> [cb])"
    "fresh q \<le> fresh q1" "\<forall>p < fresh q. heap q1 p = heap q p"
    using timer_run_ok [OF Cons.prems(1) [unfolded append_Cons], of act t] assms by blast
  have t1: "heap q1 p = Some t" using q1(5) pf [of w p] t e by simp
  have np: "p \<notin> snd ` set es"
  proof
    assume "p \<in> snd ` set es"
    then obtain v where v: "(v, p) \<in> set es" by auto
    then have "v = w"
      using Cons.prems(1) entries_functional [of v p q w] \<open>(w, p) \<in> entries_of q\<close>
      by (auto simp: queue_ok_def)
    then show False using v Cons.prems(1) by (auto simp: queue_ok_def e)
  qed
  define q2 where "q2 = (if repeat t then
      q1\<lparr>heap := (heap q1)(p \<mapsto> t\<lparr>whenT := now + interval t\<rparr>),
         timers := set_insert (now + interval t, p) (timers q1)\<rparr>
    else q1\<lparr>heap := (heap q1)(p := None)\<rparr>)"
  have step: "expiredLoop act now (e # es) q = expiredLoop act now es q2"
    using t tt q1(1) t1 Cons.prems(3) by (auto simp: e q2_def timer_restart_def restarts_fit_def)
  have ok2: "queue_ok (es @ rest) q2"
    using queue_ok_served [OF q1(2) [unfolded e] t1] by (simp add: q2_def)
  have h2: "heap q2 x = (if x = p then served now t else heap q1 x)" for x
    by (simp add: q2_def served_def)
  have f2: "fresh q2 = fresh q1" "ran q2 = ran q1" by (simp_all add: q2_def)
  have "heap q2 x = heap q x" if x: "x \<in> snd ` set es" for x
  proof -
    obtain v where "(v, x) \<in> set es" using x by (metis imageE prod.collapse)
    then have "x < fresh q" using pf [of v x] by simp
    moreover have "x \<noteq> p" using x np by blast
    ultimately show ?thesis using h2 q1(5) by simp
  qed
  then have fit: "restarts_fit now q2 es" using Cons.prems(3) by (simp add: restarts_fit_def)
  obtain q' where q': "expiredLoop act now es q2 = Some q'" "queue_ok rest q'"
    "ran q' = ran q2 @ callbacks_of q2 es" "fresh q2 \<le> fresh q'"
    "\<forall>x < fresh q2. heap q' x = (if x \<in> snd ` set es then Option.bind (heap q2 x) (served now) else heap q2 x)"
    using Cons.IH [OF ok2 _ fit] Cons.prems(2) by auto
  have "callbacks_of q2 es = callbacks_of q es"
    using h2 np q1(5) pf by (intro callbacks_of_cong) (auto, metis image_eqI snd_conv)
  then have "ran q' = ran q @ callbacks_of q (e # es)"
    using q'(3) f2 q1(3) t by (simp add: e callbacks_of_def map_filter_simps split: option.split)
  moreover have "heap q' x = (if x \<in> snd ` set (e # es) then Option.bind (heap q x) (served now) else heap q x)"
    if "x < fresh q" for x
    using q'(5) that f2 q1(4,5) h2 np t by (auto simp: e)
  ultimately show ?case using step q' f2 q1(4) by auto
qed

end
