(* ===== verification/TimerFacts.thy ===== *)
theory TimerFacts
  imports TimerQueue
begin

text \<open>
  The properties of the timer queue: its operations keep the set, the heap and the armed
  \<open>timerfd\<close> in agreement; reading the \<open>timerfd\<close> serves exactly the timers that are due, in
  order; and a callback that cancels its own timer leads to an access of a deleted object.
\<close>

text \<open>Without calls in the callbacks no timer is created.\<close>

lemma timer_run_plain: "timer_run (\<lambda>_. []) t q = Some q1 \<Longrightarrow> fresh q1 = fresh q"
  by (auto simp: timer_run_def split: option.splits)

lemma expiredLoop_fresh: "expiredLoop (\<lambda>_. []) now es q = Some q' \<Longrightarrow> fresh q' = fresh q"
proof (induction es arbitrary: q)
  case (Cons e es)
  obtain w p where e: "e = (w, p)" by (cases e)
  obtain t where t: "heap q p = Some t" "timer_expired now t"
    using Cons.prems by (auto simp: e split: option.splits if_splits)
  obtain q1 where q1: "(if \<not> canceled t then timer_run (\<lambda>_. []) t q else Some q) = Some q1"
    using Cons.prems t by (auto simp: e bind_eq_Some_conv)
  have f: "fresh q1 = fresh q" using q1 by (auto dest: timer_run_plain split: if_splits)
  obtain t1 where t1: "heap q1 p = Some t1"
    using Cons.prems t q1 by (auto simp: e split: option.splits)
  show ?case
  proof (cases "\<not> canceled t1 \<and> repeat t1")
    case True
    then obtain t2 where "expiredLoop (\<lambda>_. []) now es
        (q1\<lparr>heap := (heap q1)(p \<mapsto> t2), timers := set_insert (whenT t2, p) (timers q1)\<rparr>) = Some q'"
      using Cons.prems t q1 t1 by (auto simp: e bind_eq_Some_conv)
    from Cons.IH [OF this] show ?thesis using f by simp
  next
    case False
    then have "expiredLoop (\<lambda>_. []) now es (q1\<lparr>heap := (heap q1)(p := None)\<rparr>) = Some q'"
      using Cons.prems t q1 t1 by (auto simp: e)
    from Cons.IH [OF this] show ?thesis using f by simp
  qed
qed simp

lemma timerRead_fresh: "timerRead (\<lambda>_. []) now q = Some q' \<Longrightarrow> fresh q' = fresh q"
  by (auto simp: timerRead_def getExpired_def timerFdSet_def Let_def dest!: expiredLoop_fresh split: if_splits)

lemma takeWhile_due:
  "sorted_wrt (<) (ts :: entry list) \<Longrightarrow>
   takeWhile (\<lambda>e. e < (now + 1, 0)) ts = filter (\<lambda>e. fst e \<le> now) ts \<and>
   dropWhile (\<lambda>e. e < (now + 1, 0)) ts = filter (\<lambda>e. \<not> fst e \<le> now) ts"
proof (induction ts)
  case (Cons e ts)
  have less: "x < (now + 1, 0) \<longleftrightarrow> fst x \<le> now" for x :: entry
    by (cases x) (auto simp: less_prod_def)
  show ?case
  proof (cases "fst e \<le> now")
    case True
    then show ?thesis using Cons less by simp
  next
    case False
    then have "\<not> fst x \<le> now" if "x \<in> set ts" for x
      using Cons.prems that by (fastforce simp: less_prod_def)
    then show ?thesis using False less by (auto simp: filter_empty_conv)
  qed
qed simp

lemma due_entries:
  assumes "timer_inv q" "p < fresh q"
  shows "p \<in> snd ` set (filter (\<lambda>e. fst e \<le> now) (timers q)) \<longleftrightarrow>
    (\<exists>t. heap q p = Some t \<and> whenT t \<le> now)"
proof -
  have "set (timers q) = entries_of q" using assms(1) by (simp add: timer_inv_def queue_ok_def)
  then show ?thesis by (force simp: in_entries image_iff)
qed

lemma rearmed: "armed_ok (if timers q \<noteq> [] then timerFdSet (fst (hd (timers q))) q else q)"
  by (simp add: armed_ok_def timerFdSet_def)

text \<open>Reading the \<open>timerfd\<close>, with entries \<open>rest\<close> that are not inserted yet.\<close>

lemma timerRead_rest_ok:
  assumes ok: "queue_ok rest q" and act: "\<And>cb. only_adds (act cb)"
    and fit: "restarts_fit now q (filter (\<lambda>e. fst e \<le> now) (timers q))"
  shows "\<exists>q'. timerRead act now q = Some q' \<and> queue_ok rest q' \<and> armed_ok q' \<and> fresh q \<le> fresh q' \<and>
    (timers q' \<noteq> [] \<longrightarrow> armed q' = Some (fst (hd (timers q')))) \<and>
    ran q' = ran q @ callbacks_of q (filter (\<lambda>e. fst e \<le> now) (timers q)) \<and>
    (\<forall>p < fresh q. heap q' p = (if p \<in> snd ` set (filter (\<lambda>e. fst e \<le> now) (timers q))
      then Option.bind (heap q p) (served now) else heap q p))"
proof -
  let ?due = "filter (\<lambda>e. fst e \<le> now) (timers q)"
  let ?q1 = "q\<lparr>armed := None, timers := filter (\<lambda>e. \<not> fst e \<le> now) (timers q)\<rparr>"
  have s: "sorted_wrt (<) (timers q)" "distinct (timers q)"
    using ok by (auto simp: queue_ok_def strict_sorted_iff)
  have e: "getExpired now (q\<lparr>armed := None\<rparr>) = (?due, ?q1)"
    using takeWhile_due [OF s(1)] by (simp add: getExpired_def Let_def)
  have en: "entries_of ?q1 = entries_of q" by (simp add: entries_of_def)
  have ok1: "queue_ok (?due @ rest) ?q1"
    using ok s unfolding queue_ok_def en by (auto simp: sorted_wrt_filter)
  have due: "\<forall>e \<in> set ?due. fst e \<le> now" by simp
  have fit1: "restarts_fit now ?q1 ?due" using fit by (simp add: restarts_fit_def)
  obtain q2 where q2: "expiredLoop act now ?due ?q1 = Some q2" "queue_ok rest q2"
    "ran q2 = ran ?q1 @ callbacks_of ?q1 ?due" "fresh ?q1 \<le> fresh q2"
    "\<forall>p < fresh ?q1. heap q2 p =
      (if p \<in> snd ` set ?due then Option.bind (heap ?q1 p) (served now) else heap ?q1 p)"
    using expiredLoop_rest_ok [of act, OF act ok1 due fit1] by blast
  let ?q' = "if timers q2 \<noteq> [] then timerFdSet (fst (hd (timers q2))) q2 else q2"
  have "timerRead act now q = Some ?q'" using e q2(1) by (simp add: timerRead_def)
  moreover have "queue_ok rest ?q'" "armed_ok ?q'" "timers ?q' \<noteq> [] \<longrightarrow> armed ?q' = Some (fst (hd (timers ?q')))"
    using q2(2) rearmed [of q2] by (auto simp: timerFdSet_def)
  moreover have "ran ?q' = ran q @ callbacks_of q ?due"
    using q2(3) callbacks_of_cong [of ?due ?q1 q] by (simp add: timerFdSet_def)
  moreover have "heap ?q' p = (if p \<in> snd ` set ?due then Option.bind (heap q p) (served now) else heap q p)"
    if "p < fresh q" for p
    using q2(5) that by (simp add: timerFdSet_def)
  moreover have "fresh q \<le> fresh ?q'" using q2(4) by (simp add: timerFdSet_def)
  ultimately show ?thesis by blast
qed

lemma timerRead_ok:
  assumes inv: "timer_inv q" and act: "\<And>cb. only_adds (act cb)"
    and fit: "restarts_fit now q (filter (\<lambda>e. fst e \<le> now) (timers q))"
  shows "\<exists>q'. timerRead act now q = Some q' \<and> timer_inv q' \<and>
    (timers q' \<noteq> [] \<longrightarrow> armed q' = Some (fst (hd (timers q')))) \<and>
    ran q' = ran q @ callbacks_of q (filter (\<lambda>e. fst e \<le> now) (timers q)) \<and>
    (\<forall>p < fresh q. heap q' p = Option.bind (heap q p) (\<lambda>t. if whenT t \<le> now then served now t else Some t))"
proof -
  let ?due = "filter (\<lambda>e. fst e \<le> now) (timers q)"
  obtain q' where q': "timerRead act now q = Some q'" "queue_ok [] q'" "armed_ok q'"
    "timers q' \<noteq> [] \<longrightarrow> armed q' = Some (fst (hd (timers q')))"
    "ran q' = ran q @ callbacks_of q ?due"
    "\<forall>p < fresh q. heap q' p = (if p \<in> snd ` set ?due then Option.bind (heap q p) (served now) else heap q p)"
    using timerRead_rest_ok [of "[]" q act now, OF _ act fit] inv by (auto simp: timer_inv_def)
  have "heap q' p = Option.bind (heap q p) (\<lambda>t. if whenT t \<le> now then served now t else Some t)"
    if "p < fresh q" for p
    using q'(6) that due_entries [OF inv that, of now] by (cases "heap q p") auto
  then show ?thesis using q'(1-5) by (auto simp: timer_inv_def)
qed

text \<open>A queue with one timer.\<close>

lemma timer_inv_new: "timer_inv TimerQueue_new"
proof -
  have "armed_ok TimerQueue_new" by (simp add: armed_ok_def TimerQueue_new_def)
  then show ?thesis by (simp add: timer_inv_def queue_ok_new)
qed

definition one_timer :: "string TimerQueue" where
  "one_timer = \<lparr>timers = [(5, 1)], heap = (\<lambda>_. None)(1 \<mapsto> Timer_new (Some ''tick'') 5 0), fresh = 2,
     armed = Some 5, ran = []\<rparr>"

lemma one_timer_added: "addTimer (Some ''tick'') 5 0 TimerQueue_new = Some (1, one_timer)"
  by (simp add: addTimer_def TimerQueue_new_def one_timer_def timerFdSet_def Let_def)

lemma one_timer_inv: "timer_inv one_timer"
  using addTimer_ok [OF queue_ok_new, of "Some ''tick''" 5 0] one_timer_added timer_inv_new
  by (auto simp: timer_inv_def)

section \<open>Properties\<close>

text \<open>
  C27: when the \<open>timerfd\<close> is read, the callbacks of exactly the timers that are due run, once each
  and in the order of their times; periodic timers move to one interval from now, the others are
  deleted, timers that are not due are untouched; the queue is again in agreement with its heap, and
  the \<open>timerfd\<close> is armed for exactly the first timer left; whatever timers the callbacks add meanwhile.
  The callbacks cancel no timer (one that cancels its own is \<open>self_cancel_use_after_delete\<close>, others are
  in \<open>NetLoop\<close>), and the next times fit into the 64-bit clock.
\<close>

theorem timers_served:
  assumes "timer_inv q" and "\<And>cb. only_adds (act cb)"
    and "restarts_fit now q (filter (\<lambda>e. fst e \<le> now) (timers q))"
  shows "\<exists>q'. timerRead act now q = Some q' \<and> timer_inv q' \<and>
    (timers q' \<noteq> [] \<longrightarrow> armed q' = Some (fst (hd (timers q')))) \<and>
    ran q' = ran q @ callbacks_of q (filter (\<lambda>e. fst e \<le> now) (timers q)) \<and>
    (\<forall>p < fresh q. heap q' p = Option.bind (heap q p) (\<lambda>t. if whenT t \<le> now then served now t else Some t))"
  using timerRead_ok assms by blast

theorem timers_served_witness:
  "\<exists>q'. timerRead (\<lambda>_. [AddTimer ''again'' 3 0]) 7 one_timer = Some q' \<and> ran q' = [''tick''] \<and> heap q' 1 = None"
proof -
  have "only_adds [AddTimer ''again'' 3 0]" by (simp add: only_adds_def)
  moreover have "restarts_fit 7 one_timer (filter (\<lambda>e. fst e \<le> 7) (timers one_timer))"
    by (simp add: restarts_fit_def one_timer_def Timer_new_def)
  ultimately obtain q' where "timerRead (\<lambda>_. [AddTimer ''again'' 3 0]) 7 one_timer = Some q'"
    "ran q' = ran one_timer @ callbacks_of one_timer (filter (\<lambda>e. fst e \<le> 7) (timers one_timer))"
    "\<forall>p < fresh one_timer. heap q' p = Option.bind (heap one_timer p)
      (\<lambda>t. if whenT t \<le> 7 then served 7 t else Some t)"
    using timers_served [OF one_timer_inv, of "\<lambda>_. [AddTimer ''again'' 3 0]" 7] by blast
  then show ?thesis
    by (auto simp: one_timer_def callbacks_of_def map_filter_simps Timer_new_def served_def)
qed

text \<open>
  Adding a timer, and cancelling one that is still there, never fails an assertion, and keeps
  the set, the heap and the \<open>timerfd\<close> in agreement: every timer on the heap is in the set under
  its time, and the \<open>timerfd\<close> is armed no later than the first. A cancelled timer is gone.
\<close>

theorem timer_operations:
  assumes "timer_inv q"
  shows "(\<exists>p q'. addTimer cb w i q = Some (p, q') \<and> timer_inv q' \<and> heap q' p = Some (Timer_new cb w i)) \<and>
    (heap q p = Some t \<longrightarrow> (\<exists>q'. cancelTimer p q = Some q' \<and> timer_inv q' \<and> heap q' p = None \<and>
       p \<notin> snd ` set (timers q') \<and> cancelTimer p q' = None))"
proof (intro conjI impI)
  show "\<exists>p q'. addTimer cb w i q = Some (p, q') \<and> timer_inv q' \<and> heap q' p = Some (Timer_new cb w i)"
    using addTimer_ok [of "[]" q cb w i] assms by (auto simp: timer_inv_def)
next
  assume "heap q p = Some t"
  then obtain q' where q': "cancelTimer p q = Some q'" "queue_ok [] q'" "heap q' = (heap q)(p := None)"
    "armed_ok q'"
    using cancelTimer_ok [of q p t] assms by (auto simp: timer_inv_def)
  have "p \<notin> snd ` set (timers q')"
    using q'(2,3) by (auto simp: queue_ok_def in_entries)
  moreover have "cancelTimer p q' = None" using q'(3) by (simp add: cancelTimer_def)
  ultimately show "\<exists>q'. cancelTimer p q = Some q' \<and> timer_inv q' \<and> heap q' p = None \<and>
      p \<notin> snd ` set (timers q') \<and> cancelTimer p q' = None"
    using q' by (auto simp: timer_inv_def)
qed

theorem timer_operations_witness:
  "\<exists>q'. cancelTimer 1 one_timer = Some q' \<and> timers q' = []"
proof -
  have "heap one_timer 1 = Some (Timer_new (Some ''tick'') 5 0)" by (simp add: one_timer_def)
  then obtain q' where q': "cancelTimer 1 one_timer = Some q'" "1 \<notin> snd ` set (timers q')"
    using timer_operations [OF one_timer_inv, of None 0 0 1] by blast
  then show ?thesis
    by (auto simp: cancelTimer_def one_timer_def timer_cancel_def Timer_new_def)
qed

text \<open>
  A callback that cancels its own timer, when it is the first one due, makes the loop read
  the timer after it was deleted, whether it is periodic or not.
\<close>

theorem self_cancel_use_after_delete:
  assumes "timer_inv q" and "timers q = (w, p) # es" and "w \<le> now"
    and "heap q p = Some t" and "timerCallback t = Some cb" and "act cb = [CancelTimer p]"
  shows "timerRead act now q = None"
proof -
  have "(w, p) \<in> entries_of q"
    using assms(1,2) by (auto simp: timer_inv_def queue_ok_def)
  then have t: "whenT t = w" "\<not> canceled t"
    using assms(1,4) by (auto simp: timer_inv_def queue_ok_def in_entries)
  let ?q1 = "q\<lparr>armed := None, timers := dropWhile (\<lambda>e. e < (now + 1, 0)) (timers q)\<rparr>"
  have "getExpired now (q\<lparr>armed := None\<rparr>) =
      ((w, p) # takeWhile (\<lambda>e. e < (now + 1, 0)) es, ?q1)"
    using assms(2,3) by (simp add: getExpired_def Let_def less_prod_def)
  moreover have "expiredLoop act now ((w, p) # es') ?q1 = None" for es'
    using assms(3-6) t
    by (simp add: timer_expired_def timer_run_def cancelTimer_def timer_cancel_def)
  ultimately show ?thesis by (simp add: timerRead_def)
qed

theorem self_cancel_use_after_delete_witness:
  "timerRead (\<lambda>_. [CancelTimer 1]) 5 one_timer = None"
  by (rule self_cancel_use_after_delete [OF one_timer_inv, where cb = "''tick''" and w = 5 and es = "[]"
        and t = "Timer_new (Some ''tick'') 5 0"])
    (simp_all add: one_timer_def Timer_new_def)

end
