(* ===== verification/NetLoop.thy ===== *)
theory NetLoop
  imports NetEventLoop TimerFacts
begin

text \<open>
  \<open>NetServer/EventLoop.cpp\<close> with its \<open>TimerQueue\<close>: \<open>runInLoop\<close>, \<open>runAt\<close>, \<open>runAfter\<close>,
  \<open>runEvery\<close> and \<open>cancelTimer\<close> called by the loop's thread and by others. Another thread makes
  the timer itself and queues the task that inserts it. The rounds of the loop, the reading of the
  \<open>timerfd\<close> timer by timer, the calls (also those of a timer's callback, while it runs) and the clock
  interleave. \<open>None\<close> is a failed assertion, an access to a deleted timer or an overflow of the clock.
\<close>

section \<open>Timers from any thread\<close>

text \<open>The two halves of \<open>TimerQueue::addTimer\<close>.\<close>

definition newTimer :: "'cb option \<Rightarrow> int \<Rightarrow> int \<Rightarrow> 'cb TimerQueue \<Rightarrow> nat \<times> 'cb TimerQueue" where
  "newTimer cb w i q =
     (fresh q, q\<lparr>heap := (heap q)(fresh q \<mapsto> Timer_new cb w i), fresh := Suc (fresh q)\<rparr>)"

definition insertTimer :: "int \<Rightarrow> nat \<Rightarrow> 'cb TimerQueue \<Rightarrow> 'cb TimerQueue option" where
  "insertTimer w timer q =
     (let ts = set_insert (w, timer) (timers q); q1 = q\<lparr>timers := ts\<rparr>
      in if (w, timer) \<in> set (timers q) then None
         else Some (if hd ts = (w, timer) then timerFdSet w q1 else q1))"

lemma addTimer_split:
  "addTimer cb w i q = (let (p, q1) = newTimer cb w i q in map_option (Pair p) (insertTimer w p q1))"
  by (simp add: addTimer_def newTimer_def insertTimer_def Let_def)

text \<open>What the tasks of the timer queue do, in the loop's thread.\<close>

datatype loop_work = InsertTimer int nat | CancelWork nat

fun do_work :: "loop_work \<Rightarrow> 'cb TimerQueue \<Rightarrow> 'cb TimerQueue option" where
  "do_work (InsertTimer w p) q = insertTimer w p q"
| "do_work (CancelWork p) q = cancelTimer p q"

section \<open>The loop\<close>

text \<open>
  Where \<open>TimerQueue::handleRead\<close> is: not called; before the next of the entries taken out, with the time
  read at its start; or in the callback of an entry.
\<close>

datatype timer_read = NoRead | Serving int "entry list" | Calling int entry "entry list"

text \<open>
  \<open>clock\<close> is the time, \<open>requests\<close> are the timers asked for so far (with the time they were asked
  for), \<open>fired\<close> the callbacks called (with the time).
\<close>

record 'cb LoopSystem =
  ev :: "loop_work EventLoop"
  tq :: "'cb TimerQueue"
  timerPc :: timer_read
  clock :: int
  requests :: "('cb \<times> int) list"
  fired :: "('cb \<times> int) list"

definition LoopSystem_new :: "'cb LoopSystem" where
  "LoopSystem_new = \<lparr>ev = EventLoop_new, tq = TimerQueue_new, timerPc = NoRead, clock = 0, requests = [], fired = []\<rparr>"

definition runInLoop :: "bool \<Rightarrow> loop_work \<Rightarrow> 'cb LoopSystem \<Rightarrow> 'cb LoopSystem option" where
  "runInLoop inLoop task S =
     (if inLoop then map_option (\<lambda>q. S\<lparr>tq := q\<rparr>) (do_work task (tq S))
      else Some (S\<lparr>ev := loop_queueInLoop False task (ev S)\<rparr>))"

definition queue_addTimer :: "bool \<Rightarrow> 'cb \<Rightarrow> int \<Rightarrow> int \<Rightarrow> 'cb LoopSystem \<Rightarrow> (nat \<times> 'cb LoopSystem) option" where
  "queue_addTimer inLoop cb w i S =
     (let (p, q) = newTimer (Some cb) w i (tq S)
      in map_option (Pair p) (runInLoop inLoop (InsertTimer w p) (S\<lparr>tq := q, requests := requests S @ [(cb, w)]\<rparr>)))"

definition queue_cancelTimer :: "bool \<Rightarrow> nat \<Rightarrow> 'cb LoopSystem \<Rightarrow> 'cb LoopSystem option" where
  "queue_cancelTimer inLoop p S = runInLoop inLoop (CancelWork p) S"

definition nowAfter :: "int \<Rightarrow> 'cb LoopSystem \<Rightarrow> int option" where
  "nowAfter i S = (if fits64 (clock S + i) then Some (clock S + i) else None)"

definition runAt :: "bool \<Rightarrow> int \<Rightarrow> 'cb \<Rightarrow> 'cb LoopSystem \<Rightarrow> (nat \<times> 'cb LoopSystem) option" where
  "runAt inLoop w cb S = queue_addTimer inLoop cb w 0 S"

definition runAfter :: "bool \<Rightarrow> int \<Rightarrow> 'cb \<Rightarrow> 'cb LoopSystem \<Rightarrow> (nat \<times> 'cb LoopSystem) option" where
  "runAfter inLoop i cb S = Option.bind (nowAfter i S) (\<lambda>w. runAt inLoop w cb S)"

definition runEvery :: "bool \<Rightarrow> int \<Rightarrow> 'cb \<Rightarrow> 'cb LoopSystem \<Rightarrow> (nat \<times> 'cb LoopSystem) option" where
  "runEvery inLoop i cb S = Option.bind (nowAfter i S) (\<lambda>w. queue_addTimer inLoop cb w i S)"

text \<open>
  \<open>TimerQueue::handleRead\<close>, in steps: up to the loop; an iteration up to the callback; the rest of the
  iteration, after the callback has returned; and what follows the loop.
\<close>

definition begin_read :: "'cb LoopSystem \<Rightarrow> 'cb LoopSystem" where
  "begin_read S =
     (let (entries, q) = getExpired (clock S) ((tq S)\<lparr>armed := None\<rparr>)
      in S\<lparr>tq := q, timerPc := Serving (clock S) entries\<rparr>)"

definition begin_callback :: "'cb Timer \<Rightarrow> 'cb LoopSystem \<Rightarrow> 'cb LoopSystem" where
  "begin_callback t S =
     (case timerCallback t of
        None \<Rightarrow> S
      | Some cb \<Rightarrow> S\<lparr>tq := (tq S)\<lparr>ran := ran (tq S) @ [cb]\<rparr>, fired := fired S @ [(cb, clock S)]\<rparr>)"

definition serve_timer :: "'cb LoopSystem \<Rightarrow> 'cb LoopSystem option" where
  "serve_timer S =
     (case timerPc S of
        Serving now ((w, timer) # es) \<Rightarrow>
          (case heap (tq S) timer of
             None \<Rightarrow> None
           | Some t \<Rightarrow>
               if \<not> timer_expired now t then None
               else Some ((if \<not> canceled t then begin_callback t S else S)\<lparr>timerPc := Calling now (w, timer) es\<rparr>))
      | _ \<Rightarrow> Some S)"

definition after_callback :: "'cb LoopSystem \<Rightarrow> 'cb LoopSystem option" where
  "after_callback S =
     (case timerPc S of
        Calling now (w, timer) es \<Rightarrow>
          (case heap (tq S) timer of
             None \<Rightarrow> None
           | Some t \<Rightarrow>
               if \<not> canceled t \<and> repeat t
               then map_option (\<lambda>t2. S\<lparr>timerPc := Serving now es,
                   tq := (tq S)\<lparr>heap := (heap (tq S))(timer \<mapsto> t2), timers := set_insert (whenT t2, timer) (timers (tq S))\<rparr>\<rparr>)
                 (timer_restart now t)
               else Some (S\<lparr>timerPc := Serving now es, tq := (tq S)\<lparr>heap := (heap (tq S))(timer := None)\<rparr>\<rparr>))
      | _ \<Rightarrow> Some S)"

definition end_read :: "'cb LoopSystem \<Rightarrow> 'cb LoopSystem" where
  "end_read S = S\<lparr>timerPc := NoRead,
     tq := (if timers (tq S) \<noteq> [] then timerFdSet (fst (hd (timers (tq S)))) (tq S) else tq S)\<rparr>"

definition run_work :: "'cb LoopSystem \<Rightarrow> 'cb LoopSystem option" where
  "run_work S =
     (case tasks (ev S) of
        [] \<Rightarrow> Some S
      | t # ts \<Rightarrow> map_option (\<lambda>q. S\<lparr>tq := q, ev := begin_task t ts (ev S)\<rparr>) (do_work t (tq S)))"

datatype 'cb loop_act = At bool int 'cb | After bool int 'cb | Every bool int 'cb | Cancel bool nat
  | Tick nat | PollReturns | WakeupEvent | TimerEvent | ServeTimer | CallbackReturns | ReadDone | SwapTasks | RunWork | TasksDone

fun loop_do :: "'cb loop_act \<Rightarrow> 'cb LoopSystem \<Rightarrow> 'cb LoopSystem option" where
  "loop_do (At inLoop w cb) S = map_option snd (runAt inLoop w cb S)"
| "loop_do (After inLoop i cb) S = map_option snd (runAfter inLoop i cb S)"
| "loop_do (Every inLoop i cb) S = map_option snd (runEvery inLoop i cb S)"
| "loop_do (Cancel inLoop p) S = queue_cancelTimer inLoop p S"
| "loop_do (Tick d) S = Some (S\<lparr>clock := clock S + int d\<rparr>)"
| "loop_do PollReturns S = Some (S\<lparr>ev := (ev S)\<lparr>pc := Handling\<rparr>\<rparr>)"
| "loop_do WakeupEvent S = Some (S\<lparr>ev := loop_handleRead (ev S)\<rparr>)"
| "loop_do TimerEvent S = Some (begin_read S)"
| "loop_do ServeTimer S = serve_timer S"
| "loop_do CallbackReturns S = after_callback S"
| "loop_do ReadDone S = Some (end_read S)"
| "loop_do SwapTasks S = Some (S\<lparr>ev := (swap_tasks (ev S))\<lparr>pc := Running\<rparr>\<rparr>)"
| "loop_do RunWork S = run_work S"
| "loop_do TasksDone S =
     Some (S\<lparr>ev := (ev S)\<lparr>doingPendingTasks := False, pc := (if quitFlag (ev S) then Stopped else Polling)\<rparr>\<rparr>)"

text \<open>The tasks not yet run, in their order.\<close>

definition works :: "'cb LoopSystem \<Rightarrow> loop_work list" where
  "works S = tasks (ev S) @ pendingTasks (ev S)"

fun target :: "loop_work \<Rightarrow> nat" where
  "target (InsertTimer w p) = p"
| "target (CancelWork p) = p"

text \<open>The entries taken out of the set and not finished with.\<close>

fun read_entries :: "timer_read \<Rightarrow> entry list" where
  "read_entries NoRead = []"
| "read_entries (Serving now es) = es"
| "read_entries (Calling now e es) = e # es"

text \<open>
  The loop's own steps come in their order; calls in the loop's thread come from callbacks (those of
  timers too) and tasks. A timer is cancelled once, while it is there: by the loop's thread when it is in
  the set, so that it is neither the timer whose callback runs nor one that is due in the same reading; by
  another thread only if it is periodic. The clock does not run out.
\<close>

definition in_thread :: "bool \<Rightarrow> 'cb LoopSystem \<Rightarrow> bool" where
  "in_thread inLoop S \<longleftrightarrow> (inLoop \<longrightarrow> (pc (ev S) = Handling \<or> pc (ev S) = Running) \<and>
     (case timerPc S of Serving _ _ \<Rightarrow> False | _ \<Rightarrow> True))"

fun loop_legal :: "'cb loop_act \<Rightarrow> 'cb LoopSystem \<Rightarrow> bool" where
  "loop_legal (At inLoop w cb) S = in_thread inLoop S"
| "loop_legal (After inLoop i cb) S = (in_thread inLoop S \<and> fits64 (clock S + i))"
| "loop_legal (Every inLoop i cb) S = (in_thread inLoop S \<and> fits64 (clock S + i))"
| "loop_legal (Cancel inLoop p) S =
     (in_thread inLoop S \<and> (case heap (tq S) p of
        None \<Rightarrow> False
      | Some t \<Rightarrow> if inLoop then p \<notin> target ` set (works S) \<and> p \<notin> snd ` set (read_entries (timerPc S))
                  else repeat t \<and> CancelWork p \<notin> set (works S)))"
| "loop_legal (Tick d) S = True"
| "loop_legal PollReturns S = (pc (ev S) = Polling)"
| "loop_legal WakeupEvent S = (pc (ev S) = Handling \<and> timerPc S = NoRead)"
| "loop_legal TimerEvent S = (pc (ev S) = Handling \<and> timerPc S = NoRead)"
| "loop_legal ServeTimer S = (case timerPc S of Serving _ (_ # _) \<Rightarrow> True | _ \<Rightarrow> False)"
| "loop_legal CallbackReturns S =
     (case timerPc S of
        Calling now (w, p) _ \<Rightarrow> (case heap (tq S) p of Some t \<Rightarrow> repeat t \<longrightarrow> fits64 (now + interval t) | None \<Rightarrow> True)
      | _ \<Rightarrow> False)"
| "loop_legal ReadDone S = (case timerPc S of Serving _ [] \<Rightarrow> True | _ \<Rightarrow> False)"
| "loop_legal SwapTasks S = (pc (ev S) = Handling \<and> timerPc S = NoRead)"
| "loop_legal RunWork S = (pc (ev S) = Running \<and> tasks (ev S) \<noteq> [])"
| "loop_legal TasksDone S = (pc (ev S) = Running \<and> tasks (ev S) = [])"

definition timed_reach :: "'cb LoopSystem \<Rightarrow> bool" where
  "timed_reach = reached (\<lambda>S. S = LoopSystem_new) (acts loop_legal loop_do)"

section \<open>The invariant\<close>

fun insertion :: "loop_work \<Rightarrow> entry option" where
  "insertion (InsertTimer w p) = Some (w, p)"
| "insertion (CancelWork p) = None"

definition insertions :: "loop_work list \<Rightarrow> entry list" where
  "insertions ws = List.map_filter insertion ws"

lemma insertions_simps [simp]:
  "insertions [] = []" "insertions (InsertTimer w p # ws) = (w, p) # insertions ws"
  "insertions (CancelWork p # ws) = insertions ws" "insertions (xs @ ys) = insertions xs @ insertions ys"
  by (simp_all add: insertions_def map_filter_simps map_filter_def)

text \<open>A queued cancellation finds its timer: it is periodic and inserted before.\<close>

fun cancels_ok :: "loop_work list \<Rightarrow> 'cb TimerQueue \<Rightarrow> bool" where
  "cancels_ok [] q = True"
| "cancels_ok (InsertTimer w p # ws) q = cancels_ok ws q"
| "cancels_ok (CancelWork p # ws) q =
     ((\<exists>t. heap q p = Some t \<and> repeat t) \<and> p \<notin> target ` set ws \<and> cancels_ok ws q)"

definition requested :: "('cb \<times> int) list \<Rightarrow> 'cb \<Rightarrow> int \<Rightarrow> bool" where
  "requested rs cb t \<longleftrightarrow> (\<exists>w. (cb, w) \<in> set rs \<and> w \<le> t)"

text \<open>The timers that are not in the set: being served, or not yet inserted.\<close>

definition unset :: "'cb LoopSystem \<Rightarrow> entry list" where
  "unset S = read_entries (timerPc S) @ insertions (works S)"

fun reads_due :: "int \<Rightarrow> timer_read \<Rightarrow> bool" where
  "reads_due c NoRead = True"
| "reads_due c (Serving now es) = (now \<le> c \<and> list_all (\<lambda>e. fst e \<le> now) es)"
| "reads_due c (Calling now e es) = (now \<le> c \<and> list_all (\<lambda>e. fst e \<le> now) (e # es))"

lemma reads_due_later: "reads_due c r \<Longrightarrow> c \<le> c' \<Longrightarrow> reads_due c' r"
  by (cases r) auto

definition read_ok_at :: "'cb LoopSystem \<Rightarrow> bool" where
  "read_ok_at S \<longleftrightarrow> (timerPc S \<noteq> NoRead \<longrightarrow> pc (ev S) = Handling) \<and> reads_due (clock S) (timerPc S)"

definition timed_inv :: "'cb LoopSystem \<Rightarrow> bool" where
  "timed_inv S \<longleftrightarrow> loop_inv (ev S) \<and> queue_ok (unset S) (tq S) \<and> (timerPc S = NoRead \<longrightarrow> armed_ok (tq S)) \<and>
     read_ok_at S \<and> cancels_ok (works S) (tq S) \<and>
     (\<forall>p t cb. heap (tq S) p = Some t \<longrightarrow> timerCallback t = Some cb \<longrightarrow> requested (requests S) cb (whenT t)) \<and>
     (\<forall>(cb, t) \<in> set (fired S). requested (requests S) cb t)"

lemma cancels_ok_heap:
  "cancels_ok ws q \<Longrightarrow> (\<And>p t. p \<in> target ` set ws \<Longrightarrow> heap q p = Some t \<Longrightarrow> repeat t \<Longrightarrow> \<exists>t'. heap q' p = Some t' \<and> repeat t') \<Longrightarrow>
     cancels_ok ws q'"
  by (induction ws q rule: cancels_ok.induct) auto

lemma cancels_ok_cancel:
  "cancels_ok ws q \<Longrightarrow> CancelWork p \<notin> set ws \<Longrightarrow> heap q p = Some t \<Longrightarrow> repeat t \<Longrightarrow> cancels_ok (ws @ [CancelWork p]) q"
proof (induction ws q rule: cancels_ok.induct)
  case (3 p' ws q)
  then show ?case by auto
qed auto

lemma cancels_ok_insert:
  "cancels_ok ws q \<Longrightarrow> p \<notin> target ` set ws \<Longrightarrow> cancels_ok (ws @ [InsertTimer w p]) q"
  by (induction ws q rule: cancels_ok.induct) auto

lemma cancels_target: "cancels_ok ws q \<Longrightarrow> CancelWork p \<in> set ws \<Longrightarrow> \<exists>t. heap q p = Some t"
  by (induction ws q rule: cancels_ok.induct) auto

lemma insertions_target: "InsertTimer w p \<in> set ws \<Longrightarrow> (w, p) \<in> set (insertions ws)"
  by (induction ws rule: list.induct) (auto, (metis insertions_simps list.set_intros loop_work.exhaust)+)

lemma insertion_Some: "insertion x = Some (w, p) \<longleftrightarrow> x = InsertTimer w p"
  by (cases x) auto

lemma insertion_in: "(w, p) \<in> set (insertions ws) \<Longrightarrow> InsertTimer w p \<in> set ws"
  by (auto simp: insertions_def map_filter_def insertion_Some)

lemma insertion_target: "(w, p) \<in> set (insertions ws) \<Longrightarrow> p \<in> target ` set ws"
  using insertion_in by (metis image_eqI target.simps(1))

lemma newTimer_ok:
  assumes "queue_ok es q" "newTimer cb w i q = (p, q')"
  shows "queue_ok (es @ [(w, p)]) q' \<and> p = fresh q \<and> heap q' = (heap q)(p \<mapsto> Timer_new cb w i) \<and> heap q p = None
    \<and> ran q' = ran q \<and> (armed_ok q \<longrightarrow> armed_ok q')"
proof -
  let ?p = "fresh q"
  have e: "p = ?p" "q' = q\<lparr>heap := (heap q)(?p \<mapsto> Timer_new cb w i), fresh := Suc ?p\<rparr>"
    using assms(2) by (auto simp: newTimer_def)
  have no: "heap q ?p = None" using assms(1) by (simp add: queue_ok_def)
  have fresh: "(w', ?p) \<notin> set (timers q) \<union> set es" for w'
    using assms(1) no by (auto simp: queue_ok_def entries_of_def)
  have "entries_of q' = insert (w, ?p) (entries_of q)"
    using no by (auto simp: e(2) in_entries Timer_new_def split: if_splits)
  then show ?thesis
    using assms(1) fresh no unfolding queue_ok_def e(1) by (auto simp: e(2) Timer_new_def armed_ok_def)
qed

lemma insertTimer_ok:
  assumes "queue_ok ((w, p) # es) q"
  shows "\<exists>q'. insertTimer w p q = Some q' \<and> queue_ok es q' \<and> heap q' = heap q \<and> ran q' = ran q \<and>
    (armed_ok q \<longrightarrow> armed_ok q')"
proof -
  let ?ts = "set_insert (w, p) (timers q)"
  define q1 where "q1 = q\<lparr>timers := ?ts\<rparr>"
  define q' where "q' = (if hd ?ts = (w, p) then timerFdSet w q1 else q1)"
  have new: "(w, p) \<notin> set (timers q)" using assms by (auto simp: queue_ok_def)
  have "entries_of q1 = entries_of q" by (simp add: q1_def)
  then have "queue_ok es q1"
    using assms unfolding queue_ok_def by (auto simp: q1_def sorted_set_insert)
  then have "queue_ok es q'" by (simp add: q'_def timerFdSet_def)
  moreover have "armed_ok q'" if "armed_ok q"
    using that by (auto simp: q'_def q1_def armed_ok_def timerFdSet_def hd_set_insert less_eq_prod_def)
  moreover have "insertTimer w p q = Some q'" using new by (simp add: insertTimer_def Let_def q'_def q1_def)
  moreover have "heap q' = heap q" "ran q' = ran q" by (simp_all add: q'_def q1_def timerFdSet_def)
  ultimately show ?thesis by blast
qed

lemma not_queued: "queue_ok (rest @ insertions ws) q \<Longrightarrow> cancels_ok ws q \<Longrightarrow> heap q p = None \<Longrightarrow> p \<notin> target ` set ws"
proof
  assume a: "queue_ok (rest @ insertions ws) q" "cancels_ok ws q" "heap q p = None" "p \<in> target ` set ws"
  then obtain x where x: "x \<in> set ws" "target x = p" by auto
  show False
  proof (cases x)
    case (InsertTimer w p')
    then have "(w, p) \<in> entries_of q"
      using a(1) x insertions_target [of w p ws] by (auto simp: queue_ok_def)
    then show ?thesis using a(3) by (simp add: in_entries)
  next
    case (CancelWork p')
    then show ?thesis using cancels_target [OF a(2), of p] a(3) x by auto
  qed
qed

section \<open>Each action keeps the invariant\<close>

lemma loop_inv_queue: "loop_inv e \<Longrightarrow> loop_inv (loop_queueInLoop False t e)"
  by (auto simp: loop_inv_def loop_queueInLoop_def push_task_def loop_wakeup_def woken_def)

lemma works_queue: "works (S\<lparr>ev := loop_queueInLoop False t (ev S)\<rparr>) = works S @ [t]"
  by (simp add: works_def loop_queueInLoop_def push_task_def loop_wakeup_def)

lemma works_fields [simp]:
  "works (S\<lparr>tq := q\<rparr>) = works S" "works (S\<lparr>requests := r\<rparr>) = works S" "works (S\<lparr>fired := f\<rparr>) = works S"
  "works (S\<lparr>clock := c\<rparr>) = works S" "works (S\<lparr>timerPc := tp\<rparr>) = works S"
  by (simp_all add: works_def)

lemma unset_fields [simp]:
  "unset (S\<lparr>tq := q\<rparr>) = unset S" "unset (S\<lparr>requests := r\<rparr>) = unset S" "unset (S\<lparr>fired := f\<rparr>) = unset S"
  "unset (S\<lparr>clock := c\<rparr>) = unset S" "unset (S\<lparr>timerPc := p\<rparr>) = read_entries p @ insertions (works S)"
  by (simp_all add: unset_def)

lemma read_ok_fields [simp]:
  "read_ok_at (S\<lparr>tq := q\<rparr>) = read_ok_at S" "read_ok_at (S\<lparr>requests := r\<rparr>) = read_ok_at S"
  "read_ok_at (S\<lparr>fired := f\<rparr>) = read_ok_at S"
  by (simp_all add: read_ok_at_def)

lemma queued_fields [simp]: "pc (loop_queueInLoop b t e) = pc e"
  by (simp add: loop_queueInLoop_def push_task_def loop_wakeup_def Let_def)

lemma requested_more: "requested rs cb t \<Longrightarrow> requested (rs @ [r]) cb t"
  by (auto simp: requested_def)

lemma requested_le: "requested rs cb t \<Longrightarrow> t \<le> t' \<Longrightarrow> requested rs cb t'"
  unfolding requested_def using order_trans by blast

lemma timed_inv_loop: "timed_inv S \<Longrightarrow> loop_inv e \<Longrightarrow> works (S\<lparr>ev := e\<rparr>) = works S \<Longrightarrow>
    timerPc S = NoRead \<Longrightarrow> timed_inv (S\<lparr>ev := e\<rparr>)"
  by (simp add: timed_inv_def unset_def read_ok_at_def)

lemma loop_addTimer_ok:
  assumes inv: "timed_inv S"
  shows "\<exists>p S'. queue_addTimer inLoop cb w i S = Some (p, S') \<and> timed_inv S'"
proof -
  let ?ws = "works S"
  obtain p q1 where n: "newTimer (Some cb) w i (tq S) = (p, q1)" by fastforce
  have ok: "queue_ok (unset S) (tq S)" and c: "cancels_ok ?ws (tq S)" using inv by (auto simp: timed_inv_def)
  note nt = newTimer_ok [OF ok n]
  have np: "p \<notin> target ` set ?ws" using not_queued [OF ok [unfolded unset_def] c] nt by blast
  let ?r = "requests S @ [(cb, w)]"
  have req: "\<forall>p' t cb'. heap q1 p' = Some t \<longrightarrow> timerCallback t = Some cb' \<longrightarrow>
      requested ?r cb' (whenT t)"
  proof (intro allI impI)
    fix p' t cb'
    assume h: "heap q1 p' = Some t" "timerCallback t = Some cb'"
    show "requested ?r cb' (whenT t)"
    proof (cases "p' = p")
      case True
      then have "cb' = cb" "whenT t = w" using h nt by (auto simp: Timer_new_def)
      then show ?thesis by (auto simp: requested_def)
    next
      case False
      then have "requested (requests S) cb' (whenT t)" using h nt inv by (simp add: timed_inv_def)
      then show ?thesis by (rule requested_more)
    qed
  qed
  have fi: "\<forall>(cb', t) \<in> set (fired S). requested ?r cb' t"
    using inv by (auto simp: timed_inv_def intro: requested_more)
  have c1: "cancels_ok ?ws q1" by (rule cancels_ok_heap [OF c]) (use nt in auto)
  show ?thesis
  proof (cases inLoop)
    case True
    obtain q2 where q2: "addTimer (Some cb) w i (tq S) = Some (p, q2)" "queue_ok (unset S) q2"
      "heap q2 = heap q1" "armed_ok (tq S) \<longrightarrow> armed_ok q2"
      using addTimer_ok [OF ok, of "Some cb" w i] nt by auto
    then have i2: "insertTimer w p q1 = Some q2" using n by (simp add: addTimer_split)
    have "cancels_ok ?ws q2" by (rule cancels_ok_heap [OF c1]) (use q2 in auto)
    then have "timed_inv (S\<lparr>requests := ?r, tq := q2\<rparr>)"
      using inv q2 req fi by (simp add: timed_inv_def)
    then show ?thesis using True n i2 by (simp add: queue_addTimer_def runInLoop_def)
  next
    case False
    let ?S = "S\<lparr>tq := q1, requests := ?r, ev := loop_queueInLoop False (InsertTimer w p) (ev S)\<rparr>"
    have w: "works ?S = ?ws @ [InsertTimer w p]"
      using works_queue [of "InsertTimer w p" S] by (simp add: works_def)
    have i: "unset ?S = unset S @ [(w, p)]" unfolding unset_def w by simp
    have "queue_ok (unset ?S) q1" unfolding i using nt by blast
    moreover have "read_ok_at ?S" using inv by (simp add: timed_inv_def read_ok_at_def)
    ultimately have "timed_inv ?S"
      using inv nt req fi w loop_inv_queue [of "ev S"] cancels_ok_insert [OF c1 np] by (simp add: timed_inv_def)
    then show ?thesis using False n by (simp add: queue_addTimer_def runInLoop_def)
  qed
qed

lemma cancel_inv:
  assumes inv: "timed_inv S" and ok: "queue_ok (unset (S\<lparr>ev := e\<rparr>)) q'" and h: "heap q' = (heap (tq S))(p := None)"
    and a: "timerPc S = NoRead \<longrightarrow> armed_ok q'" and e: "loop_inv e" "timerPc S \<noteq> NoRead \<longrightarrow> pc e = pc (ev S)"
    and c: "cancels_ok (works (S\<lparr>ev := e\<rparr>)) q'"
  shows "timed_inv (S\<lparr>tq := q', ev := e\<rparr>)"
proof -
  have "works (S\<lparr>tq := q', ev := e\<rparr>) = works (S\<lparr>ev := e\<rparr>)" "unset (S\<lparr>tq := q', ev := e\<rparr>) = unset (S\<lparr>ev := e\<rparr>)"
    by (simp_all add: works_def unset_def)
  moreover have "read_ok_at (S\<lparr>tq := q', ev := e\<rparr>)" using inv e(2) by (simp add: timed_inv_def read_ok_at_def)
  ultimately show ?thesis using assms by (auto simp: timed_inv_def)
qed

lemma cancel_in_set:
  assumes inv: "timed_inv S" and t: "heap (tq S) p = Some t" and np: "p \<notin> target ` set (works S)"
    "p \<notin> snd ` set (read_entries (timerPc S))"
  shows "\<exists>q'. cancelTimer p (tq S) = Some q' \<and> timed_inv (S\<lparr>tq := q'\<rparr>)"
proof -
  have ok: "queue_ok (unset S) (tq S)" and c: "cancels_ok (works S) (tq S)" using inv by (auto simp: timed_inv_def)
  have "(whenT t, p) \<notin> set (read_entries (timerPc S))" using np(2) by force
  moreover have "(whenT t, p) \<notin> set (insertions (works S))" using np(1) insertion_target by blast
  ultimately have "(whenT t, p) \<notin> set (unset S)" by (simp add: unset_def)
  from cancelTimer_rest_ok [OF ok t this] obtain q' where q': "cancelTimer p (tq S) = Some q'"
    "queue_ok (unset S) q'" "heap q' = (heap (tq S))(p := None)" "armed_ok (tq S) \<longrightarrow> armed_ok q'"
    by blast
  have "cancels_ok (works S) q'" by (rule cancels_ok_heap [OF c]) (use q'(3) np in auto)
  then have "timed_inv (S\<lparr>tq := q', ev := ev S\<rparr>)"
    using cancel_inv [OF inv _ q'(3), of "ev S"] q'(2,4) inv by (simp add: timed_inv_def)
  then show ?thesis using q'(1) by simp
qed

lemma loop_cancel_ok:
  assumes inv: "timed_inv S" and legal: "loop_legal (Cancel inLoop p) S"
  shows "\<exists>S'. queue_cancelTimer inLoop p S = Some S' \<and> timed_inv S'"
proof -
  obtain t where t: "heap (tq S) p = Some t" using legal by (auto split: option.splits)
  show ?thesis
  proof (cases inLoop)
    case True
    then show ?thesis using cancel_in_set [OF inv t] legal t by (auto simp: queue_cancelTimer_def runInLoop_def)
  next
    case False
    let ?S = "S\<lparr>ev := loop_queueInLoop False (CancelWork p) (ev S)\<rparr>"
    have c: "cancels_ok (works S) (tq S)" using inv by (simp add: timed_inv_def)
    have l: "repeat t" "CancelWork p \<notin> set (works S)" using legal False t by auto
    have "unset ?S = unset S" using works_queue [of "CancelWork p" S] by (simp add: unset_def)
    then have "timed_inv ?S"
      using inv loop_inv_queue [of "ev S"] cancels_ok_cancel [OF c l(2) t l(1)] works_queue [of "CancelWork p" S]
      by (simp add: timed_inv_def read_ok_at_def)
    then show ?thesis using False by (simp add: queue_cancelTimer_def runInLoop_def)
  qed
qed

text \<open>The steps of \<open>handleRead\<close>.\<close>

lemma begin_read_ok:
  assumes inv: "timed_inv S" and legal: "loop_legal TimerEvent S"
  shows "timed_inv (begin_read S)"
proof -
  let ?q = "tq S" and ?now = "clock S"
  let ?due = "filter (\<lambda>e. fst e \<le> ?now) (timers ?q)"
  let ?q1 = "?q\<lparr>armed := None, timers := filter (\<lambda>e. \<not> fst e \<le> ?now) (timers ?q)\<rparr>"
  have n: "timerPc S = NoRead" "pc (ev S) = Handling" using legal by simp_all
  then have ok: "queue_ok (insertions (works S)) ?q" using inv by (simp add: timed_inv_def unset_def)
  have s: "sorted_wrt (<) (timers ?q)" "distinct (timers ?q)" using ok by (auto simp: queue_ok_def strict_sorted_iff)
  have b: "begin_read S = S\<lparr>tq := ?q1, timerPc := Serving ?now ?due\<rparr>"
    using takeWhile_due [OF s(1)] by (simp add: begin_read_def getExpired_def Let_def)
  have "entries_of ?q1 = entries_of ?q" by (simp add: entries_of_def)
  then have "queue_ok (?due @ insertions (works S)) ?q1"
    using ok s unfolding queue_ok_def by (auto simp: sorted_wrt_filter)
  moreover have "cancels_ok (works S) ?q1" by (rule cancels_ok_heap [of _ ?q]) (use inv in \<open>auto simp: timed_inv_def\<close>)
  ultimately show ?thesis using inv n unfolding b by (simp add: timed_inv_def read_ok_at_def list_all_iff)
qed

lemma being_served:
  assumes inv: "timed_inv S" and e: "(w, p) \<in> set (read_entries (timerPc S))"
  shows "\<exists>t. heap (tq S) p = Some t \<and> whenT t = w \<and> \<not> canceled t"
proof -
  have "(w, p) \<in> entries_of (tq S)" using inv e by (auto simp: timed_inv_def queue_ok_def unset_def)
  then obtain t where "heap (tq S) p = Some t" "whenT t = w" by (auto simp: in_entries)
  then show ?thesis using inv by (auto simp: timed_inv_def queue_ok_def)
qed

lemma timed_requested:
  "timed_inv S \<Longrightarrow> heap (tq S) p = Some t \<Longrightarrow> timerCallback t = Some cb \<Longrightarrow> whenT t \<le> u \<Longrightarrow> requested (requests S) cb u"
  by (rule requested_le [of _ cb "whenT t"]) (simp_all add: timed_inv_def)

lemma serve_timer_ok:
  assumes inv: "timed_inv S" and pc: "timerPc S = Serving now ((w, p) # es)"
  shows "\<exists>S'. serve_timer S = Some S' \<and> timed_inv S' \<and> timerPc S' = Calling now (w, p) es \<and>
    heap (tq S') = heap (tq S) \<and> ev S' = ev S"
proof -
  obtain t where t: "heap (tq S) p = Some t" "whenT t = w" "\<not> canceled t" using being_served [OF inv, of w p] pc by auto
  have r: "w \<le> now" "now \<le> clock S" using inv pc by (simp_all add: timed_inv_def read_ok_at_def)
  have ex: "timer_expired now t" using r t by (simp add: timer_expired_def)
  let ?S = "(begin_callback t S)\<lparr>timerPc := Calling now (w, p) es\<rparr>"
  have f: "requested (requests S) cb (clock S)" if "timerCallback t = Some cb" for cb
    using timed_requested [OF inv t(1) that] t(2) r by simp
  have h: "heap (tq ?S) = heap (tq S)" "ev ?S = ev S" "works ?S = works S" "requests ?S = requests S"
    "unset ?S = unset S" "read_ok_at ?S = read_ok_at S" "timers (tq ?S) = timers (tq S)"
    "queue_ok (unset S) (tq ?S) = queue_ok (unset S) (tq S)"
    using pc by (simp_all add: begin_callback_def works_def unset_def read_ok_at_def split: option.splits)
  have "cancels_ok (works S) (tq ?S)" by (rule cancels_ok_heap [of _ "tq S"]) (use inv h(1) in \<open>auto simp: timed_inv_def\<close>)
  moreover have "\<forall>(cb, u) \<in> set (fired ?S). requested (requests S) cb u"
    using inv f by (auto simp: timed_inv_def begin_callback_def split: option.splits)
  ultimately have "timed_inv ?S" using inv h unfolding timed_inv_def by simp
  then show ?thesis using pc t ex h(1,2) by (simp add: serve_timer_def)
qed

lemma after_callback_ok:
  assumes inv: "timed_inv S" and pc: "timerPc S = Calling now (w, p) es"
    and fit: "\<And>t. heap (tq S) p = Some t \<Longrightarrow> repeat t \<Longrightarrow> fits64 (now + interval t)"
  shows "\<exists>S'. after_callback S = Some S' \<and> timed_inv S' \<and> timerPc S' = Serving now es \<and> ev S' = ev S \<and>
    heap (tq S') = (heap (tq S))(p := Option.bind (heap (tq S) p) (served now))"
proof -
  obtain t where t: "heap (tq S) p = Some t" "whenT t = w" "\<not> canceled t" using being_served [OF inv, of w p] pc by auto
  have ok: "queue_ok ((w, p) # (es @ insertions (works S))) (tq S)" using inv pc by (simp add: timed_inv_def unset_def)
  have r: "read_ok_at (S\<lparr>timerPc := Serving now es\<rparr>)" using inv pc by (simp add: timed_inv_def read_ok_at_def)
  have c: "cancels_ok (works S) (tq S)" using inv by (simp add: timed_inv_def)
  have "w \<le> now" using inv pc by (simp add: timed_inv_def read_ok_at_def)
  have q: "requested (requests S) cb u" if "timerCallback t = Some cb" "w \<le> u" for cb u
    using timed_requested [OF inv t(1) that(1)] t(2) that(2) by simp
  show ?thesis
  proof (cases "repeat t")
    case True
    have i: "0 < interval t" using ok t(1) True by (auto simp: queue_ok_def)
    let ?t = "t\<lparr>whenT := now + interval t\<rparr>"
    let ?q = "(tq S)\<lparr>heap := (heap (tq S))(p \<mapsto> ?t), timers := set_insert (now + interval t, p) (timers (tq S))\<rparr>"
    let ?S = "S\<lparr>timerPc := Serving now es, tq := ?q\<rparr>"
    have "queue_ok (unset ?S) ?q" using queue_ok_served(2) [OF ok t(1) True, of "now + interval t"] by simp
    moreover have "cancels_ok (works S) ?q" by (rule cancels_ok_heap [OF c]) (use True t in auto)
    ultimately have "timed_inv ?S" using inv r q i \<open>w \<le> now\<close> by (simp add: timed_inv_def)
    then show ?thesis using pc t True fit [OF t(1) True]
      by (simp add: after_callback_def timer_restart_def served_def)
  next
    case False
    let ?q = "(tq S)\<lparr>heap := (heap (tq S))(p := None)\<rparr>"
    let ?S = "S\<lparr>timerPc := Serving now es, tq := ?q\<rparr>"
    have "queue_ok (unset ?S) ?q" using queue_ok_served(1) [OF ok t(1)] by simp
    moreover have "cancels_ok (works S) ?q" by (rule cancels_ok_heap [OF c]) (use False t in auto)
    ultimately have "timed_inv ?S" using inv r by (simp add: timed_inv_def)
    then show ?thesis using pc t False by (simp add: after_callback_def served_def)
  qed
qed

lemma end_read_ok:
  assumes inv: "timed_inv S" and pc: "timerPc S = Serving now []"
  shows "timed_inv (end_read S)"
proof -
  let ?q = "if timers (tq S) \<noteq> [] then timerFdSet (fst (hd (timers (tq S)))) (tq S) else tq S"
  have "queue_ok (insertions (works S)) (tq S)" using inv pc by (simp add: timed_inv_def unset_def)
  then have "queue_ok (insertions (works S)) ?q" by (simp add: timerFdSet_def)
  moreover have "cancels_ok (works S) ?q" by (rule cancels_ok_heap [of _ "tq S"]) (use inv in \<open>auto simp: timed_inv_def timerFdSet_def\<close>)
  moreover have "heap ?q = heap (tq S)" by (simp add: timerFdSet_def)
  ultimately show ?thesis
    using inv pc rearmed [of "tq S"] unfolding timed_inv_def end_read_def by (simp add: read_ok_at_def)
qed

lemma run_work_ok:
  assumes inv: "timed_inv S" and legal: "loop_legal RunWork S"
  shows "\<exists>S'. run_work S = Some S' \<and> timed_inv S'"
proof -
  obtain t ts where t: "tasks (ev S) = t # ts" using legal by (cases "tasks (ev S)") auto
  let ?e = "begin_task t ts (ev S)"
  have n: "timerPc S = NoRead" using inv legal by (auto simp: timed_inv_def read_ok_at_def)
  have e: "loop_inv ?e"
    using loop_inv_step [of "ev S" "\<lambda>_. []" ?e] task_runs [of "ev S" t ts "\<lambda>_. []" ?e] inv legal t
    by (simp add: timed_inv_def)
  have w: "works S = t # works (S\<lparr>ev := ?e\<rparr>)" using t by (simp add: works_def begin_task_def)
  have un: "unset (S\<lparr>ev := ?e\<rparr>) = insertions (works (S\<lparr>ev := ?e\<rparr>))" using n by (simp add: unset_def)
  have ok: "queue_ok (insertions (works S)) (tq S)" and c: "cancels_ok (works S) (tq S)" and a: "armed_ok (tq S)"
    using inv n by (auto simp: timed_inv_def unset_def)
  show ?thesis
  proof (cases t)
    case (InsertTimer v p)
    then obtain q' where q': "insertTimer v p (tq S) = Some q'" "queue_ok (insertions (works (S\<lparr>ev := ?e\<rparr>))) q'"
      "heap q' = heap (tq S)" "armed_ok q'"
      using insertTimer_ok [of v p _ "tq S"] ok a w by auto
    have "cancels_ok (works (S\<lparr>ev := ?e\<rparr>)) q'"
      by (rule cancels_ok_heap [of _ "tq S"]) (use c w InsertTimer q'(3) in auto)
    moreover have "works (S\<lparr>tq := q', ev := ?e\<rparr>) = works (S\<lparr>ev := ?e\<rparr>)" by (simp add: works_def)
    ultimately have "timed_inv (S\<lparr>tq := q', ev := ?e\<rparr>)"
      using inv e q' n by (simp add: timed_inv_def unset_def read_ok_at_def)
    then show ?thesis using q'(1) t InsertTimer by (simp add: run_work_def)
  next
    case (CancelWork p)
    then obtain tm where tm: "heap (tq S) p = Some tm" and np: "p \<notin> target ` set (works (S\<lparr>ev := ?e\<rparr>))"
      and c': "cancels_ok (works (S\<lparr>ev := ?e\<rparr>)) (tq S)"
      using c w by auto
    have ni: "(whenT tm, p) \<notin> set (insertions (works (S\<lparr>ev := ?e\<rparr>)))"
      using np insertion_target by blast
    obtain q' where q': "cancelTimer p (tq S) = Some q'" "queue_ok (insertions (works (S\<lparr>ev := ?e\<rparr>))) q'"
      "heap q' = (heap (tq S))(p := None)" "armed_ok q'"
      using cancelTimer_rest_ok [OF _ tm ni] ok a w CancelWork by auto
    have "cancels_ok (works (S\<lparr>ev := ?e\<rparr>)) q'" by (rule cancels_ok_heap [OF c']) (use q'(3) np in auto)
    then have "timed_inv (S\<lparr>tq := q', ev := ?e\<rparr>)"
      using cancel_inv [OF inv _ q'(3), of ?e] q'(2,4) e n un by simp
    then show ?thesis using q'(1) t CancelWork by (simp add: run_work_def)
  qed
qed

lemma loop_step_inv:
  assumes inv: "timed_inv S" and "loop_step (\<lambda>_. []) (ev S) e" "works (S\<lparr>ev := e\<rparr>) = works S" "timerPc S = NoRead"
  shows "\<exists>S'. Some (S\<lparr>ev := e\<rparr>) = Some S' \<and> timed_inv S'"
proof -
  have "loop_inv e" using loop_inv_step [OF _ assms(2)] inv by (simp add: timed_inv_def)
  then show ?thesis using timed_inv_loop [OF inv _ assms(3,4)] by simp
qed

lemma loop_do_ok:
  assumes inv: "timed_inv S" and legal: "loop_legal a S"
  shows "\<exists>S'. loop_do a S = Some S' \<and> timed_inv S'"
proof (cases a)
  case (At inLoop w cb)
  then show ?thesis using loop_addTimer_ok [OF inv, of inLoop cb w 0] by (auto simp: runAt_def)
next
  case (After inLoop i cb)
  then show ?thesis using loop_addTimer_ok [OF inv, of inLoop cb "clock S + i" 0] legal
    by (auto simp: runAt_def runAfter_def nowAfter_def)
next
  case (Every inLoop i cb)
  then show ?thesis using loop_addTimer_ok [OF inv, of inLoop cb "clock S + i" i] legal by (auto simp: runEvery_def nowAfter_def)
next
  case (Cancel inLoop p)
  then show ?thesis using loop_cancel_ok [OF inv] legal by simp
next
  case (Tick d)
  then show ?thesis using inv reads_due_later [of "clock S" "timerPc S" "clock S + int d"]
    by (simp add: timed_inv_def read_ok_at_def unset_def works_def)
next
  case PollReturns
  then show ?thesis unfolding PollReturns loop_do.simps
    by (intro loop_step_inv [OF inv poll_returns]) (use legal PollReturns inv in \<open>auto simp: works_def timed_inv_def read_ok_at_def\<close>)
next
  case WakeupEvent
  then show ?thesis unfolding WakeupEvent loop_do.simps
    by (intro loop_step_inv [OF inv wakeup_event]) (use legal WakeupEvent in \<open>simp_all add: works_def loop_handleRead_def\<close>)
next
  case TimerEvent
  then show ?thesis using begin_read_ok [OF inv] legal by simp
next
  case ServeTimer
  then obtain now w p es where "timerPc S = Serving now ((w, p) # es)"
    using legal by (auto split: timer_read.splits list.splits)
  then show ?thesis using serve_timer_ok [OF inv] ServeTimer by fastforce
next
  case CallbackReturns
  then obtain now w p es where pc: "timerPc S = Calling now (w, p) es"
    using legal by (auto split: timer_read.splits)
  have "\<exists>S'. after_callback S = Some S' \<and> timed_inv S'"
    using after_callback_ok [OF inv pc] legal CallbackReturns pc by (cases "heap (tq S) p") auto
  then show ?thesis using CallbackReturns by simp
next
  case ReadDone
  then obtain now where "timerPc S = Serving now []" using legal by (auto split: timer_read.splits list.splits)
  then show ?thesis using end_read_ok [OF inv] ReadDone by simp
next
  case SwapTasks
  have "tasks (ev S) = []" using inv legal SwapTasks by (simp add: timed_inv_def loop_inv_def)
  then show ?thesis unfolding SwapTasks loop_do.simps
    by (intro loop_step_inv [OF inv tasks_swap]) (use legal SwapTasks in \<open>simp_all add: works_def swap_tasks_def\<close>)
next
  case RunWork
  then show ?thesis using run_work_ok [OF inv] legal by simp
next
  case TasksDone
  then show ?thesis unfolding TasksDone loop_do.simps
    by (intro loop_step_inv [OF inv tasks_done]) (use legal TasksDone inv in \<open>auto simp: works_def timed_inv_def read_ok_at_def\<close>)
qed

lemma timed_inv_new: "timed_inv LoopSystem_new"
  using queue_ok_new timer_inv_new
  by (simp add: timed_inv_def LoopSystem_new_def works_def loop_inv_def EventLoop_new_def timer_inv_def unset_def read_ok_at_def)
    (simp add: TimerQueue_new_def)

interpretation timed: machine "\<lambda>S. S = LoopSystem_new" loop_legal loop_do timed_inv
  by unfold_locales (simp add: timed_inv_new, erule (1) loop_do_ok)

lemma timed_reach_inv: "timed_reach S \<Longrightarrow> timed_inv S"
  unfolding timed_reach_def by (rule timed.steps.reached_inv)

lemma timed_start: "timed_reach LoopSystem_new"
  by (simp add: timed_reach_def reached_initial)

lemma timed_next: "timed_reach S \<Longrightarrow> loop_legal a S \<Longrightarrow> loop_do a S = Some S' \<Longrightarrow> timed_reach S'"
  unfolding timed_reach_def by (rule reached_step) (auto simp: acts_def)

fun loop_acts :: "'cb loop_act list \<Rightarrow> 'cb LoopSystem \<Rightarrow> 'cb LoopSystem option" where
  "loop_acts [] S = Some S"
| "loop_acts (a # as) S = (if loop_legal a S then Option.bind (loop_do a S) (loop_acts as) else None)"

lemma loop_acts_reach: "timed_reach S \<Longrightarrow> loop_acts as S = Some S' \<Longrightarrow> timed_reach S'"
  by (induction as S rule: loop_acts.induct) (auto simp: bind_eq_Some_conv split: if_splits intro: timed_next)

section \<open>A reading whose callbacks make no calls\<close>

text \<open>Its steps do not touch the queue of tasks.\<close>

lemma read_steps_ev:
  "serve_timer (T\<lparr>ev := e\<rparr>) = map_option (\<lambda>T'. T'\<lparr>ev := e\<rparr>) (serve_timer T)"
  "after_callback (T\<lparr>ev := e\<rparr>) = map_option (\<lambda>T'. T'\<lparr>ev := e\<rparr>) (after_callback T)"
  "loop_legal ServeTimer (T\<lparr>ev := e\<rparr>) = loop_legal ServeTimer T"
  "loop_legal CallbackReturns (T\<lparr>ev := e\<rparr>) = loop_legal CallbackReturns T"
  by (auto simp: serve_timer_def after_callback_def begin_callback_def map_option_case
      split: timer_read.split list.split option.split prod.split)

lemma loop_acts_append: "loop_acts (as @ bs) S = Option.bind (loop_acts as S) (loop_acts bs)"
  by (induction as S rule: loop_acts.induct) (auto simp: bind_eq_Some_conv Option.bind_eq_None_conv split: Option.bind_split)

definition serve_steps :: "nat \<Rightarrow> 'cb loop_act list" where
  "serve_steps n = concat (replicate n [ServeTimer, CallbackReturns])"

lemma serve_steps_ev:
  "loop_acts (serve_steps n) (T\<lparr>ev := e\<rparr>) = map_option (\<lambda>T'. T'\<lparr>ev := e\<rparr>) (loop_acts (serve_steps n) T)"
proof (induction n arbitrary: T)
  case (Suc n)
  have s: "serve_steps (Suc n) = ServeTimer # CallbackReturns # serve_steps n" by (simp add: serve_steps_def)
  show ?case
  proof (cases "serve_timer T")
    case (Some T1)
    then show ?thesis unfolding s
      by (cases "after_callback T1") (simp_all add: read_steps_ev Suc.IH del: loop_legal.simps)
  qed (simp add: s read_steps_ev del: loop_legal.simps)
qed (simp add: serve_steps_def)

lemma serves_all:
  "timed_inv S \<Longrightarrow> timerPc S = Serving now es \<Longrightarrow>
     restarts_fit now (tq S) es \<Longrightarrow>
   \<exists>S'. loop_acts (serve_steps (length es)) S = Some S' \<and> timed_inv S' \<and> timerPc S' = Serving now [] \<and> ev S' = ev S \<and>
     (\<forall>p. heap (tq S) p = None \<longrightarrow> heap (tq S') p = None) \<and>
     (\<forall>p t. p \<in> snd ` set es \<longrightarrow> heap (tq S) p = Some t \<longrightarrow> \<not> repeat t \<longrightarrow> heap (tq S') p = None)"
proof (induction es arbitrary: S)
  case Nil
  then show ?case by (simp add: serve_steps_def)
next
  case (Cons e es)
  obtain w p where e: "e = (w, p)" by (cases e)
  obtain S1 where S1: "serve_timer S = Some S1" "timed_inv S1" "timerPc S1 = Calling now (w, p) es"
    "heap (tq S1) = heap (tq S)" "ev S1 = ev S"
    using serve_timer_ok [OF Cons.prems(1)] Cons.prems(2) e by blast
  have fit: "fits64 (now + interval t)" if "heap (tq S) x = Some t" "repeat t" "x \<in> snd ` set (e # es)" for x t
    using Cons.prems(3) that unfolding restarts_fit_def by blast
  obtain S2 where S2: "after_callback S1 = Some S2" "timed_inv S2" "timerPc S2 = Serving now es" "ev S2 = ev S1"
    "heap (tq S2) = (heap (tq S1))(p := Option.bind (heap (tq S1) p) (served now))"
    using after_callback_ok [OF S1(2,3)] S1(4) fit [of p] e by auto
  have "distinct (unset S)" using Cons.prems(1) by (simp add: timed_inv_def queue_ok_def)
  have np: "p \<notin> snd ` set es"
  proof
    assume "p \<in> snd ` set es"
    then obtain v where v: "(v, p) \<in> set es" by auto
    have "(v, p) \<in> entries_of (tq S)" "(w, p) \<in> entries_of (tq S)"
      using Cons.prems(1,2) v e by (auto simp: timed_inv_def queue_ok_def unset_def)
    then have "v = w" by (rule entries_functional)
    then show False using \<open>distinct (unset S)\<close> v Cons.prems(2) e by (simp add: unset_def)
  qed
  have "fits64 (now + interval t)" if "x \<in> snd ` set es" "heap (tq S2) x = Some t" "repeat t" for x t
  proof -
    have "x \<noteq> p" using that(1) np by blast
    then show ?thesis using that S2(5) S1(4) fit [of x t] by simp
  qed
  then have "restarts_fit now (tq S2) es" by (simp add: restarts_fit_def)
  from Cons.IH [OF S2(2,3) this] obtain S' where S': "loop_acts (serve_steps (length es)) S2 = Some S'" "timed_inv S'"
    "timerPc S' = Serving now []" "ev S' = ev S2" "\<forall>p. heap (tq S2) p = None \<longrightarrow> heap (tq S') p = None"
    "\<forall>p t. p \<in> snd ` set es \<longrightarrow> heap (tq S2) p = Some t \<longrightarrow> \<not> repeat t \<longrightarrow> heap (tq S') p = None" by blast
  have l1: "loop_legal ServeTimer S" using Cons.prems(2) by simp
  have l2: "loop_legal CallbackReturns S1" using S1(3,4) fit [of p] e by (auto split: option.split)
  have "loop_acts (serve_steps (length (e # es))) S = Some S'"
    using l1 l2 S1(1) S2(1) S'(1) by (simp add: serve_steps_def del: loop_legal.simps)
  moreover have "heap (tq S') x = None" if "heap (tq S) x = None" for x
    using that S'(5) S2(5) S1(4) by (cases "x = p") simp_all
  moreover have "heap (tq S') x = None" if "x \<in> snd ` set (e # es)" "heap (tq S) x = Some t" "\<not> repeat t" for x t
  proof (cases "x = p")
    case True
    then show ?thesis using that S'(5) S2(5) S1(4) by (simp add: served_def)
  next
    case False
    then show ?thesis using that S'(6) S2(5) S1(4) e by auto
  qed
  ultimately show ?case using S' S2(4) S1(5) by metis
qed

section \<open>Properties\<close>


text \<open>A one-shot timer added by another thread fires at its time, and its callback adds another.\<close>

definition tick_round :: "string loop_act list" where
  "tick_round = [After False 5 ''tick'', PollReturns, WakeupEvent, SwapTasks, RunWork, TasksDone, Tick 5]"



text \<open>
  C38: a one-shot timer must not be cancelled from another thread: the cancellation is queued, and when
  the timer is due and \<open>handleRead\<close> comes first, it calls the callback and deletes the timer; the queued
  task then calls \<open>cancel()\<close> on the deleted timer.
\<close>

theorem cancel_races_with_expiry:
  assumes r: "timed_reach S" and t: "heap (tq S) p = Some t" "\<not> repeat t" "(whenT t, p) \<in> set (timers (tq S))"
    and due: "whenT t \<le> clock S" and pc: "pc (ev S) = Handling" "timerPc S = NoRead"
    and fit: "restarts_fit (clock S) (tq S) (timers (tq S))"
  shows "\<exists>S1 n S2. loop_do (Cancel False p) S = Some S1 \<and>
    loop_acts (TimerEvent # serve_steps n @ [ReadDone]) S1 = Some S2 \<and> CancelWork p \<in> set (works S2) \<and>
    (\<forall>S3 ts. tq S3 = tq S2 \<longrightarrow> tasks (ev S3) = CancelWork p # ts \<longrightarrow> loop_do RunWork S3 = None)"
proof -
  have inv: "timed_inv S" using timed_reach_inv [OF r] .
  let ?S1 = "S\<lparr>ev := loop_queueInLoop False (CancelWork p) (ev S)\<rparr>"
  let ?due = "filter (\<lambda>e. fst e \<le> clock S) (timers (tq S))"
  have s: "sorted_wrt (<) (timers (tq S))" using inv by (simp add: timed_inv_def queue_ok_def)
  define R where "R = begin_read S"
  have R: "timed_inv R" "timerPc R = Serving (clock S) ?due" "heap (tq R) = heap (tq S)" "ev R = ev S"
    using begin_read_ok [OF inv] pc takeWhile_due [OF s] by (simp_all add: R_def begin_read_def getExpired_def Let_def)
  have "restarts_fit (clock S) (tq R) ?due" using fit R(3) by (auto simp: restarts_fit_def)
  from serves_all [OF R(1,2) this] obtain Q where Q: "loop_acts (serve_steps (length ?due)) R = Some Q"
    "timerPc Q = Serving (clock S) []" "ev Q = ev R"
    "\<forall>p t. p \<in> snd ` set ?due \<longrightarrow> heap (tq R) p = Some t \<longrightarrow> \<not> repeat t \<longrightarrow> heap (tq Q) p = None" by blast
  have "p \<in> snd ` set ?due" using t(3) due by force
  then have gone: "heap (tq Q) p = None" using Q(4) R(3) t(1,2) by simp
  let ?e = "loop_queueInLoop False (CancelWork p) (ev S)"
  have b: "begin_read ?S1 = R\<lparr>ev := ?e\<rparr>" by (simp add: R_def begin_read_def Let_def split: prod.splits)
  have q: "loop_acts (serve_steps (length ?due)) (R\<lparr>ev := ?e\<rparr>) = Some (Q\<lparr>ev := ?e\<rparr>)"
    unfolding serve_steps_ev Q(1) by simp
  define S2 where "S2 = end_read (Q\<lparr>ev := ?e\<rparr>)"
  have l: "loop_legal TimerEvent ?S1" "loop_legal ReadDone (Q\<lparr>ev := ?e\<rparr>)" using pc Q(2) by simp_all
  have "loop_acts (TimerEvent # serve_steps (length ?due) @ [ReadDone]) ?S1 = Some S2"
    using l b q by (simp add: loop_acts_append S2_def del: loop_legal.simps)
  moreover have "CancelWork p \<in> set (works S2)"
    using works_queue [of "CancelWork p" S] by (simp add: S2_def end_read_def works_def)
  moreover have "loop_do RunWork S3 = None" if "tq S3 = tq S2" "tasks (ev S3) = CancelWork p # ts" for S3 ts
    using that gone by (simp add: run_work_def cancelTimer_def S2_def end_read_def timerFdSet_def)
  moreover have "loop_do (Cancel False p) S = Some ?S1" by (simp add: queue_cancelTimer_def runInLoop_def)
  ultimately show ?thesis by blast
qed

lemma tick_due:
  "\<exists>S :: string LoopSystem. timed_reach S \<and> pc (ev S) = Handling \<and> timerPc S = NoRead \<and> timers (tq S) = [(5, 1)] \<and>
    (\<exists>t. heap (tq S) 1 = Some t \<and> \<not> repeat t \<and> whenT t = 5 \<and> whenT t \<le> clock S)"
proof -
  let ?x = "loop_acts (tick_round @ [PollReturns]) LoopSystem_new"
  have "case ?x of None \<Rightarrow> False | Some S \<Rightarrow> pc (ev S) = Handling \<and> timerPc S = NoRead \<and> timers (tq S) = [(5, 1)] \<and>
    (case heap (tq S) 1 of None \<Rightarrow> False | Some t \<Rightarrow> \<not> repeat t \<and> whenT t = 5 \<and> whenT t \<le> clock S)" by code_simp
  then show ?thesis using loop_acts_reach [OF timed_start, of "tick_round @ [PollReturns]"] by (auto split: option.splits)
qed

theorem cancel_races_with_expiry_witness:
  "\<exists>(S :: string LoopSystem) S1. timed_reach S \<and> loop_do (Cancel False 1) S = Some S1 \<and>
     (\<exists>n S2. loop_acts (TimerEvent # serve_steps n @ [ReadDone]) S1 = Some S2 \<and> CancelWork 1 \<in> set (works S2))"
proof -
  obtain S :: "string LoopSystem" and t where S: "timed_reach S" "pc (ev S) = Handling" "timerPc S = NoRead"
    "timers (tq S) = [(5, 1)]" "heap (tq S) 1 = Some t" "\<not> repeat t" "whenT t = 5" "whenT t \<le> clock S"
    using tick_due by blast
  have "restarts_fit (clock S) (tq S) (timers (tq S))" using S(4-6) by (simp add: restarts_fit_def)
  moreover have "(whenT t, 1) \<in> set (timers (tq S))" using S(4,7) by simp
  ultimately obtain S1 n S2 where "loop_do (Cancel False 1) S = Some S1"
    "loop_acts (TimerEvent # serve_steps n @ [ReadDone]) S1 = Some S2" "CancelWork 1 \<in> set (works S2)"
    using cancel_races_with_expiry [OF S(1,5,6) _ S(8,2,3)] by blast
  then show ?thesis using S(1) by blast
qed

end
