(* ===== verification/JsonNumber.thy ===== *)
theory JsonNumber
  imports Prelude "HOL-Library.Log_Nat"
begin

text \<open>
  What \<open>JsonServer/Reader.h\<close> and \<open>FastWriter.h\<close> use of the C++ library for numbers:
  \<open>double\<close> as IEEE 754 binary64, \<open>std::strtod\<close> and \<open>std::strtol\<close> through
  \<open>__gnu_cxx::__stoa\<close> (which turns \<open>ERANGE\<close> into an exception), and
  \<open>std::to_string(double)\<close>, which is \<open>printf("%f")\<close>. The texts the reader passes begin
  with a digit or a minus sign, so only the decimal syntax of \<open>strtod\<close> is written out.
\<close>

section \<open>Binary64\<close>

text \<open>\<open>Finite s m e\<close> is \<open>m * 2 ^ e\<close>, negated if \<open>s\<close>.\<close>

datatype double = Finite bool nat int | Infinite bool | NaN bool

fun wf_double :: "double \<Rightarrow> bool" where
  "wf_double (Finite s m e) \<longleftrightarrow>
     m < 2 ^ 53 \<and> - 1074 \<le> e \<and> e \<le> 971 \<and> (m < 2 ^ 52 \<longrightarrow> e = - 1074)"
| "wf_double _ \<longleftrightarrow> True"

fun is_finite :: "double \<Rightarrow> bool" where
  "is_finite (Finite _ _ _) = True"
| "is_finite _ = False"

definition dzero :: double where "dzero = Finite False 0 (- 1074)"

text \<open>Round the fraction \<open>n / d\<close> to an integer, ties to even (the default rounding mode).\<close>

definition round_half_even :: "nat \<Rightarrow> nat \<Rightarrow> nat" where
  "round_half_even n d =
     (let q = n div d; r = n mod d
      in if 2 * r < d then q else if d < 2 * r then Suc q else if even q then q else Suc q)"

text \<open>The fraction \<open>(n / d) / 2 ^ e\<close>.\<close>

definition scale2 :: "nat \<Rightarrow> nat \<Rightarrow> int \<Rightarrow> nat \<times> nat" where
  "scale2 n d e = (if 0 \<le> e then (n, d * 2 ^ nat e) else (n * 2 ^ nat (- e), d))"

text \<open>The exponent that puts a nonzero \<open>n / d\<close> between \<open>2 ^ 52\<close> and \<open>2 ^ 53\<close>.\<close>

definition pick_exp :: "nat \<Rightarrow> nat \<Rightarrow> int" where
  "pick_exp n d =
     (let e = int (floorlog 2 n) - int (floorlog 2 d) - 53; (a, b) = scale2 n d e
      in if 2 ^ 53 * b \<le> a then e + 1 else e)"

text \<open>
  Round \<open>n / d\<close> to a binary64; \<open>None\<close> where \<open>strtod\<close> sets \<open>ERANGE\<close>: overflow, or a
  result that is tiny (below \<open>2 ^ -1022\<close> after rounding) and inexact.
\<close>

definition to_double :: "bool \<Rightarrow> nat \<Rightarrow> nat \<Rightarrow> double option" where
  "to_double s n d =
     (if n = 0 then Some (Finite s 0 (- 1074))
      else
        let e1 = pick_exp n d;
            (a1, b1) = scale2 n d e1;
            tiny = (e1 < - 1074 \<and> \<not> (e1 = - 1075 \<and> round_half_even a1 b1 = 2 ^ 53));
            e = max e1 (- 1074);
            (a, b) = scale2 n d e;
            m = round_half_even a b;
            (m', e') = (if m = 2 ^ 53 then (2 ^ 52, e + 1) else (m, e))
        in if 971 < e' then None
           else if tiny \<and> a mod b \<noteq> 0 then None
           else Some (Finite s m' e'))"

section \<open>Reading numbers\<close>

definition str_head :: "string \<Rightarrow> char" where
  "str_head s = (case s of [] \<Rightarrow> CHR 0x00 | c # _ \<Rightarrow> c)"

lemma str_head_simps [simp]: "str_head [] = CHR 0x00" "str_head (c # s) = c"
  by (simp_all add: str_head_def)

lemma str_head_append: "str_head (s @ t) = (if s = [] then str_head t else str_head s)"
  by (cases s) auto

text \<open>\<open>(exponent, rest)\<close>: the exponent part is read only if a digit follows.\<close>

definition read_exponent :: "string \<Rightarrow> int \<times> string" where
  "read_exponent s =
     (if str_head s = CHR ''e'' \<or> str_head s = CHR ''E''
      then (let s1 = tl s;
                neg = (str_head s1 = CHR ''-'');
                s2 = (if str_head s1 = CHR ''+'' \<or> str_head s1 = CHR ''-'' then tl s1 else s1);
                ds = takeWhile isDigit s2
            in if ds = [] then (0, s)
               else ((if neg then - int (digits_val 0 ds) else int (digits_val 0 ds)),
                     dropWhile isDigit s2))
      else (0, s))"

definition read_fraction :: "string \<Rightarrow> string \<times> string" where
  "read_fraction s =
     (if str_head s = CHR ''.'' then (takeWhile isDigit (tl s), dropWhile isDigit (tl s))
      else ([], s))"

definition dec_value :: "bool \<Rightarrow> nat \<Rightarrow> int \<Rightarrow> double option" where
  "dec_value neg n x =
     (if 0 \<le> x then to_double neg (n * 10 ^ nat x) 1 else to_double neg n (10 ^ nat (- x)))"

text \<open>
  \<open>stod s\<close> is \<open>__stoa(&std::strtod, "stod", s, &idx)\<close>: the value and \<open>idx\<close>, or
  \<open>None\<close> for the exceptions \<open>invalid_argument\<close> and \<open>out_of_range\<close>.
\<close>

definition stod :: "string \<Rightarrow> (double \<times> nat) option" where
  "stod s =
     (let neg = (str_head s = CHR ''-'');
          s1 = (if neg then tl s else s);
          ip = takeWhile isDigit s1;
          (fp, s2) = read_fraction (dropWhile isDigit s1);
          (x, rest) = read_exponent s2
      in if ip @ fp = [] then None
         else map_option (\<lambda>d. (d, length s - length rest))
                (dec_value neg (digits_val 0 (ip @ fp)) (x - int (length fp))))"

text \<open>\<open>stol s\<close> is \<open>__stoa(&std::strtol, "stol", s, &idx, 10)\<close> for a 64-bit \<open>long\<close>.\<close>

definition stol :: "string \<Rightarrow> int option" where
  "stol s =
     (let neg = (str_head s = CHR ''-'');
          s1 = (if neg then tl s else s);
          ds = takeWhile isDigit s1;
          v = (if neg then - int (digits_val 0 ds) else int (digits_val 0 ds))
      in if ds = [] \<or> v < - (2 ^ 63) \<or> 2 ^ 63 \<le> v then None else Some v)"

section \<open>Writing numbers\<close>

definition pad6 :: "nat \<Rightarrow> string" where
  "pad6 n = replicate (6 - length (nat_to_string n)) (CHR ''0'') @ nat_to_string n"

fun double_to_string :: "double \<Rightarrow> string" where
  "double_to_string (Finite s m e) =
     (let (a, b) = scale2 (m * 10 ^ 6) 1 (- e);
          n = round_half_even a b
      in (if s then ''-'' else []) @ nat_to_string (n div 10 ^ 6) @ ''.'' @ pad6 (n mod 10 ^ 6))"
| "double_to_string (Infinite s) = (if s then ''-inf'' else ''inf'')"
| "double_to_string (NaN s) = (if s then ''-nan'' else ''nan'')"

end
