(* ===== verification/JsonValue.thy ===== *)
theory JsonValue
  imports JsonNumber
begin

text \<open>
  \<open>JsonServer/Value.h\<close>: the JSON value as a tagged union, its queries, getters, setters and
  container operations. A value is the tree it stands for; the operations that mutate
  \<open>*this\<close> return the new value. \<open>None\<close> is a failed \<open>assert\<close>, or the undefined behaviour
  that a release build would have in its place. An \<open>intN_t\<close> is the \<open>N word\<close> of its bits.
  The \<open>std::map<Value, Value>\<close> of an object is the list of its entries in key order; keys are
  strings, as the comparison \<open>operator<\<close> demands.
\<close>

section \<open>Types\<close>

datatype ValueType = TYPE_NULL | TYPE_BOOL | TYPE_INT32 | TYPE_INT64 | TYPE_DOUBLE
  | TYPE_STRING | TYPE_ARRAY | TYPE_OBJECT

datatype JValue =
    VNull
  | VBool bool
  | VInt32 "32 word"
  | VInt64 "64 word"
  | VDouble double
  | VString string
  | VArray "JValue list"
  | VObject "(string \<times> JValue) list"

type_synonym member_list = "(string \<times> JValue) list"

text \<open>
  \<open>Value(ValueType)\<close>: the scalars get the bits of \<open>array_(nullptr)\<close>, that is zero.
\<close>

fun Value_of_type :: "ValueType \<Rightarrow> JValue" where
  "Value_of_type TYPE_NULL = VNull"
| "Value_of_type TYPE_BOOL = VBool False"
| "Value_of_type TYPE_INT32 = VInt32 0"
| "Value_of_type TYPE_INT64 = VInt64 0"
| "Value_of_type TYPE_DOUBLE = VDouble dzero"
| "Value_of_type TYPE_STRING = VString []"
| "Value_of_type TYPE_ARRAY = VArray []"
| "Value_of_type TYPE_OBJECT = VObject []"

fun getType :: "JValue \<Rightarrow> ValueType" where
  "getType VNull = TYPE_NULL"
| "getType (VBool _) = TYPE_BOOL"
| "getType (VInt32 _) = TYPE_INT32"
| "getType (VInt64 _) = TYPE_INT64"
| "getType (VDouble _) = TYPE_DOUBLE"
| "getType (VString _) = TYPE_STRING"
| "getType (VArray _) = TYPE_ARRAY"
| "getType (VObject _) = TYPE_OBJECT"

fun getSize :: "JValue \<Rightarrow> nat" where
  "getSize (VArray vs) = length vs"
| "getSize (VObject ms) = length ms"
| "getSize _ = 1"

definition isNull :: "JValue \<Rightarrow> bool" where "isNull v \<longleftrightarrow> getType v = TYPE_NULL"
definition isBool :: "JValue \<Rightarrow> bool" where "isBool v \<longleftrightarrow> getType v = TYPE_BOOL"
definition isInt32 :: "JValue \<Rightarrow> bool" where "isInt32 v \<longleftrightarrow> getType v = TYPE_INT32"
definition isInt64 :: "JValue \<Rightarrow> bool" where
  "isInt64 v \<longleftrightarrow> getType v = TYPE_INT64 \<or> getType v = TYPE_INT32"
definition isDouble :: "JValue \<Rightarrow> bool" where "isDouble v \<longleftrightarrow> getType v = TYPE_DOUBLE"
definition isString :: "JValue \<Rightarrow> bool" where "isString v \<longleftrightarrow> getType v = TYPE_STRING"
definition isArray :: "JValue \<Rightarrow> bool" where "isArray v \<longleftrightarrow> getType v = TYPE_ARRAY"
definition isObject :: "JValue \<Rightarrow> bool" where "isObject v \<longleftrightarrow> getType v = TYPE_OBJECT"

lemmas is_type_defs =
  isNull_def isBool_def isInt32_def isInt64_def isDouble_def isString_def isArray_def isObject_def

definition showType :: "JValue \<Rightarrow> string" where
  "showType v =
     (if isNull v then ''null'' else if isBool v then ''bool''
      else if isInt32 v then ''int32'' else if isInt64 v then ''int64''
      else if isDouble v then ''double'' else if isString v then ''string''
      else if isArray v then ''array'' else ''object'')"

section \<open>Getters and setters\<close>

fun getBool :: "JValue \<Rightarrow> bool option" where
  "getBool (VBool b) = Some b"
| "getBool _ = None"

fun getInt32 :: "JValue \<Rightarrow> (32 word) option" where
  "getInt32 (VInt32 i) = Some i"
| "getInt32 _ = None"

text \<open>
  \<open>getInt64\<close> accepts \<open>TYPE_INT32\<close>, but the union member \<open>i64_\<close> was not written by
  \<open>Value(int32_t)\<close>: the upper half (\<open>hi\<close>) is whatever the storage held.
\<close>

fun getInt64 :: "32 word \<Rightarrow> JValue \<Rightarrow> (64 word) option" where
  "getInt64 hi (VInt64 i) = Some i"
| "getInt64 hi (VInt32 i) = Some (word_of_nat (unat hi * 2 ^ 32 + unat i))"
| "getInt64 hi _ = None"

fun getDouble :: "JValue \<Rightarrow> double option" where
  "getDouble (VDouble d) = Some d"
| "getDouble _ = None"

fun getString :: "JValue \<Rightarrow> string option" where
  "getString (VString s) = Some s"
| "getString _ = None"

fun getArray :: "JValue \<Rightarrow> JValue list option" where
  "getArray (VArray vs) = Some vs"
| "getArray _ = None"

fun getObject :: "JValue \<Rightarrow> member_list option" where
  "getObject (VObject ms) = Some ms"
| "getObject _ = None"

definition setNull :: "JValue \<Rightarrow> JValue" where "setNull v = Value_of_type TYPE_NULL"
definition setBool :: "JValue \<Rightarrow> bool \<Rightarrow> JValue" where "setBool v b = VBool b"
definition setInt32 :: "JValue \<Rightarrow> 32 word \<Rightarrow> JValue" where "setInt32 v i = VInt32 i"
definition setInt64 :: "JValue \<Rightarrow> 64 word \<Rightarrow> JValue" where "setInt64 v i = VInt64 i"
definition setDouble :: "JValue \<Rightarrow> double \<Rightarrow> JValue" where "setDouble v d = VDouble d"
definition setString :: "JValue \<Rightarrow> string \<Rightarrow> JValue" where "setString v s = VString s"
definition setArray :: "JValue \<Rightarrow> JValue" where "setArray v = Value_of_type TYPE_ARRAY"
definition setObject :: "JValue \<Rightarrow> JValue" where "setObject v = Value_of_type TYPE_OBJECT"

section \<open>Containers\<close>

definition array_at :: "JValue \<Rightarrow> nat \<Rightarrow> JValue option" where
  "array_at v i =
     (case v of VArray vs \<Rightarrow> if i < length vs then Some (vs ! i) else None | _ \<Rightarrow> None)"

fun addValue :: "JValue \<Rightarrow> JValue \<Rightarrow> JValue option" where
  "addValue (VArray vs) w = Some (VArray (vs @ [w]))"
| "addValue _ w = None"

definition value_less :: "JValue \<Rightarrow> JValue \<Rightarrow> bool option" where
  "value_less v w =
     Option.bind (getString v) (\<lambda>s. map_option (\<lambda>t. s < t) (getString w))"

text \<open>\<open>std::map\<close>: find, and emplace of a key that is not there.\<close>

fun map_insert :: "string \<Rightarrow> 'a \<Rightarrow> (string \<times> 'a) list \<Rightarrow> (string \<times> 'a) list" where
  "map_insert k v [] = [(k, v)]"
| "map_insert k v ((k', v') # ms) =
     (if k < k' then (k, v) # (k', v') # ms else (k', v') # map_insert k v ms)"

fun hasMember :: "JValue \<Rightarrow> string \<Rightarrow> bool option" where
  "hasMember (VObject ms) k = Some (map_of ms k \<noteq> None)"
| "hasMember _ k = None"

fun member_at :: "JValue \<Rightarrow> string \<Rightarrow> JValue option" where
  "member_at (VObject ms) k = map_of ms k"
| "member_at _ k = None"

fun addMember :: "JValue \<Rightarrow> string \<Rightarrow> JValue \<Rightarrow> JValue option" where
  "addMember (VObject ms) k v =
     (if map_of ms k \<noteq> None then None else Some (VObject (map_insert k v ms)))"
| "addMember _ k v = None"

section \<open>Well-formed values\<close>

text \<open>The entries of a map: keys strictly increasing.\<close>

definition sorted_keys :: "(string \<times> 'a) list \<Rightarrow> bool" where
  "sorted_keys ms \<longleftrightarrow> sorted_wrt (<) (map fst ms)"

fun wf_value :: "JValue \<Rightarrow> bool" where
  "wf_value (VArray vs) \<longleftrightarrow> list_all wf_value vs"
| "wf_value (VObject ms) \<longleftrightarrow> sorted_keys ms \<and> list_all (\<lambda>m. wf_value (snd m)) ms"
| "wf_value _ \<longleftrightarrow> True"

lemma set_map_insert [simp]: "set (map_insert k v ms) = insert (k, v) (set ms)"
  by (induction k v ms rule: map_insert.induct) auto

lemma length_map_insert [simp]: "length (map_insert k v ms) = Suc (length ms)"
  by (induction k v ms rule: map_insert.induct) auto

lemma sorted_keys_Cons:
  "sorted_keys ((k, v) # ms) \<longleftrightarrow> (\<forall>k' \<in> fst ` set ms. k < k') \<and> sorted_keys ms"
  by (auto simp: sorted_keys_def)

lemma sorted_keys_Nil [simp]: "sorted_keys []"
  by (simp add: sorted_keys_def)

lemma sorted_keys_insert:
  "sorted_keys ms \<Longrightarrow> k \<notin> fst ` set ms \<Longrightarrow> sorted_keys (map_insert k v ms)"
proof (induction k v ms rule: map_insert.induct)
  case (1 k v)
  then show ?case by (simp add: sorted_keys_def)
next
  case (2 k v k' v' ms)
  then show ?case
    by (fastforce simp: sorted_keys_Cons)
qed

lemma sorted_keys_distinct: "sorted_keys ms \<Longrightarrow> distinct (map fst ms)"
  by (auto simp: sorted_keys_def strict_sorted_iff)

lemma map_of_map_insert:
  "k \<notin> fst ` set ms \<Longrightarrow> map_of (map_insert k v ms) = (map_of ms)(k \<mapsto> v)"
  by (induction k v ms rule: map_insert.induct) auto

text \<open>Inserting a key above all others appends it.\<close>

lemma map_insert_last:
  "\<forall>k' \<in> fst ` set ms. k' < k \<Longrightarrow> map_insert k v ms = ms @ [(k, v)]"
  by (induction k v ms rule: map_insert.induct) (auto dest: less_not_sym)

lemma addMember_ok:
  "map_of ms k = None \<Longrightarrow> addMember (VObject ms) k v = Some (VObject (map_insert k v ms))"
  by simp

lemma addMember_wf:
  "addMember v k w = Some v' \<Longrightarrow> wf_value v \<Longrightarrow> wf_value w \<Longrightarrow> wf_value v'"
  by (cases v) (auto split: if_splits simp: list_all_iff map_of_eq_None_iff intro: sorted_keys_insert)

lemma addValue_wf:
  "addValue v w = Some v' \<Longrightarrow> wf_value v \<Longrightarrow> wf_value w \<Longrightarrow> wf_value v'"
  by (cases v) (auto simp: list_all_iff)

lemma member_at_Some: "member_at v k = Some w \<Longrightarrow> \<exists>ms. v = VObject ms \<and> map_of ms k = Some w"
  by (cases v) auto

text \<open>Looking up after adding.\<close>

lemma member_at_addMember:
  "addMember v k w = Some v' \<Longrightarrow> member_at v' k' = (if k' = k then Some w else member_at v k')"
  by (cases v) (auto split: if_splits simp: map_of_map_insert map_of_eq_None_iff)

lemma hasMember_addMember:
  "addMember v k w = Some v' \<Longrightarrow> hasMember v' k' = (if k' = k then Some True else hasMember v k')"
  by (cases v) (auto split: if_splits simp: map_of_map_insert map_of_eq_None_iff)

lemma getSize_addMember: "addMember v k w = Some v' \<Longrightarrow> getSize v' = Suc (getSize v)"
  by (cases v) (auto split: if_splits)

lemma getType_addMember [dest]: "addMember v k w = Some v' \<Longrightarrow> getType v' = TYPE_OBJECT"
  by (cases v) (auto split: if_splits)

end
