(* ===== verification/RpcTypes.thy ===== *)
theory RpcTypes
  imports JsonValue
begin

text \<open>
  \<open>RpcServer/RpcError.h\<close>, \<open>Exception.h\<close> and \<open>common.h\<close>: error codes, the two exceptions
  of the server side, and the callback that turns a procedure's result into a response.
\<close>

section \<open>Error codes\<close>

datatype RpcError = RPC_PARSE_ERROR | RPC_INVALID_REQUEST | RPC_METHOD_NOT_FOUND
  | RPC_INVALID_PARAMS | RPC_INTERNAL_ERROR

fun asCode :: "RpcError \<Rightarrow> 32 word" where
  "asCode RPC_PARSE_ERROR = - 32700"
| "asCode RPC_INVALID_REQUEST = - 32600"
| "asCode RPC_METHOD_NOT_FOUND = - 32601"
| "asCode RPC_INVALID_PARAMS = - 32602"
| "asCode RPC_INTERNAL_ERROR = - 32603"

fun asString :: "RpcError \<Rightarrow> string" where
  "asString RPC_PARSE_ERROR = ''Parse error''"
| "asString RPC_INVALID_REQUEST = ''Invalid request''"
| "asString RPC_METHOD_NOT_FOUND = ''Method not found''"
| "asString RPC_INVALID_PARAMS = ''Invalid params''"
| "asString RPC_INTERNAL_ERROR = ''Internal error''"

definition fromErrorCode :: "32 word \<Rightarrow> RpcError option" where
  "fromErrorCode code =
     (if code = - 32700 then Some RPC_PARSE_ERROR
      else if code = - 32600 then Some RPC_INVALID_REQUEST
      else if code = - 32601 then Some RPC_METHOD_NOT_FOUND
      else if code = - 32602 then Some RPC_INVALID_PARAMS
      else if code = - 32603 then Some RPC_INTERNAL_ERROR
      else None)"

lemma fromErrorCode_asCode: "fromErrorCode (asCode e) = Some e"
  by (cases e) (simp_all add: fromErrorCode_def)

section \<open>Exceptions\<close>

text \<open>
  \<open>detail_\<close> is a \<open>const char*\<close>. \<open>Literal\<close>: it points to a string literal. \<open>Freed s\<close>: it
  is the \<open>c_str()\<close> of a temporary that held \<open>s\<close> and is gone when the exception is caught.
\<close>

datatype detail = Literal string | Freed string

datatype rpc_exception = RequestException RpcError JValue detail | NotifyException RpcError detail

text \<open>Reading through the pointer; \<open>freed s\<close> stands for what the freed memory holds.\<close>

fun read_detail :: "(string \<Rightarrow> string) \<Rightarrow> detail \<Rightarrow> string" where
  "read_detail freed (Literal s) = s"
| "read_detail freed (Freed s) = freed s"

section \<open>Running a handler\<close>

text \<open>
  A \<open>run\<close> is what a handler that was given a \<open>done\<close> callback did: the values it passed to
  \<open>done\<close>, in order, and how it ended. Callbacks run to completion within the call.
\<close>

type_synonym run = "JValue list \<times> (rpc_exception, unit) outcome"

definition returns :: run where "returns = ([], Ret ())"

definition throws :: "rpc_exception \<Rightarrow> run" where "throws e = ([], Throw e)"

definition aborts :: run where "aborts = ([], Abort)"

text \<open>A computation without effect, then a run; one run after another.\<close>

fun run_bind :: "(rpc_exception, 'a) outcome \<Rightarrow> ('a \<Rightarrow> run) \<Rightarrow> run" where
  "run_bind (Ret x) f = f x"
| "run_bind (Throw e) f = throws e"
| "run_bind Abort f = aborts"

definition run_seq :: "run \<Rightarrow> run \<Rightarrow> run" where
  "run_seq r s = (case snd r of Ret _ \<Rightarrow> (fst r @ fst s, snd s) | _ \<Rightarrow> r)"

lemmas run_defs = returns_def throws_def aborts_def

lemma snd_run_bind_Abort:
  "snd (run_bind m f) = Abort \<longleftrightarrow> m = Abort \<or> (\<exists>x. m = Ret x \<and> snd (f x) = Abort)"
  by (cases m) (auto simp: run_defs)

lemma snd_run_bind_Throw:
  "snd (run_bind m f) = Throw e \<longleftrightarrow> m = Throw e \<or> (\<exists>x. m = Ret x \<and> snd (f x) = Throw e)"
  by (cases m) (auto simp: run_defs)

section \<open>UserDoneCallback\<close>

definition addMember_all :: "JValue \<Rightarrow> (string \<times> JValue) list \<Rightarrow> JValue option" where
  "addMember_all v ms = foldl (\<lambda>m (k, x). Option.bind m (\<lambda>w. addMember w k x)) (Some v) ms"

definition UserDoneCallback :: "JValue \<Rightarrow> JValue \<Rightarrow> JValue option" where
  "UserDoneCallback request result =
     Option.bind (member_at request ''id'') (\<lambda>id.
       addMember_all (Value_of_type TYPE_OBJECT)
         [(''jsonrpc'', VString ''2.0''), (''id'', id), (''result'', result)])"

lemma UserDoneCallback_Some:
  "member_at request ''id'' = Some ident \<Longrightarrow> UserDoneCallback request result
     = Some (VObject [(''id'', ident), (''jsonrpc'', VString ''2.0''), (''result'', result)])"
  by (simp add: UserDoneCallback_def addMember_all_def char_less_iff)

end
