(* ===== verification/RpcService.thy ===== *)
theory RpcService
  imports RpcTypes
begin

text \<open>
  \<open>RpcServer/Server/Procedure.h\<close> and \<open>Service.h\<close>, \<open>Service.cpp\<close>: procedures with their
  declared parameters, and the services that hold them by name. A procedure's callback is code
  of the user: for a procedure that returns it is a run, for a notification an outcome.
\<close>

section \<open>Procedures\<close>

record 'cb Procedure =
  callBack :: 'cb
  params :: "(string \<times> ValueType) list"

type_synonym ProcedureReturn = "(JValue \<Rightarrow> run) Procedure"
type_synonym ProcedureNotify = "(JValue \<Rightarrow> (rpc_exception, unit) outcome) Procedure"

definition Procedure_new :: "'cb \<Rightarrow> string list \<Rightarrow> ValueType list \<Rightarrow> 'cb Procedure option" where
  "Procedure_new cb paramNames paramTypes =
     (if length paramNames = length paramTypes
      then Some \<lparr>callBack = cb, params = zip paramNames paramTypes\<rparr> else None)"

fun check_array :: "JValue \<Rightarrow> nat \<Rightarrow> (string \<times> ValueType) list \<Rightarrow> bool option" where
  "check_array ps i [] = Some True"
| "check_array ps i ((name, type) # rest) =
     Option.bind (array_at ps i) (\<lambda>v.
       if getType v \<noteq> type then Some False else check_array ps (Suc i) rest)"

fun check_object :: "JValue \<Rightarrow> (string \<times> ValueType) list \<Rightarrow> bool option" where
  "check_object ps [] = Some True"
| "check_object ps ((name, type) # rest) =
     Option.bind (hasMember ps name) (\<lambda>has.
       if \<not> has then Some False
       else Option.bind (member_at ps name) (\<lambda>v.
         if getType v \<noteq> type then Some False else check_object ps rest))"

definition validateGeneric :: "'cb Procedure \<Rightarrow> JValue \<Rightarrow> bool option" where
  "validateGeneric p request =
     Option.bind (hasMember request ''params'') (\<lambda>exists.
       if \<not> exists then Some (params p = [])
       else Option.bind (member_at request ''params'') (\<lambda>ps.
         if getSize ps \<noteq> length (params p) then Some False
         else (case getType ps of
                 TYPE_ARRAY \<Rightarrow> check_array ps 0 (params p)
               | TYPE_OBJECT \<Rightarrow> check_object ps (params p)
               | _ \<Rightarrow> Some False)))"

definition validateReturn :: "ProcedureReturn \<Rightarrow> JValue \<Rightarrow> (rpc_exception, unit) outcome" where
  "validateReturn p request =
     (if getType request = TYPE_OBJECT \<or> getType request = TYPE_ARRAY then
        out_bind (of_option (validateGeneric p request)) (\<lambda>ok.
          if \<not> ok then
            out_bind (of_option (member_at request ''id'')) (\<lambda>id.
              Throw (RequestException RPC_INVALID_PARAMS id (Literal ''params name or type mismatch'')))
          else Ret ())
      else
        out_bind (of_option (member_at request ''id'')) (\<lambda>id.
          Throw (RequestException RPC_INVALID_REQUEST id
            (Literal ''params type must be object or array''))))"

definition validateNotification :: "ProcedureNotify \<Rightarrow> JValue \<Rightarrow> (rpc_exception, unit) outcome" where
  "validateNotification p request =
     (if getType request = TYPE_OBJECT \<or> getType request = TYPE_ARRAY then
        out_bind (of_option (validateGeneric p request)) (\<lambda>ok.
          if \<not> ok then
            Throw (NotifyException RPC_INVALID_PARAMS (Literal ''params name or type mismatch''))
          else Ret ())
      else Throw (NotifyException RPC_INVALID_REQUEST
        (Literal ''params type must be object or array'')))"

definition invokeReturn :: "ProcedureReturn \<Rightarrow> JValue \<Rightarrow> run" where
  "invokeReturn p request = run_bind (validateReturn p request) (\<lambda>_. callBack p request)"

definition invokeNotify :: "ProcedureNotify \<Rightarrow> JValue \<Rightarrow> (rpc_exception, unit) outcome" where
  "invokeNotify p request = out_bind (validateNotification p request) (\<lambda>_. callBack p request)"

section \<open>Services\<close>

record Service =
  procedureReturn :: "string \<rightharpoonup> ProcedureReturn"
  procedureNotify :: "string \<rightharpoonup> ProcedureNotify"

definition Service_new :: Service where
  "Service_new = \<lparr>procedureReturn = Map.empty, procedureNotify = Map.empty\<rparr>"

definition addProcedureReturn :: "string \<Rightarrow> ProcedureReturn \<Rightarrow> Service \<Rightarrow> Service option" where
  "addProcedureReturn methodName p s =
     (case procedureReturn s methodName of
        None \<Rightarrow> Some (s\<lparr>procedureReturn := (procedureReturn s)(methodName \<mapsto> p)\<rparr>)
      | Some _ \<Rightarrow> None)"

definition addProcedureNotify :: "string \<Rightarrow> ProcedureNotify \<Rightarrow> Service \<Rightarrow> Service option" where
  "addProcedureNotify methodName p s =
     (case procedureNotify s methodName of
        None \<Rightarrow> Some (s\<lparr>procedureNotify := (procedureNotify s)(methodName \<mapsto> p)\<rparr>)
      | Some _ \<Rightarrow> None)"

definition callProcedureReturn :: "Service \<Rightarrow> string \<Rightarrow> JValue \<Rightarrow> run" where
  "callProcedureReturn s methodName request =
     (case procedureReturn s methodName of
        None \<Rightarrow>
          run_bind (of_option (member_at request ''id'')) (\<lambda>id.
            throws (RequestException RPC_METHOD_NOT_FOUND id (Literal ''method not found'')))
      | Some p \<Rightarrow> invokeReturn p request)"

definition callProcedureNotify :: "Service \<Rightarrow> string \<Rightarrow> JValue \<Rightarrow> (rpc_exception, unit) outcome" where
  "callProcedureNotify s methodName request =
     (case procedureNotify s methodName of
        None \<Rightarrow> Throw (NotifyException RPC_METHOD_NOT_FOUND (Literal ''method not found''))
      | Some p \<Rightarrow> invokeNotify p request)"

section \<open>What validation accepts\<close>

text \<open>
  The declarative reading: no \<open>params\<close> for a procedure without parameters; an array with the
  declared types in order; or an object with exactly as many members, each declared name with
  its type.
\<close>

definition params_match :: "(string \<times> ValueType) list \<Rightarrow> JValue option \<Rightarrow> bool" where
  "params_match decl ps =
     (case ps of
        None \<Rightarrow> decl = []
      | Some (VArray vs) \<Rightarrow> map getType vs = map snd decl
      | Some (VObject ms) \<Rightarrow> length ms = length decl
          \<and> list_all (\<lambda>(n, t). map_option getType (map_of ms n) = Some t) decl
      | Some _ \<Rightarrow> False)"

lemma check_array_iff:
  "i + length decl = length vs \<Longrightarrow>
     check_array (VArray vs) i decl = Some (map getType (drop i vs) = map snd decl)"
proof (induction decl arbitrary: i)
  case (Cons d decl)
  obtain n t where d: "d = (n, t)" by fastforce
  from Cons.prems have i: "i < length vs" by simp
  then have "drop i vs = vs ! i # drop (Suc i) vs" by (simp add: Cons_nth_drop_Suc)
  with Cons.IH [of "Suc i"] Cons.prems i show ?case by (simp add: d array_at_def)
qed simp

lemma check_object_iff:
  "check_object (VObject ms) decl
     = Some (list_all (\<lambda>(n, t). map_option getType (map_of ms n) = Some t) decl)"
  by (induction decl) (auto split: option.splits)

lemma validateGeneric_iff:
  "validateGeneric p (VObject ms) = Some (params_match (params p) (map_of ms ''params''))"
proof (cases "map_of ms ''params''")
  case (Some ps)
  then show ?thesis
    using check_array_iff [of 0 "params p"]
    by (cases ps) (auto simp: validateGeneric_def params_match_def check_object_iff dest: arg_cong [of _ _ length])
qed (simp add: validateGeneric_def params_match_def)

lemma validateReturn_iff:
  assumes "map_of ms ''id'' = Some ident"
  shows "validateReturn p (VObject ms) =
    (if params_match (params p) (map_of ms ''params'') then Ret ()
     else Throw (RequestException RPC_INVALID_PARAMS ident (Literal ''params name or type mismatch'')))"
  using assms by (simp add: validateReturn_def validateGeneric_iff)

lemma validateNotification_iff:
  "validateNotification p (VObject ms) =
    (if params_match (params p) (map_of ms ''params'') then Ret ()
     else Throw (NotifyException RPC_INVALID_PARAMS (Literal ''params name or type mismatch'')))"
  by (simp add: validateNotification_def validateGeneric_iff)

end
