(* ===== verification/JsonReader.thy ===== *)
theory JsonReader
  imports JsonValue
begin

text \<open>
  \<open>JsonServer/Reader.h\<close> over the streams of \<open>ReadStream.h\<close>. A stream is what is left of
  the text, from the iterator \<open>it\<close> to the end; \<open>getIter\<close> is therefore the stream itself.
  The reader's functions take the value behind the \<open>shared_ptr\<close> and return it updated,
  together with the error code and the stream: an error leaves the value half built, as the
  code does. A failed \<open>assert\<close> is \<open>Assert_fail\<close>. The mutually recursive part runs on fuel;
  \<open>read_value_total\<close> below says how much is enough, and \<open>parse\<close> passes that much.
\<close>

section \<open>ReadStream\<close>

type_synonym rstream = string

definition hasNext :: "rstream \<Rightarrow> bool" where "hasNext is \<longleftrightarrow> is \<noteq> []"

definition front :: "rstream \<Rightarrow> char" where
  "front is = (case is of [] \<Rightarrow> CHR 0x00 | c # _ \<Rightarrow> c)"

definition pop :: "rstream \<Rightarrow> rstream" where "pop is = tl is"

definition next_char :: "rstream \<Rightarrow> char \<times> rstream" where
  "next_char is = (case is of [] \<Rightarrow> (CHR 0x00, []) | c # cs \<Rightarrow> (c, cs))"

definition expect :: "rstream \<Rightarrow> char \<Rightarrow> rstream option" where
  "expect is ch = (if front is = ch then Some (pop is) else None)"

lemma stream_simps [simp, scan_simps]:
  "hasNext (c # cs)" "\<not> hasNext []"
  "front [] = CHR 0x00" "front (c # cs) = c"
  "pop (c # cs) = cs" "next_char (c # cs) = (c, cs)" "next_char [] = (CHR 0x00, [])"
  by (simp_all add: hasNext_def front_def pop_def next_char_def)

lemma length_pop [simp]: "length (pop is) = length is - 1"
  by (simp add: pop_def)

lemma length_pop_le: "length (pop is) \<le> length is"
  by simp

lemma length_next_le: "next_char is = (c, r) \<Longrightarrow> length r \<le> length is"
  by (auto simp: next_char_def split: list.splits)

section \<open>Error codes\<close>

datatype ParseError = PARSE_OK | PARSE_EXPECT_VALUE | PARSE_INVALID_VALUE
  | PARSE_ROOT_NOT_SINGULAR | PARSE_NUMBER_TOO_BIG | PARSE_MISS_QUOTATION_MARK
  | PARSE_INVALID_STRING_ESCAPE | PARSE_INVALID_STRING_CHAR | PARSE_INVALID_UNICODE_HEX
  | PARSE_INVALID_UNICODE_SURROGATE | PARSE_MISS_COMMA_OR_SQUARE_BRACKET | PARSE_MISS_KEY
  | PARSE_MISS_COLON | PARSE_MISS_COMMA_OR_CURLY_BRACKET

fun parseErrorStr :: "ParseError \<Rightarrow> string" where
  "parseErrorStr PARSE_OK = ''ok''"
| "parseErrorStr PARSE_EXPECT_VALUE = ''expect value''"
| "parseErrorStr PARSE_INVALID_VALUE = ''invalid value''"
| "parseErrorStr PARSE_ROOT_NOT_SINGULAR = ''root not singular''"
| "parseErrorStr PARSE_NUMBER_TOO_BIG = ''number too big''"
| "parseErrorStr PARSE_MISS_QUOTATION_MARK = ''miss quotation mark''"
| "parseErrorStr PARSE_INVALID_STRING_ESCAPE = ''invalid string escape''"
| "parseErrorStr PARSE_INVALID_STRING_CHAR = ''invalid string char''"
| "parseErrorStr PARSE_INVALID_UNICODE_HEX = ''invalid unicode hex''"
| "parseErrorStr PARSE_INVALID_UNICODE_SURROGATE = ''invalid unicode surrogate''"
| "parseErrorStr PARSE_MISS_COMMA_OR_SQUARE_BRACKET = ''miss comma or sqare bracket''"
| "parseErrorStr PARSE_MISS_KEY = ''miss key''"
| "parseErrorStr PARSE_MISS_COLON = ''miss colon''"
| "parseErrorStr PARSE_MISS_COMMA_OR_CURLY_BRACKET = ''miss comma or curly bracket''"

datatype read_result = Done ParseError JValue rstream | Assert_fail | Out_of_fuel

section \<open>Whitespace and literals\<close>

definition is_ws :: "char \<Rightarrow> bool" where
  "is_ws ch \<longleftrightarrow> ch = CHR '' '' \<or> ch = CHR 0x09 \<or> ch = CHR 0x0D \<or> ch = CHR 0x0A"

fun parseWhitespace :: "rstream \<Rightarrow> rstream" where
  "parseWhitespace [] = []"
| "parseWhitespace (ch # is) = (if is_ws ch then parseWhitespace is else ch # is)"

text \<open>The loop of \<open>parseLiteral\<close>: the rest of the literal and of the stream.\<close>

fun match_literal :: "string \<Rightarrow> rstream \<Rightarrow> string \<times> rstream" where
  "match_literal [] is = ([], is)"
| "match_literal (l # ls) is =
     (if l = front is then match_literal ls (pop is) else (l # ls, is))"

definition parseLiteral :: "rstream \<Rightarrow> JValue \<Rightarrow> string \<Rightarrow> ValueType \<Rightarrow> read_result" where
  "parseLiteral is v lit type =
     (let c = hd lit
      in case expect is c of
           None \<Rightarrow> Assert_fail
         | Some is1 \<Rightarrow>
             (let (lit', is2) = match_literal (tl lit) is1
              in if lit' \<noteq> [] then Done PARSE_EXPECT_VALUE v is2
                 else if type = TYPE_NULL then Done PARSE_OK (setNull v) is2
                 else if type = TYPE_BOOL then
                   (if c = CHR ''f'' then Done PARSE_OK (setBool v False) is2
                    else Done PARSE_OK (setBool v True) is2)
                 else Done PARSE_OK v is2))"

section \<open>Numbers\<close>

text \<open>
  The scan of \<open>parseNumber\<close> in its four stages. \<open>Inl is\<close> is the early return of
  \<open>PARSE_INVALID_VALUE\<close> with the stream at \<open>is\<close>; the type is \<open>expectType\<close>.
\<close>

definition skipDigits :: "rstream \<Rightarrow> rstream" where
  "skipDigits = dropWhile isDigit"

definition scanInt :: "rstream \<Rightarrow> rstream + rstream" where
  "scanInt is =
     (let is1 = (if front is = CHR ''-'' then pop is else is)
      in if front is1 = CHR ''0'' then Inr (pop is1)
         else if \<not> isDigit19 (front is1) then Inl is1
         else Inr (skipDigits is1))"

definition scanFrac :: "rstream \<Rightarrow> rstream + (ValueType \<times> rstream)" where
  "scanFrac is =
     (if front is = CHR ''.''
      then (let is1 = pop is
            in if \<not> isDigit (front is1) then Inl is1
               else Inr (TYPE_DOUBLE, skipDigits (pop is1)))
      else Inr (TYPE_NULL, is))"

definition scanExp :: "ValueType \<Rightarrow> rstream \<Rightarrow> rstream + (ValueType \<times> rstream)" where
  "scanExp expectType is =
     (if front is = CHR ''e'' \<or> front is = CHR ''E''
      then (let is1 = pop is;
                is2 = (if front is1 = CHR ''+'' \<or> front is1 = CHR ''-'' then pop is1 else is1)
            in if \<not> isDigit (front is2) then Inl is2
               else Inr (TYPE_DOUBLE, skipDigits (pop is2)))
      else Inr (expectType, is))"

definition scanSuffix :: "ValueType \<Rightarrow> rstream \<Rightarrow> rstream + (ValueType \<times> rstream)" where
  "scanSuffix expectType is =
     (if front is = CHR ''i''
      then (let is1 = pop is
            in if expectType = TYPE_DOUBLE then Inl is1
               else (let (c, is2) = next_char is1
                     in if c = CHR ''3'' then
                          (let (d, is3) = next_char is2
                           in if d \<noteq> CHR ''2'' then Inl is3 else Inr (TYPE_INT32, is3))
                        else if c = CHR ''6'' then
                          (let (d, is3) = next_char is2
                           in if d \<noteq> CHR ''4'' then Inl is3 else Inr (TYPE_INT64, is3))
                        else Inl is2))
      else Inr (expectType, is))"

text \<open>
  The conversion, from \<open>start\<close>, of the text scanned up to \<open>end\<close>. The \<open>catch (...)\<close>
  branch stores a zero of the expected type.
\<close>

definition numberTooBig :: "ValueType \<Rightarrow> JValue \<Rightarrow> rstream \<Rightarrow> read_result" where
  "numberTooBig expectType v is =
     Done PARSE_NUMBER_TOO_BIG
       (if expectType = TYPE_INT32 then setInt32 v 0
        else if expectType = TYPE_INT64 then setInt64 v 0
        else setDouble v dzero) is"

definition convertNumber :: "ValueType \<Rightarrow> rstream \<Rightarrow> JValue \<Rightarrow> rstream \<Rightarrow> read_result" where
  "convertNumber expectType start v is =
     (if expectType = TYPE_DOUBLE then
        (case stod start of
           None \<Rightarrow> numberTooBig expectType v is
         | Some (d, idx) \<Rightarrow>
             (if drop idx start = is then Done PARSE_OK (setDouble v d) is else Assert_fail))
      else
        (case stol start of
           None \<Rightarrow> numberTooBig expectType v is
         | Some i64 \<Rightarrow>
             (if expectType = TYPE_INT64 then Done PARSE_OK (setInt64 v (word_of_int i64)) is
              else if expectType = TYPE_INT32 then
                (if 2 ^ 31 - 1 < i64 \<or> i64 < - (2 ^ 31)
                 then Done PARSE_NUMBER_TOO_BIG v is
                 else Done PARSE_OK (setInt32 v (word_of_int i64)) is)
              else Done PARSE_INVALID_VALUE v is)))"

definition parseNumber :: "rstream \<Rightarrow> JValue \<Rightarrow> read_result" where
  "parseNumber start v =
     (case scanInt start of
        Inl is \<Rightarrow> Done PARSE_INVALID_VALUE v is
      | Inr is1 \<Rightarrow>
     (case scanFrac is1 of
        Inl is \<Rightarrow> Done PARSE_INVALID_VALUE v is
      | Inr (t2, is2) \<Rightarrow>
     (case scanExp t2 is2 of
        Inl is \<Rightarrow> Done PARSE_INVALID_VALUE v is
      | Inr (t3, is3) \<Rightarrow>
     (case scanSuffix t3 is3 of
        Inl is \<Rightarrow> Done PARSE_INVALID_VALUE v is
      | Inr (t4, is4) \<Rightarrow>
          (if start = is4 then Done PARSE_INVALID_VALUE v is4
           else convertNumber t4 start v is4)))))"

section \<open>Strings\<close>

text \<open>
  \<open>hex_digit\<close> is the chain of range tests of \<open>parseHex4\<close>; \<open>parseHex4 k u\<close> are the last
  \<open>k\<close> rounds of its loop.
\<close>

definition hex_digit :: "char \<Rightarrow> nat option" where
  "hex_digit ch =
     (if CHR ''0'' \<le> ch \<and> ch \<le> CHR ''9'' then Some (of_char ch - 48)
      else if CHR ''A'' \<le> ch \<and> ch \<le> CHR ''F'' then Some (of_char ch - (65 - 10))
      else if CHR ''a'' \<le> ch \<and> ch \<le> CHR ''f'' then Some (of_char ch - (97 - 10))
      else None)"

fun parseHex4 :: "nat \<Rightarrow> nat \<Rightarrow> rstream \<Rightarrow> nat option \<times> rstream" where
  "parseHex4 0 u is = (Some u, is)"
| "parseHex4 (Suc k) u is =
     (let (ch, is1) = next_char is
      in case hex_digit ch of
           None \<Rightarrow> (None, is1)
         | Some d \<Rightarrow> parseHex4 k (or (push_bit 4 u) d) is1)"

definition byte :: "nat \<Rightarrow> char" where "byte n = char_of n"

definition encodeUtf8 :: "nat \<Rightarrow> string option" where
  "encodeUtf8 u =
     (if u \<le> 0x7F then Some [byte (and u 0xFF)]
      else if u \<le> 0x7FF then
        Some [byte (or 0xC0 (and (drop_bit 6 u) 0xFF)), byte (or 0x80 (and u 0x3F))]
      else if u \<le> 0xFFFF then
        Some [byte (or 0xE0 (and (drop_bit 12 u) 0xFF)), byte (or 0x80 (and (drop_bit 6 u) 0x3F)),
              byte (or 0x80 (and u 0x3F))]
      else if u \<le> 0x10FFFF then
        Some [byte (or 0xF0 (and (drop_bit 18 u) 0xFF)),
              byte (or 0x80 (and (drop_bit 12 u) 0x3F)), byte (or 0x80 (and (drop_bit 6 u) 0x3F)),
              byte (or 0x80 (and u 0x3F))]
      else None)"

text \<open>
  What follows a backslash: an error code, or the bytes to push; \<open>None\<close> if the assertion of
  \<open>encodeUtf8\<close> fails.
\<close>

definition parseUnicode :: "rstream \<Rightarrow> (ParseError + string) option \<times> rstream" where
  "parseUnicode is =
     (case parseHex4 4 0 is of
        (None, is1) \<Rightarrow> (Some (Inl PARSE_INVALID_UNICODE_HEX), is1)
      | (Some u, is1) \<Rightarrow>
          (if 0xD800 \<le> u \<and> u \<le> 0xDBFF then
             (let (c, is2) = next_char is1
              in if c \<noteq> CHR 0x5C then (Some (Inl PARSE_INVALID_UNICODE_SURROGATE), is2)
                 else
                   (let (c2, is3) = next_char is2
                    in if c2 \<noteq> CHR ''u'' then (Some (Inl PARSE_INVALID_UNICODE_SURROGATE), is3)
                       else
                         (case parseHex4 4 0 is3 of
                            (None, is4) \<Rightarrow> (Some (Inl PARSE_INVALID_UNICODE_HEX), is4)
                          | (Some u2, is4) \<Rightarrow>
                              (if u2 < 0xDC00 \<or> 0xDFFF < u2
                               then (Some (Inl PARSE_INVALID_UNICODE_SURROGATE), is4)
                               else (map_option Inr
                                       (encodeUtf8 (0x10000 + (u - 0xD800) * 0x400 + (u2 - 0xDC00))),
                                     is4)))))
           else (map_option Inr (encodeUtf8 u), is1)))"

definition parseEscape :: "rstream \<Rightarrow> (ParseError + string) option \<times> rstream" where
  "parseEscape is =
     (let (c, is1) = next_char is
      in if c = CHR 0x22 then (Some (Inr [CHR 0x22]), is1)
         else if c = CHR 0x5C then (Some (Inr [CHR 0x5C]), is1)
         else if c = CHR ''/'' then (Some (Inr ''/''), is1)
         else if c = CHR ''b'' then (Some (Inr [CHR 0x08]), is1)
         else if c = CHR ''f'' then (Some (Inr [CHR 0x0C]), is1)
         else if c = CHR ''n'' then (Some (Inr [CHR 0x0A]), is1)
         else if c = CHR ''r'' then (Some (Inr [CHR 0x0D]), is1)
         else if c = CHR ''t'' then (Some (Inr [CHR 0x09]), is1)
         else if c = CHR ''u'' then parseUnicode is1
         else (Some (Inl PARSE_INVALID_STRING_ESCAPE), is1))"

lemma length_parseHex4: "parseHex4 k u is = (m, r) \<Longrightarrow> length r \<le> length is"
  by (induction k u "is" arbitrary: m r rule: parseHex4.induct)
    (fastforce dest: length_next_le split: prod.splits option.splits)+

lemma length_parseUnicode: "parseUnicode is = (m, r) \<Longrightarrow> length r \<le> length is"
  by (auto simp: parseUnicode_def split: prod.splits option.splits if_splits
      dest!: length_parseHex4 length_next_le)

lemma length_parseEscape: "parseEscape is = (m, r) \<Longrightarrow> length r \<le> length is"
  by (auto simp: parseEscape_def split: prod.splits if_splits
      dest!: length_parseUnicode length_next_le)

text \<open>
  The \<open>while (is.hasNext())\<close> loop of \<open>parseString\<close> with its buffer. When the input ends
  before the closing quote, the function returns \<open>PARSE_OK\<close> and does not set the value.
\<close>

function parseChars :: "rstream \<Rightarrow> JValue \<Rightarrow> string \<Rightarrow> read_result" where
  "parseChars [] v buffer = Done PARSE_OK v []"
| "parseChars (ch # is) v buffer =
     (if ch = CHR 0x22 then Done PARSE_OK (setString v buffer) is
      else if ch = CHR 0x5C then
        (case parseEscape is of
           (None, _) \<Rightarrow> Assert_fail
         | (Some (Inl e), is1) \<Rightarrow> Done e v is1
         | (Some (Inr cs), is1) \<Rightarrow> parseChars is1 v (buffer @ cs))
      else if ch = CHR 0x00 then Done PARSE_MISS_QUOTATION_MARK v is
      else if ch < CHR 0x20 then Done PARSE_INVALID_STRING_CHAR v is
      else parseChars is v (buffer @ [ch]))"
  by pat_completeness auto
termination
  by (relation "measure (\<lambda>(is, v, buffer). length is)")
    (auto dest!: length_parseEscape [OF sym])

definition parseString :: "rstream \<Rightarrow> JValue \<Rightarrow> read_result" where
  "parseString is v =
     (case expect is (CHR 0x22) of None \<Rightarrow> Assert_fail | Some is1 \<Rightarrow> parseChars is1 v [])"

section \<open>Arrays, objects, values\<close>

text \<open>
  \<open>parseArrayLoop\<close> and \<open>parseObjectLoop\<close> are the \<open>while (true)\<close> loops, on fuel. They call
  \<open>parseValue\<close>, which calls them: the recursive call is their parameter \<open>pv\<close>, and
  \<open>parseValue\<close> ties the knot. In the array loop the \<open>default\<close> case of the switch sets
  \<open>ret\<close> but does not leave the loop.
\<close>

type_synonym value_reader = "rstream \<Rightarrow> JValue \<Rightarrow> read_result"

fun parseArrayLoop :: "value_reader \<Rightarrow> nat \<Rightarrow> rstream \<Rightarrow> JValue \<Rightarrow> read_result" where
  "parseArrayLoop pv 0 is v = Out_of_fuel"
| "parseArrayLoop pv (Suc n) is v =
     (case pv is VNull of
        Done ret temp is1 \<Rightarrow>
          (if ret \<noteq> PARSE_OK then Done ret v is1
           else
             (case addValue v temp of
                None \<Rightarrow> Assert_fail
              | Some v1 \<Rightarrow>
                  (let (c, is3) = next_char (parseWhitespace is1)
                   in if c = CHR '','' then parseArrayLoop pv n (parseWhitespace is3) v1
                      else if c = CHR '']'' then Done PARSE_OK v1 is3
                      else parseArrayLoop pv n is3 v1)))
      | r \<Rightarrow> r)"

definition parseArray :: "value_reader \<Rightarrow> nat \<Rightarrow> rstream \<Rightarrow> JValue \<Rightarrow> read_result" where
  "parseArray pv n is v =
     (case expect is (CHR ''['') of
        None \<Rightarrow> Assert_fail
      | Some is1 \<Rightarrow>
          (let is2 = parseWhitespace is1
           in if front is2 = CHR '']'' then Done PARSE_OK (setArray v) (pop is2)
              else parseArrayLoop pv n is2 (setArray v)))"

fun parseObjectLoop :: "value_reader \<Rightarrow> nat \<Rightarrow> rstream \<Rightarrow> JValue \<Rightarrow> read_result" where
  "parseObjectLoop pv 0 is v = Out_of_fuel"
| "parseObjectLoop pv (Suc n) is v =
     (if front is \<noteq> CHR 0x22 then Done PARSE_MISS_KEY v is
      else
        (case parseString is VNull of
           Done ret key is1 \<Rightarrow>
             (if ret \<noteq> PARSE_OK then Done ret v is1
              else
                (let (c, is2) = next_char (parseWhitespace is1)
                 in if c \<noteq> CHR '':'' then Done PARSE_MISS_COLON v is2
                    else
                      (case pv (parseWhitespace is2) VNull of
                         Done ret val is3 \<Rightarrow>
                           (if ret \<noteq> PARSE_OK then Done ret v is3
                            else
                              (case Option.bind (getString key) (\<lambda>k. addMember v k val) of
                                 None \<Rightarrow> Assert_fail
                               | Some v1 \<Rightarrow>
                                   (let is4 = parseWhitespace is3
                                    in if front is4 = CHR '','' then
                                         parseObjectLoop pv n (parseWhitespace (pop is4)) v1
                                       else if front is4 = CHR ''}'' then
                                         Done PARSE_OK v1 (pop is4)
                                       else Done PARSE_MISS_COMMA_OR_CURLY_BRACKET v1 is4)))
                       | r \<Rightarrow> r)))
         | r \<Rightarrow> r))"

definition parseObject :: "value_reader \<Rightarrow> nat \<Rightarrow> rstream \<Rightarrow> JValue \<Rightarrow> read_result" where
  "parseObject pv n is v =
     (case expect is (CHR ''{'') of
        None \<Rightarrow> Assert_fail
      | Some is1 \<Rightarrow>
          (let is2 = parseWhitespace is1
           in if front is2 = CHR ''}'' then Done PARSE_OK (setObject v) (pop is2)
              else parseObjectLoop pv n is2 (setObject v)))"

fun parseValue :: "nat \<Rightarrow> rstream \<Rightarrow> JValue \<Rightarrow> read_result" where
  "parseValue 0 is v = Out_of_fuel"
| "parseValue (Suc n) is v =
     (if front is = CHR ''n'' then parseLiteral is v ''null'' TYPE_NULL
      else if front is = CHR ''t'' then parseLiteral is v ''true'' TYPE_BOOL
      else if front is = CHR ''f'' then parseLiteral is v ''false'' TYPE_BOOL
      else if front is = CHR 0x22 then parseString is v
      else if front is = CHR ''['' then parseArray (parseValue n) n is v
      else if front is = CHR ''{'' then parseObject (parseValue n) n is v
      else parseNumber is v)"

definition fuel_for :: "rstream \<Rightarrow> nat" where
  "fuel_for is = Suc (length is)"

text \<open>
  \<open>parse is value\<close>: the error code and the caller's value afterwards; \<open>None\<close> if an
  assertion fails.
\<close>

definition parse :: "rstream \<Rightarrow> JValue \<Rightarrow> (ParseError \<times> JValue) option" where
  "parse is v =
     (let is1 = parseWhitespace is
      in case parseValue (fuel_for is1) is1 VNull of
           Done ret temp is2 \<Rightarrow>
             (if ret \<noteq> PARSE_OK then Some (ret, temp)
              else if hasNext (parseWhitespace is2) then Some (PARSE_ROOT_NOT_SINGULAR, v)
              else Some (PARSE_OK, temp))
         | _ \<Rightarrow> None)"

end
