(* ===== verification/RpcServer.thy ===== *)
theory RpcServer
  imports RpcService JsonReader
begin

text \<open>
  \<open>RpcServer/Server/RpcServer.cpp\<close>: validation of requests and notifications, the dispatch of
  \<open>service.method\<close> to a procedure, batches, and \<open>handleRequest\<close> on the text of a message.
  \<open>handleRequest\<close> and its helpers are runs: what they pass to \<open>done\<close> and how they end.
\<close>

section \<open>Queries on a request\<close>

definition isNotify :: "JValue \<Rightarrow> (rpc_exception, bool) outcome" where
  "isNotify value = of_option (map_option Not (hasMember value ''id''))"

definition hasParams :: "JValue \<Rightarrow> (rpc_exception, bool) outcome" where
  "hasParams value = of_option (hasMember value ''params'')"

definition findValue :: "JValue \<Rightarrow> string \<Rightarrow> ValueType \<Rightarrow> (rpc_exception, JValue) outcome" where
  "findValue cur key type =
     out_bind (of_option (hasMember cur key)) (\<lambda>has.
       if \<not> has then
         Throw (RequestException RPC_INVALID_REQUEST VNull (Freed (key @ '' key not exist'')))
       else out_bind (of_option (member_at cur key)) (\<lambda>val.
         if getType val \<noteq> type then
           Throw (RequestException RPC_INVALID_REQUEST VNull (Freed (key @ '' bad type'')))
         else Ret val))"

definition findString :: "JValue \<Rightarrow> string \<Rightarrow> (rpc_exception, string) outcome" where
  "findString cur key =
     out_bind (findValue cur key TYPE_STRING) (\<lambda>v. of_option (getString v))"

section \<open>Validation\<close>

definition validateRequest :: "JValue \<Rightarrow> (rpc_exception, unit) outcome" where
  "validateRequest request =
     out_bind (findValue request ''id'' TYPE_INT32) (\<lambda>id.
     out_bind (findString request ''jsonrpc'') (\<lambda>version.
       if version \<noteq> ''2.0'' then
         Throw (RequestException RPC_INVALID_REQUEST id
           (Literal ''jsonrpc version is unknown/unsupported''))
       else
     out_bind (findString request ''method'') (\<lambda>method.
       if method = ''rpc.'' then
         Throw (RequestException RPC_METHOD_NOT_FOUND id (Literal ''method name is internal use''))
       else
     out_bind (hasParams request) (\<lambda>ps.
       if getSize request \<noteq> 3 + (if ps then 1 else 0) then
         Throw (RequestException RPC_INVALID_REQUEST id (Literal ''unexpected field''))
       else Ret ()))))"

definition validateNotify :: "JValue \<Rightarrow> (rpc_exception, unit) outcome" where
  "validateNotify notify =
     out_bind (findString notify ''jsonrpc'') (\<lambda>version.
       if version \<noteq> ''2.0'' then
         Throw (NotifyException RPC_INVALID_REQUEST (Literal ''unknown json rpc version''))
       else
     out_bind (findString notify ''method'') (\<lambda>method.
       if method = ''rpc.'' then
         Throw (NotifyException RPC_METHOD_NOT_FOUND (Literal ''method name is internal use''))
       else
     out_bind (hasParams notify) (\<lambda>ps.
       if getSize notify \<noteq> 2 + (if ps then 1 else 0) then
         Throw (NotifyException RPC_INVALID_REQUEST (Literal ''unexpected field''))
       else Ret ())))"

section \<open>Dispatch\<close>

record RpcServer =
  services :: "string \<rightharpoonup> Service"

definition addService :: "string \<Rightarrow> Service \<Rightarrow> RpcServer \<Rightarrow> RpcServer option" where
  "addService serviceName service S =
     (case services S serviceName of
        None \<Rightarrow> Some (S\<lparr>services := (services S)(serviceName \<mapsto> service)\<rparr>)
      | Some _ \<Rightarrow> None)"

definition getMethod :: "JValue \<Rightarrow> (rpc_exception, string) outcome" where
  "getMethod request =
     out_bind (of_option (member_at request ''method'')) (\<lambda>v. of_option (getString v))"

definition handleRequestSingle :: "RpcServer \<Rightarrow> JValue \<Rightarrow> run" where
  "handleRequestSingle S request =
     run_bind (validateRequest request) (\<lambda>_.
     run_bind (of_option (member_at request ''id'')) (\<lambda>id.
     run_bind (getMethod request) (\<lambda>serviceMethod.
       let pos = str_find ''.'' serviceMethod
       in if pos = Some 0 \<or> pos = None then
            throws (RequestException RPC_INVALID_REQUEST id
              (Literal ''missing service name in method''))
          else
            (let p = the pos; serviceName = take p serviceMethod
             in case services S serviceName of
                  None \<Rightarrow>
                    throws (RequestException RPC_METHOD_NOT_FOUND id (Literal ''service not found''))
                | Some service \<Rightarrow>
                    if p = length serviceMethod - 1 then
                      throws (RequestException RPC_INVALID_REQUEST id
                        (Literal ''missing method name in method''))
                    else
                      (let methodName = drop (p + 1) serviceMethod
                       in if length methodName = 0 then
                            throws (RequestException RPC_INVALID_REQUEST id
                              (Literal ''missing method name in method''))
                          else callProcedureReturn service methodName request)))))"

definition handleNotifySingle :: "RpcServer \<Rightarrow> JValue \<Rightarrow> (rpc_exception, unit) outcome" where
  "handleNotifySingle S notify =
     out_bind (validateNotify notify) (\<lambda>_.
     out_bind (getMethod notify) (\<lambda>serviceMethod.
       let pos = str_find ''.'' serviceMethod
       in if pos = Some 0 \<or> pos = None then
            Throw (NotifyException RPC_INVALID_REQUEST (Literal ''missing service name in method''))
          else
            (let p = the pos; serviceName = take p serviceMethod
             in case services S serviceName of
                  None \<Rightarrow>
                    Throw (RequestException RPC_METHOD_NOT_FOUND VNull (Literal ''service not found''))
                | Some service \<Rightarrow>
                    if p = length serviceMethod - 1 then
                      Throw (NotifyException RPC_INVALID_REQUEST
                        (Literal ''missing method name in method''))
                    else
                      (let methodName = drop (p + 1) serviceMethod
                       in if length methodName = 0 then
                            Throw (NotifyException RPC_INVALID_REQUEST
                              (Literal ''missing method name in method''))
                          else callProcedureNotify service methodName notify))))"

section \<open>Batches\<close>

text \<open>
  \<open>BaseServer::wrapException\<close>: the error response. It has no \<open>id\<close>.
\<close>

definition wrapException :: "(string \<Rightarrow> string) \<Rightarrow> RpcError \<Rightarrow> detail \<Rightarrow> JValue option" where
  "wrapException freed err det =
     Option.bind (addMember_all (Value_of_type TYPE_OBJECT)
         [(''code'', VInt32 (asCode err)), (''message'', VString (asString err)),
          (''data'', VString (read_detail freed det))])
       (\<lambda>value. addMember_all (Value_of_type TYPE_OBJECT)
          [(''jsonrpc'', VString ''2.0''), (''error'', value)])"

definition handleOne :: "RpcServer \<Rightarrow> JValue \<Rightarrow> run" where
  "handleOne S request =
     (if \<not> isObject request then
        throws (RequestException RPC_INVALID_REQUEST VNull (Literal ''request should be json object''))
      else run_bind (isNotify request) (\<lambda>notify.
        if notify then run_bind (handleNotifySingle S request) (\<lambda>_. returns)
        else handleRequestSingle S request))"

fun batchLoop :: "RpcServer \<Rightarrow> JValue list \<Rightarrow> run" where
  "batchLoop S [] = returns"
| "batchLoop S (request # rest) = run_seq (handleOne S request) (batchLoop S rest)"

text \<open>
  \<open>ThreadSafeBatchResponse\<close>: the responses are collected, and the destructor of the last
  reference passes them to \<open>done\<close>, also after an exception.
\<close>

definition handleRequestBatch :: "(string \<Rightarrow> string) \<Rightarrow> RpcServer \<Rightarrow> JValue \<Rightarrow> run" where
  "handleRequestBatch freed S requests =
     (if getSize requests = 0 then
        throws (RequestException RPC_INVALID_REQUEST VNull (Literal ''batch request is empty''))
      else run_bind (of_option (getArray requests)) (\<lambda>vs.
        (case batchLoop S vs of
           (rs, Ret _) \<Rightarrow> ([VArray rs], Ret ())
         | (rs, Throw (RequestException err ident det)) \<Rightarrow>
             run_bind (of_option (wrapException freed err det)) (\<lambda>response.
               ([VArray (rs @ [response])], Ret ()))
         | (rs, Throw (NotifyException err det)) \<Rightarrow> ([VArray rs], Ret ())
         | (rs, Abort) \<Rightarrow> aborts)))"

definition handleRequest :: "(string \<Rightarrow> string) \<Rightarrow> RpcServer \<Rightarrow> string \<Rightarrow> run" where
  "handleRequest freed S json =
     (case parse json VNull of
        None \<Rightarrow> aborts
      | Some (err, value) \<Rightarrow>
          if err \<noteq> PARSE_OK then
            throws (RequestException RPC_PARSE_ERROR VNull (Literal (parseErrorStr err)))
          else
            (case getType value of
               TYPE_OBJECT \<Rightarrow>
                 run_bind (isNotify value) (\<lambda>notify.
                   if notify then run_bind (handleNotifySingle S value) (\<lambda>_. returns)
                   else handleRequestSingle S value)
             | TYPE_ARRAY \<Rightarrow> handleRequestBatch freed S value
             | _ \<Rightarrow> throws (RequestException RPC_INVALID_REQUEST VNull
                 (Literal ''request should be json object or array''))))"

section \<open>Validation, declaratively\<close>

definition has_type :: "member_list \<Rightarrow> string \<Rightarrow> ValueType \<Rightarrow> bool" where
  "has_type ms k t \<longleftrightarrow> map_option getType (map_of ms k) = Some t"

definition expected_size :: "nat \<Rightarrow> member_list \<Rightarrow> nat" where
  "expected_size n ms = n + (if map_of ms ''params'' = None then 0 else 1)"

text \<open>The fields that a request and a notification share.\<close>

definition call_fields :: "member_list \<Rightarrow> bool" where
  "call_fields ms \<longleftrightarrow> map_of ms ''jsonrpc'' = Some (VString ''2.0'') \<and> has_type ms ''method'' TYPE_STRING
     \<and> map_of ms ''method'' \<noteq> Some (VString ''rpc.'')"

definition valid_request :: "member_list \<Rightarrow> bool" where
  "valid_request ms \<longleftrightarrow> has_type ms ''id'' TYPE_INT32 \<and> call_fields ms \<and> length ms = expected_size 3 ms"

definition valid_notify :: "member_list \<Rightarrow> bool" where
  "valid_notify ms \<longleftrightarrow> call_fields ms \<and> length ms = expected_size 2 ms"

lemma getType_eq_iff [simp]:
  "getType v = TYPE_STRING \<longleftrightarrow> (\<exists>s. v = VString s)"
  "getType v = TYPE_INT32 \<longleftrightarrow> (\<exists>i. v = VInt32 i)"
  "getType v = TYPE_OBJECT \<longleftrightarrow> (\<exists>ms. v = VObject ms)"
  "getType v = TYPE_ARRAY \<longleftrightarrow> (\<exists>vs. v = VArray vs)"
  by (cases v; simp)+

lemma findValue_object:
  "findValue (VObject ms) k t =
     (case map_of ms k of
        None \<Rightarrow> Throw (RequestException RPC_INVALID_REQUEST VNull (Freed (k @ '' key not exist'')))
      | Some v \<Rightarrow> if getType v = t then Ret v
          else Throw (RequestException RPC_INVALID_REQUEST VNull (Freed (k @ '' bad type''))))"
  by (auto simp: findValue_def split: option.splits)

lemma findString_object:
  "findString (VObject ms) k =
     (case map_of ms k of
        None \<Rightarrow> Throw (RequestException RPC_INVALID_REQUEST VNull (Freed (k @ '' key not exist'')))
      | Some (VString s) \<Rightarrow> Ret s
      | Some v \<Rightarrow> Throw (RequestException RPC_INVALID_REQUEST VNull (Freed (k @ '' bad type''))))"
  by (auto simp: findString_def findValue_object split: option.splits JValue.splits)

text \<open>
  A validation failure is a \<open>RequestException\<close> with the request's id, or with null and a
  dangling detail, or (of a notification) a \<open>NotifyException\<close>.
\<close>

definition rejects :: "('e, 'a) outcome \<Rightarrow> bool" where
  "rejects r \<longleftrightarrow> (\<exists>e. r = Throw e)"

lemma rejects_simps [simp]: "rejects (Throw e)" "\<not> rejects (Ret x)" "\<not> rejects Abort"
  by (auto simp: rejects_def)

lemma validateRequest_iff:
  "validateRequest (VObject ms) = Ret () \<longleftrightarrow> valid_request ms"
  "rejects (validateRequest (VObject ms)) \<longleftrightarrow> \<not> valid_request ms"
  by (auto simp: validateRequest_def findValue_object findString_object hasParams_def
      valid_request_def has_type_def call_fields_def expected_size_def
      split: option.splits JValue.splits)

lemma validateNotify_iff:
  "validateNotify (VObject ms) = Ret () \<longleftrightarrow> valid_notify ms"
  "rejects (validateNotify (VObject ms)) \<longleftrightarrow> \<not> valid_notify ms"
  by (auto simp: validateNotify_def findString_object hasParams_def
      valid_notify_def has_type_def call_fields_def expected_size_def
      split: option.splits JValue.splits)

end
