(* ===== verification/JsonWriter.thy ===== *)
theory JsonWriter
  imports JsonValue
begin

text \<open>
  \<open>JsonServer/WriteStream.h\<close>, \<open>FastWriter.h\<close>, \<open>StyleWriter.h\<close> and \<open>Value::writeTo\<close>. A
  writer's method returns the writer updated, or \<open>None\<close> if one of its assertions fails; all
  methods return \<open>true\<close>. The two writers are the same template parameter of \<open>writeTo\<close>, so
  their methods form the record \<open>writer_ops\<close> and the locale \<open>json_writer\<close> states what
  \<open>writeTo\<close> needs of them: each call puts a separator, its token and some layout.
\<close>

section \<open>StringWriteStream\<close>

type_synonym wstream = string

definition put_char :: "wstream \<Rightarrow> char \<Rightarrow> wstream" where "put_char ws c = ws @ [c]"
definition put :: "wstream \<Rightarrow> string \<Rightarrow> wstream" where "put ws s = ws @ s"
definition ws_get :: "wstream \<Rightarrow> string" where "ws_get ws = ws"

lemmas put_defs = put_char_def put_def ws_get_def

section \<open>FastWriter\<close>

text \<open>
  \<open>stack_.back()\<close> is the head of the list \<open>stack\<close>. The counters \<open>valueCount\<close> and
  \<open>indentDepth\<close> are \<open>int\<close> in the code; their overflow, which needs \<open>2 ^ 31\<close> values in one array
  or object, or so many levels, is not modelled.
\<close>

record Level =
  inArray :: bool
  valueCount :: nat

definition new_level :: "bool \<Rightarrow> Level" where
  "new_level b = \<lparr>inArray = b, valueCount = 0\<rparr>"

record FastWriter =
  seeValue :: bool
  stack :: "Level list"
  stream :: wstream

definition FastWriter_new :: "wstream \<Rightarrow> FastWriter" where
  "FastWriter_new s = \<lparr>seeValue = False, stack = [], stream = s\<rparr>"

definition fw_put :: "string \<Rightarrow> FastWriter \<Rightarrow> FastWriter" where
  "fw_put s w = w\<lparr>stream := put (stream w) s\<rparr>"

definition fw_prefix :: "ValueType \<Rightarrow> FastWriter \<Rightarrow> FastWriter option" where
  "fw_prefix type w =
     (if seeValue w \<and> stack w = [] then None
      else
        (let w1 = w\<lparr>seeValue := True\<rparr>
         in case stack w1 of
              [] \<Rightarrow> Some w1
            | lv # ls \<Rightarrow>
                (let bump = (\<lambda>x. x\<lparr>stack := lv\<lparr>valueCount := valueCount lv + 1\<rparr> # ls\<rparr>)
                 in if inArray lv then
                      Some (bump (if valueCount lv > 0 then fw_put '','' w1 else w1))
                    else if valueCount lv mod 2 = 1 then Some (bump (fw_put '':'' w1))
                    else if type \<noteq> TYPE_STRING then None
                    else Some (bump (if valueCount lv > 0 then fw_put '','' w1 else w1)))))"

definition hex_char :: "nat \<Rightarrow> char" where
  "hex_char d = (if d < 10 then char_of (48 + d) else char_of (87 + d))"

definition format_04x :: "nat \<Rightarrow> string" where
  "format_04x u = map hex_char [u div 4096 mod 16, u div 256 mod 16, u div 16 mod 16, u mod 16]"

definition escape :: "char \<Rightarrow> string" where
  "escape u =
     (if u = CHR 0x22 then [CHR 0x5C, CHR 0x22]
      else if u = CHR 0x5C then [CHR 0x5C, CHR 0x5C]
      else if u = CHR 0x08 then [CHR 0x5C, CHR ''b'']
      else if u = CHR 0x0C then [CHR 0x5C, CHR ''f'']
      else if u = CHR 0x0A then [CHR 0x5C, CHR ''n'']
      else if u = CHR 0x0D then [CHR 0x5C, CHR ''r'']
      else if u = CHR 0x09 then [CHR 0x5C, CHR ''t'']
      else if u < CHR 0x20 then [CHR 0x5C, CHR ''u''] @ format_04x (of_char u)
      else [u])"

definition fw_Null :: "FastWriter \<Rightarrow> FastWriter option" where
  "fw_Null w = map_option (fw_put ''null'') (fw_prefix TYPE_NULL w)"

definition fw_Bool :: "bool \<Rightarrow> FastWriter \<Rightarrow> FastWriter option" where
  "fw_Bool b w = map_option (fw_put (if b then ''true'' else ''false'')) (fw_prefix TYPE_BOOL w)"

definition fw_Int32 :: "32 word \<Rightarrow> FastWriter \<Rightarrow> FastWriter option" where
  "fw_Int32 i w = map_option (fw_put (int_to_string (sint i) @ ''i32'')) (fw_prefix TYPE_INT32 w)"

definition fw_Int64 :: "64 word \<Rightarrow> FastWriter \<Rightarrow> FastWriter option" where
  "fw_Int64 i w = map_option (fw_put (int_to_string (sint i) @ ''i64'')) (fw_prefix TYPE_INT64 w)"

definition fw_Double :: "double \<Rightarrow> FastWriter \<Rightarrow> FastWriter option" where
  "fw_Double d w = map_option (fw_put (double_to_string d)) (fw_prefix TYPE_DOUBLE w)"

definition fw_String :: "string \<Rightarrow> FastWriter \<Rightarrow> FastWriter option" where
  "fw_String s w =
     map_option (\<lambda>w1. fw_put [CHR 0x22] (foldl (\<lambda>x c. fw_put (escape c) x) (fw_put [CHR 0x22] w1) s))
       (fw_prefix TYPE_STRING w)"

definition fw_StartArray :: "FastWriter \<Rightarrow> FastWriter option" where
  "fw_StartArray w =
     map_option (\<lambda>w1. fw_put ''['' (w1\<lparr>stack := new_level True # stack w1\<rparr>)) (fw_prefix TYPE_ARRAY w)"

definition fw_EndArray :: "FastWriter \<Rightarrow> FastWriter option" where
  "fw_EndArray w =
     (case stack w of
        [] \<Rightarrow> None
      | lv # ls \<Rightarrow> if \<not> inArray lv then None else Some (fw_put '']'' (w\<lparr>stack := ls\<rparr>)))"

definition fw_StartObject :: "FastWriter \<Rightarrow> FastWriter option" where
  "fw_StartObject w =
     map_option (\<lambda>w1. fw_put ''{'' (w1\<lparr>stack := new_level False # stack w1\<rparr>)) (fw_prefix TYPE_OBJECT w)"

definition fw_EndObject :: "FastWriter \<Rightarrow> FastWriter option" where
  "fw_EndObject w =
     (case stack w of
        [] \<Rightarrow> None
      | lv # ls \<Rightarrow> if inArray lv then None else Some (fw_put ''}'' (w\<lparr>stack := ls\<rparr>)))"

definition fw_Key :: "string \<Rightarrow> FastWriter \<Rightarrow> FastWriter option" where
  "fw_Key key w =
     map_option (\<lambda>w1. fw_put [CHR 0x22] (fw_put key (fw_put [CHR 0x22] w1))) (fw_prefix TYPE_STRING w)"

section \<open>StyleWriter\<close>

text \<open>Its \<open>ws_\<close> is the stream of its \<open>fw_\<close>.\<close>

record StyleWriter =
  indentDepth :: int
  indent :: string
  fw :: FastWriter

definition StyleWriter_new :: "wstream \<Rightarrow> string \<Rightarrow> StyleWriter" where
  "StyleWriter_new s i = \<lparr>indentDepth = 0, indent = i, fw = FastWriter_new s\<rparr>"

definition sw_put :: "string \<Rightarrow> StyleWriter \<Rightarrow> StyleWriter" where
  "sw_put s w = w\<lparr>fw := fw_put s (fw w)\<rparr>"

definition putNewLine :: "StyleWriter \<Rightarrow> StyleWriter" where
  "putNewLine w = sw_put [CHR 0x0A] w"

definition putIndent :: "StyleWriter \<Rightarrow> StyleWriter" where
  "putIndent w = (sw_put (indent w) ^^ nat (indentDepth w)) w"

definition keepIndent :: "StyleWriter \<Rightarrow> StyleWriter" where
  "keepIndent w = (if indentDepth w > 0 then putIndent (putNewLine w) else w)"

definition incrIndent :: "StyleWriter \<Rightarrow> StyleWriter" where
  "incrIndent w = keepIndent (w\<lparr>indentDepth := indentDepth w + 1\<rparr>)"

definition decrIndent :: "StyleWriter \<Rightarrow> StyleWriter option" where
  "decrIndent w =
     (if \<not> indentDepth w > 0 then None
      else Some (keepIndent (w\<lparr>indentDepth := indentDepth w - 1\<rparr>)))"

text \<open>A call of one of \<open>fw_\<close>'s methods.\<close>

definition on_fw :: "(FastWriter \<Rightarrow> FastWriter option) \<Rightarrow> StyleWriter \<Rightarrow> StyleWriter option" where
  "on_fw f w = map_option (\<lambda>x. w\<lparr>fw := x\<rparr>) (f (fw w))"

definition sw_Null :: "StyleWriter \<Rightarrow> StyleWriter option" where
  "sw_Null w = map_option keepIndent (on_fw fw_Null w)"

definition sw_Bool :: "bool \<Rightarrow> StyleWriter \<Rightarrow> StyleWriter option" where
  "sw_Bool b w = map_option keepIndent (on_fw (fw_Bool b) w)"

definition sw_Int32 :: "32 word \<Rightarrow> StyleWriter \<Rightarrow> StyleWriter option" where
  "sw_Int32 i w = map_option keepIndent (on_fw (fw_Int32 i) w)"

definition sw_Int64 :: "64 word \<Rightarrow> StyleWriter \<Rightarrow> StyleWriter option" where
  "sw_Int64 i w = map_option keepIndent (on_fw (fw_Int64 i) w)"

definition sw_Double :: "double \<Rightarrow> StyleWriter \<Rightarrow> StyleWriter option" where
  "sw_Double d w = map_option keepIndent (on_fw (fw_Double d) w)"

definition sw_String :: "string \<Rightarrow> StyleWriter \<Rightarrow> StyleWriter option" where
  "sw_String s w = map_option keepIndent (on_fw (fw_String s) w)"

definition sw_StartArray :: "StyleWriter \<Rightarrow> StyleWriter option" where
  "sw_StartArray w = map_option incrIndent (on_fw fw_StartArray w)"

definition sw_EndArray :: "StyleWriter \<Rightarrow> StyleWriter option" where
  "sw_EndArray w = Option.bind (decrIndent w) (on_fw fw_EndArray)"

definition sw_StartObject :: "StyleWriter \<Rightarrow> StyleWriter option" where
  "sw_StartObject w = map_option incrIndent (on_fw fw_StartObject w)"

definition sw_EndObject :: "StyleWriter \<Rightarrow> StyleWriter option" where
  "sw_EndObject w = Option.bind (decrIndent w) (on_fw fw_EndObject)"

definition sw_Key :: "string \<Rightarrow> StyleWriter \<Rightarrow> StyleWriter option" where
  "sw_Key key w = on_fw (fw_Key key) (keepIndent w)"

section \<open>writeTo\<close>

record 'w writer_ops =
  Null :: "'w \<Rightarrow> 'w option"
  Bool :: "bool \<Rightarrow> 'w \<Rightarrow> 'w option"
  Int32 :: "32 word \<Rightarrow> 'w \<Rightarrow> 'w option"
  Int64 :: "64 word \<Rightarrow> 'w \<Rightarrow> 'w option"
  Double :: "double \<Rightarrow> 'w \<Rightarrow> 'w option"
  Str :: "string \<Rightarrow> 'w \<Rightarrow> 'w option"
  StartArray :: "'w \<Rightarrow> 'w option"
  EndArray :: "'w \<Rightarrow> 'w option"
  StartObject :: "'w \<Rightarrow> 'w option"
  EndObject :: "'w \<Rightarrow> 'w option"
  Key :: "string \<Rightarrow> 'w \<Rightarrow> 'w option"

definition fast_ops :: "FastWriter writer_ops" where
  "fast_ops = \<lparr>Null = fw_Null, Bool = fw_Bool, Int32 = fw_Int32, Int64 = fw_Int64,
     Double = fw_Double, Str = fw_String, StartArray = fw_StartArray, EndArray = fw_EndArray,
     StartObject = fw_StartObject, EndObject = fw_EndObject, Key = fw_Key\<rparr>"

definition style_ops :: "StyleWriter writer_ops" where
  "style_ops = \<lparr>Null = sw_Null, Bool = sw_Bool, Int32 = sw_Int32, Int64 = sw_Int64,
     Double = sw_Double, Str = sw_String, StartArray = sw_StartArray, EndArray = sw_EndArray,
     StartObject = sw_StartObject, EndObject = sw_EndObject, Key = sw_Key\<rparr>"

fun writeTo :: "'w writer_ops \<Rightarrow> JValue \<Rightarrow> 'w \<Rightarrow> 'w option"
  and writeElems :: "'w writer_ops \<Rightarrow> JValue list \<Rightarrow> 'w \<Rightarrow> 'w option"
  and writeMembers :: "'w writer_ops \<Rightarrow> (string \<times> JValue) list \<Rightarrow> 'w \<Rightarrow> 'w option"
where
  "writeTo ops VNull w = Null ops w"
| "writeTo ops (VBool b) w = Bool ops b w"
| "writeTo ops (VInt32 i) w = Int32 ops i w"
| "writeTo ops (VInt64 i) w = Int64 ops i w"
| "writeTo ops (VDouble d) w = Double ops d w"
| "writeTo ops (VString s) w = Str ops s w"
| "writeTo ops (VArray vs) w =
     Option.bind (StartArray ops w) (\<lambda>w1. Option.bind (writeElems ops vs w1) (EndArray ops))"
| "writeTo ops (VObject ms) w =
     Option.bind (StartObject ops w) (\<lambda>w1. Option.bind (writeMembers ops ms w1) (EndObject ops))"
| "writeElems ops [] w = Some w"
| "writeElems ops (v # vs) w = Option.bind (writeTo ops v w) (writeElems ops vs)"
| "writeMembers ops [] w = Some w"
| "writeMembers ops ((k, v) # ms) w =
     Option.bind (Key ops k w) (\<lambda>w1. Option.bind (writeTo ops v w1) (writeMembers ops ms))"


section \<open>The text of a value\<close>

text \<open>
  What a writer writes for a value, given the whitespace \<open>nl d\<close> it puts at depth \<open>d\<close>: after
  a scalar, after an opening bracket, and before a key or a closing bracket.
\<close>

definition quoted :: "string \<Rightarrow> string" where "quoted s = CHR 0x22 # s @ [CHR 0x22]"

fun scalar_text :: "JValue \<Rightarrow> string" where
  "scalar_text VNull = ''null''"
| "scalar_text (VBool b) = (if b then ''true'' else ''false'')"
| "scalar_text (VInt32 i) = int_to_string (sint i) @ ''i32''"
| "scalar_text (VInt64 i) = int_to_string (sint i) @ ''i64''"
| "scalar_text (VDouble d) = double_to_string d"
| "scalar_text (VString s) = quoted (concat (map escape s))"
| "scalar_text _ = []"

definition is_scalar :: "JValue \<Rightarrow> bool" where
  "is_scalar v \<longleftrightarrow> \<not> isArray v \<and> \<not> isObject v"

fun layout :: "(nat \<Rightarrow> string) \<Rightarrow> nat \<Rightarrow> JValue \<Rightarrow> string"
  and layout_elems :: "(nat \<Rightarrow> string) \<Rightarrow> nat \<Rightarrow> bool \<Rightarrow> JValue list \<Rightarrow> string"
  and layout_members :: "(nat \<Rightarrow> string) \<Rightarrow> nat \<Rightarrow> bool \<Rightarrow> (string \<times> JValue) list \<Rightarrow> string"
where
  "layout nl d (VArray vs) =
     ''['' @ nl (Suc d) @ layout_elems nl (Suc d) True vs @ nl d @ '']''"
| "layout nl d (VObject ms) =
     ''{'' @ nl (Suc d) @ layout_members nl (Suc d) True ms @ nl d @ ''}''"
| "layout nl d v = scalar_text v @ nl d"
| "layout_elems nl d first [] = []"
| "layout_elems nl d first (v # vs) =
     (if first then [] else '','') @ layout nl d v @ layout_elems nl d False vs"
| "layout_members nl d first [] = []"
| "layout_members nl d first ((k, v) # ms) =
     nl d @ (if first then [] else '','') @ quoted k @ '':'' @ layout nl d v
       @ layout_members nl d False ms"

text \<open>The effect of \<open>prefix\<close> on the text and on the levels.\<close>

fun sep :: "Level list \<Rightarrow> string" where
  "sep [] = []"
| "sep (l # ls) =
     (if \<not> inArray l \<and> odd (valueCount l) then '':''
      else if valueCount l > 0 then '','' else [])"

fun bump :: "Level list \<Rightarrow> Level list" where
  "bump [] = []"
| "bump (l # ls) = l\<lparr>valueCount := valueCount l + 1\<rparr> # ls"

fun expects_value :: "bool \<Rightarrow> Level list \<Rightarrow> bool" where
  "expects_value fresh [] \<longleftrightarrow> fresh"
| "expects_value fresh (l # ls) \<longleftrightarrow> inArray l \<or> odd (valueCount l)"

fun expects_key :: "Level list \<Rightarrow> bool" where
  "expects_key [] \<longleftrightarrow> False"
| "expects_key (l # ls) \<longleftrightarrow> \<not> inArray l \<and> even (valueCount l)"

text \<open>
  The call \<open>r\<close> in the state \<open>w\<close> succeeds, keeps the invariant, appends \<open>s\<close> and leaves the
  levels \<open>ls\<close>.
\<close>

definition emits :: "('w \<Rightarrow> bool) \<Rightarrow> ('w \<Rightarrow> string) \<Rightarrow> ('w \<Rightarrow> Level list) \<Rightarrow>
    'w \<Rightarrow> string \<Rightarrow> Level list \<Rightarrow> 'w option \<Rightarrow> bool" where
  "emits ok out levels w s ls r \<longleftrightarrow>
     (\<exists>w'. r = Some w' \<and> ok w' \<and> out w' = out w @ s \<and> levels w' = ls)"

lemma emits_bind:
  assumes "emits ok out levels w s ls r"
    and "\<And>w1. ok w1 \<Longrightarrow> levels w1 = ls \<Longrightarrow> emits ok out levels w1 s' ls' (f w1)"
    and "t = s @ s'"
  shows "emits ok out levels w t ls' (Option.bind r f)"
  using assms by (fastforce simp: emits_def)

lemma length_bump [simp]: "length (bump ls) = length ls"
  by (cases ls) auto

lemma layout_scalar: "is_scalar v \<Longrightarrow> layout nl d v = scalar_text v @ nl d"
  by (cases v) (simp_all add: is_scalar_def is_type_defs)

section \<open>The interface of a writer\<close>

locale json_writer =
  fixes ops :: "'w writer_ops"
    and ok :: "'w \<Rightarrow> bool" and out :: "'w \<Rightarrow> string" and levels :: "'w \<Rightarrow> Level list"
    and fresh :: "'w \<Rightarrow> bool" and nl :: "nat \<Rightarrow> string"
  assumes scalar: "ok w \<Longrightarrow> expects_value (fresh w) (levels w) \<Longrightarrow> is_scalar v \<Longrightarrow>
      emits ok out levels w (sep (levels w) @ scalar_text v @ nl (length (levels w)))
        (bump (levels w)) (writeTo ops v w)"
    and start_array: "ok w \<Longrightarrow> expects_value (fresh w) (levels w) \<Longrightarrow>
      emits ok out levels w (sep (levels w) @ ''['' @ nl (Suc (length (levels w))))
        (new_level True # bump (levels w)) (StartArray ops w)"
    and end_array: "ok w \<Longrightarrow> levels w = l # ls \<Longrightarrow> inArray l \<Longrightarrow>
      emits ok out levels w (nl (length ls) @ '']'') ls (EndArray ops w)"
    and start_object: "ok w \<Longrightarrow> expects_value (fresh w) (levels w) \<Longrightarrow>
      emits ok out levels w (sep (levels w) @ ''{'' @ nl (Suc (length (levels w))))
        (new_level False # bump (levels w)) (StartObject ops w)"
    and end_object: "ok w \<Longrightarrow> levels w = l # ls \<Longrightarrow> \<not> inArray l \<Longrightarrow>
      emits ok out levels w (nl (length ls) @ ''}'') ls (EndObject ops w)"
    and key: "ok w \<Longrightarrow> expects_key (levels w) \<Longrightarrow>
      emits ok out levels w (nl (length (levels w)) @ sep (levels w) @ quoted k)
        (bump (levels w)) (Key ops k w)"
begin

definition writes :: "JValue \<Rightarrow> bool" where
  "writes v \<longleftrightarrow> (\<forall>w. ok w \<longrightarrow> expects_value (fresh w) (levels w) \<longrightarrow>
     emits ok out levels w (sep (levels w) @ layout nl (length (levels w)) v) (bump (levels w))
       (writeTo ops v w))"

lemma writesD:
  "writes v \<Longrightarrow> ok w \<Longrightarrow> expects_value (fresh w) (levels w) \<Longrightarrow>
     emits ok out levels w (sep (levels w) @ layout nl (length (levels w)) v) (bump (levels w))
       (writeTo ops v w)"
  unfolding writes_def by blast

lemma writes_scalar: "is_scalar v \<Longrightarrow> writes v"
  using scalar by (simp add: writes_def layout_scalar)

lemma write_elems:
  assumes "\<And>v. v \<in> set vs \<Longrightarrow> writes v" "ok w" "levels w = l # ls" "inArray l"
  shows "emits ok out levels w (layout_elems nl (Suc (length ls)) (valueCount l = 0) vs)
       (l\<lparr>valueCount := valueCount l + length vs\<rparr> # ls) (writeElems ops vs w)"
  using assms
proof (induction vs arbitrary: w l)
  case Nil
  then show ?case by (simp add: emits_def)
next
  case (Cons v vs)
  let ?l = "l\<lparr>valueCount := valueCount l + 1\<rparr>"
  have "emits ok out levels w (sep (l # ls) @ layout nl (Suc (length ls)) v) (?l # ls) (writeTo ops v w)"
    using writesD [OF Cons.prems(1) [of v] Cons.prems(2)] Cons.prems(3,4) by simp
  then show ?case
    using Cons.IH [of _ ?l] Cons.prems
    by (auto intro!: emits_bind)
qed

lemma write_members:
  assumes "\<And>k v. (k, v) \<in> set ms \<Longrightarrow> writes v" "ok w" "levels w = l # ls" "\<not> inArray l"
    "even (valueCount l)"
  shows "emits ok out levels w (layout_members nl (Suc (length ls)) (valueCount l = 0) ms)
       (l\<lparr>valueCount := valueCount l + 2 * length ms\<rparr> # ls) (writeMembers ops ms w)"
  using assms
proof (induction ms arbitrary: w l)
  case Nil
  then show ?case by (simp add: emits_def)
next
  case (Cons m ms)
  obtain k v where m: "m = (k, v)" by fastforce
  let ?l1 = "l\<lparr>valueCount := valueCount l + 1\<rparr>" and ?l2 = "l\<lparr>valueCount := valueCount l + 2\<rparr>"
  let ?d = "Suc (length ls)"
  have pre: "writes v" if "(k, v) \<in> set ms" for k v
    using Cons.prems(1) that by auto
  have key: "emits ok out levels w (nl ?d @ sep (l # ls) @ quoted k) (?l1 # ls) (Key ops k w)"
    using key [of w k] Cons.prems(2-5) by simp
  have val: "emits ok out levels w1 ('':'' @ layout nl ?d v) (?l2 # ls) (writeTo ops v w1)"
    if "ok w1" "levels w1 = ?l1 # ls" for w1
    using writesD [OF Cons.prems(1) [of k v] that(1)] Cons.prems(4,5) that(2) by (simp add: m)
  have rest: "emits ok out levels w2 (layout_members nl ?d False ms)
      (l\<lparr>valueCount := valueCount l + 2 * length ((k, v) # ms)\<rparr> # ls) (writeMembers ops ms w2)"
    if "ok w2" "levels w2 = ?l2 # ls" for w2
    using Cons.IH [of w2 ?l2, OF pre that(1)] Cons.prems(4,5) that(2) by (simp add: m)
  show ?case
    unfolding m writeMembers.simps
    by (rule emits_bind [OF key emits_bind [OF val rest refl]])
      (use Cons.prems(4,5) in \<open>auto simp: m\<close>)
qed

lemma writes_all: "writes v"
proof (induction v)
  case (VArray vs)
  show ?case
    unfolding writes_def writeTo.simps
  proof (intro allI impI)
    fix w assume w: "ok w" "expects_value (fresh w) (levels w)"
    show "emits ok out levels w (sep (levels w) @ layout nl (length (levels w)) (VArray vs))
       (bump (levels w)) (Option.bind (StartArray ops w) (\<lambda>w1. Option.bind (writeElems ops vs w1) (EndArray ops)))"
      by (rule emits_bind [OF start_array [OF w] emits_bind [OF write_elems [OF VArray] end_array refl]])
        (auto simp: new_level_def)
  qed
next
  case (VObject ms)
  then have IH: "(k, v) \<in> set ms \<Longrightarrow> writes v" for k v by fastforce
  show ?case
    unfolding writes_def writeTo.simps
  proof (intro allI impI)
    fix w assume w: "ok w" "expects_value (fresh w) (levels w)"
    show "emits ok out levels w (sep (levels w) @ layout nl (length (levels w)) (VObject ms))
       (bump (levels w)) (Option.bind (StartObject ops w) (\<lambda>w1. Option.bind (writeMembers ops ms w1) (EndObject ops)))"
      by (rule emits_bind [OF start_object [OF w] emits_bind [OF write_members [OF IH] end_object refl]])
        (auto simp: new_level_def)
  qed
qed (auto intro!: writes_scalar simp: is_scalar_def is_type_defs)

text \<open>\<open>writeTo\<close> fails no assertion and writes the layout.\<close>

lemma write_root:
  assumes "ok w" "fresh w" "levels w = []"
  shows "\<exists>w'. writeTo ops v w = Some w' \<and> out w' = out w @ layout nl 0 v \<and> levels w' = []"
  using writesD [OF writes_all, of w v] assms by (auto simp: emits_def)

end

section \<open>Both writers provide it\<close>

lemma fold_escape:
  "foldl (\<lambda>x c. fw_put (escape c) x) w s = fw_put (concat (map escape s)) w"
  by (induction s arbitrary: w) (simp_all add: fw_put_def put_def)

lemma fw_prefix_ok:
  assumes "expects_value (\<not> seeValue w) (stack w) \<or> type = TYPE_STRING \<and> expects_key (stack w)"
  shows "fw_prefix type w =
    Some (w\<lparr>seeValue := True, stack := bump (stack w), stream := stream w @ sep (stack w)\<rparr>)"
  using assms
  by (cases "stack w") (auto simp: fw_prefix_def fw_put_def put_def Let_def odd_iff_mod_2_eq_one)

lemma fw_String_eq:
  "fw_String s w = map_option (fw_put (quoted (concat (map escape s)))) (fw_prefix TYPE_STRING w)"
  by (cases "fw_prefix TYPE_STRING w")
    (simp_all add: fw_String_def fold_escape, simp add: fw_put_def put_def quoted_def)

lemmas fw_op_defs =
  fw_Null_def fw_Bool_def fw_Int32_def fw_Int64_def fw_Double_def fw_String_eq fw_StartArray_def
  fw_EndArray_def fw_StartObject_def fw_EndObject_def fw_Key_def

lemmas sw_op_defs =
  sw_Null_def sw_Bool_def sw_Int32_def sw_Int64_def sw_Double_def sw_String_def sw_StartArray_def
  sw_EndArray_def sw_StartObject_def sw_EndObject_def sw_Key_def

interpretation fast: json_writer fast_ops "\<lambda>_. True" stream stack "\<lambda>w. \<not> seeValue w" "\<lambda>_. []"
proof (unfold_locales, goal_cases)
  case (1 w v)
  then show ?case
    by (cases v) (simp_all add: emits_def fast_ops_def fw_op_defs fw_prefix_ok fw_put_def
      put_def is_scalar_def is_type_defs)
qed (auto simp: emits_def fast_ops_def fw_op_defs fw_prefix_ok fw_put_def put_def quoted_def)

definition style_nl :: "string \<Rightarrow> nat \<Rightarrow> string" where
  "style_nl i d = (if d = 0 then [] else CHR 0x0A # concat (replicate d i))"

definition style_ok :: "string \<Rightarrow> StyleWriter \<Rightarrow> bool" where
  "style_ok i w \<longleftrightarrow> indent w = i \<and> indentDepth w = int (length (stack (fw w)))"


lemma sw_put_fields [simp]:
  "indentDepth (sw_put s w) = indentDepth w" "indent (sw_put s w) = indent w"
  "stack (fw (sw_put s w)) = stack (fw w)" "seeValue (fw (sw_put s w)) = seeValue (fw w)"
  "stream (fw (sw_put s w)) = stream (fw w) @ s"
  by (simp_all add: sw_put_def fw_put_def put_def)

lemma sw_put_pow [simp]:
  "indentDepth ((sw_put s ^^ n) w) = indentDepth w" "indent ((sw_put s ^^ n) w) = indent w"
  "stack (fw ((sw_put s ^^ n) w)) = stack (fw w)"
  "seeValue (fw ((sw_put s ^^ n) w)) = seeValue (fw w)"
  "stream (fw ((sw_put s ^^ n) w)) = stream (fw w) @ concat (replicate n s)"
  by (induction n arbitrary: w) (simp_all add: funpow_swap1)

lemma keepIndent_fields [simp]:
  "indentDepth (keepIndent w) = indentDepth w" "indent (keepIndent w) = indent w"
  "stack (fw (keepIndent w)) = stack (fw w)" "seeValue (fw (keepIndent w)) = seeValue (fw w)"
  "stream (fw (keepIndent w)) = stream (fw w) @ style_nl (indent w) (nat (indentDepth w))"
  by (simp_all add: keepIndent_def putIndent_def putNewLine_def style_nl_def)

interpretation style: json_writer style_ops "style_ok i" "\<lambda>w. stream (fw w)" "\<lambda>w. stack (fw w)"
  "\<lambda>w. \<not> seeValue (fw w)" "style_nl i"
  for i
proof (unfold_locales, goal_cases)
  case (1 w v)
  then show ?case
    by (cases v) (simp_all add: emits_def style_ops_def sw_op_defs on_fw_def fw_op_defs fw_prefix_ok
      fw_put_def put_def style_ok_def is_scalar_def is_type_defs)
next
  case (2 w)
  then show ?case
    by (simp add: emits_def style_ops_def sw_op_defs on_fw_def fw_op_defs fw_prefix_ok incrIndent_def
      fw_put_def put_def style_ok_def nat_add_distrib)
next
  case (3 w l ls)
  then show ?case
    by (simp add: emits_def style_ops_def sw_op_defs on_fw_def fw_op_defs decrIndent_def
      fw_put_def put_def style_ok_def)
next
  case (4 w)
  then show ?case
    by (simp add: emits_def style_ops_def sw_op_defs on_fw_def fw_op_defs fw_prefix_ok incrIndent_def
      fw_put_def put_def style_ok_def nat_add_distrib)
next
  case (5 w l ls)
  then show ?case
    by (simp add: emits_def style_ops_def sw_op_defs on_fw_def fw_op_defs decrIndent_def
      fw_put_def put_def style_ok_def)
next
  case (6 w k)
  then show ?case
    by (simp add: emits_def style_ops_def sw_op_defs on_fw_def fw_op_defs fw_prefix_ok
      fw_put_def put_def style_ok_def quoted_def)
qed

end
