(* ===== verification/RpcFraming.thy ===== *)
theory RpcFraming
  imports RpcServer JsonWriter NetBuffer
begin

text \<open>
  The message layer of \<open>RpcServer/Server/BaseServer.cpp\<close>: \<open>sendJson\<close>, the \<open>handleMessage\<close>
  loop over the input buffer, \<open>onMessage\<close>. A message is a header, the length of the body as a
  JSON \<open>int32\<close> up to a CRLF, and a body of that length. \<open>handleRequest\<close> is virtual, so it is a
  parameter here. What is done to the connection is a list of \<open>conn_effect\<close>s.
\<close>

section \<open>Sending\<close>

datatype conn_effect = Send string | Shutdown

definition crlf_str :: string where "crlf_str = [CHR 0x0D, CHR 0x0A]"

definition message_of :: "string \<Rightarrow> string" where
  "message_of body = nat_to_string (length body + 2) @ ''i32'' @ crlf_str @ body @ crlf_str"

definition sendJson :: "JValue \<Rightarrow> conn_effect option" where
  "sendJson value =
     map_option (\<lambda>w. Send (message_of (ws_get (stream w)))) (writeTo fast_ops value (FastWriter_new []))"

section \<open>Receiving\<close>

text \<open>
  The part of the loop body before the frame is taken out of the buffer. \<open>Incomplete\<close> is a
  \<open>break\<close>, \<open>Invalid_length\<close> has the buffer without the header line, \<open>Frame\<close> has
  \<open>headerLen\<close> and \<open>bodyLen\<close>. The client's loop has the same code with its own limit.
\<close>

datatype frame_head = Incomplete | Invalid_length Buffer | Too_long | Frame nat nat | Head_abort

definition frame_header :: "nat \<Rightarrow> Buffer \<Rightarrow> frame_head" where
  "frame_header kMaxMessageLen buffer =
     (case findCRLF buffer of
        None \<Rightarrow> Incomplete
      | Some crlf \<Rightarrow>
          (let headerLen = crlf + 2
           in case parse (take headerLen (readable buffer)) VNull of
                None \<Rightarrow> Head_abort
              | Some (err, header) \<Rightarrow>
                  if err \<noteq> PARSE_OK \<or> \<not> isInt32 header \<or> sint (the (getInt32 header)) \<le> 0
                  then (case retrieve buffer headerLen of
                          None \<Rightarrow> Head_abort | Some b1 \<Rightarrow> Invalid_length b1)
                  else
                    (let bodyLen = nat (sint (the (getInt32 header)))
                     in if bodyLen \<ge> kMaxMessageLen then Too_long
                        else if readableBytes buffer < headerLen + bodyLen then Incomplete
                        else Frame headerLen bodyLen)))"

definition take_frame :: "Buffer \<Rightarrow> nat \<Rightarrow> nat \<Rightarrow> (string \<times> Buffer) option" where
  "take_frame buffer headerLen bodyLen =
     Option.bind (retrieve buffer headerLen) (\<lambda>b1. retrieveAsString b1 bodyLen)"

text \<open>The \<open>done\<close> callback: a null response is only traced.\<close>

fun respond :: "JValue list \<Rightarrow> conn_effect list option" where
  "respond [] = Some []"
| "respond (response # rest) =
     (if isNull response then respond rest
      else Option.bind (sendJson response) (\<lambda>m. map_option ((#) m) (respond rest)))"

type_synonym served = "Buffer \<times> conn_effect list \<times> (rpc_exception, unit) outcome"

definition kMaxMessageLen :: nat where "kMaxMessageLen = 100 * 1024 * 1024"

lemma retrieve_shrinks:
  "retrieve b n = Some b' \<Longrightarrow> readableBytes b' = readableBytes b - n \<and> n \<le> readableBytes b"
  by (auto simp: retrieve_def retrieveAll_def readableBytes_def split: if_splits)

lemma take_frame_shrinks:
  assumes "frame_header k b = Frame h n" "take_frame b h n = Some (json, b')"
  shows "readableBytes b' < readableBytes b"
proof -
  have "2 \<le> h" using assms(1)
    by (auto simp: frame_header_def Let_def split: option.splits if_splits prod.splits)
  moreover obtain b1 where "retrieve b h = Some b1" "retrieve b1 n = Some b'"
    using assms(2) by (auto simp: take_frame_def retrieveAsString_def bind_eq_Some_conv split: if_splits)
  ultimately show ?thesis using retrieve_shrinks by fastforce
qed

function handleMessage :: "(string \<Rightarrow> run) \<Rightarrow> Buffer \<Rightarrow> served" where
  "handleMessage handle buffer =
     (case frame_header kMaxMessageLen buffer of
        Incomplete \<Rightarrow> (buffer, [], Ret ())
      | Invalid_length b1 \<Rightarrow>
          (b1, [], Throw (RequestException RPC_INVALID_REQUEST VNull (Literal ''invalid message length'')))
      | Too_long \<Rightarrow>
          (buffer, [], Throw (RequestException RPC_INVALID_REQUEST VNull (Literal ''message is too long'')))
      | Head_abort \<Rightarrow> (buffer, [], Abort)
      | Frame headerLen bodyLen \<Rightarrow>
          (case take_frame buffer headerLen bodyLen of
             None \<Rightarrow> (buffer, [], Abort)
           | Some (json, b1) \<Rightarrow>
               (let (responses, out) = handle json
                in case respond responses of
                     None \<Rightarrow> (b1, [], Abort)
                   | Some sent \<Rightarrow>
                       (case out of
                          Ret _ \<Rightarrow>
                            (let (b2, effs, out2) = handleMessage handle b1
                             in (b2, sent @ effs, out2))
                        | _ \<Rightarrow> (b1, sent, out)))))"
  by pat_completeness auto
termination
  by (relation "measure (\<lambda>(h, b). readableBytes b)") (auto intro: take_frame_shrinks)

declare handleMessage.simps [simp del]

definition onMessage :: "(string \<Rightarrow> string) \<Rightarrow> (string \<Rightarrow> run) \<Rightarrow> Buffer \<Rightarrow> served" where
  "onMessage freed handle buffer =
     (case handleMessage handle buffer of
        (b1, sent, Throw (RequestException err ident det)) \<Rightarrow>
          (case Option.bind (wrapException freed err det) sendJson of
             None \<Rightarrow> (b1, sent, Abort)
           | Some m \<Rightarrow> (b1, sent @ [m, Shutdown], Ret ()))
      | (b1, sent, Throw (NotifyException err det)) \<Rightarrow> (b1, sent, Ret ())
      | (b1, sent, out) \<Rightarrow> (b1, sent, out))"

text \<open>
  \<open>TcpConnection::handleRead\<close> when the descriptor delivers \<open>chunk\<close>, with \<open>onMessage\<close> as the
  message callback; and a sequence of such events on one connection.
\<close>

definition receive :: "(string \<Rightarrow> string) \<Rightarrow> (string \<Rightarrow> run) \<Rightarrow> Buffer \<Rightarrow> string \<Rightarrow> served" where
  "receive freed handle buffer chunk =
     (case readFd buffer (ReadvData chunk) of
        None \<Rightarrow> (buffer, [], Abort)
      | Some (b1, n, savedErrno) \<Rightarrow> onMessage freed handle b1)"

fun receive_all :: "(string \<Rightarrow> string) \<Rightarrow> (string \<Rightarrow> run) \<Rightarrow> Buffer \<Rightarrow> string list \<Rightarrow> served" where
  "receive_all freed handle buffer [] = (buffer, [], Ret ())"
| "receive_all freed handle buffer (chunk # chunks) =
     (case receive freed handle buffer chunk of
        (b1, sent, Ret _) \<Rightarrow>
          (let (b2, sent2, out) = receive_all freed handle b1 chunks in (b2, sent @ sent2, out))
      | r \<Rightarrow> r)"

end
