(* ===== verification/RpcEcho.thy ===== *)
theory RpcEcho
  imports RpcServer
begin

text \<open>
  The service of \<open>RpcServer/test/EchoServer.cpp\<close>: its stub, registered under \<open>EchoServer\<close>,
  and the requests that \<open>EchoClient.cpp\<close> builds for it. The log lines of \<open>Notify\<close> are left out.
\<close>

text \<open>\<open>request["params"]["message"].getString()\<close>.\<close>

definition echo_message :: "JValue \<Rightarrow> string option" where
  "echo_message request =
     Option.bind (member_at request ''params'') (\<lambda>ps.
       Option.bind (member_at ps ''message'') getString)"

definition EchoStub :: "JValue \<Rightarrow> run" where
  "EchoStub request =
     run_bind (of_option (echo_message request)) (\<lambda>message.
       run_bind (of_option (UserDoneCallback request (VString message))) (\<lambda>response.
         ([response], Ret ())))"

definition EchoNotify :: "JValue \<Rightarrow> (rpc_exception, unit) outcome" where
  "EchoNotify request = out_bind (of_option (echo_message request)) (\<lambda>_. Ret ())"

definition echo_params :: "(string \<times> ValueType) list" where
  "echo_params = [(''message'', TYPE_STRING)]"

definition EchoServiceStub :: "RpcServer \<Rightarrow> RpcServer option" where
  "EchoServiceStub rpcServer =
     Option.bind (Procedure_new EchoStub [''message''] [TYPE_STRING]) (\<lambda>echo.
     Option.bind (Procedure_new EchoNotify [''message''] [TYPE_STRING]) (\<lambda>notify.
     Option.bind (addProcedureReturn ''Echo'' echo Service_new) (\<lambda>s1.
     Option.bind (addProcedureNotify ''Notify'' notify s1) (\<lambda>s2.
       addService ''EchoServer'' s2 rpcServer))))"

definition echo_server :: RpcServer where
  "echo_server = the (EchoServiceStub \<lparr>services = Map.empty\<rparr>)"

definition echo_call :: "string \<Rightarrow> string \<Rightarrow> JValue option" where
  "echo_call method message =
     Option.bind (addMember (Value_of_type TYPE_OBJECT) ''message'' (VString message)) (\<lambda>ps.
       addMember_all (Value_of_type TYPE_OBJECT)
         [(''jsonrpc'', VString ''2.0''), (''method'', VString method), (''params'', ps)])"

lemma echo_server_services:
  "services echo_server = [''EchoServer'' \<mapsto>
     \<lparr>procedureReturn = [''Echo'' \<mapsto> \<lparr>callBack = EchoStub, params = echo_params\<rparr>],
      procedureNotify = [''Notify'' \<mapsto> \<lparr>callBack = EchoNotify, params = echo_params\<rparr>]\<rparr>]"
  by (simp add: echo_server_def EchoServiceStub_def Procedure_new_def addProcedureReturn_def
      addProcedureNotify_def addService_def Service_new_def echo_params_def)

lemma echo_call_Some:
  "echo_call method message = Some (VObject [(''jsonrpc'', VString ''2.0''),
     (''method'', VString method), (''params'', VObject [(''message'', VString message)])])"
  by (simp add: echo_call_def addMember_all_def char_less_iff)

end
