(* ===== verification/JsonReaderFacts.thy ===== *)
theory JsonReaderFacts
  imports JsonReader
begin

text \<open>
  What holds of the reader on every input: each successful call consumes at least one
  character, so the fuel of \<open>parse\<close> is enough and the reader terminates; the values it builds
  have their object keys sorted and distinct; which error codes it can return.
\<close>

section \<open>Consumption\<close>

lemma length_parseWhitespace: "length (parseWhitespace is) \<le> length is"
  by (induction "is" rule: parseWhitespace.induct) auto

lemma front_nonempty: "front is = c \<Longrightarrow> c \<noteq> CHR 0x00 \<Longrightarrow> is = c # pop is"
  by (cases "is") auto

lemma expect_Some: "expect is c = Some r \<Longrightarrow> c \<noteq> CHR 0x00 \<Longrightarrow> is = c # r"
  by (cases "is") (auto simp: expect_def split: if_splits)

lemma length_match_literal: "match_literal ls is = (l, r) \<Longrightarrow> length r \<le> length is"
  by (induction ls "is" rule: match_literal.induct)
    (auto split: if_splits intro: le_trans [OF _ length_pop_le])

lemma length_parseLiteral:
  assumes "parseLiteral is v lit type = Done e v' r" "hd lit \<noteq> CHR 0x00"
  shows "length r < length is"
proof -
  obtain is1 where is1: "expect is (hd lit) = Some is1"
    using assms(1) by (cases "expect is (hd lit)") (auto simp: parseLiteral_def)
  obtain l is2 where m: "match_literal (tl lit) is1 = (l, is2)" by fastforce
  have "r = is2"
    using assms(1) is1 m by (auto simp: parseLiteral_def split: if_splits)
  with length_match_literal [OF m] expect_Some [OF is1 assms(2)] show ?thesis by simp
qed

lemma length_skipDigits: "length (skipDigits is) \<le> length is"
  by (simp add: skipDigits_def length_dropWhile_le)

lemma scanInt_Inr:
  assumes "scanInt is = Inr r"
  shows "length r < length is"
proof -
  let ?is1 = "if front is = CHR ''-'' then pop is else is"
  have le: "length ?is1 \<le> length is" by simp
  have "length r < length ?is1"
  proof (cases "?is1")
    case Nil
    with assms show ?thesis by (simp add: scanInt_def)
  next
    case (Cons c cs)
    with assms show ?thesis
      using length_skipDigits [of cs]
      by (auto simp: scanInt_def Let_def skipDigits_def isDigit19_isDigit split: if_splits)
  qed
  with le show ?thesis by linarith
qed

lemma length_scanFrac: "scanFrac is = Inr (t, r) \<Longrightarrow> length r \<le> length is"
  using length_skipDigits [of "pop (pop is)"]
  by (auto simp: scanFrac_def Let_def split: if_splits intro: le_trans [OF _ length_pop_le])

lemma length_scanExp: "scanExp t0 is = Inr (t, r) \<Longrightarrow> length r \<le> length is"
  using length_skipDigits [of "pop (pop is)"] length_skipDigits [of "pop (pop (pop is))"]
    length_pop_le [of "is"] length_pop_le [of "pop is"] length_pop_le [of "pop (pop is)"]
  by (auto simp: scanExp_def Let_def split: if_splits)

lemma length_scanSuffix: "scanSuffix t0 is = Inr (t, r) \<Longrightarrow> length r \<le> length is"
  using length_pop_le [of "is"]
  by (auto simp: scanSuffix_def Let_def split: if_splits prod.splits dest!: length_next_le)

lemma convertNumber_rest: "convertNumber t s v r = Done e v' r' \<Longrightarrow> r' = r"
  by (auto simp: convertNumber_def numberTooBig_def split: if_splits option.splits)

lemma length_parseNumber:
  assumes "parseNumber is v = Done PARSE_OK v' r"
  shows "length r < length is"
proof -
  obtain is1 t2 is2 t3 is3 t4 is4 where
    *: "scanInt is = Inr is1" "scanFrac is1 = Inr (t2, is2)" "scanExp t2 is2 = Inr (t3, is3)"
      "scanSuffix t3 is3 = Inr (t4, is4)" "convertNumber t4 is v is4 = Done PARSE_OK v' r"
    using assms by (auto simp: parseNumber_def split: sum.splits if_splits)
  show ?thesis
    using scanInt_Inr [OF *(1)] length_scanFrac [OF *(2)] length_scanExp [OF *(3)]
      length_scanSuffix [OF *(4)] convertNumber_rest [OF *(5)] by simp
qed

lemma length_parseChars: "parseChars is v b = Done e v' r \<Longrightarrow> length r \<le> length is"
proof (induction "is" v b rule: parseChars.induct)
  case (1 v buffer)
  then show ?case by simp
next
  case (2 ch "is" v buffer)
  show ?case
    using "2.prems" "2.IH"
    by (auto split: if_splits option.splits prod.splits sum.splits dest: length_parseEscape)
      (meson le_SucI le_trans length_parseEscape)+
qed

lemma length_parseString:
  assumes "parseString is v = Done e v' r"
  shows "length r < length is"
  using assms
  by (auto simp: parseString_def split: option.splits dest!: expect_Some length_parseChars)

lemma length_ws_next:
  assumes "next_char (parseWhitespace is) = (c, r)"
  shows "length (parseWhitespace r) \<le> length is" "length r \<le> length is"
  using length_next_le [OF assms] length_parseWhitespace [of "is"] length_parseWhitespace [of r]
  by linarith+

lemma length_ws_pop: "length (parseWhitespace (pop (parseWhitespace is))) \<le> length is"
  using length_parseWhitespace [of "is"] length_parseWhitespace [of "pop (parseWhitespace is)"]
    length_pop_le [of "parseWhitespace is"] by linarith

text \<open>
  A reader of values \<open>pv\<close> that consumes something makes loops that do.
\<close>

definition consuming :: "value_reader \<Rightarrow> bool" where
  "consuming pv \<longleftrightarrow> (\<forall>is v v' r. pv is v = Done PARSE_OK v' r \<longrightarrow> length r < length is)"

lemma consumingD: "consuming pv \<Longrightarrow> pv is v = Done PARSE_OK v' r \<Longrightarrow> length r < length is"
  by (simp add: consuming_def)

lemma parseArrayLoop_consumes:
  assumes "consuming pv" "parseArrayLoop pv n is v = Done PARSE_OK v' r"
  shows "length r < length is"
  using assms(2)
proof (induction n arbitrary: "is" v)
  case 0
  then show ?case by simp
next
  case (Suc n)
  from Suc.prems obtain w is1 v1 c is3 where
    w: "pv is VNull = Done PARSE_OK w is1" and v1: "addValue v w = Some v1"
    and nx: "next_char (parseWhitespace is1) = (c, is3)"
    by (auto split: read_result.splits if_splits option.splits prod.splits)
  have lt: "length is1 < length is" using consumingD [OF assms(1) w] .
  show ?case
    using Suc.prems w v1 nx lt length_ws_next [OF nx] Suc.IH [of "parseWhitespace is3" v1]
      Suc.IH [of is3 v1]
    by (auto split: if_splits)
qed

lemma parseObjectLoop_consumes:
  assumes "consuming pv" "parseObjectLoop pv n is v = Done PARSE_OK v' r"
  shows "length r < length is"
  using assms(2)
proof (induction n arbitrary: "is" v)
  case 0
  then show ?case by simp
next
  case (Suc n)
  from Suc.prems obtain key is1 is2 val is3 k v1 where
    k: "parseString is VNull = Done PARSE_OK key is1"
    and nx: "next_char (parseWhitespace is1) = (CHR '':'', is2)"
    and w: "pv (parseWhitespace is2) VNull = Done PARSE_OK val is3"
    and v1: "getString key = Some k" "addMember v k val = Some v1"
    by (auto split: read_result.splits if_splits option.splits prod.splits simp: bind_eq_Some_conv)
  have lt: "length is3 < length is"
    using consumingD [OF assms(1) w] length_parseString [OF k] length_ws_next [OF nx] by linarith
  have "length (pop (parseWhitespace is3)) \<le> length is3"
    using length_parseWhitespace [of is3] length_pop_le [of "parseWhitespace is3"] by linarith
  then show ?case
    using Suc.prems k nx w v1 lt length_ws_pop [of is3]
      Suc.IH [of "parseWhitespace (pop (parseWhitespace is3))" v1]
    by (auto simp: Let_def split: if_splits)
qed

lemma parseArray_consumes:
  assumes "consuming pv" "parseArray pv n is v = Done PARSE_OK v' r"
  shows "length r < length is"
proof -
  obtain is1 where is1: "is = CHR ''['' # is1" "expect is (CHR ''['') = Some is1"
    using assms(2) expect_Some [of "is" "CHR ''[''"] by (auto simp: parseArray_def split: option.splits)
  show ?thesis
    using assms(2) is1 length_parseWhitespace [of is1] length_pop_le [of "parseWhitespace is1"]
      parseArrayLoop_consumes [OF assms(1), of n "parseWhitespace is1" "setArray v" v' r]
    by (auto simp: parseArray_def Let_def split: if_splits)
qed

lemma parseObject_consumes:
  assumes "consuming pv" "parseObject pv n is v = Done PARSE_OK v' r"
  shows "length r < length is"
proof -
  obtain is1 where is1: "is = CHR ''{'' # is1" "expect is (CHR ''{'') = Some is1"
    using assms(2) expect_Some [of "is" "CHR ''{''"] by (auto simp: parseObject_def split: option.splits)
  show ?thesis
    using assms(2) is1 length_parseWhitespace [of is1] length_pop_le [of "parseWhitespace is1"]
      parseObjectLoop_consumes [OF assms(1), of n "parseWhitespace is1" "setObject v" v' r]
    by (auto simp: parseObject_def Let_def split: if_splits)
qed

lemma parseValue_consuming: "consuming (parseValue n)"
proof (induction n)
  case 0
  then show ?case by (simp add: consuming_def)
next
  case (Suc n)
  then show ?case
    unfolding consuming_def [of "parseValue (Suc n)"]
    by (auto split: if_splits dest: length_parseLiteral length_parseString length_parseNumber
        parseArray_consumes [OF Suc] parseObject_consumes [OF Suc])
qed

section \<open>The fuel is enough\<close>

definition fuelled :: "value_reader \<Rightarrow> nat \<Rightarrow> bool" where
  "fuelled pv n \<longleftrightarrow> (\<forall>is v. length is < n \<longrightarrow> pv is v \<noteq> Out_of_fuel)"

lemma parseArrayLoop_fuel:
  assumes "consuming pv" "fuelled pv k" "length is < k" "length is < n"
  shows "parseArrayLoop pv n is v \<noteq> Out_of_fuel"
  using assms(3,4)
proof (induction n arbitrary: "is" v)
  case 0
  then show ?case by simp
next
  case (Suc n)
  have nf: "pv is VNull \<noteq> Out_of_fuel"
    using assms(2) Suc.prems by (simp add: fuelled_def)
  have IH: "parseArrayLoop pv n s v1 \<noteq> Out_of_fuel"
    if "pv is VNull = Done PARSE_OK w is1" "length s \<le> length is1" for w is1 s v1
    using Suc.IH [of s v1] Suc.prems that consumingD [OF assms(1) that(1)] by simp
  show ?case
    using nf IH length_ws_next
    by (auto split: read_result.splits option.splits prod.splits)
qed

lemma parseChars_total: "parseChars is v b \<noteq> Out_of_fuel"
  by (induction "is" v b rule: parseChars.induct)
    (auto split: option.splits sum.splits prod.splits)

lemma parseString_total: "parseString is v \<noteq> Out_of_fuel"
  by (auto simp: parseString_def parseChars_total split: option.splits)

lemma parseObjectLoop_fuel:
  assumes "consuming pv" "fuelled pv k" "length is < k" "length is < n"
  shows "parseObjectLoop pv n is v \<noteq> Out_of_fuel"
  using assms(3,4)
proof (induction n arbitrary: "is" v)
  case 0
  then show ?case by simp
next
  case (Suc n)
  have lt: "length (parseWhitespace is2) < length is"
    if "parseString is VNull = Done e key is1" "next_char (parseWhitespace is1) = (c, is2)"
    for e key is1 c is2
    using length_parseString [OF that(1)] length_ws_next [OF that(2)] by linarith
  have nf: "pv s VNull \<noteq> Out_of_fuel" if "length s < length is" for s
    using assms(2) Suc.prems that by (simp add: fuelled_def)
  have IH: "parseObjectLoop pv n (parseWhitespace (pop (parseWhitespace is3))) v1 \<noteq> Out_of_fuel"
    if "pv s VNull = Done PARSE_OK w is3" "length s < length is" for s w is3 v1
    using Suc.IH [of "parseWhitespace (pop (parseWhitespace is3))" v1] Suc.prems that
      consumingD [OF assms(1) that(1)] length_ws_pop [of is3] by simp
  show ?case
    using nf IH lt parseString_total
    by (auto split: read_result.splits option.splits prod.splits simp: Let_def)
qed

lemma parseLiteral_total: "parseLiteral is v l t \<noteq> Out_of_fuel"
  by (auto simp: parseLiteral_def Let_def split: option.splits prod.splits)

lemma parseNumber_total: "parseNumber is v \<noteq> Out_of_fuel"
  by (auto simp: parseNumber_def convertNumber_def numberTooBig_def
      split: sum.splits option.splits if_splits)

lemma parseValue_fuelled: "fuelled (parseValue n) n"
proof (induction n)
  case 0
  then show ?case by (simp add: fuelled_def)
next
  case (Suc n)
  have "parseArray (parseValue n) n is v \<noteq> Out_of_fuel" if "length is < Suc n" for "is" v
    using that length_parseWhitespace [of "tl is"]
      parseArrayLoop_fuel [OF parseValue_consuming Suc, of "parseWhitespace (tl is)"]
    by (cases "is") (auto simp: parseArray_def Let_def expect_def)
  moreover have "parseObject (parseValue n) n is v \<noteq> Out_of_fuel" if "length is < Suc n" for "is" v
    using that length_parseWhitespace [of "tl is"]
      parseObjectLoop_fuel [OF parseValue_consuming Suc, of "parseWhitespace (tl is)"]
    by (cases "is") (auto simp: parseObject_def Let_def expect_def)
  ultimately show ?case
    by (simp add: fuelled_def parseLiteral_total parseString_total parseNumber_total)
qed

text \<open>The reader always comes back: with the fuel of \<open>parse\<close> no call runs dry.\<close>

lemma read_value_total: "parseValue (fuel_for is) is v \<noteq> Out_of_fuel"
  using parseValue_fuelled [of "fuel_for is"] by (simp add: fuelled_def fuel_for_def)

section \<open>What the reader builds and which codes it returns\<close>

text \<open>
  The values built are well-formed (object keys sorted and distinct), also when an error is
  returned; and the code \<open>PARSE_MISS_COMMA_OR_SQUARE_BRACKET\<close> never comes out: the array loop
  sets it and goes on.
\<close>

definition sound_result :: "JValue \<Rightarrow> read_result \<Rightarrow> bool" where
  "sound_result v res \<longleftrightarrow> (\<forall>e v' r. res = Done e v' r \<longrightarrow>
     e \<noteq> PARSE_MISS_COMMA_OR_SQUARE_BRACKET \<and> e \<noteq> PARSE_ROOT_NOT_SINGULAR
     \<and> (wf_value v \<longrightarrow> wf_value v'))"

definition sound_reader :: "value_reader \<Rightarrow> bool" where
  "sound_reader pv \<longleftrightarrow> (\<forall>is v. sound_result v (pv is v))"

lemma sound_readerD:
  "sound_reader pv \<Longrightarrow> pv is v = Done e v' r \<Longrightarrow>
     e \<noteq> PARSE_MISS_COMMA_OR_SQUARE_BRACKET \<and> e \<noteq> PARSE_ROOT_NOT_SINGULAR
     \<and> (wf_value v \<longrightarrow> wf_value v')"
  unfolding sound_reader_def sound_result_def by blast

lemma sound_Done [simp]:
  "sound_result v (Done e v' r) \<longleftrightarrow> e \<noteq> PARSE_MISS_COMMA_OR_SQUARE_BRACKET
     \<and> e \<noteq> PARSE_ROOT_NOT_SINGULAR \<and> (wf_value v \<longrightarrow> wf_value v')"
  "sound_result v Assert_fail" "sound_result v Out_of_fuel"
  by (simp_all add: sound_result_def)

lemma sound_result_trans:
  "sound_result v1 res \<Longrightarrow> wf_value v \<longrightarrow> wf_value v1 \<Longrightarrow> sound_result v res"
  by (simp add: sound_result_def)

lemma parseUnicode_code:
  "parseUnicode is = (Some (Inl e), r) \<Longrightarrow>
     e = PARSE_INVALID_UNICODE_HEX \<or> e = PARSE_INVALID_UNICODE_SURROGATE"
  by (auto simp: parseUnicode_def split: prod.splits option.splits if_splits)

lemma parseEscape_code:
  "parseEscape is = (Some (Inl e), r) \<Longrightarrow>
     e = PARSE_INVALID_UNICODE_HEX \<or> e = PARSE_INVALID_UNICODE_SURROGATE
     \<or> e = PARSE_INVALID_STRING_ESCAPE"
  by (auto simp: parseEscape_def split: prod.splits if_splits dest: parseUnicode_code)

lemma parseChars_sound: "sound_result v (parseChars is v b)"
  by (induction "is" v b rule: parseChars.induct)
    (auto simp: setString_def split: option.splits sum.splits prod.splits dest: parseEscape_code)

lemma parseString_sound: "sound_result v (parseString is v)"
  by (auto simp: parseString_def parseChars_sound split: option.splits)

lemma parseLiteral_sound: "sound_result v (parseLiteral is v l t)"
  by (auto simp: parseLiteral_def setNull_def setBool_def Let_def split: option.splits prod.splits)

lemma parseNumber_sound: "sound_result v (parseNumber is v)"
  by (auto simp: parseNumber_def convertNumber_def numberTooBig_def setInt32_def setInt64_def
      setDouble_def split: sum.splits option.splits)

lemma parseArrayLoop_sound:
  assumes "sound_reader pv"
  shows "sound_result v (parseArrayLoop pv n is v)"
proof (induction n arbitrary: "is" v)
  case 0
  then show ?case by simp
next
  case (Suc n)
  have "sound_result v (parseArrayLoop pv n s v1)"
    if "pv is VNull = Done PARSE_OK w is1" "addValue v w = Some v1" for w is1 s v1
    using sound_result_trans [OF Suc.IH [of v1 s], of v] sound_readerD [OF assms that(1)]
      addValue_wf [OF that(2)] by auto
  then show ?case
    using sound_readerD [OF assms, of "is" VNull]
    by (auto split: read_result.splits option.splits prod.splits dest: addValue_wf)
qed

lemma parseObjectLoop_sound:
  assumes "sound_reader pv"
  shows "sound_result v (parseObjectLoop pv n is v)"
proof (induction n arbitrary: "is" v)
  case 0
  then show ?case by simp
next
  case (Suc n)
  have wf: "wf_value v \<longrightarrow> wf_value v1"
    if "pv s VNull = Done PARSE_OK w is1" "addMember v k w = Some v1" for w is1 s v1 k
    using sound_readerD [OF assms that(1)] addMember_wf [OF that(2)] by auto
  then have "sound_result v (parseObjectLoop pv n s' v1)"
    if "pv s VNull = Done PARSE_OK w is1" "addMember v k w = Some v1" for w is1 s s' v1 k
    using sound_result_trans [OF Suc.IH [of v1 s'], of v] that by blast
  then show ?case
    using sound_readerD [OF assms] parseString_sound [of VNull "is"] wf
    by (auto split: read_result.splits option.splits prod.splits simp: Let_def bind_eq_Some_conv)
qed

lemma parseValue_sound: "sound_reader (parseValue n)"
proof (induction n)
  case 0
  then show ?case by (simp add: sound_reader_def)
next
  case (Suc n)
  have "sound_result v (parseArray (parseValue n) n is v)" for v "is"
    using sound_result_trans [OF parseArrayLoop_sound [OF Suc], of v "setArray v"]
    by (auto simp: parseArray_def Let_def setArray_def split: option.splits)
  moreover have "sound_result v (parseObject (parseValue n) n is v)" for v "is"
    using sound_result_trans [OF parseObjectLoop_sound [OF Suc], of v "setObject v"]
    by (auto simp: parseObject_def Let_def setObject_def split: option.splits)
  ultimately show ?case
    by (simp add: sound_reader_def parseLiteral_sound parseString_sound parseNumber_sound)
qed

text \<open>Summary for \<open>parse\<close>.\<close>

lemma parse_sound:
  assumes "parse is v = Some (e, v')"
  shows "e \<noteq> PARSE_MISS_COMMA_OR_SQUARE_BRACKET" "wf_value v \<Longrightarrow> wf_value v'"
    "e = PARSE_OK \<Longrightarrow> wf_value v'"
  using assms sound_readerD [OF parseValue_sound]
  by (fastforce simp: parse_def Let_def split: read_result.splits if_splits)+

text \<open>\<open>parse\<close> fails only through an assertion of the code.\<close>

lemma parse_None:
  "parse is v = None \<longleftrightarrow>
     parseValue (fuel_for (parseWhitespace is)) (parseWhitespace is) VNull = Assert_fail"
  using read_value_total [of "parseWhitespace is" VNull]
  by (auto simp: parse_def Let_def split: read_result.splits)

end
