(* ===== verification/JsonGrammar.thy ===== *)
theory JsonGrammar
  imports JsonReaderFacts
begin

text \<open>
  The specification of the reader: the texts of a JSON value, with any whitespace between the
  tokens, as an inductive grammar, and the theorem that the reader reads every text of a value
  as that value (\<open>parse_complete\<close>). The grammar is the dialect of the program: integers carry
  a suffix \<open>i32\<close> or \<open>i64\<close>, a number without one has a fraction or an exponent.
\<close>

section \<open>Tokens\<close>

definition ws :: "string \<Rightarrow> bool" where "ws w \<longleftrightarrow> list_all is_ws w"

text \<open>What may follow a number: nothing, whitespace, or a separator.\<close>

definition delim :: "string \<Rightarrow> bool" where
  "delim s \<longleftrightarrow> s = [] \<or> is_ws (hd s) \<or> hd s = CHR '','' \<or> hd s = CHR '']'' \<or> hd s = CHR ''}''"

definition digits :: "string \<Rightarrow> bool" where "digits s \<longleftrightarrow> s \<noteq> [] \<and> list_all isDigit s"

definition sign_text :: "string \<Rightarrow> bool" where "sign_text s \<longleftrightarrow> s = [] \<or> s = ''-''"

definition int_part :: "string \<Rightarrow> bool" where
  "int_part s \<longleftrightarrow> s = ''0'' \<or> digits s \<and> isDigit19 (hd s)"

definition frac_part :: "string \<Rightarrow> bool" where
  "frac_part s \<longleftrightarrow> s = [] \<or> hd s = CHR ''.'' \<and> digits (tl s)"

definition exp_part :: "string \<Rightarrow> bool" where
  "exp_part s \<longleftrightarrow> s = [] \<or>
     (\<exists>e sg ds. s = e # sg @ ds \<and> (e = CHR ''e'' \<or> e = CHR ''E'')
        \<and> (sg = [] \<or> sg = ''+'' \<or> sg = ''-'') \<and> digits ds)"

definition double_text :: "string \<Rightarrow> bool" where
  "double_text s \<longleftrightarrow> (\<exists>sg ip fp xp. s = sg @ ip @ fp @ xp \<and> sign_text sg \<and> int_part ip
     \<and> frac_part fp \<and> exp_part xp \<and> (fp \<noteq> [] \<or> xp \<noteq> []))"

definition int_text :: "int \<Rightarrow> string \<Rightarrow> bool" where
  "int_text i s \<longleftrightarrow> (\<exists>sg ip. s = sg @ ip \<and> sign_text sg \<and> int_part ip
     \<and> i = (if sg = ''-'' then - int (digits_val 0 ip) else int (digits_val 0 ip)))"

definition hex4 :: "nat \<Rightarrow> string \<Rightarrow> bool" where
  "hex4 u s \<longleftrightarrow> (\<exists>a b c d a' b' c' d'. s = [a, b, c, d] \<and> hex_digit a = Some a'
     \<and> hex_digit b = Some b' \<and> hex_digit c = Some c' \<and> hex_digit d = Some d'
     \<and> u = ((a' * 16 + b') * 16 + c') * 16 + d')"

definition simple_escape :: "char \<Rightarrow> char \<Rightarrow> bool" where
  "simple_escape e c \<longleftrightarrow> (e, c) \<in> {(CHR 0x22, CHR 0x22), (CHR 0x5C, CHR 0x5C), (CHR ''/'', CHR ''/''),
     (CHR ''b'', CHR 0x08), (CHR ''f'', CHR 0x0C), (CHR ''n'', CHR 0x0A), (CHR ''r'', CHR 0x0D),
     (CHR ''t'', CHR 0x09)}"

text \<open>\<open>jchars bs t\<close>: the text \<open>t\<close> between the quotes stands for the bytes \<open>bs\<close>.\<close>

inductive jchars :: "string \<Rightarrow> string \<Rightarrow> bool" where
  jc_nil: "jchars [] []"
| jc_plain: "CHR 0x20 \<le> c \<Longrightarrow> c \<noteq> CHR 0x22 \<Longrightarrow> c \<noteq> CHR 0x5C \<Longrightarrow> jchars cs t \<Longrightarrow>
    jchars (c # cs) (c # t)"
| jc_escape: "simple_escape e c \<Longrightarrow> jchars cs t \<Longrightarrow> jchars (c # cs) (CHR 0x5C # e # t)"
| jc_unicode: "hex4 u h \<Longrightarrow> \<not> (0xD800 \<le> u \<and> u \<le> 0xDBFF) \<Longrightarrow> encodeUtf8 u = Some bs \<Longrightarrow>
    jchars cs t \<Longrightarrow> jchars (bs @ cs) (CHR 0x5C # CHR ''u'' # h @ t)"
| jc_surrogates: "hex4 u h \<Longrightarrow> 0xD800 \<le> u \<Longrightarrow> u \<le> 0xDBFF \<Longrightarrow> hex4 u2 h2 \<Longrightarrow>
    0xDC00 \<le> u2 \<Longrightarrow> u2 \<le> 0xDFFF \<Longrightarrow>
    encodeUtf8 (0x10000 + (u - 0xD800) * 0x400 + (u2 - 0xDC00)) = Some bs \<Longrightarrow> jchars cs t \<Longrightarrow>
    jchars (bs @ cs) (CHR 0x5C # CHR ''u'' # h @ CHR 0x5C # CHR ''u'' # h2 @ t)"

section \<open>Values\<close>

definition insert_all :: "member_list \<Rightarrow> member_list \<Rightarrow> member_list" where
  "insert_all = foldl (\<lambda>a (k, v). map_insert k v a)"

text \<open>
  What may follow a number in the reader's scan: no digit, no \<open>i\<close>, and no exponent behind a number
  that has none.
\<close>

definition has_exp :: "string \<Rightarrow> bool" where
  "has_exp s \<longleftrightarrow> CHR ''e'' \<in> set s \<or> CHR ''E'' \<in> set s"

definition number_ends :: "string \<Rightarrow> string \<Rightarrow> bool" where
  "number_ends s r \<longleftrightarrow> \<not> isDigit (front r) \<and> front r \<noteq> CHR ''i'' \<and>
     (\<not> has_exp s \<longrightarrow> front r \<noteq> CHR ''e'' \<and> front r \<noteq> CHR ''E'')"

fun ends :: "JValue \<Rightarrow> string \<Rightarrow> string \<Rightarrow> bool" where
  "ends (VDouble d) t r = number_ends t r"
| "ends v t r = True"

text \<open>
  \<open>gtext strict v t\<close>: \<open>t\<close> is a text of \<open>v\<close>. \<open>gelems\<close> and \<open>gmembers\<close> are what follows the opening
  bracket of a nonempty array or object, with its closing bracket. With \<open>strict\<close> this is the dialect;
  without it any character may separate the elements of an array, which is what the reader takes
  (\<open>JsonLanguage\<close>).
\<close>

inductive gtext :: "bool \<Rightarrow> JValue \<Rightarrow> string \<Rightarrow> bool"
  and gelems :: "bool \<Rightarrow> JValue list \<Rightarrow> string \<Rightarrow> bool"
  and gmembers :: "bool \<Rightarrow> member_list \<Rightarrow> string \<Rightarrow> bool"
  for strict :: bool
where
  jt_null: "gtext strict VNull ''null''"
| jt_true: "gtext strict (VBool True) ''true''"
| jt_false: "gtext strict (VBool False) ''false''"
| jt_int32: "int_text i s \<Longrightarrow> - (2 ^ 31) \<le> i \<Longrightarrow> i < 2 ^ 31 \<Longrightarrow>
    gtext strict (VInt32 (word_of_int i)) (s @ ''i32'')"
| jt_int64: "int_text i s \<Longrightarrow> - (2 ^ 63) \<le> i \<Longrightarrow> i < 2 ^ 63 \<Longrightarrow>
    gtext strict (VInt64 (word_of_int i)) (s @ ''i64'')"
| jt_double: "double_text s \<Longrightarrow> stod s = Some (d, length s) \<Longrightarrow> gtext strict (VDouble d) s"
| jt_string: "jchars cs t \<Longrightarrow> gtext strict (VString cs) (CHR 0x22 # t @ [CHR 0x22])"
| jt_array0: "ws w \<Longrightarrow> gtext strict (VArray []) (''['' @ w @ '']'')"
| jt_array: "ws w \<Longrightarrow> gelems strict vs s \<Longrightarrow> gtext strict (VArray vs) (''['' @ w @ s)"
| jt_object0: "ws w \<Longrightarrow> gtext strict (VObject []) (''{'' @ w @ ''}'')"
| jt_object: "ws w \<Longrightarrow> gmembers strict ms s \<Longrightarrow> distinct (map fst ms) \<Longrightarrow>
    gtext strict (VObject (insert_all [] ms)) (''{'' @ w @ s)"
| je_last: "gtext strict v t \<Longrightarrow> ws w \<Longrightarrow> gelems strict [v] (t @ w @ '']'')"
| je_cons: "gtext strict v t \<Longrightarrow> ws w \<Longrightarrow> ws w' \<Longrightarrow> gelems strict vs s \<Longrightarrow>
    gelems strict (v # vs) (t @ w @ '','' @ w' @ s)"
| je_any: "\<not> strict \<Longrightarrow> gtext strict v t \<Longrightarrow> ws w \<Longrightarrow> \<not> is_ws c \<Longrightarrow> c \<noteq> CHR '','' \<Longrightarrow> c \<noteq> CHR '']'' \<Longrightarrow>
    ends v t (w @ [c]) \<Longrightarrow> gelems strict vs s \<Longrightarrow> gelems strict (v # vs) (t @ w @ c # s)"
| jm_last: "jchars k kt \<Longrightarrow> ws w1 \<Longrightarrow> ws w2 \<Longrightarrow> gtext strict v t \<Longrightarrow> ws w3 \<Longrightarrow>
    gmembers strict [(k, v)] (CHR 0x22 # kt @ CHR 0x22 # w1 @ '':'' @ w2 @ t @ w3 @ ''}'')"
| jm_cons: "jchars k kt \<Longrightarrow> ws w1 \<Longrightarrow> ws w2 \<Longrightarrow> gtext strict v t \<Longrightarrow> ws w3 \<Longrightarrow> ws w4 \<Longrightarrow> gmembers strict ms s \<Longrightarrow>
    gmembers strict ((k, v) # ms)
      (CHR 0x22 # kt @ CHR 0x22 # w1 @ '':'' @ w2 @ t @ w3 @ '','' @ w4 @ s)"

abbreviation jtext :: "JValue \<Rightarrow> string \<Rightarrow> bool" where "jtext \<equiv> gtext True"
abbreviation jelems :: "JValue list \<Rightarrow> string \<Rightarrow> bool" where "jelems \<equiv> gelems True"
abbreviation jmembers :: "member_list \<Rightarrow> string \<Rightarrow> bool" where "jmembers \<equiv> gmembers True"

section \<open>Scanning tokens\<close>

lemma ws_Nil [simp]: "ws []" and ws_Cons [simp]: "ws (c # w) \<longleftrightarrow> is_ws c \<and> ws w"
  and ws_append [simp]: "ws (u @ w) \<longleftrightarrow> ws u \<and> ws w"
  by (simp_all add: ws_def)

lemma parseWhitespace_ws: "ws w \<Longrightarrow> parseWhitespace (w @ s) = parseWhitespace s"
  by (induction w) auto

lemma parseWhitespace_id: "\<not> is_ws (hd s) \<Longrightarrow> parseWhitespace s = s"
  by (cases s) auto

lemma parseWhitespace_token: "ws w \<Longrightarrow> \<not> is_ws c \<Longrightarrow> parseWhitespace (w @ c # s) = c # s"
  by (simp add: parseWhitespace_ws)

lemma match_literal_self [simp]: "match_literal ls (ls @ r) = ([], r)"
  by (induction ls) auto

lemma not_ws_simps [simp]:
  "\<not> is_ws (CHR '','')" "\<not> is_ws (CHR '']'')" "\<not> is_ws (CHR ''}'')" "\<not> is_ws (CHR '':'')"
  "\<not> is_ws (CHR 0x22)" "\<not> is_ws (CHR ''['')" "\<not> is_ws (CHR ''{'')" "\<not> is_ws (CHR ''n'')"
  "\<not> is_ws (CHR ''t'')" "\<not> is_ws (CHR ''f'')" "\<not> is_ws (CHR ''-'')"
  by (simp_all add: is_ws_def)

lemma not_ws_digit: "isDigit c \<Longrightarrow> \<not> is_ws c"
  by (auto simp: is_ws_def isDigit_iff)

text \<open>A delimiter continues no number.\<close>

lemma delim_front:
  assumes "delim r"
  shows "\<not> isDigit (front r)" "front r \<noteq> CHR ''.''" "front r \<noteq> CHR ''e''" "front r \<noteq> CHR ''E''"
    "front r \<noteq> CHR ''i''"
  using assms by (cases r; auto simp: delim_def is_ws_def isDigit_iff)+

lemma delim_ws: "ws w \<Longrightarrow> delim (c # s) \<Longrightarrow> delim (w @ c # s)"
  by (cases w) (auto simp: delim_def)

lemma delim_ends: "delim r \<Longrightarrow> ends v t r"
  using delim_front [of r] by (cases v) (auto simp: number_ends_def)

lemma ends_front: "front r = front r' \<Longrightarrow> ends v t r = ends v t r'"
  by (cases v) (simp_all add: number_ends_def)

lemma delim_simps [simp]: "delim []" "delim (CHR '','' # s)" "delim (CHR '']'' # s)"
  "delim (CHR ''}'' # s)"
  by (simp_all add: delim_def)

lemma digits_head: "digits s \<Longrightarrow> isDigit (hd s)"
  by (cases s) (auto simp: digits_def)

lemma takeWhile_digits: "list_all isDigit s \<Longrightarrow> \<not> isDigit (front r) \<Longrightarrow>
  takeWhile isDigit (s @ r) = s \<and> dropWhile isDigit (s @ r) = r"
  by (induction s) (auto simp: takeWhile_eq_Nil_iff, (cases r; auto)+)

lemma int_part_digits: "int_part s \<Longrightarrow> digits s"
  by (auto simp: int_part_def digits_def isDigit_iff)

lemma int_part_nat_to_string: "int_part (nat_to_string n)"
  using nat_to_string_digits [of n] nat_to_string_head [of n]
  by (cases "n = 0") (auto simp: int_part_def digits_def)

lemma int_textI:
  assumes "sign_text sg" "int_part ip"
    "i = (if sg = ''-'' then - int (digits_val 0 ip) else int (digits_val 0 ip))"
  shows "int_text i (sg @ ip)"
  using assms unfolding int_text_def by blast

lemma int_text_to_string: "int_text i (int_to_string i)"
proof (cases "i < 0")
  case True
  with int_textI [of "''-''" "nat_to_string (nat (- i))" i] show ?thesis
    by (simp add: int_to_string_def sign_text_def int_part_nat_to_string)
next
  case False
  with int_textI [of "[]" "nat_to_string (nat i)" i] show ?thesis
    by (simp add: int_to_string_def sign_text_def int_part_nat_to_string)
qed

text \<open>The stages of \<open>parseNumber\<close> and of the library's conversions on well-formed parts.\<close>

lemma scanInt_text:
  assumes "sign_text sg" "int_part ip" "\<not> isDigit (front r)"
  shows "scanInt (sg @ ip @ r) = Inr r"
proof -
  have hd: "ip \<noteq> []" "isDigit (hd ip)" "hd ip \<noteq> CHR ''-''"
    using int_part_digits [OF assms(2)] digits_head [of ip]
    by (auto simp: digits_def isDigit_iff)
  let ?is1 = "if front (sg @ ip @ r) = CHR ''-'' then pop (sg @ ip @ r) else sg @ ip @ r"
  have is1: "?is1 = ip @ r"
    using assms(1) hd by (cases ip) (auto simp: sign_text_def)
  show ?thesis
  proof (cases "ip = ''0''")
    case True
    then show ?thesis unfolding scanInt_def is1 Let_def by simp
  next
    case False
    with assms(2) have "list_all isDigit ip" "isDigit19 (hd ip)"
      by (simp_all add: int_part_def digits_def)
    moreover from this hd have "front (ip @ r) = hd ip" "front (ip @ r) \<noteq> CHR ''0''"
      by (cases ip; auto simp: isDigit19_iff)+
    ultimately show ?thesis
      unfolding scanInt_def is1 Let_def
      using takeWhile_digits [of ip r] assms(3) by (simp add: skipDigits_def)
  qed
qed

lemma front_digits: "digits ds \<Longrightarrow> isDigit (front (ds @ r))"
  by (cases ds) (auto simp: digits_def)

lemma skip_after_digit:
  "digits ds \<Longrightarrow> \<not> isDigit (front r) \<Longrightarrow> skipDigits (pop (ds @ r)) = r"
  using takeWhile_digits [of "tl ds" r] by (cases ds) (auto simp: digits_def skipDigits_def)

lemma scanFrac_text:
  assumes "frac_part fp" "\<not> isDigit (front r)" "fp = [] \<Longrightarrow> front r \<noteq> CHR ''.''"
  shows "scanFrac (fp @ r) = Inr (if fp = [] then TYPE_NULL else TYPE_DOUBLE, r)"
  using assms front_digits [of "tl fp" r] skip_after_digit [of "tl fp" r]
  by (cases fp) (auto simp: scanFrac_def frac_part_def Let_def)

lemma scanExp_text:
  assumes "exp_part xp" "\<not> isDigit (front r)" "xp = [] \<Longrightarrow> front r \<noteq> CHR ''e''" "xp = [] \<Longrightarrow> front r \<noteq> CHR ''E''"
  shows "scanExp t (xp @ r) = Inr (if xp = [] then t else TYPE_DOUBLE, r)"
proof (cases "xp = []")
  case True
  with assms show ?thesis by (simp add: scanExp_def)
next
  case False
  with assms(1) obtain e sg ds where xp: "xp = e # sg @ ds" "e = CHR ''e'' \<or> e = CHR ''E''"
    "sg = [] \<or> sg = ''+'' \<or> sg = ''-''" "digits ds"
    by (auto simp: exp_part_def)
  have fr: "isDigit (front (ds @ r))" "front (ds @ r) \<noteq> CHR ''+''" "front (ds @ r) \<noteq> CHR ''-''"
    using front_digits [OF xp(4), of r] by (auto simp: isDigit_iff)
  show ?thesis
    using xp(2,3) fr skip_after_digit [OF xp(4) assms(2)]
    by (auto simp: scanExp_def Let_def xp(1))
qed

lemma str_head_front: "str_head = front"
  by (rule ext) (simp add: str_head_def front_def)

lemma read_fraction_text:
  assumes "frac_part fp" "\<not> isDigit (front r)" "fp = [] \<Longrightarrow> front r \<noteq> CHR ''.''"
  shows "read_fraction (fp @ r) = (tl fp, r)"
  using assms takeWhile_digits [of "tl fp" r]
  by (cases fp) (auto simp: read_fraction_def frac_part_def str_head_front digits_def)

lemma read_exponent_text:
  assumes "exp_part xp" "\<not> isDigit (front r)" "xp = [] \<Longrightarrow> front r \<noteq> CHR ''e''" "xp = [] \<Longrightarrow> front r \<noteq> CHR ''E''"
  shows "read_exponent (xp @ r) = (fst (read_exponent xp), r)"
proof (cases "xp = []")
  case True
  with assms show ?thesis by (simp add: read_exponent_def str_head_front)
next
  case False
  with assms(1) obtain e sg ds where xp: "xp = e # sg @ ds" "e = CHR ''e'' \<or> e = CHR ''E''"
    "sg = [] \<or> sg = ''+'' \<or> sg = ''-''" "digits ds"
    by (auto simp: exp_part_def)
  have fr: "front (ds @ s) \<noteq> CHR ''+''" "front (ds @ s) \<noteq> CHR ''-''" for s
    using front_digits [OF xp(4), of s] by (auto simp: isDigit_iff)
  have tw: "takeWhile isDigit (ds @ r) = ds" "dropWhile isDigit (ds @ r) = r" "takeWhile isDigit ds = ds"
    using takeWhile_digits [of ds r] takeWhile_digits [of ds "[]"] xp(4) assms(2)
    by (auto simp: digits_def)
  have sg: "(front (sg @ ds @ s) = CHR ''-'') = (sg = ''-'')"
    "(if front (sg @ ds @ s) = CHR ''+'' \<or> front (sg @ ds @ s) = CHR ''-''
      then tl (sg @ ds @ s) else sg @ ds @ s) = ds @ s" for s
    using xp(3) fr [of s] by auto
  have ne: "ds \<noteq> []" using xp(4) by (simp add: digits_def)
  have e: "read_exponent (e # sg @ ds @ s) =
      (if sg = ''-'' then - int (digits_val 0 ds) else int (digits_val 0 ds), s)"
    if "takeWhile isDigit (ds @ s) = ds" "dropWhile isDigit (ds @ s) = s" for s
    unfolding read_exponent_def str_head_front Let_def stream_simps list.sel sg(2)
    using xp(2) ne that by (simp add: sg(1))
  show ?thesis
    using e [OF tw(1,2)] e [of "[]"] takeWhile_digits [of ds "[]"] xp(4)
    by (simp add: xp(1) digits_def)
qed

text \<open>What follows a number does not change what \<open>strtod\<close> reads.\<close>

lemma stod_parts:
  assumes "sign_text sg" "int_part ip" "frac_part fp" "exp_part xp"
    "\<not> isDigit (front r)" "fp = [] \<Longrightarrow> xp = [] \<Longrightarrow> front r \<noteq> CHR ''.''"
    "xp = [] \<Longrightarrow> front r \<noteq> CHR ''e''" "xp = [] \<Longrightarrow> front r \<noteq> CHR ''E''"
  shows "stod (sg @ ip @ fp @ xp @ r) =
    map_option (\<lambda>d. (d, length (sg @ ip @ fp @ xp)))
      (dec_value (sg = ''-'') (digits_val 0 (ip @ tl fp))
        (fst (read_exponent xp) - int (length (tl fp))))"
proof -
  let ?s = "sg @ ip @ fp @ xp @ r"
  have ip: "list_all isDigit ip" "ip \<noteq> []" "front (ip @ s) \<noteq> CHR ''-''" for s
    using int_part_digits [OF assms(2)] front_digits [of ip s]
    by (auto simp: digits_def isDigit_iff)
  have neg: "(str_head ?s = CHR ''-'') = (sg = ''-'')"
    and s1: "(if str_head ?s = CHR ''-'' then tl ?s else ?s) = ip @ fp @ xp @ r"
    using assms(1) ip(3) by (auto simp: sign_text_def str_head_front)
  have xr: "\<not> isDigit (front (xp @ r))" "fp = [] \<Longrightarrow> front (xp @ r) \<noteq> CHR ''.''"
    using assms(4-8) by (auto simp: exp_part_def isDigit_iff)
  have fr: "\<not> isDigit (front (fp @ xp @ r))"
    using assms(3) xr(1) by (cases fp) (auto simp: frac_part_def isDigit_iff)
  show ?thesis
    unfolding stod_def Let_def neg s1 [unfolded neg]
    using takeWhile_digits [OF ip(1) fr] read_fraction_text [OF assms(3) xr]
      read_exponent_text [OF assms(4,5,7,8)] ip(2)
    by simp
qed

lemma has_exp_parts:
  assumes "sign_text sg" "int_part ip" "frac_part fp" "exp_part xp"
  shows "has_exp (sg @ ip @ fp @ xp) \<longleftrightarrow> xp \<noteq> []"
proof -
  have d: "c \<notin> set ds" if "list_all isDigit ds" "\<not> isDigit c" for c ds
    using that by (auto simp: list_all_iff)
  have "list_all isDigit ip" using int_part_digits [OF assms(2)] by (simp add: digits_def)
  moreover have "fp = [] \<or> (\<exists>ds. fp = CHR ''.'' # ds \<and> list_all isDigit ds)"
    using assms(3) by (cases fp) (auto simp: frac_part_def digits_def)
  ultimately have "\<not> has_exp (sg @ ip @ fp)"
    using assms(1) d [of _ "CHR ''e''"] d [of _ "CHR ''E''"] by (auto simp: has_exp_def sign_text_def isDigit_iff)
  moreover have "xp \<noteq> [] \<Longrightarrow> has_exp xp" using assms(4) by (auto simp: exp_part_def has_exp_def)
  ultimately show ?thesis by (auto simp: has_exp_def)
qed

lemma stod_text:
  assumes "double_text s" "stod s = Some (d, length s)" "number_ends s r"
  shows "stod (s @ r) = Some (d, length s)"
proof -
  obtain sg ip fp xp where s: "s = sg @ ip @ fp @ xp"
    and p: "sign_text sg" "int_part ip" "frac_part fp" "exp_part xp" "fp \<noteq> [] \<or> xp \<noteq> []"
    using assms(1) unfolding double_text_def by blast
  show ?thesis
    using stod_parts [OF p(1-4), of r] stod_parts [OF p(1-4), of "[]"] assms(2,3) p(5)
    by (simp add: s number_ends_def has_exp_parts [OF p(1-4)])
qed

lemma parseNumber_double:
  assumes "double_text s" "stod s = Some (d, length s)" "number_ends s r"
  shows "parseNumber (s @ r) v = Done PARSE_OK (VDouble d) r"
proof -
  obtain sg ip fp xp where s: "s = sg @ ip @ fp @ xp"
    and p: "sign_text sg" "int_part ip" "frac_part fp" "exp_part xp" "fp \<noteq> [] \<or> xp \<noteq> []"
    using assms(1) unfolding double_text_def by blast
  have dr: "\<not> isDigit (front r)" "xp = [] \<Longrightarrow> front r \<noteq> CHR ''e''" "xp = [] \<Longrightarrow> front r \<noteq> CHR ''E''"
    "front r \<noteq> CHR ''i''"
    using assms(3) unfolding number_ends_def s has_exp_parts [OF p(1-4)] by auto
  have xr: "\<not> isDigit (front (xp @ r))" "fp = [] \<Longrightarrow> front (xp @ r) \<noteq> CHR ''.''"
    using p(4,5) dr by (auto simp: exp_part_def isDigit_iff)
  have fr: "\<not> isDigit (front (fp @ xp @ r))"
    using p(3) xr(1) by (cases fp) (auto simp: frac_part_def isDigit_iff)
  have suf: "scanSuffix TYPE_DOUBLE r = Inr (TYPE_DOUBLE, r)"
    using dr by (simp add: scanSuffix_def)
  have t: "(if xp = [] then if fp = [] then TYPE_NULL else TYPE_DOUBLE else TYPE_DOUBLE) = TYPE_DOUBLE"
    using p(5) by auto
  have ne: "s \<noteq> []" using p(2) by (auto simp: s int_part_def digits_def)
  show ?thesis
    using scanInt_text [OF p(1,2) fr] scanFrac_text [OF p(3) xr] scanExp_text [OF p(4) dr(1-3)]
      suf t stod_text [OF assms] ne
    by (simp add: parseNumber_def convertNumber_def setDouble_def s)
qed


text \<open>Integers.\<close>

lemma parseNumber_int:
  assumes "int_text i s" "- (2 ^ 63) \<le> i" "i < 2 ^ 63"
    and suf: "sfx = ''i32'' \<and> t = TYPE_INT32 \<or> sfx = ''i64'' \<and> t = TYPE_INT64"
  shows "parseNumber (s @ sfx @ r) v = convertNumber t (s @ sfx @ r) v r"
    and "stol (s @ sfx @ r) = Some i"
proof -
  obtain sg ip where s: "s = sg @ ip" and p: "sign_text sg" "int_part ip"
    and i: "i = (if sg = ''-'' then - int (digits_val 0 ip) else int (digits_val 0 ip))"
    using assms(1) unfolding int_text_def by blast
  have sr: "\<not> isDigit (front (sfx @ r))" "front (sfx @ r) = CHR ''i''"
    using suf by (auto simp: isDigit_iff)
  have ip: "list_all isDigit ip" "ip \<noteq> []" "front (ip @ u) \<noteq> CHR ''-''" for u
    using int_part_digits [OF p(2)] front_digits [of ip u] by (auto simp: digits_def isDigit_iff)
  have "scanFrac (sfx @ r) = Inr (TYPE_NULL, sfx @ r)"
    "scanExp TYPE_NULL (sfx @ r) = Inr (TYPE_NULL, sfx @ r)"
    "scanSuffix TYPE_NULL (sfx @ r) = Inr (t, r)"
    using sr suf by (auto simp: scanFrac_def scanExp_def scanSuffix_def)
  moreover have "sg @ ip @ sfx @ r \<noteq> r" using ip(2) by simp
  ultimately show "parseNumber (s @ sfx @ r) v = convertNumber t (s @ sfx @ r) v r"
    using scanInt_text [OF p sr(1)] by (auto simp: parseNumber_def s)
  let ?s = "sg @ ip @ sfx @ r"
  have neg: "(str_head ?s = CHR ''-'') = (sg = ''-'')"
    and s1: "(if str_head ?s = CHR ''-'' then tl ?s else ?s) = ip @ sfx @ r"
    using p(1) ip(3) by (auto simp: sign_text_def str_head_front)
  have "stol ?s = Some i"
    unfolding stol_def Let_def neg s1 [unfolded neg]
    using takeWhile_digits [OF ip(1) sr(1)] ip(2) assms(2,3) by (auto simp: i)
  then show "stol (s @ sfx @ r) = Some i" by (simp add: s)
qed

lemma parseNumber_int32:
  assumes "int_text i s" "- (2 ^ 31) \<le> i" "i < 2 ^ 31"
  shows "parseNumber (s @ ''i32'' @ r) v = Done PARSE_OK (VInt32 (word_of_int i)) r"
  using parseNumber_int [OF assms(1), where sfx = "''i32''" and t = TYPE_INT32 and r = r]
    assms(2,3)
  by (simp add: convertNumber_def setInt32_def)

lemma parseNumber_int64:
  assumes "int_text i s" "- (2 ^ 63) \<le> i" "i < 2 ^ 63"
  shows "parseNumber (s @ ''i64'' @ r) v = Done PARSE_OK (VInt64 (word_of_int i)) r"
  using parseNumber_int [OF assms, where sfx = "''i64''" and t = TYPE_INT64 and r = r]
  by (simp add: convertNumber_def setInt64_def)

text \<open>An \<open>i32\<close> literal outside the range of \<open>int32_t\<close> is refused, whatever its value.\<close>

lemma parseNumber_int32_range:
  assumes "int_text i s" "- (2 ^ 63) \<le> i" "i < 2 ^ 63" "i < - (2 ^ 31) \<or> 2 ^ 31 \<le> i"
  shows "parseNumber (s @ ''i32'' @ r) v = Done PARSE_NUMBER_TOO_BIG v r"
  using parseNumber_int [OF assms(1-3), where sfx = "''i32''" and t = TYPE_INT32 and r = r]
    assms(4)
  by (auto simp: convertNumber_def)

section \<open>Strings\<close>

lemma hex_digit_less: "hex_digit c = Some d \<Longrightarrow> d < 16"
  by (auto simp: hex_digit_def char_le_iff split: if_splits)

lemma or_push_bit4:
  assumes "(d :: nat) < 16"
  shows "or (push_bit 4 u) d = u * 16 + d"
proof -
  have d: "take_bit 4 d = d" using assms by (simp add: take_bit_nat_eq_self)
  have b: "n < 4" if "bit d n" for n
    using that bit_take_bit_iff [of 4 d n] by (simp add: d)
  then have "and (push_bit 4 u) d = 0"
    by (intro bit_eqI) (auto simp: bit_simps dest: b)
  then show ?thesis
    using disjunctive_add_eq_or [of "push_bit 4 u" d] by (simp add: push_bit_eq_mult)
qed

lemma parseHex4_hex4:
  assumes "hex4 u h"
  shows "parseHex4 4 0 (h @ r) = (Some u, r)"
proof -
  have 4: "(4 :: nat) = Suc (Suc (Suc (Suc 0)))" by simp
  from assms obtain a b c d a' b' c' d' where
    h: "h = [a, b, c, d]" "hex_digit a = Some a'" "hex_digit b = Some b'" "hex_digit c = Some c'"
      "hex_digit d = Some d'" and u: "u = ((a' * 16 + b') * 16 + c') * 16 + d'"
    unfolding hex4_def by blast
  show ?thesis
    unfolding 4 using h(2-5) [THEN hex_digit_less] by (simp add: h Let_def u or_push_bit4)
qed


text \<open>\<open>encodeUtf8\<close> is only asserted on code points, and every escape yields one.\<close>

lemma encodeUtf8_Some: "u \<le> 0x10FFFF \<Longrightarrow> \<exists>bs. encodeUtf8 u = Some bs"
  by (simp add: encodeUtf8_def)

lemma parseEscape_simple: "simple_escape e c \<Longrightarrow> parseEscape (e # r) = (Some (Inr [c]), r)"
  by (auto simp: simple_escape_def parseEscape_def)

lemma parseEscape_unicode:
  assumes "hex4 u h" "\<not> (0xD800 \<le> u \<and> u \<le> 0xDBFF)" "encodeUtf8 u = Some bs"
  shows "parseEscape (CHR ''u'' # h @ r) = (Some (Inr bs), r)"
proof -
  have "(0xD800 \<le> u \<and> u \<le> 0xDBFF) = False" using assms(2) by blast
  with assms(3) parseHex4_hex4 [OF assms(1), of r] show ?thesis
    by (simp only: parseEscape_def parseUnicode_def stream_simps Let_def prod.case option.case
        option.map if_False) simp
qed

lemma parseEscape_surrogates:
  assumes "hex4 u h" "0xD800 \<le> u" "u \<le> 0xDBFF" "hex4 u2 h2" "0xDC00 \<le> u2" "u2 \<le> 0xDFFF"
    "encodeUtf8 (0x10000 + (u - 0xD800) * 0x400 + (u2 - 0xDC00)) = Some bs"
  shows "parseEscape (CHR ''u'' # h @ CHR 0x5C # CHR ''u'' # h2 @ r) = (Some (Inr bs), r)"
  using assms(2,3,5-7) parseHex4_hex4 [OF assms(1), of "CHR 0x5C # CHR ''u'' # h2 @ r"]
    parseHex4_hex4 [OF assms(4), of r]
  by (simp add: parseEscape_def parseUnicode_def)

lemma plain_char:
  assumes "CHR 0x20 \<le> c"
  shows "c \<noteq> CHR 0x00" "\<not> c < CHR 0x20"
  using assms by (auto simp: char_le_iff char_less_iff)

lemma parseChars_jchars:
  "jchars cs t \<Longrightarrow> parseChars (t @ CHR 0x22 # r) v b = Done PARSE_OK (VString (b @ cs)) r"
  by (induction arbitrary: b rule: jchars.induct)
    (simp_all add: setString_def plain_char parseEscape_simple parseEscape_unicode
      parseEscape_surrogates)

lemma parseString_jchars:
  "jchars cs t \<Longrightarrow> parseString (CHR 0x22 # t @ CHR 0x22 # r) v = Done PARSE_OK (VString cs) r"
  using parseChars_jchars [of cs t r v "[]"] by (simp add: parseString_def expect_def)

section \<open>Completeness\<close>

text \<open>How a text begins decides the branch of \<open>parseValue\<close>.\<close>

lemma number_head:
  assumes "sign_text sg" "int_part ip"
  shows "\<exists>c s. sg @ ip @ r = c # s \<and> (isDigit c \<or> c = CHR ''-'')"
  using assms int_part_digits [OF assms(2)]
  by (cases ip) (auto simp: sign_text_def digits_def)

lemma int_text_head: "int_text i s \<Longrightarrow> \<exists>c s'. s @ r = c # s' \<and> (isDigit c \<or> c = CHR ''-'')"
  using number_head by (fastforce simp: int_text_def)

lemma double_text_head: "double_text s \<Longrightarrow> \<exists>c s'. s @ r = c # s' \<and> (isDigit c \<or> c = CHR ''-'')"
  using number_head by (fastforce simp: double_text_def)

lemma parseValue_number:
  assumes "s = c # s'" "isDigit c \<or> c = CHR ''-''"
  shows "parseValue (Suc n) s v = parseNumber s v"
  using assms by (auto simp: isDigit_iff)

lemma parseValue_number_text:
  assumes "n \<noteq> 0" "\<exists>c s'. s = c # s' \<and> (isDigit c \<or> c = CHR ''-'')"
  shows "parseValue n s v = parseNumber s v"
  using assms parseValue_number by (cases n) blast+

lemma jtext_head:
  "gtext strict v t \<Longrightarrow> \<exists>c t'. t = c # t' \<and> \<not> is_ws c \<and> c \<noteq> CHR '']''"
  "gelems strict vs s \<Longrightarrow> \<exists>c t'. s = c # t' \<and> \<not> is_ws c \<and> c \<noteq> CHR '']''"
  "gmembers strict ms s \<Longrightarrow> \<exists>t'. s = CHR 0x22 # t'"
proof (induction rule: gtext_gelems_gmembers.inducts)
  case (jt_int32 i s)
  with int_text_head [OF jt_int32(1), of "''i32''"] show ?case
    by (auto simp: is_ws_def isDigit_iff)
next
  case (jt_int64 i s)
  with int_text_head [OF jt_int64(1), of "''i64''"] show ?case
    by (auto simp: is_ws_def isDigit_iff)
next
  case (jt_double s d)
  with double_text_head [OF jt_double(1), of "[]"] show ?case
    by (auto simp: is_ws_def isDigit_iff)
qed auto

lemma parseWhitespace_jtext:
  "gtext strict v t \<Longrightarrow> ws w \<Longrightarrow> parseWhitespace (w @ t @ r) = t @ r"
  "gelems strict vs s \<Longrightarrow> ws w \<Longrightarrow> parseWhitespace (w @ s @ r) = s @ r"
  "gmembers strict ms s \<Longrightarrow> ws w \<Longrightarrow> parseWhitespace (w @ s @ r) = s @ r"
  by (auto dest!: jtext_head simp: parseWhitespace_ws)

lemma insert_all_simps [simp]:
  "insert_all a [] = a" "insert_all a ((k, v) # ms) = insert_all (map_insert k v a) ms"
  by (simp_all add: insert_all_def)


lemma reads_gtext:
  "gtext strict v t \<Longrightarrow> length t < n \<Longrightarrow> ends v t r \<Longrightarrow> parseValue n (t @ r) u = Done PARSE_OK v r"
  "gelems strict vs s \<Longrightarrow> length s < n \<Longrightarrow> length s < m \<Longrightarrow>
     parseArrayLoop (parseValue n) m (s @ r) (VArray acc) = Done PARSE_OK (VArray (acc @ vs)) r"
  "gmembers strict ms s \<Longrightarrow> length s < n \<Longrightarrow> length s < m \<Longrightarrow> distinct (map fst ms) \<Longrightarrow>
     fst ` set ms \<inter> fst ` set macc = {} \<Longrightarrow>
     parseObjectLoop (parseValue n) m (s @ r) (VObject macc)
       = Done PARSE_OK (VObject (insert_all macc ms)) r"
proof (induction arbitrary: n r u and n m r acc and n m r macc rule: gtext_gelems_gmembers.inducts)
  case jt_null
  then show ?case by (cases n) (auto simp: parseLiteral_def expect_def setNull_def)
next
  case jt_true
  then show ?case by (cases n) (auto simp: parseLiteral_def expect_def setBool_def)
next
  case jt_false
  then show ?case by (cases n) (auto simp: parseLiteral_def expect_def setBool_def)
next
  case (jt_int32 i s)
  then show ?case
    using parseValue_number_text [OF _ int_text_head [OF jt_int32(1), of "''i32'' @ r"], of n u]
      parseNumber_int32 [OF jt_int32(1-3), of r u] by (simp del: parseValue.simps)
next
  case (jt_int64 i s)
  then show ?case
    using parseValue_number_text [OF _ int_text_head [OF jt_int64(1), of "''i64'' @ r"], of n u]
      parseNumber_int64 [OF jt_int64(1-3), of r u] by (simp del: parseValue.simps)
next
  case (jt_double s d)
  then show ?case
    using parseValue_number_text [OF _ double_text_head [OF jt_double(1), of r], of n u]
      parseNumber_double [OF jt_double(1,2)] by (simp del: parseValue.simps)
next
  case (jt_string cs t)
  then show ?case using parseString_jchars [OF jt_string(1)] by (cases n) auto
next
  case (jt_array0 w)
  then show ?case
    using parseWhitespace_token [OF jt_array0(1), of "CHR '']''" r]
    by (cases n) (auto simp: parseArray_def expect_def setArray_def)
next
  case (jt_array w vs s)
  obtain k where n: "n = Suc k" "length s < k" using jt_array.prems by (cases n) auto
  have "front (s @ r) \<noteq> CHR '']''" using jtext_head(2) [OF jt_array.IH(1)] by auto
  then show ?case
    using jt_array.IH(2) [of k k r "[]"] parseWhitespace_jtext(2) [OF jt_array.IH(1) jt_array.hyps(1), of r] n
    by (simp add: parseArray_def expect_def setArray_def)
next
  case (jt_object0 w)
  then show ?case
    using parseWhitespace_token [OF jt_object0(1), of "CHR ''}''" r]
    by (cases n) (auto simp: parseObject_def expect_def setObject_def)
next
  case (jt_object w ms s)
  obtain k where n: "n = Suc k" "length s < k" using jt_object.prems by (cases n) auto
  have "front (s @ r) \<noteq> CHR ''}''" using jtext_head(3) [OF jt_object.IH(1)] by auto
  then show ?case
    using jt_object.IH(2) [of k k "[]" r] parseWhitespace_jtext(3) [OF jt_object.IH(1) jt_object.hyps(1), of r] n
      jt_object.hyps
    by (simp add: parseObject_def expect_def setObject_def)
next
  case (je_last v t w)
  obtain k where m: "m = Suc k" using je_last.prems by (cases m) auto
  have "parseValue n (t @ w @ CHR '']'' # r) VNull = Done PARSE_OK v (w @ CHR '']'' # r)"
    using je_last.IH(2) [of n "w @ CHR '']'' # r"] je_last.prems delim_ends [OF delim_ws [OF je_last.hyps(1)]] by simp
  then show ?case
    using parseWhitespace_token [OF je_last.hyps(1), of "CHR '']''" r] by (simp add: m)
next
  case (je_cons v t w w' vs s)
  obtain k where m: "m = Suc k" "length s < k" using je_cons.prems by (cases m) auto
  let ?r = "w @ CHR '','' # w' @ s @ r"
  have "parseValue n (t @ ?r) VNull = Done PARSE_OK v ?r"
    using je_cons.IH(2) [of n ?r] je_cons.prems delim_ends [OF delim_ws [OF je_cons.hyps(1)]] by simp
  then show ?case
    using parseWhitespace_token [OF je_cons.hyps(1), of "CHR '',''" "w' @ s @ r"]
      parseWhitespace_jtext(2) [OF je_cons.IH(3) je_cons.hyps(2), of r] je_cons.IH(4) [of n k r "acc @ [v]"]
      je_cons.prems m
    by simp
next
  case (je_any v t w c vs s)
  obtain k where m: "m = Suc k" "length s < k" using je_any.prems by (cases m) auto
  let ?r = "w @ c # s @ r"
  have "ends v t ?r" using je_any.hyps(5) ends_front [of ?r "w @ [c]"] by (cases w) auto
  then have "parseValue n (t @ ?r) VNull = Done PARSE_OK v ?r" using je_any.IH(3) [of n ?r] je_any.prems by simp
  then show ?case
    using parseWhitespace_token [OF je_any.hyps(1,2), of "s @ r"] je_any.hyps(3,4)
      je_any.IH(5) [of n k r "acc @ [v]"] je_any.prems m by simp
next
  case (jm_last k kt w1 w2 v t w3)
  obtain j where m: "m = Suc j" using jm_last.prems by (cases m) auto
  let ?r3 = "w3 @ CHR ''}'' # r" and ?r1 = "w1 @ CHR '':'' # w2 @ t @ w3 @ CHR ''}'' # r"
  have "parseValue n (t @ ?r3) VNull = Done PARSE_OK v ?r3"
    using jm_last.IH(2) [of n ?r3] jm_last.prems delim_ends [OF delim_ws [OF jm_last.hyps(4)]] by simp
  then show ?case
    using parseString_jchars [OF jm_last.hyps(1), of ?r1 VNull]
      parseWhitespace_token [OF jm_last.hyps(2), of "CHR '':''" "w2 @ t @ ?r3"]
      parseWhitespace_jtext(1) [OF jm_last.IH(1) jm_last.hyps(3), of ?r3]
      parseWhitespace_token [OF jm_last.hyps(4), of "CHR ''}''" r] jm_last.prems
    by (simp add: m map_of_eq_None_iff)
next
  case (jm_cons k kt w1 w2 v t w3 w4 ms s)
  obtain j where m: "m = Suc j" "length s < j" using jm_cons.prems by (cases m) auto
  let ?r3 = "w3 @ CHR '','' # w4 @ s @ r"
  let ?r1 = "w1 @ CHR '':'' # w2 @ t @ ?r3"
  have "parseValue n (t @ ?r3) VNull = Done PARSE_OK v ?r3"
    using jm_cons.IH(2) [of n ?r3] jm_cons.prems delim_ends [OF delim_ws [OF jm_cons.hyps(4)]] by simp
  moreover have "parseObjectLoop (parseValue n) j (s @ r) (VObject (map_insert k v macc))
      = Done PARSE_OK (VObject (insert_all (map_insert k v macc) ms)) r"
    using jm_cons.IH(4) [of n j "map_insert k v macc" r] jm_cons.prems m by auto
  ultimately show ?case
    using parseString_jchars [OF jm_cons.hyps(1), of ?r1 VNull]
      parseWhitespace_token [OF jm_cons.hyps(2), of "CHR '':''" "w2 @ t @ ?r3"]
      parseWhitespace_jtext(1) [OF jm_cons.IH(1) jm_cons.hyps(3), of ?r3]
      parseWhitespace_token [OF jm_cons.hyps(4), of "CHR '',''" "w4 @ s @ r"]
      parseWhitespace_jtext(3) [OF jm_cons.IH(3) jm_cons.hyps(5), of r] jm_cons.prems m
    by (simp add: map_of_eq_None_iff)
qed

lemmas reads_text = reads_gtext(1) [OF _ _ delim_ends]

text \<open>Every text of \<open>v\<close>, in whitespace, parses to \<open>v\<close>.\<close>

lemma parse_text:
  assumes "gtext strict v t" "ws w1" "ws w2"
  shows "parse (w1 @ t @ w2) u = Some (PARSE_OK, v)"
proof -
  have "delim w2" using assms(3) by (cases w2) (auto simp: delim_def)
  then have "parseValue (fuel_for (t @ w2)) (t @ w2) VNull = Done PARSE_OK v w2"
    by (intro reads_text [OF assms(1)]) (simp add: fuel_for_def)
  moreover have "parseWhitespace w2 = []"
    using parseWhitespace_ws [OF assms(3), of "[]"] by simp
  ultimately show ?thesis
    using parseWhitespace_jtext(1) [OF assms(1,2)]
    by (simp add: parse_def hasNext_def del: parseValue.simps)
qed

end
