(* ===== verification/RpcServerFacts.thy ===== *)
theory RpcServerFacts
  imports RpcEcho JsonGrammar
begin

text \<open>
  What the server promises: which request reaches which procedure, how the others are
  rejected, that no text aborts it unless its parsing or a callback does, what a batch
  answers, and that a notification is not answered.
\<close>

section \<open>Method names\<close>

lemma str_find_dot: "CHR ''.'' \<notin> set svc \<Longrightarrow> str_find ''.'' (svc @ CHR ''.'' # m) = Some (length svc)"
  by (induction svc) auto

lemma str_find_dot_None: "str_find ''.'' s = None \<longleftrightarrow> CHR ''.'' \<notin> set s"
  by (induction s) auto

lemma no_dot_not_rpc: "CHR ''.'' \<notin> set svc \<Longrightarrow> m \<noteq> [] \<Longrightarrow> svc @ CHR ''.'' # m \<noteq> ''rpc.''"
  using str_find_dot [of svc m] by (auto simp: append_eq_Cons_conv Cons_eq_append_conv)

lemma split_method:
  obtains "str_find ''.'' s = None"
  | svc m where "s = svc @ CHR ''.'' # m" "CHR ''.'' \<notin> set svc"
  by (metis str_find_dot_None split_list_first)

lemma handleRequestSingle_no_dot:
  assumes "valid_request ms" "map_of ms ''id'' = Some ident"
    "map_of ms ''method'' = Some (VString s)" "CHR ''.'' \<notin> set s"
  shows "handleRequestSingle S (VObject ms) =
    throws (RequestException RPC_INVALID_REQUEST ident (Literal ''missing service name in method''))"
  using assms validateRequest_iff(1) [of ms] str_find_dot_None [of s]
  by (simp add: handleRequestSingle_def getMethod_def)

text \<open>The procedure a method name \<open>svc.m\<close> reaches on a valid request.\<close>

lemma handleRequestSingle_method:
  assumes "valid_request ms" "map_of ms ''id'' = Some ident"
    "map_of ms ''method'' = Some (VString (svc @ CHR ''.'' # m))" "CHR ''.'' \<notin> set svc"
  shows "handleRequestSingle S (VObject ms) =
    (if svc = [] then throws (RequestException RPC_INVALID_REQUEST ident
        (Literal ''missing service name in method''))
     else case services S svc of
        None \<Rightarrow> throws (RequestException RPC_METHOD_NOT_FOUND ident (Literal ''service not found''))
      | Some s \<Rightarrow> if m = [] then throws (RequestException RPC_INVALID_REQUEST ident
            (Literal ''missing method name in method''))
          else callProcedureReturn s m (VObject ms))"
  using assms validateRequest_iff(1) [of ms]
  by (auto simp: handleRequestSingle_def getMethod_def Let_def str_find_dot split: option.splits)

lemma handleNotifySingle_method:
  assumes "valid_notify ms"
    "map_of ms ''method'' = Some (VString (svc @ CHR ''.'' # m))" "CHR ''.'' \<notin> set svc"
  shows "handleNotifySingle S (VObject ms) =
    (if svc = [] then Throw (NotifyException RPC_INVALID_REQUEST
        (Literal ''missing service name in method''))
     else case services S svc of
        None \<Rightarrow> Throw (RequestException RPC_METHOD_NOT_FOUND VNull (Literal ''service not found''))
      | Some s \<Rightarrow> if m = [] then Throw (NotifyException RPC_INVALID_REQUEST
            (Literal ''missing method name in method''))
          else callProcedureNotify s m (VObject ms))"
  using assms validateNotify_iff(1) [of ms]
  by (auto simp: handleNotifySingle_def getMethod_def Let_def str_find_dot split: option.splits)

section \<open>Requests\<close>

text \<open>
  An object that has an \<open>id\<close> but is not a valid request (a field missing, of the wrong
  type, or one too many; a wrong version; the reserved method) is rejected before any service
  is looked at, with the code \<open>INVALID_REQUEST\<close> (or \<open>METHOD_NOT_FOUND\<close> for the reserved
  method), and with the request's id, unless a field has the wrong type or is missing.
\<close>

theorem invalid_request_rejected:
  assumes "\<not> valid_request ms"
  shows "\<exists>err i d. handleRequestSingle S (VObject ms) = throws (RequestException err i d)
    \<and> (i = VNull \<and> err = RPC_INVALID_REQUEST \<and> (\<exists>s. d = Freed s)
       \<or> map_of ms ''id'' = Some i \<and> (\<exists>s. d = Literal s)
         \<and> err = (if map_of ms ''method'' = Some (VString ''rpc.'')
                     \<and> map_of ms ''jsonrpc'' = Some (VString ''2.0'')
                  then RPC_METHOD_NOT_FOUND else RPC_INVALID_REQUEST))"
  using assms
  by (auto simp: handleRequestSingle_def validateRequest_def findValue_object findString_object
      hasParams_def valid_request_def has_type_def call_fields_def expected_size_def run_defs
      split: option.splits JValue.splits)

lemma invalid_request_rejected_witness:
  "\<exists>err i d. handleRequestSingle echo_server (VObject [(''id'', VInt32 7), (''jsonrpc'', VString ''1.0''),
       (''method'', VString ''EchoServer.Echo'')]) = throws (RequestException err i d)"
  using invalid_request_rejected [of "[(''id'', VInt32 7), (''jsonrpc'', VString ''1.0''),
       (''method'', VString ''EchoServer.Echo'')]" echo_server]
  by (auto simp: valid_request_def call_fields_def)

text \<open>
  C7: a valid request for \<open>svc.m\<close>, split at the first dot, is answered by the callback registered for
  \<open>m\<close> in the service \<open>svc\<close>, on the request unchanged, if its params match the declaration; in every
  other case nothing is passed to \<open>done\<close> and the exception has the request's id and the code of the
  first thing that is wrong, in this order: dot and service name, service, method name, method, params.
  An object that is no valid request is refused before any service is looked at, with its id unless a
  field is missing or of the wrong type. (A request without params is valid, although the comment at
  \<open>RpcServer.cpp\<close>, line 208, says that they cannot be left out.)
\<close>

theorem request_dispatch:
  "(valid_request ms \<and> map_of ms ''id'' = Some ident \<and> map_of ms ''method'' = Some (VString s) \<longrightarrow>
     handleRequestSingle S (VObject ms) =
       (let reject = (\<lambda>err text. throws (RequestException err ident (Literal text)));
            svc = takeWhile (\<lambda>c. c \<noteq> CHR ''.'') s; m = drop (length svc + 1) s
        in if svc = [] \<or> CHR ''.'' \<notin> set s then reject RPC_INVALID_REQUEST ''missing service name in method''
           else case services S svc of
             None \<Rightarrow> reject RPC_METHOD_NOT_FOUND ''service not found''
           | Some sv \<Rightarrow>
               if m = [] then reject RPC_INVALID_REQUEST ''missing method name in method''
               else case procedureReturn sv m of
                 None \<Rightarrow> reject RPC_METHOD_NOT_FOUND ''method not found''
               | Some p \<Rightarrow>
                   if params_match (params p) (map_of ms ''params'') then callBack p (VObject ms)
                   else reject RPC_INVALID_PARAMS ''params name or type mismatch'')) \<and>
   (\<not> valid_request ms \<longrightarrow>
     (\<exists>err i d. handleRequestSingle S (VObject ms) = throws (RequestException err i d) \<and>
        (i = VNull \<and> err = RPC_INVALID_REQUEST \<and> (\<exists>text. d = Freed text) \<or>
         map_of ms ''id'' = Some i \<and> (\<exists>text. d = Literal text) \<and>
           err = (if map_of ms ''method'' = Some (VString ''rpc.'') \<and> map_of ms ''jsonrpc'' = Some (VString ''2.0'')
                  then RPC_METHOD_NOT_FOUND else RPC_INVALID_REQUEST))))"
proof (intro conjI impI, elim conjE)
  assume v: "valid_request ms" and i: "map_of ms ''id'' = Some ident" and s: "map_of ms ''method'' = Some (VString s)"
  show "handleRequestSingle S (VObject ms) =
       (let reject = (\<lambda>err text. throws (RequestException err ident (Literal text)));
            svc = takeWhile (\<lambda>c. c \<noteq> CHR ''.'') s; m = drop (length svc + 1) s
        in if svc = [] \<or> CHR ''.'' \<notin> set s then reject RPC_INVALID_REQUEST ''missing service name in method''
           else case services S svc of
             None \<Rightarrow> reject RPC_METHOD_NOT_FOUND ''service not found''
           | Some sv \<Rightarrow>
               if m = [] then reject RPC_INVALID_REQUEST ''missing method name in method''
               else case procedureReturn sv m of
                 None \<Rightarrow> reject RPC_METHOD_NOT_FOUND ''method not found''
               | Some p \<Rightarrow>
                   if params_match (params p) (map_of ms ''params'') then callBack p (VObject ms)
                   else reject RPC_INVALID_PARAMS ''params name or type mismatch'')"
  proof (cases rule: split_method [of s])
    case 1
    then show ?thesis using v i s handleRequestSingle_no_dot by (simp add: str_find_dot_None)
  next
    case (2 svc m)
    then have "takeWhile (\<lambda>c. c \<noteq> CHR ''.'') s = svc" by (auto simp: takeWhile_append)
    then show ?thesis using handleRequestSingle_method [OF v i s [unfolded 2] 2(2)] 2 i
      by (auto simp: Let_def callProcedureReturn_def invokeReturn_def validateReturn_iff split: option.splits)
  qed
qed (rule invalid_request_rejected)

lemma request_dispatch_witness:
  "handleRequestSingle echo_server (VObject [(''id'', VInt32 7), (''jsonrpc'', VString ''2.0''),
       (''method'', VString ''EchoServer.Echo''), (''params'', VArray [VBool True])])
     = throws (RequestException RPC_INVALID_PARAMS (VInt32 7) (Literal ''params name or type mismatch'')) \<and>
   handleRequestSingle echo_server (VObject [(''id'', VInt32 7), (''jsonrpc'', VString ''2.0''), (''method'', VString ''Echo'')])
     = throws (RequestException RPC_INVALID_REQUEST (VInt32 7) (Literal ''missing service name in method''))"
  using request_dispatch [where s = "''EchoServer.Echo''" and ident = "VInt32 7" and S = echo_server and
      ms = "[(''id'', VInt32 7), (''jsonrpc'', VString ''2.0''), (''method'', VString ''EchoServer.Echo''), (''params'', VArray [VBool True])]"]
    request_dispatch [where s = "''Echo''" and ident = "VInt32 7" and S = echo_server and
      ms = "[(''id'', VInt32 7), (''jsonrpc'', VString ''2.0''), (''method'', VString ''Echo'')]"]
  by (simp add: valid_request_def call_fields_def has_type_def expected_size_def
      echo_server_services params_match_def echo_params_def)

section \<open>Nothing aborts\<close>

text \<open>The procedures of \<open>S\<close> that an object calls, on an object that is valid and whose params match.\<close>

definition calls_return :: "RpcServer \<Rightarrow> member_list \<Rightarrow> ProcedureReturn \<Rightarrow> bool" where
  "calls_return S ms p \<longleftrightarrow> valid_request ms \<and> params_match (params p) (map_of ms ''params'') \<and>
     (\<exists>svc m sv. map_of ms ''method'' = Some (VString (svc @ CHR ''.'' # m)) \<and> CHR ''.'' \<notin> set svc \<and> svc \<noteq> [] \<and> m \<noteq> [] \<and>
        services S svc = Some sv \<and> procedureReturn sv m = Some p)"

definition calls_notify :: "RpcServer \<Rightarrow> member_list \<Rightarrow> ProcedureNotify \<Rightarrow> bool" where
  "calls_notify S ms p \<longleftrightarrow> valid_notify ms \<and> params_match (params p) (map_of ms ''params'') \<and>
     (\<exists>svc m sv. map_of ms ''method'' = Some (VString (svc @ CHR ''.'' # m)) \<and> CHR ''.'' \<notin> set svc \<and> svc \<noteq> [] \<and> m \<noteq> [] \<and>
        services S svc = Some sv \<and> procedureNotify sv m = Some p)"

text \<open>A procedure that the value calls aborts on it.\<close>

definition call_aborts :: "RpcServer \<Rightarrow> JValue \<Rightarrow> bool" where
  "call_aborts S v \<longleftrightarrow> (\<exists>ms. v = VObject ms \<and>
     (if map_of ms ''id'' = None then \<exists>p. calls_notify S ms p \<and> callBack p v = Abort
      else \<exists>p. calls_return S ms p \<and> snd (callBack p v) = Abort))"

lemma call_method: "call_fields ms \<Longrightarrow> \<exists>s. map_of ms ''method'' = Some (VString s)"
  by (auto simp: call_fields_def has_type_def)

lemma method_unique:
  "svc @ CHR ''.'' # m = svc' @ CHR ''.'' # m' \<Longrightarrow> CHR ''.'' \<notin> set svc \<Longrightarrow> CHR ''.'' \<notin> set svc' \<Longrightarrow> svc = svc' \<and> m = m'"
  by (metis append_eq_append_conv str_find_dot option.inject list.inject)

lemma single_Abort_iff:
  assumes i: "map_of ms ''id'' = Some ident"
  shows "snd (handleRequestSingle S (VObject ms)) = Abort \<longleftrightarrow> (\<exists>p. calls_return S ms p \<and> snd (callBack p (VObject ms)) = Abort)"
proof (cases "valid_request ms")
  case False
  then obtain e where "validateRequest (VObject ms) = Throw e"
    using validateRequest_iff(2) [of ms] by (auto simp: rejects_def)
  then show ?thesis using False by (simp add: handleRequestSingle_def run_defs calls_return_def)
next
  case True
  then obtain s where s: "map_of ms ''method'' = Some (VString s)"
    using call_method [of ms] by (auto simp: valid_request_def)
  show ?thesis
  proof (cases rule: split_method [of s])
    case 1
    then have "CHR ''.'' \<notin> set s" by (simp add: str_find_dot_None)
    then show ?thesis using handleRequestSingle_no_dot [OF True i s] s by (auto simp: run_defs calls_return_def)
  next
    case (2 svc m)
    have "calls_return S ms p \<longleftrightarrow> params_match (params p) (map_of ms ''params'') \<and> svc \<noteq> [] \<and> m \<noteq> [] \<and>
        (\<exists>sv. services S svc = Some sv \<and> procedureReturn sv m = Some p)" for p
      using True 2 s method_unique [of svc m] unfolding calls_return_def by auto
    then show ?thesis
      by (auto simp: handleRequestSingle_method [OF True i s [unfolded 2(1)] 2(2)] run_defs
          callProcedureReturn_def invokeReturn_def validateReturn_iff [OF i] i split: option.splits)
  qed
qed

lemma notify_Abort_iff:
  "handleNotifySingle S (VObject ms) = Abort \<longleftrightarrow> (\<exists>p. calls_notify S ms p \<and> callBack p (VObject ms) = Abort)"
proof (cases "valid_notify ms")
  case False
  then obtain e where "validateNotify (VObject ms) = Throw e"
    using validateNotify_iff(2) [of ms] by (auto simp: rejects_def)
  then show ?thesis using False by (simp add: handleNotifySingle_def calls_notify_def)
next
  case True
  then obtain s where s: "map_of ms ''method'' = Some (VString s)"
    using call_method [of ms] by (auto simp: valid_notify_def)
  show ?thesis
  proof (cases rule: split_method [of s])
    case 1
    then have "\<not> calls_notify S ms p" for p using s by (auto simp: str_find_dot_None calls_notify_def)
    then show ?thesis
      using True 1 validateNotify_iff(1) [of ms] s by (simp add: handleNotifySingle_def getMethod_def)
  next
    case (2 svc m)
    have "calls_notify S ms p \<longleftrightarrow> params_match (params p) (map_of ms ''params'') \<and> svc \<noteq> [] \<and> m \<noteq> [] \<and>
        (\<exists>sv. services S svc = Some sv \<and> procedureNotify sv m = Some p)" for p
      using True 2 s method_unique [of svc m] unfolding calls_notify_def by auto
    then show ?thesis
      by (auto simp: handleNotifySingle_method [OF True s [unfolded 2(1)] 2(2)]
          callProcedureNotify_def invokeNotify_def validateNotification_iff split: option.splits)
  qed
qed

lemma isNotify_object: "isNotify (VObject ms) = Ret (map_of ms ''id'' = None)"
  by (simp add: isNotify_def)

lemma handleOne_Abort_iff: "snd (handleOne S v) = Abort \<longleftrightarrow> call_aborts S v"
proof (cases v)
  case (VObject ms)
  then show ?thesis
    by (cases "map_of ms ''id''")
      (auto simp: handleOne_def is_type_defs run_defs isNotify_object snd_run_bind_Abort notify_Abort_iff single_Abort_iff call_aborts_def)
qed (simp_all add: handleOne_def is_type_defs run_defs call_aborts_def)

lemma batchLoop_Abort_iff:
  "snd (batchLoop S vs) = Abort \<longleftrightarrow>
     (\<exists>xs y zs. vs = xs @ y # zs \<and> list_all (\<lambda>x. snd (handleOne S x) = Ret ()) xs \<and> call_aborts S y)"
proof (induction vs)
  case (Cons v vs)
  show ?case
  proof (cases "snd (handleOne S v) = Ret ()")
    case True
    then have n: "\<not> call_aborts S v" using handleOne_Abort_iff [of S v] by simp
    have "(\<exists>xs y zs. v # vs = xs @ y # zs \<and> list_all (\<lambda>x. snd (handleOne S x) = Ret ()) xs \<and> call_aborts S y) \<longleftrightarrow>
        (\<exists>xs y zs. vs = xs @ y # zs \<and> list_all (\<lambda>x. snd (handleOne S x) = Ret ()) xs \<and> call_aborts S y)"
      (is "?l \<longleftrightarrow> ?r")
    proof
      assume ?l
      then obtain xs y zs where "v # vs = xs @ y # zs" "list_all (\<lambda>x. snd (handleOne S x) = Ret ()) xs" "call_aborts S y" by blast
      then show ?r using n by (cases xs) auto
    next
      assume ?r
      then obtain xs y zs where "vs = xs @ y # zs" "list_all (\<lambda>x. snd (handleOne S x) = Ret ()) xs" "call_aborts S y" by blast
      then show ?l using True by (intro exI [of _ "v # xs"]) auto
    qed
    then show ?thesis using True Cons.IH by (simp add: run_seq_def)
  next
    case False
    then have "snd (batchLoop S (v # vs)) = Abort \<longleftrightarrow> call_aborts S v"
      using handleOne_Abort_iff [of S v] by (auto simp: run_seq_def split: outcome.splits)
    moreover have "xs = []" if "v # vs = xs @ y # zs" "list_all (\<lambda>x. snd (handleOne S x) = Ret ()) xs" for xs y zs
      using that False by (cases xs) auto
    moreover have "list_all (\<lambda>x. snd (handleOne S x) = Ret ()) []" by simp
    ultimately show ?thesis by (metis append_Nil list.inject)
  qed
qed (simp add: returns_def)

lemma wrapException_Some:
  "wrapException freed err det = Some (VObject [(''error'', VObject [(''code'', VInt32 (asCode err)),
     (''data'', VString (read_detail freed det)), (''message'', VString (asString err))]),
     (''jsonrpc'', VString ''2.0'')])"
  by (simp add: wrapException_def addMember_all_def char_less_iff)

lemma batch_Abort_iff: "snd (handleRequestBatch freed S (VArray vs)) = Abort \<longleftrightarrow> snd (batchLoop S vs) = Abort"
  by (cases vs; cases "batchLoop S vs")
    (auto simp: handleRequestBatch_def run_defs wrapException_Some split: outcome.splits rpc_exception.splits)

text \<open>
  C12: whatever text a client sends, and whatever the procedures are, \<open>handleRequest\<close> returns or throws
  one of the two declared exceptions, and no assertion of the server itself fails: it aborts exactly
  when the reader aborts on the text, or when a procedure aborts that the text calls with a valid
  request or notification whose params match its declaration, itself or in a batch behind elements that
  returned.
\<close>

theorem handleRequest_aborts_iff:
  "snd (handleRequest freed S json) = Abort \<longleftrightarrow>
     parse json VNull = None \<or>
     (\<exists>v. parse json VNull = Some (PARSE_OK, v) \<and>
        (call_aborts S v \<or>
         (\<exists>xs y zs. v = VArray (xs @ y # zs) \<and> list_all (\<lambda>x. snd (handleOne S x) = Ret ()) xs \<and> call_aborts S y)))"
proof (cases "parse json VNull")
  case (Some ev)
  obtain e v where p: "parse json VNull = Some (e, v)" using Some by fastforce
  show ?thesis
  proof (cases "e = PARSE_OK")
    case True
    show ?thesis
    proof (cases v)
      case (VObject ms)
      then show ?thesis using p True
        by (cases "map_of ms ''id''")
          (auto simp: handleRequest_def run_defs isNotify_object snd_run_bind_Abort notify_Abort_iff single_Abort_iff call_aborts_def)
    next
      case (VArray vs)
      then show ?thesis using p True batchLoop_Abort_iff [of S vs] by (simp add: handleRequest_def batch_Abort_iff call_aborts_def)
    qed (use p True in \<open>simp_all add: handleRequest_def run_defs call_aborts_def\<close>)
  qed (use p in \<open>simp add: handleRequest_def run_defs\<close>)
qed (simp add: handleRequest_def run_defs)

text \<open>A call of the echo service is answered; one with array params aborts its stub.\<close>

lemma echo_texts:
  "parse ''{\"id\":7i32,\"jsonrpc\":\"2.0\",\"method\":\"EchoServer.Echo\",\"params\":{\"message\":\"x\"}}'' VNull
    = Some (PARSE_OK, VObject [(''id'', VInt32 7), (''jsonrpc'', VString ''2.0''),
        (''method'', VString ''EchoServer.Echo''), (''params'', VObject [(''message'', VString ''x'')])])"
  "parse ''{\"id\":7i32,\"jsonrpc\":\"2.0\",\"method\":\"EchoServer.Echo\",\"params\":[\"x\"]}'' VNull
    = Some (PARSE_OK, VObject [(''id'', VInt32 7), (''jsonrpc'', VString ''2.0''),
        (''method'', VString ''EchoServer.Echo''), (''params'', VArray [VString ''x''])])"
  by code_simp+

lemma echo_calls_return:
  "map_of ms ''method'' = Some (VString ''EchoServer.Echo'') \<Longrightarrow>
   calls_return echo_server ms p \<longleftrightarrow> valid_request ms \<and> params_match echo_params (map_of ms ''params'') \<and>
     p = \<lparr>callBack = EchoStub, params = echo_params\<rparr>"
  using method_unique [of "''EchoServer''" "''Echo''"]
  by (fastforce simp: calls_return_def echo_server_services split: if_splits)

theorem handleRequest_aborts_iff_witness:
  "snd (handleRequest (\<lambda>s. s) echo_server
     ''{\"id\":7i32,\"jsonrpc\":\"2.0\",\"method\":\"EchoServer.Echo\",\"params\":{\"message\":\"x\"}}'') \<noteq> Abort \<and>
   snd (handleRequest (\<lambda>s. s) echo_server
     ''{\"id\":7i32,\"jsonrpc\":\"2.0\",\"method\":\"EchoServer.Echo\",\"params\":[\"x\"]}'') = Abort"
  unfolding handleRequest_aborts_iff echo_texts
  by (simp add: call_aborts_def echo_calls_return params_match_def echo_params_def EchoStub_def echo_message_def
      UserDoneCallback_Some aborts_def valid_request_def call_fields_def has_type_def expected_size_def)

section \<open>Batches\<close>

lemma batchLoop_append:
  "\<forall>x \<in> set xs. snd (handleOne S x) = Ret () \<Longrightarrow>
     batchLoop S (xs @ ys) = (concat (map (\<lambda>x. fst (handleOne S x)) xs) @ fst (batchLoop S ys),
       snd (batchLoop S ys))"
  by (induction xs) (auto simp: run_seq_def)

text \<open>
  A batch calls \<open>done\<close> once, with the array of what its elements answered in order; the
  first element that throws ends it, and the elements after it are dropped: after a
  \<open>RequestException\<close> with its error as the last response, after a \<open>NotifyException\<close> without.
\<close>

theorem batch_responses:
  assumes "\<forall>x \<in> set xs. snd (handleOne S x) = Ret ()"
  shows "(xs \<noteq> [] \<longrightarrow> handleRequestBatch freed S (VArray xs)
      = ([VArray (concat (map (\<lambda>x. fst (handleOne S x)) xs))], Ret ()))
    \<and> (handleOne S y = (rs, Throw (RequestException err ident det)) \<longrightarrow>
      handleRequestBatch freed S (VArray (xs @ y # zs))
      = ([VArray (concat (map (\<lambda>x. fst (handleOne S x)) xs) @ rs
            @ [the (wrapException freed err det)])], Ret ()))
    \<and> (handleOne S y = (rs, Throw (NotifyException err det)) \<longrightarrow>
      handleRequestBatch freed S (VArray (xs @ y # zs))
      = ([VArray (concat (map (\<lambda>x. fst (handleOne S x)) xs) @ rs)], Ret ()))"
  using batchLoop_append [OF assms, of "[]"] batchLoop_append [OF assms, of "y # zs"]
  by (auto simp: handleRequestBatch_def returns_def run_seq_def wrapException_Some)

definition echo_ms :: "string \<Rightarrow> member_list" where
  "echo_ms msg = [(''id'', VInt32 7), (''jsonrpc'', VString ''2.0''),
     (''method'', VString ''EchoServer.Echo''), (''params'', VObject [(''message'', VString msg)])]"

lemma handleOne_echo:
  "handleOne echo_server (VObject (echo_ms msg)) =
    ([VObject [(''id'', VInt32 7), (''jsonrpc'', VString ''2.0''), (''result'', VString msg)]], Ret ())"
proof -
  have "valid_request (echo_ms msg)"
    by (simp add: valid_request_def call_fields_def has_type_def expected_size_def echo_ms_def)
  from handleRequestSingle_method [OF this, of "VInt32 7" "''EchoServer''" "''Echo''" echo_server]
  show ?thesis
    by (simp add: handleOne_def is_type_defs isNotify_object echo_ms_def echo_server_services
        callProcedureReturn_def invokeReturn_def validateReturn_iff params_match_def echo_params_def
        EchoStub_def echo_message_def UserDoneCallback_Some)
qed

lemma batch_responses_witness:
  "handleRequestBatch (\<lambda>s. s) echo_server (VArray [VObject (echo_ms ''a''), VNull, VObject (echo_ms ''b'')])
    = ([VArray [VObject [(''id'', VInt32 7), (''jsonrpc'', VString ''2.0''), (''result'', VString ''a'')],
          the (wrapException (\<lambda>s. s) RPC_INVALID_REQUEST (Literal ''request should be json object''))]],
       Ret ())"
  using batch_responses [of "[VObject (echo_ms ''a'')]" echo_server "\<lambda>s. s" VNull "[]"
      RPC_INVALID_REQUEST VNull "Literal ''request should be json object''" "[VObject (echo_ms ''b'')]"]
  by (simp add: handleOne_echo) (simp add: handleOne_def is_type_defs throws_def)

section \<open>Notifications\<close>

text \<open>
  A text that is a notification (an object without \<open>id\<close>) is never answered; it reaches the
  registered procedure if it is valid and its params match, and every other ending is an
  exception.
\<close>

theorem notify_not_answered:
  assumes "parse json VNull = Some (PARSE_OK, VObject ms)" "map_of ms ''id'' = None"
  shows "fst (handleRequest freed S json) = []
    \<and> snd (handleRequest freed S json) = handleNotifySingle S (VObject ms)
    \<and> (valid_notify ms \<and> map_of ms ''method'' = Some (VString (svc @ CHR ''.'' # m))
         \<and> CHR ''.'' \<notin> set svc \<and> svc \<noteq> [] \<and> m \<noteq> [] \<and> services S svc = Some s
         \<and> procedureNotify s m = Some p \<and> params_match (params p) (map_of ms ''params'') \<longrightarrow>
       snd (handleRequest freed S json) = callBack p (VObject ms))"
proof -
  have r: "handleRequest freed S json = run_bind (handleNotifySingle S (VObject ms)) (\<lambda>_. returns)"
    using assms by (simp add: handleRequest_def isNotify_object)
  then have "fst (handleRequest freed S json) = []"
    and 2: "snd (handleRequest freed S json) = handleNotifySingle S (VObject ms)"
    by (cases "handleNotifySingle S (VObject ms)"; simp add: run_defs)+
  then show ?thesis
    using handleNotifySingle_method [of ms svc m S]
    by (auto simp: callProcedureNotify_def invokeNotify_def validateNotification_iff)
qed

lemma notify_text:
  "parse ''{\"jsonrpc\":\"2.0\",\"method\":\"EchoServer.Notify\",\"params\":[\"x\"]}'' VNull
    = Some (PARSE_OK, VObject [(''jsonrpc'', VString ''2.0''), (''method'', VString ''EchoServer.Notify''),
        (''params'', VArray [VString ''x''])])"
  by code_simp

lemma notify_not_answered_witness:
  "fst (handleRequest (\<lambda>s. s) echo_server
     ''{\"jsonrpc\":\"2.0\",\"method\":\"EchoServer.Notify\",\"params\":[\"x\"]}'') = []"
  using notify_not_answered [OF notify_text, of "\<lambda>s. s" echo_server] by simp

text \<open>
  The stub of the echo server reads \<open>params["message"]\<close>, but array params pass the
  validation too (their types match): such a request aborts the server.
\<close>

theorem echo_array_params_abort:
  assumes "parse json VNull = Some (PARSE_OK, VObject ms)"
    "valid_request ms" "map_of ms ''method'' = Some (VString ''EchoServer.Echo'')"
    "map_of ms ''params'' = Some (VArray [VString msg])"
  shows "handleRequest freed echo_server json = aborts"
proof -
  obtain ident where i: "map_of ms ''id'' = Some ident"
    using assms(2) by (auto simp: valid_request_def has_type_def)
  show ?thesis
    using handleRequestSingle_method [OF assms(2) i, of "''EchoServer''" "''Echo''" echo_server] assms i
    by (simp add: handleRequest_def isNotify_object echo_server_services callProcedureReturn_def
        invokeReturn_def validateReturn_iff params_match_def echo_params_def EchoStub_def
        echo_message_def)
qed

lemma echo_array_params_abort_witness:
  "handleRequest (\<lambda>s. s) echo_server
     ''{\"id\":7i32,\"jsonrpc\":\"2.0\",\"method\":\"EchoServer.Echo\",\"params\":[\"x\"]}'' = aborts"
  by (rule echo_array_params_abort [OF echo_texts(2), of "''x''"])
    (simp_all add: valid_request_def call_fields_def has_type_def expected_size_def)

end
