(* ===== verification/JsonRoundtrip.thy ===== *)
theory JsonRoundtrip
  imports JsonWriter JsonGrammar
begin

text \<open>
  The writers against the grammar: what \<open>writeTo\<close> writes is a text of the value, so reading it
  back gives the value. Two things are lost on the way: a double is printed with six decimals,
  and \<open>Key\<close> does not escape, so a key must not contain a character that needs it.
\<close>

section \<open>Values that can be written\<close>

definition plain_key :: "string \<Rightarrow> bool" where
  "plain_key k \<longleftrightarrow> list_all (\<lambda>c. CHR 0x20 \<le> c \<and> c \<noteq> CHR 0x22 \<and> c \<noteq> CHR 0x5C) k"

text \<open>The double that is read back from the six decimals printed.\<close>

definition reread :: "double \<Rightarrow> double" where
  "reread d = fst (the (stod (double_to_string d)))"

fun reread_value :: "JValue \<Rightarrow> JValue" where
  "reread_value (VDouble d) = VDouble (reread d)"
| "reread_value (VArray vs) = VArray (map reread_value vs)"
| "reread_value (VObject ms) = VObject (map (\<lambda>m. (fst m, reread_value (snd m))) ms)"
| "reread_value v = v"

fun writable :: "JValue \<Rightarrow> bool" where
  "writable (VDouble d) \<longleftrightarrow> is_finite d \<and> stod (double_to_string d) \<noteq> None"
| "writable (VArray vs) \<longleftrightarrow> list_all writable vs"
| "writable (VObject ms) \<longleftrightarrow>
     sorted_keys ms \<and> list_all (\<lambda>m. plain_key (fst m) \<and> writable (snd m)) ms"
| "writable v \<longleftrightarrow> True"

text \<open>No double anywhere: nothing is lost.\<close>

fun no_double :: "JValue \<Rightarrow> bool" where
  "no_double (VDouble d) \<longleftrightarrow> False"
| "no_double (VArray vs) \<longleftrightarrow> list_all no_double vs"
| "no_double (VObject ms) \<longleftrightarrow> list_all (\<lambda>m. no_double (snd m)) ms"
| "no_double v \<longleftrightarrow> True"

lemma reread_no_double: "no_double v \<Longrightarrow> reread_value v = v"
proof (induction v)
  case (VObject ms)
  have "map (\<lambda>m. (fst m, reread_value (snd m))) ms = map id ms"
    using VObject by (intro map_cong refl) (fastforce simp: list_all_iff)
  then show ?case by simp
qed (auto simp: list_all_iff map_idI)

section \<open>Scalars\<close>

lemma jchars_plain: "plain_key k \<Longrightarrow> jchars k k"
  by (induction k) (auto simp: plain_key_def intro: jchars.intros)

lemma hex_char_digit: "d < 16 \<Longrightarrow> hex_digit (hex_char d) = Some d"
  by (auto simp: hex_digit_def hex_char_def char_le_iff)

lemma hex_sum:
  assumes "u < (0x10000 :: nat)"
  shows "u = ((u div 4096 mod 16 * 16 + u div 256 mod 16) * 16 + u div 16 mod 16) * 16 + u mod 16"
proof -
  have e: "u div 4096 = u div 256 div 16" "u div 256 = u div 16 div 16"
    using div_mult2_eq [of u 256 16] div_mult2_eq [of u 16 16] by simp_all
  have l: "u div 4096 mod 16 = u div 4096" using assms by simp
  have "u div 256 = u div 4096 * 16 + u div 256 mod 16"
    unfolding e(1) by (simp only: div_mult_mod_eq)
  moreover have "u div 16 = u div 256 * 16 + u div 16 mod 16"
    unfolding e(2) by (simp only: div_mult_mod_eq)
  moreover have "u = u div 16 * 16 + u mod 16" by (simp only: div_mult_mod_eq)
  ultimately show ?thesis unfolding l by simp
qed

lemma hex4_format: "u < 0x10000 \<Longrightarrow> hex4 u (format_04x u)"
  unfolding hex4_def format_04x_def
  using hex_sum [of u] by (simp add: hex_char_digit del: div_mult_mod_eq)

lemma jchars_escape:
  assumes "jchars cs t"
  shows "jchars (c # cs) (escape c @ t)"
proof (cases "escape c = [CHR 0x5C, CHR ''u''] @ format_04x (of_char c)")
  case True
  then have u: "(of_char c :: nat) < 0x20"
    by (auto simp: escape_def format_04x_def char_less_iff split: if_splits)
  then have "encodeUtf8 (of_char c) = Some [c]"
    using take_bit_eq_mask [of 8 "of_char c :: nat"]
    by (simp add: encodeUtf8_def byte_def mask_eq_exp_minus_1 take_bit_nat_eq_self)
  with jc_unicode [OF hex4_format [of "of_char c"] _ _ assms, of "[c]"] u True show ?thesis by simp
next
  case False
  then show ?thesis
    using jc_plain [OF _ _ _ assms] jc_escape [OF _ assms]
    by (auto simp: escape_def simple_escape_def char_less_iff char_le_iff split: if_splits)
qed

lemma jchars_escape_all: "jchars s (concat (map escape s))"
  by (induction s) (auto intro: jchars.intros jchars_escape)

lemma digits_pad6: "digits (pad6 n)"
  using nat_to_string_digits [of n]
  by (auto simp: digits_def pad6_def list_all_iff isDigit_iff)

lemma double_text_to_string: "is_finite d \<Longrightarrow> double_text (double_to_string d)"
proof (cases d)
  case (Finite s m e)
  obtain a b where ab: "scale2 (m * 10 ^ 6) 1 (- e) = (a, b)" by fastforce
  let ?n = "round_half_even a b"
  have "double_to_string d = (if s then ''-'' else []) @ nat_to_string (?n div 10 ^ 6)
      @ (''.'' @ pad6 (?n mod 10 ^ 6)) @ []"
    using ab by (simp add: Finite Let_def)
  then show ?thesis
    unfolding double_text_def using digits_pad6 [of "?n mod 10 ^ 6"]
    by (intro exI conjI) (assumption, auto simp: sign_text_def frac_part_def exp_part_def
      int_part_nat_to_string)
qed simp_all

lemma stod_to_string:
  assumes "is_finite d" "stod (double_to_string d) \<noteq> None"
  shows "stod (double_to_string d) = Some (reread d, length (double_to_string d))"
proof -
  obtain sg ip fp xp where s: "double_to_string d = sg @ ip @ fp @ xp"
    and p: "sign_text sg" "int_part ip" "frac_part fp" "exp_part xp"
    using double_text_to_string [OF assms(1)] unfolding double_text_def by blast
  show ?thesis
    using stod_parts [OF p, of "[]"] assms(2) by (auto simp: s reread_def isDigit_iff)
qed

lemma scalar_jtext:
  assumes "is_scalar v" "writable v"
  shows "jtext (reread_value v) (scalar_text v)"
proof (cases v)
  case (VInt32 i)
  with jt_int32 [OF int_text_to_string [of "sint i"]] show ?thesis
    using sint_lt [of i] sint_ge [of i] by simp
next
  case (VInt64 i)
  with jt_int64 [OF int_text_to_string [of "sint i"]] show ?thesis
    using sint_lt [of i] sint_ge [of i] by simp
qed (use assms in \<open>auto intro: gtext_gelems_gmembers.intros jchars_escape_all double_text_to_string
    stod_to_string simp: is_scalar_def is_type_defs quoted_def\<close>)

section \<open>Arrays and objects\<close>

lemma insert_all_sorted:
  "sorted_keys (acc @ ms) \<Longrightarrow> insert_all acc ms = acc @ ms"
proof (induction ms arbitrary: acc)
  case (Cons m ms)
  obtain k v where m: "m = (k, v)" by fastforce
  have "map_insert k v acc = acc @ [(k, v)]"
    using Cons.prems by (intro map_insert_last) (auto simp: sorted_keys_def m sorted_wrt_append)
  then show ?case using Cons.IH [of "acc @ [m]"] Cons.prems by (simp add: m)
qed simp

definition laid_out :: "(nat \<Rightarrow> string) \<Rightarrow> nat \<Rightarrow> JValue \<Rightarrow> bool" where
  "laid_out nl d v \<longleftrightarrow> (\<exists>t w. layout nl d v = t @ w \<and> jtext (reread_value v) t \<and> ws w)"

lemma scalar_laid_out:
  assumes "is_scalar v" "ws (nl d)" "writable v"
  shows "laid_out nl d v"
  using scalar_jtext [OF assms(1,3)] assms(1,2) by (auto simp: laid_out_def layout_scalar)

lemma elems_jelems:
  assumes "\<And>v. v \<in> set (v0 # vs) \<Longrightarrow> laid_out nl d v" "ws w"
  shows "jelems (map reread_value (v0 # vs)) (layout_elems nl d True (v0 # vs) @ w @ '']'')"
  using assms(1)
proof (induction vs arbitrary: v0)
  case Nil
  then obtain t w0 where "layout nl d v0 = t @ w0" "jtext (reread_value v0) t" "ws w0"
    by (auto simp: laid_out_def)
  with je_last [of True "reread_value v0" t "w0 @ w"] assms(2) show ?case by simp
next
  case (Cons v1 vs)
  obtain t w0 where "layout nl d v0 = t @ w0" "jtext (reread_value v0) t" "ws w0"
    using Cons.prems [of v0] by (auto simp: laid_out_def)
  with je_cons [of True "reread_value v0" t w0 "[]"] Cons.IH [of v1] Cons.prems show ?case by simp
qed

lemma members_jmembers:
  assumes "\<And>k v. (k, v) \<in> set (m0 # ms) \<Longrightarrow> laid_out nl d v \<and> plain_key k" "ws w" "\<And>d. ws (nl d)"
  shows "\<exists>s. layout_members nl d True (m0 # ms) @ w @ ''}'' = nl d @ s
     \<and> layout_members nl d False (m0 # ms) @ w @ ''}'' = nl d @ '','' @ s
     \<and> jmembers (map (\<lambda>m. (fst m, reread_value (snd m))) (m0 # ms)) s"
  using assms(1)
proof (induction ms arbitrary: m0)
  case Nil
  obtain k v where m: "m0 = (k, v)" by fastforce
  obtain t w0 where "layout nl d v = t @ w0" "jtext (reread_value v) t" "ws w0"
    using Nil [of k v] by (auto simp: laid_out_def m)
  with jm_last [OF jchars_plain [of k], of "[]" "[]" True "reread_value v" t "w0 @ w"] assms(2) Nil [of k v]
  show ?case by (simp add: m quoted_def)
next
  case (Cons m1 ms)
  obtain k v where m: "m0 = (k, v)" by fastforce
  obtain t w0 where t: "layout nl d v = t @ w0" "jtext (reread_value v) t" "ws w0"
    using Cons.prems [of k v] by (auto simp: laid_out_def m)
  obtain s where s: "layout_members nl d False (m1 # ms) @ w @ ''}'' = nl d @ '','' @ s"
     "jmembers (map (\<lambda>m. (fst m, reread_value (snd m))) (m1 # ms)) s"
    using Cons.IH [of m1] Cons.prems by auto
  have "jmembers ((k, reread_value v) # map (\<lambda>m. (fst m, reread_value (snd m))) (m1 # ms))
      (CHR 0x22 # k @ CHR 0x22 # [] @ '':'' @ [] @ t @ (w0 @ nl d) @ '','' @ [] @ s)"
    using t(3) assms(3) Cons.prems [of k v]
    by (intro jm_cons s(2) t(2) jchars_plain) (auto simp: m)
  moreover have "layout nl d v @ layout_members nl d False (m1 # ms) @ w @ ''}''
      = t @ w0 @ nl d @ '','' @ s" by (simp only: t(1) s(1) append_assoc)
  ultimately show ?case
    by (intro exI conjI) (simp_all add: m quoted_def del: layout_members.simps(2), simp_all add: quoted_def)
qed

lemma layout_laid_out:
  assumes "\<And>d. ws (nl d)"
  shows "writable v \<Longrightarrow> laid_out nl d v"
proof (induction v arbitrary: d)
  case (VArray vs)
  show ?case
  proof (cases vs)
    case Nil
    then show ?thesis
      using jt_array0 [of "nl (Suc d) @ nl d" True] assms
      unfolding laid_out_def
      by (intro exI [of _ "''['' @ nl (Suc d) @ nl d @ '']''"] exI [of _ "[]"]) simp
  next
    case (Cons v0 vs')
    have "jelems (map reread_value (v0 # vs')) (layout_elems nl (Suc d) True (v0 # vs') @ nl d @ '']'')"
      using VArray assms by (intro elems_jelems) (auto simp: Cons list_all_iff)
    from jt_array [OF assms this] show ?thesis
      unfolding laid_out_def Cons by (intro exI [of _ "[]"] exI conjI) (simp, simp_all)
  qed
next
  case (VObject ms)
  show ?case
  proof (cases ms)
    case Nil
    then show ?thesis
      using jt_object0 [of "nl (Suc d) @ nl d" True] assms
      unfolding laid_out_def
      by (intro exI [of _ "''{'' @ nl (Suc d) @ nl d @ ''}''"] exI [of _ "[]"]) simp
  next
    case (Cons m0 ms')
    let ?ms = "map (\<lambda>m. (fst m, reread_value (snd m))) (m0 # ms')"
    obtain s where s: "layout_members nl (Suc d) True (m0 # ms') @ nl d @ ''}'' = nl (Suc d) @ s"
      "jmembers ?ms s"
      using members_jmembers [of m0 ms' nl "Suc d" "nl d"] VObject assms
      by (fastforce simp: Cons list_all_iff)
    have k: "sorted_keys ?ms" using VObject.prems by (simp add: Cons sorted_keys_def o_def)
    have "jtext (VObject ?ms) (''{'' @ (nl (Suc d) @ nl (Suc d)) @ s)"
      using jt_object [OF _ s(2), of "nl (Suc d) @ nl (Suc d)"] assms sorted_keys_distinct [OF k]
        insert_all_sorted [of "[]" ?ms] k by simp
    then show ?thesis
      unfolding laid_out_def Cons using s(1) by (intro exI [of _ "[]"] exI conjI) (simp, simp_all)
  qed
qed (auto intro!: scalar_laid_out assms simp: is_scalar_def is_type_defs)

section \<open>Round trips\<close>

lemma parse_laid_out:
  assumes "writable v" "\<And>d. ws (nl d)"
  shows "parse (layout nl 0 v) u = Some (PARSE_OK, reread_value v)"
proof -
  obtain t w where "layout nl 0 v = t @ w" "jtext (reread_value v) t" "ws w"
    using layout_laid_out [where nl = nl and d = 0, OF assms(2,1)] by (auto simp: laid_out_def)
  with parse_text [of True "reread_value v" t "[]" w u] show ?thesis by simp
qed

lemma ws_style_nl: "ws i \<Longrightarrow> ws (style_nl i d)"
  by (auto simp: style_nl_def is_ws_def ws_def list_all_iff)

text \<open>A key is written as it is: one that is a quotation mark ends itself.\<close>

lemma quote_key_unread:
  "\<exists>w e v. writeTo fast_ops (VObject [([CHR 0x22], VNull)]) (FastWriter_new []) = Some w \<and>
     ws_get (stream w) = [CHR 0x7B, CHR 0x22, CHR 0x22, CHR 0x22] @ '':null}'' \<and>
     parse (ws_get (stream w)) u = Some (e, v) \<and> e = PARSE_MISS_COLON"
proof -
  have "map_option fst (parse ([CHR 0x7B, CHR 0x22, CHR 0x22, CHR 0x22] @ '':null}'') u) = Some PARSE_MISS_COLON"
    by code_simp
  then obtain v where "parse ([CHR 0x7B, CHR 0x22, CHR 0x22, CHR 0x22] @ '':null}'') u = Some (PARSE_MISS_COLON, v)"
    by auto
  then show ?thesis
    using fast.write_root [of "FastWriter_new []" "VObject [([CHR 0x22], VNull)]"]
    by (auto simp: FastWriter_new_def ws_get_def quoted_def)
qed

text \<open>
  C6: what \<open>FastWriter\<close> writes for a value, \<open>Reader::parse\<close> reads back as that value, with
  each double as its six decimals give it; without doubles it is the same value. The values are
  those of \<open>writable\<close>: keys of an object ascend and hold no quotation mark, backslash or control
  character (strings may), and doubles are finite and in the reader's range when printed. The
  condition on keys is needed, since \<open>Key\<close> does not escape: an object with a quotation mark for
  its key is written as a text that the reader refuses.
\<close>

theorem fast_roundtrip:
  assumes "writable v"
  shows "(\<exists>w. writeTo fast_ops v (FastWriter_new []) = Some w
    \<and> parse (ws_get (stream w)) u = Some (PARSE_OK, reread_value v)
    \<and> (no_double v \<longrightarrow> reread_value v = v)) \<and>
    (\<exists>w e v. writeTo fast_ops (VObject [([CHR 0x22], VNull)]) (FastWriter_new []) = Some w
    \<and> parse (ws_get (stream w)) u = Some (e, v) \<and> e = PARSE_MISS_COLON)"
proof
  show "\<exists>w. writeTo fast_ops v (FastWriter_new []) = Some w
    \<and> parse (ws_get (stream w)) u = Some (PARSE_OK, reread_value v)
    \<and> (no_double v \<longrightarrow> reread_value v = v)"
    using fast.write_root [of "FastWriter_new []" v] parse_laid_out [OF assms, of "\<lambda>_. []" u]
      reread_no_double [of v]
    by (auto simp: FastWriter_new_def ws_get_def)
qed (use quote_key_unread [of u] in blast)

lemma fast_roundtrip_witness:
  "\<exists>w. writeTo fast_ops (VObject [(''a'', VArray [VInt32 5, VString [CHR 0x0A]])]) (FastWriter_new []) = Some w
    \<and> parse (ws_get (stream w)) VNull
      = Some (PARSE_OK, VObject [(''a'', VArray [VInt32 5, VString [CHR 0x0A]])])"
  using fast_roundtrip [of "VObject [(''a'', VArray [VInt32 5, VString [CHR 0x0A]])]" VNull]
  by (simp add: sorted_keys_def plain_key_def char_le_iff)

text \<open>
  The same of \<open>StyleWriter\<close>, for any indentation made of whitespace.
\<close>

theorem style_roundtrip:
  assumes "writable v" "ws i"
  shows "\<exists>w. writeTo style_ops v (StyleWriter_new [] i) = Some w
    \<and> parse (ws_get (stream (fw w))) u = Some (PARSE_OK, reread_value v)"
  using style.write_root [of i "StyleWriter_new [] i" v]
    parse_laid_out [OF assms(1), of "style_nl i" u] ws_style_nl [OF assms(2)]
  by (auto simp: StyleWriter_new_def FastWriter_new_def ws_get_def style_ok_def)

lemma style_roundtrip_witness:
  "\<exists>w. writeTo style_ops (VArray [VBool True, VObject []]) (StyleWriter_new [] ''  '') = Some w
    \<and> parse (ws_get (stream (fw w))) VNull = Some (PARSE_OK, VArray [VBool True, VObject []])"
  using style_roundtrip [of "VArray [VBool True, VObject []]" "''  ''" VNull]
  by (simp add: sorted_keys_def is_ws_def)

text \<open>
  On every value, doubles and keys included, neither writer fails an assertion, and what
  it appends to its stream is the reference layout: \<open>FastWriter\<close> without whitespace,
  \<open>StyleWriter\<close> with a line break and the indentation times the depth.
\<close>

theorem writers_write_layout:
  "(\<exists>w. writeTo fast_ops v (FastWriter_new s) = Some w
      \<and> ws_get (stream w) = s @ layout (\<lambda>_. []) 0 v \<and> stack w = [])
   \<and> (\<exists>w. writeTo style_ops v (StyleWriter_new s i) = Some w
      \<and> ws_get (stream (fw w)) = s @ layout (style_nl i) 0 v \<and> stack (fw w) = [])"
  using fast.write_root [of "FastWriter_new s" v] style.write_root [of i "StyleWriter_new s i" v]
  by (auto simp: StyleWriter_new_def FastWriter_new_def ws_get_def style_ok_def)

end
