(* ===== verification/RpcFramingFacts.thy ===== *)
theory RpcFramingFacts
  imports RpcFraming RpcServerFacts JsonRoundtrip
begin

text \<open>
  The framing: what \<open>sendJson\<close> puts on the wire is taken apart again into the same messages, in
  order, however the bytes are cut on the way; what is left in the buffer is the beginning of
  the next message. The second half is about the errors \<open>onMessage\<close> turns into a response.
\<close>

section \<open>Searching for the end of the header\<close>

lemma KCRLF_crlf_str: "KCRLF = crlf_str"
  by (simp add: KCRLF_def crlf_str_def)

lemma std_search_crlf: "CHR 0x0D \<notin> set s \<Longrightarrow> std_search KCRLF (s @ crlf_str @ r) = length s"
  by (induction s) (auto simp: KCRLF_def crlf_str_def)

lemma std_search_no_crlf:
  "CHR 0x0D \<notin> set s \<Longrightarrow> std_search KCRLF s = length s"
  "CHR 0x0D \<notin> set s \<Longrightarrow> std_search KCRLF (s @ [CHR 0x0D]) = Suc (length s)"
  by (induction s) (auto simp: KCRLF_def)

definition header_of :: "nat \<Rightarrow> string" where
  "header_of n = nat_to_string n @ ''i32''"

lemma message_of_header: "message_of body = header_of (length body + 2) @ crlf_str @ body @ crlf_str"
  by (simp add: message_of_def header_of_def)

lemma header_no_cr: "CHR 0x0D \<notin> set (header_of n)"
  using nat_to_string_digits [of n] by (auto simp: header_of_def list_all_iff isDigit_iff)

lemma length_crlf [simp]: "length crlf_str = 2"
  by (simp add: crlf_str_def)

lemma ws_crlf [simp]: "ws crlf_str"
  by (simp add: crlf_str_def is_ws_def)

lemma parse_header:
  assumes "n < 2 ^ 31"
  shows "parse (header_of n @ crlf_str) VNull = Some (PARSE_OK, VInt32 (word_of_nat n))"
proof -
  have "int_text (int n) (nat_to_string n)"
    using int_text_to_string [of "int n"] by (simp add: int_to_string_def)
  then have "jtext (VInt32 (word_of_int (int n))) (nat_to_string n @ ''i32'')"
    using assms by (intro jt_int32) auto
  then show ?thesis
    using parse_text [of True _ "nat_to_string n @ ''i32''" "[]" crlf_str VNull] by (simp add: header_of_def)
qed

lemma sint_word_of_nat: "n < 2 ^ 31 \<Longrightarrow> sint (word_of_nat n :: 32 word) = int n"
  by (simp add: signed_of_nat signed_take_bit_int_eq_self)

section \<open>One frame\<close>

definition short :: "string \<Rightarrow> bool" where
  "short body \<longleftrightarrow> length body + 2 < kMaxMessageLen"

lemma frame_header_message:
  assumes "buffer_inv b" "readable b = message_of body @ r" "length body + 2 < k" "k \<le> 2 ^ 31"
  shows "frame_header k b = Frame (length (header_of (length body + 2)) + 2) (length body + 2)"
proof -
  let ?h = "header_of (length body + 2)"
  have "readableBytes b = length (readable b)" using assms(1) by (simp add: length_readable)
  then have rb: "readableBytes b = length ?h + 4 + length body + length r"
    by (simp add: assms(2) message_of_header)
  have "findCRLF b = Some (length ?h)"
    using std_search_crlf [OF header_no_cr, of "length body + 2" "body @ crlf_str @ r"]
    by (simp add: findCRLF_def assms(2) message_of_header Let_def rb)
  moreover have "take (length ?h + 2) (readable b) = ?h @ crlf_str"
    by (simp add: assms(2) message_of_header)
  ultimately show ?thesis
    using parse_header [of "length body + 2"] sint_word_of_nat [of "length body + 2"] assms(3,4) rb
    by (simp add: frame_header_def is_type_defs Let_def nat_add_distrib)
qed

lemma take_frame_message:
  assumes "buffer_inv b" "readable b = message_of body @ r"
  shows "\<exists>b'. take_frame b (length (header_of (length body + 2)) + 2) (length body + 2)
    = Some (body @ crlf_str, b') \<and> buffer_inv b' \<and> readable b' = r"
proof -
  let ?h = "header_of (length body + 2)"
  obtain b1 where b1: "retrieve b (length ?h + 2) = Some b1" "buffer_inv b1"
    "readable b1 = (body @ crlf_str) @ r"
    using bq.skip_front [OF assms(1), of "?h @ crlf_str" "body @ crlf_str @ r"] assms(2)
    by (auto simp: message_of_header)
  from bq.get_front [OF b1(2,3), of "length body + 2"] b1(1) show ?thesis
    by (auto simp: take_frame_def)
qed

text \<open>A proper beginning of a message is waited on.\<close>

lemma prefix_cases3:
  "prefix p (h @ [a, b] @ t) \<Longrightarrow> prefix p h \<or> p = h @ [a] \<or> (\<exists>t'. p = h @ [a, b] @ t' \<and> prefix t' t)"
  by (auto simp: prefix_append prefix_Cons)

lemma frame_header_partial:
  assumes "buffer_inv b" "strict_prefix (readable b) (message_of body)" "length body + 2 < k" "k \<le> 2 ^ 31"
  shows "frame_header k b = Incomplete"
proof -
  let ?h = "header_of (length body + 2)" and ?p = "readable b"
  have len: "readableBytes b = length ?p" using assms(1) by (simp add: length_readable)
  have "prefix ?p (?h @ crlf_str @ body @ crlf_str)"
    using assms(2) by (simp add: message_of_header strict_prefix_def)
  then consider "prefix ?p ?h" | "?p = ?h @ [CHR 0x0D]"
    | t' where "?p = ?h @ crlf_str @ t'" "prefix t' (body @ crlf_str)"
    using prefix_cases3 [of ?p ?h "CHR 0x0D" "CHR 0x0A"] by (auto simp: crlf_str_def)
  then show ?thesis
  proof cases
    case 1
    then have "CHR 0x0D \<notin> set ?p"
      using header_no_cr [of "length body + 2"] set_mono_prefix by blast
    then show ?thesis by (simp add: frame_header_def findCRLF_def std_search_no_crlf len)
  next
    case 2
    then show ?thesis
      using std_search_no_crlf(2) [OF header_no_cr]
      by (simp add: frame_header_def findCRLF_def len)
  next
    case (3 t')
    have lt: "length t' < length body + 2"
      using assms(2) 3 prefix_length_less [OF assms(2)] by (simp add: message_of_header)
    have "findCRLF b = Some (length ?h)"
      using std_search_crlf [OF header_no_cr, of "length body + 2" t']
      by (simp add: findCRLF_def 3(1) Let_def len)
    then show ?thesis
      using parse_header [of "length body + 2"] sint_word_of_nat [of "length body + 2"] assms(3,4) lt
      by (simp add: frame_header_def is_type_defs Let_def nat_add_distrib 3(1) len)
  qed
qed

section \<open>The loop\<close>

lemma sendJson_Some: "sendJson v = Some (Send (message_of (layout (\<lambda>_. []) 0 v)))"
  using fast.write_root [of "FastWriter_new []" v]
  by (auto simp: sendJson_def FastWriter_new_def ws_get_def)

definition answers :: "JValue list \<Rightarrow> conn_effect list" where
  "answers rs = map (\<lambda>v. Send (message_of (layout (\<lambda>_. []) 0 v))) (filter (\<lambda>v. \<not> isNull v) rs)"

lemma respond_Some: "respond rs = Some (answers rs)"
  by (induction rs) (auto simp: answers_def sendJson_Some)

lemma handleMessage_frame:
  assumes "buffer_inv b" "readable b = message_of body @ r" "short body"
  shows "\<exists>b'. buffer_inv b' \<and> readable b' = r \<and> handleMessage handle b =
    (let (rs, out) = handle (body @ crlf_str)
     in case out of
          Ret _ \<Rightarrow> (let (b2, effs, out2) = handleMessage handle b' in (b2, answers rs @ effs, out2))
        | _ \<Rightarrow> (b', answers rs, out))"
proof -
  obtain b' where b': "buffer_inv b'" "readable b' = r"
    "take_frame b (length (header_of (length body + 2)) + 2) (length body + 2) = Some (body @ crlf_str, b')"
    using take_frame_message [OF assms(1,2)] by blast
  have "frame_header kMaxMessageLen b = Frame (length (header_of (length body + 2)) + 2) (length body + 2)"
    using assms(3) by (intro frame_header_message [OF assms(1,2)]) (simp_all add: short_def kMaxMessageLen_def)
  with b' show ?thesis
    by (intro exI [of _ b'])
      (simp add: handleMessage.simps [of handle b] respond_Some split: prod.splits outcome.splits)
qed

definition pending :: "string \<Rightarrow> string list \<Rightarrow> bool" where
  "pending p bodies \<longleftrightarrow> (case bodies of [] \<Rightarrow> p = [] | body # _ \<Rightarrow> strict_prefix p (message_of body))"

lemma handleMessage_pending:
  assumes "buffer_inv b" "pending (readable b) bodies" "list_all short bodies"
  shows "handleMessage handle b = (b, [], Ret ())"
proof (cases bodies)
  case Nil
  with assms have "frame_header kMaxMessageLen b = Incomplete"
    by (simp add: pending_def frame_header_def findCRLF_def length_readable [symmetric])
  then show ?thesis by (simp add: handleMessage.simps)
next
  case (Cons body rest)
  with assms frame_header_partial [OF assms(1), of body kMaxMessageLen]
  have "frame_header kMaxMessageLen b = Incomplete"
    by (simp add: pending_def short_def kMaxMessageLen_def)
  then show ?thesis by (simp add: handleMessage.simps)
qed

lemma handleMessage_stream:
  assumes "buffer_inv b" "readable b = concat (map message_of bs1) @ p" "pending p bs2"
    "list_all short (bs1 @ bs2)" "\<forall>x \<in> set bs1. snd (handle (x @ crlf_str)) = Ret ()"
  shows "\<exists>b'. handleMessage handle b =
      (b', concat (map (\<lambda>x. answers (fst (handle (x @ crlf_str)))) bs1), Ret ())
    \<and> buffer_inv b' \<and> readable b' = p"
  using assms
proof (induction bs1 arbitrary: b)
  case Nil
  then show ?case using handleMessage_pending [of b bs2 handle] by simp
next
  case (Cons x xs)
  then obtain b' where b': "buffer_inv b'" "readable b' = concat (map message_of xs) @ p"
    "handleMessage handle b =
    (let (rs, out) = handle (x @ crlf_str)
     in case out of
          Ret _ \<Rightarrow> (let (b2, effs, out2) = handleMessage handle b' in (b2, answers rs @ effs, out2))
        | _ \<Rightarrow> (b', answers rs, out))"
    using handleMessage_frame [of b x "concat (map message_of xs) @ p" handle] by auto
  with Cons.IH [OF b'(1,2)] Cons.prems show ?case by (auto split: prod.splits)
qed

section \<open>The stream\<close>

lemma split_stream:
  assumes "prefix q (concat (map message_of bs))"
  shows "\<exists>bs1 bs2 p. bs = bs1 @ bs2 \<and> q = concat (map message_of bs1) @ p \<and> pending p bs2"
  using assms
proof (induction bs arbitrary: q)
  case Nil
  then show ?case by (simp add: pending_def)
next
  case (Cons b bs)
  show ?case
  proof (cases "strict_prefix q (message_of b)")
    case True
    then have "b # bs = [] @ b # bs \<and> q = concat (map message_of []) @ q \<and> pending q (b # bs)"
      by (simp add: pending_def)
    then show ?thesis by blast
  next
    case False
    with Cons.prems obtain q' where q: "q = message_of b @ q'" "prefix q' (concat (map message_of bs))"
      by (auto simp: prefix_append strict_prefix_def)
    from Cons.IH [OF q(2)] obtain bs1 bs2 p where
      "bs = bs1 @ bs2" "q' = concat (map message_of bs1) @ p" "pending p bs2" by blast
    then show ?thesis by (intro exI [of _ "b # bs1"] exI [of _ bs2] exI [of _ p]) (simp add: q)
  qed
qed

lemma pending_prefix: "pending p bs \<Longrightarrow> prefix p (concat (map message_of bs))"
  by (auto simp: pending_def strict_prefix_def split: list.splits)

lemma pending_all: "pending (concat (map message_of bs)) bs \<Longrightarrow> bs = []"
  by (cases bs) (auto simp: pending_def strict_prefix_def)

definition served_effects :: "(string \<Rightarrow> run) \<Rightarrow> string list \<Rightarrow> conn_effect list" where
  "served_effects handle bodies = concat (map (\<lambda>x. answers (fst (handle (x @ crlf_str)))) bodies)"

lemma chunk_fits: "length s \<le> 65536 \<Longrightarrow> length s \<le> readv_capacity b \<and> length s < 2 ^ 63"
  by (simp add: readv_capacity_def extrabuf_size_def)

lemma receive_stream:
  assumes "buffer_inv b" "readable b @ concat chunks = concat (map message_of bodies)"
    "pending (readable b) bodies" "list_all short bodies" "\<forall>c \<in> set chunks. length c \<le> 65536"
    "\<forall>x \<in> set bodies. snd (handle (x @ crlf_str)) = Ret ()"
  shows "\<exists>b'. receive_all freed handle b chunks = (b', served_effects handle bodies, Ret ())
    \<and> readable b' = []"
  using assms
proof (induction chunks arbitrary: b bodies)
  case Nil
  then show ?case using pending_all [of bodies] by (auto simp: served_effects_def pending_def)
next
  case (Cons c cs)
  obtain b1 where b1: "readFd b (ReadvData c) = Some (b1, int (length c), None)" "buffer_inv b1"
    "readable b1 = readable b @ c"
    using readFd_ok [OF Cons.prems(1), of c] chunk_fits [of c b] Cons.prems(5) by auto
  have "prefix (readable b1) (concat (map message_of bodies))"
    using Cons.prems(2) b1(3) by (metis append_assoc concat.simps(2) prefixI)
  from split_stream [OF this] obtain bs1 bs2 p where
    s: "bodies = bs1 @ bs2" "readable b1 = concat (map message_of bs1) @ p" "pending p bs2" by blast
  obtain b2 where b2: "handleMessage handle b1 = (b2, served_effects handle bs1, Ret ())"
    "buffer_inv b2" "readable b2 = p"
    using handleMessage_stream [OF b1(2) s(2,3), of handle] Cons.prems(4,6)
    by (auto simp: s(1) served_effects_def)
  have "readable b1 @ concat cs = concat (map message_of bodies)"
    using Cons.prems(2) b1(3) by simp
  then have "readable b2 @ concat cs = concat (map message_of bs2)"
    unfolding s(1,2) b2(3) by simp
  from Cons.IH [OF b2(2) this] s(1,3) b2(3) Cons.prems obtain b3 where
    "receive_all freed handle b2 cs = (b3, served_effects handle bs2, Ret ())" "readable b3 = []"
    by auto
  then show ?case
    using b1(1) b2(1) by (simp add: receive_def onMessage_def served_effects_def s(1))
qed

text \<open>
  C4: a stream of messages, cut into chunks at any places, is served message by message: the
  handler gets each body once, in order, whatever the cuts, its non-null responses are sent in
  order, and nothing is left in the buffer; if no body is too long and the handler returns on each.
\<close>

theorem stream_served:
  assumes "concat chunks = concat (map message_of bodies)"
    "list_all short bodies" "\<forall>c \<in> set chunks. length c \<le> 65536"
    "\<forall>x \<in> set bodies. snd (handle (x @ crlf_str)) = Ret ()"
  shows "\<exists>b'. receive_all freed handle (Buffer_new kInitialSize) chunks
      = (b', served_effects handle bodies, Ret ()) \<and> readable b' = []"
proof -
  have "pending [] bodies"
    by (cases bodies) (simp_all add: pending_def message_of_def strict_prefix_def)
  then show ?thesis
    using receive_stream [OF buffer_new_inv, of kInitialSize chunks bodies handle freed] assms
    by (simp add: readable_new)
qed

lemma stream_served_witness:
  "\<exists>b'. receive_all (\<lambda>s. s) (\<lambda>json. ([VString json], Ret ())) (Buffer_new kInitialSize)
      [take 4 (message_of ''7''), drop 4 (message_of ''7'') @ message_of []]
    = (b', served_effects (\<lambda>json. ([VString json], Ret ())) [''7'', []], Ret ()) \<and> readable b' = []"
  by (rule stream_served)
    (simp_all add: short_def kMaxMessageLen_def message_of_def crlf_str_def nat_to_string.simps)

section \<open>Errors\<close>

definition error_reply :: "(string \<Rightarrow> string) \<Rightarrow> RpcError \<Rightarrow> detail \<Rightarrow> conn_effect list" where
  "error_reply freed err det =
     [Send (message_of (layout (\<lambda>_. []) 0 (the (wrapException freed err det)))), Shutdown]"

lemma onMessage_throws:
  "handleMessage handle b = (b1, sent, Throw (RequestException err ident det)) \<Longrightarrow>
     onMessage freed handle b = (b1, sent @ error_reply freed err det, Ret ())"
  "handleMessage handle b = (b1, sent, Throw (NotifyException err det)) \<Longrightarrow>
     onMessage freed handle b = (b1, sent, Ret ())"
  by (simp_all add: onMessage_def error_reply_def wrapException_Some sendJson_Some)

text \<open>
  C20: when the handler throws on a message, what it had answered is sent first. A
  \<open>RequestException\<close> is then answered by the error object and the connection is shut down; a
  \<open>NotifyException\<close> is not answered. In both cases the message is consumed and the messages
  behind it stay in the buffer unread.
\<close>

theorem exceptions_answered:
  assumes "buffer_inv b" "readable b = message_of body @ r" "short body"
    "handle (body @ crlf_str) = (rs, Throw e)"
  shows "\<exists>b'. buffer_inv b' \<and> readable b' = r \<and> onMessage freed handle b =
    (b', answers rs @ (case e of RequestException err ident det \<Rightarrow> error_reply freed err det
                        | NotifyException err det \<Rightarrow> []), Ret ())"
  using handleMessage_frame [OF assms(1-3), of handle] assms(4) onMessage_throws
  by (cases e) fastforce+

lemma buffer_with:
  "\<exists>b. append_str (Buffer_new kInitialSize) s = Some b \<and> buffer_inv b \<and> readable b = s"
  using bq.app_spec [OF buffer_new_inv, of kInitialSize s] by (simp add: readable_new)

lemma exceptions_answered_witness:
  "\<exists>b b'. readable b = message_of ''[]'' @ message_of ''7'' \<and> readable b' = message_of ''7''
    \<and> onMessage (\<lambda>s. s) (\<lambda>_. throws (NotifyException RPC_INVALID_PARAMS (Literal ''x''))) b = (b', [], Ret ())"
proof -
  obtain b where b: "buffer_inv b" "readable b = message_of ''[]'' @ message_of ''7''"
    using buffer_with by blast
  have "short ''[]''" by (simp add: short_def kMaxMessageLen_def)
  from exceptions_answered [OF b this, of "\<lambda>_. throws (NotifyException RPC_INVALID_PARAMS (Literal ''x''))"
      "[]" "NotifyException RPC_INVALID_PARAMS (Literal ''x'')" "\<lambda>s. s"] b(2)
  show ?thesis by (auto simp: answers_def throws_def)
qed

lemma frame_header_line:
  assumes "buffer_inv b" "readable b = line @ crlf_str @ r" "CHR 0x0D \<notin> set line"
  shows "findCRLF b = Some (length line)" "take (length line + 2) (readable b) = line @ crlf_str"
    "\<exists>b'. retrieve b (length line + 2) = Some b' \<and> buffer_inv b' \<and> readable b' = r"
proof -
  have "readableBytes b = length line + 2 + length r"
    using assms(1,2) by (simp flip: length_readable)
  then show "findCRLF b = Some (length line)"
    using std_search_crlf [OF assms(3), of r] by (simp add: findCRLF_def assms(2))
  show "take (length line + 2) (readable b) = line @ crlf_str" by (simp add: assms(2))
  show "\<exists>b'. retrieve b (length line + 2) = Some b' \<and> buffer_inv b' \<and> readable b' = r"
    using bq.skip_front [OF assms(1), of "line @ crlf_str" r] assms(2) by simp
qed

text \<open>
  A header line that is not the text of a positive \<open>int32\<close> is consumed, answered by the
  error for an invalid message length, and the connection is shut down.
\<close>

theorem bad_header_answered:
  assumes "buffer_inv b" "readable b = line @ crlf_str @ r" "CHR 0x0D \<notin> set line"
    "parse (line @ crlf_str) VNull = Some (err, header)"
    "err \<noteq> PARSE_OK \<or> \<not> (\<exists>i. header = VInt32 i \<and> 0 < sint i)"
  shows "\<exists>b'. buffer_inv b' \<and> readable b' = r \<and> onMessage freed handle b =
    (b', error_reply freed RPC_INVALID_REQUEST (Literal ''invalid message length''), Ret ())"
proof -
  obtain b' where b': "retrieve b (length line + 2) = Some b'" "buffer_inv b'" "readable b' = r"
    using frame_header_line(3) [OF assms(1-3)] by blast
  have "err \<noteq> PARSE_OK \<or> \<not> isInt32 header \<or> sint (the (getInt32 header)) \<le> 0"
    using assms(5) by (auto simp: is_type_defs)
  then have "frame_header kMaxMessageLen b = Invalid_length b'"
    unfolding frame_header_def frame_header_line(1) [OF assms(1-3)] Let_def option.case
      frame_header_line(2) [OF assms(1-3)] assms(4) prod.case b'(1) by (rule if_P)
  then have "handleMessage handle b = (b', [],
      Throw (RequestException RPC_INVALID_REQUEST VNull (Literal ''invalid message length'')))"
    by (simp add: handleMessage.simps)
  from onMessage_throws(1) [OF this] b' show ?thesis by auto
qed

lemma bad_header_text: "parse (''-5i32'' @ crlf_str) VNull = Some (PARSE_OK, VInt32 (- 5))"
  by code_simp

lemma bad_header_answered_witness:
  "\<exists>b b'. readable b = ''-5i32'' @ crlf_str \<and> readable b' = [] \<and> onMessage (\<lambda>s. s) (\<lambda>_. returns) b =
    (b', error_reply (\<lambda>s. s) RPC_INVALID_REQUEST (Literal ''invalid message length''), Ret ())"
proof -
  obtain b where b: "buffer_inv b" "readable b = ''-5i32'' @ crlf_str @ []"
    using buffer_with [of "''-5i32'' @ crlf_str"] by auto
  have "\<not> (\<exists>i. VInt32 (- 5) = VInt32 i \<and> 0 < sint i)" by simp
  then show ?thesis
    using bad_header_answered [OF b _ bad_header_text, of "\<lambda>s. s" "\<lambda>_. returns"] b(2) by auto
qed

text \<open>
  A header with a length at or above the limit is answered by the error and a shutdown,
  but it is not consumed: the buffer is as before, so that the next read runs into the same
  header again, whatever arrives.
\<close>

theorem too_long_stuck:
  assumes "buffer_inv b" "readable b = header_of n @ crlf_str @ r" "kMaxMessageLen \<le> n" "n < 2 ^ 31"
  shows "onMessage freed handle b =
    (b, error_reply freed RPC_INVALID_REQUEST (Literal ''message is too long''), Ret ())"
proof -
  have n: "0 < n" using assms(3) by (simp add: kMaxMessageLen_def)
  have "frame_header kMaxMessageLen b = Too_long"
    unfolding frame_header_def frame_header_line(1) [OF assms(1,2) header_no_cr] Let_def option.case
      frame_header_line(2) [OF assms(1,2) header_no_cr] parse_header [OF assms(4)] prod.case
    using sint_word_of_nat [OF assms(4)] assms(3) n by (simp add: is_type_defs)
  then have "handleMessage handle b = (b, [],
      Throw (RequestException RPC_INVALID_REQUEST VNull (Literal ''message is too long'')))"
    by (simp add: handleMessage.simps)
  from onMessage_throws(1) [OF this] show ?thesis by simp
qed

lemma too_long_stuck_witness:
  "\<exists>b. readable b = header_of 104857600 @ crlf_str \<and> onMessage (\<lambda>s. s) (\<lambda>_. returns) b =
    (b, error_reply (\<lambda>s. s) RPC_INVALID_REQUEST (Literal ''message is too long''), Ret ())"
proof -
  obtain b where b: "buffer_inv b" "readable b = header_of 104857600 @ crlf_str @ []"
    using buffer_with [of "header_of 104857600 @ crlf_str"] by auto
  then show ?thesis
    using too_long_stuck [OF b, of "\<lambda>s. s" "\<lambda>_. returns"] by (auto simp: kMaxMessageLen_def)
qed

end
