(* ===== verification/RpcConnection.thy ===== *)
theory RpcConnection
  imports RpcFramingFacts NetEcho
begin

text \<open>
  The message layer of \<open>RpcServer/Server/BaseServer.cpp\<close> on a \<open>TcpConnection\<close>: what \<open>onMessage\<close> does
  to its connection is done by the connection's own \<open>send\<close> and \<open>shutdown\<close>, with partial writes, the
  output buffer and its draining. It refines the list of effects of \<open>RpcFraming\<close>.
\<close>

section \<open>The effects on the connection\<close>

text \<open>\<open>rs\<close> are the results of the calls of \<open>write\<close>, one for each message.\<close>

fun do_effects :: "write_result list \<Rightarrow> conn_effect list \<Rightarrow> TcpConnection \<Rightarrow> TcpConnection option" where
  "do_effects rs [] c = Some c"
| "do_effects (w # rs) (Send msg # es) c = Option.bind (send True w msg c) (do_effects rs es)"
| "do_effects [] (Send msg # es) c = None"
| "do_effects rs (Shutdown # es) c = Option.bind (shutdown True c) (do_effects rs es)"

definition on_message ::
    "(string \<Rightarrow> string) \<Rightarrow> (string \<Rightarrow> run) \<Rightarrow> write_result list \<Rightarrow> TcpConnection \<Rightarrow> TcpConnection option" where
  "on_message freed handle rs c =
     (case onMessage freed handle (inputBuffer c) of
        (b, es, Ret _) \<Rightarrow> do_effects rs es (c\<lparr>inputBuffer := b\<rparr>)
      | _ \<Rightarrow> None)"

text \<open>The bytes of the messages that are sent: none behind a shutdown.\<close>

fun sent_bytes :: "conn_effect list \<Rightarrow> string" where
  "sent_bytes [] = []"
| "sent_bytes (Send msg # es) = msg @ sent_bytes es"
| "sent_bytes (Shutdown # es) = []"

section \<open>A connection of the server\<close>

text \<open>\<open>chunks\<close> is what was read so far, as it came.\<close>

record RpcConn =
  rpcConn :: TcpConnection
  chunks :: "string list"

definition on_rpc :: "(TcpConnection \<Rightarrow> TcpConnection option) \<Rightarrow> RpcConn \<Rightarrow> RpcConn option" where
  "on_rpc f s = map_option (\<lambda>c. s\<lparr>rpcConn := c\<rparr>) (f (rpcConn s))"

text \<open>The first task that the connection has queued in its loop.\<close>

definition run_first :: "write_result \<Rightarrow> TcpConnection \<Rightarrow> TcpConnection option" where
  "run_first w c =
     (case TcpConnection.pending c of
        [] \<Rightarrow> Some c
      | t # ts \<Rightarrow> runTask w t (c\<lparr>TcpConnection.pending := ts\<rparr>))"

datatype rpc_event = Reads string "write_result list" | Writes write_result | Runs write_result

fun rpc_do :: "(string \<Rightarrow> string) \<Rightarrow> (string \<Rightarrow> run) \<Rightarrow> rpc_event \<Rightarrow> RpcConn \<Rightarrow> RpcConn option" where
  "rpc_do freed handle (Reads s rs) e =
     Option.bind (on_rpc (handleRead (ReadvData s)) e) (\<lambda>e1.
       if s = [] then Some e1 else on_rpc (on_message freed handle rs) (e1\<lparr>chunks := chunks e1 @ [s]\<rparr>))"
| "rpc_do freed handle (Writes w) e = on_rpc (handleWrite w) e"
| "rpc_do freed handle (Runs w) e = on_rpc (run_first w) e"

text \<open>
  The kernel's part, for the messages sent; that the request handlers do not fail an assertion
  (\<open>handleRequest_aborts_iff\<close> says when); and that the peer does not reset the connection.
\<close>

fun writes_ok :: "write_result list \<Rightarrow> conn_effect list \<Rightarrow> bool" where
  "writes_ok rs [] = True"
| "writes_ok (w # rs) (Send msg # es) = (write_ok (length msg) w \<and> no_fault w \<and> writes_ok rs es)"
| "writes_ok [] (Send msg # es) = False"
| "writes_ok rs (Shutdown # es) = writes_ok rs es"

fun rpc_legal :: "(string \<Rightarrow> string) \<Rightarrow> (string \<Rightarrow> run) \<Rightarrow> rpc_event \<Rightarrow> RpcConn \<Rightarrow> bool" where
  "rpc_legal freed handle (Reads s rs) e =
     (is_open (rpcConn e) \<and> read_ok (inputBuffer (rpcConn e)) (ReadvData s) \<and>
      (case receive freed handle (inputBuffer (rpcConn e)) s of
         (b, es, Ret _) \<Rightarrow> writes_ok rs es | _ \<Rightarrow> False))"
| "rpc_legal freed handle (Writes w) e =
     (is_open (rpcConn e) \<and> isWriting (channel (rpcConn e)) \<and>
      write_ok (readableBytes (outputBuffer (rpcConn e))) w)"
| "rpc_legal freed handle (Runs w) e = (TcpConnection.pending (rpcConn e) \<noteq> [])"

definition RpcConn_new :: "RpcConn \<Rightarrow> bool" where
  "RpcConn_new e \<longleftrightarrow> connectEstablished (TcpConnection_new False None) = Some (rpcConn e) \<and> chunks e = []"

definition rpc_reach :: "(string \<Rightarrow> string) \<Rightarrow> (string \<Rightarrow> run) \<Rightarrow> RpcConn \<Rightarrow> bool" where
  "rpc_reach freed handle = reached RpcConn_new (acts (rpc_legal freed handle) (rpc_do freed handle))"

section \<open>The invariant\<close>

lemma receive_all_snoc:
  "receive_all freed handle b cs = (b1, es, Ret ()) \<Longrightarrow> receive freed handle b1 s = (b2, es2, out) \<Longrightarrow>
     receive_all freed handle b (cs @ [s]) = (b2, es @ es2, out)"
  by (induction cs arbitrary: b es) (auto split: prod.splits outcome.splits)

lemma sent_bytes_append:
  "sent_bytes (es @ es') = sent_bytes es @ (if Shutdown \<in> set es then [] else sent_bytes es')"
  by (induction es rule: sent_bytes.induct) auto

definition rpc_conn_ok :: "conn_effect list \<Rightarrow> TcpConnection \<Rightarrow> bool" where
  "rpc_conn_ok es c \<longleftrightarrow> conn_inv c \<and> stream_of c = sent_bytes es \<and>
     (state c = kDisconnected \<or> state c = (if Shutdown \<in> set es then kDisconnecting else kConnected)) \<and>
     (shutWr c \<longrightarrow> Shutdown \<in> set es \<and> readable (outputBuffer c) = []) \<and>
     set (TcpConnection.pending c) \<subseteq> {WriteComplete} \<and> \<not> hasHighWater c"

lemma rpc_conn_open: "rpc_conn_ok es c \<Longrightarrow> is_open c \<Longrightarrow> state c = (if Shutdown \<in> set es then kDisconnecting else kConnected)"
  by (metis is_open_simps(3) rpc_conn_ok_def)

lemma rpc_conn_shut: "rpc_conn_ok es c \<Longrightarrow> is_open c \<Longrightarrow> state c = kDisconnecting \<longleftrightarrow> Shutdown \<in> set es"
  using rpc_conn_open [of es c] by (metis ConnectionState.distinct(8))

definition rpc_inv :: "(string \<Rightarrow> string) \<Rightarrow> (string \<Rightarrow> run) \<Rightarrow> RpcConn \<Rightarrow> bool" where
  "rpc_inv freed handle e \<longleftrightarrow> (\<exists>b es. receive_all freed handle (Buffer_new kInitialSize) (chunks e) = (b, es, Ret ()) \<and>
     (is_open (rpcConn e) \<longrightarrow> inputBuffer (rpcConn e) = b) \<and> rpc_conn_ok es (rpcConn e))"

lemma send_effect:
  assumes ok: "rpc_conn_ok es c" and st: "is_open c" and w: "write_ok (length msg) w" "no_fault w"
  shows "\<exists>c'. send True w msg c = Some c' \<and> rpc_conn_ok (es @ [Send msg]) c' \<and> is_open c' \<and> inputBuffer c' = inputBuffer c"
proof (cases "state c = kConnected")
  case True
  then have ns: "Shutdown \<notin> set es" "\<not> shutWr c" using ok by (auto simp: rpc_conn_ok_def split: if_splits)
  obtain c' where s: "sendInLoop w msg c = Some c'" and c': "keeps c c'" "shutWr c' = shutWr c" "stream_of c' = stream_of c @ msg"
    using sendInLoop_ok [OF _ _ w(1), of c] True w(2) ok
    by (auto simp: rpc_conn_ok_def stream_of_def handed_def no_fault_def)
  have q: "quiet c c'" "inputBuffer c' = inputBuffer c" using sendInLoop_quiet [OF s] ok by (auto simp: rpc_conn_ok_def)
  have "rpc_conn_ok (es @ [Send msg]) c'"
    using ok c' q ns True by (auto simp: rpc_conn_ok_def keeps_def quiet_def sent_bytes_append)
  then show ?thesis using s True q c' by (auto simp: send_def keeps_def)
next
  case False
  then have "Shutdown \<in> set es" using ok st by (auto simp: rpc_conn_ok_def is_open_def split: if_splits)
  then have "rpc_conn_ok (es @ [Send msg]) c" using ok by (simp add: rpc_conn_ok_def sent_bytes_append)
  then show ?thesis using False st by (simp add: send_def)
qed

lemma shutdown_effect:
  assumes ok: "rpc_conn_ok es c" and st: "is_open c"
  shows "\<exists>c'. shutdown True c = Some c' \<and> rpc_conn_ok (es @ [Shutdown]) c' \<and> is_open c' \<and> inputBuffer c' = inputBuffer c"
proof -
  let ?c1 = "c\<lparr>state := kDisconnecting\<rparr>"
  let ?c2 = "if state c = kConnected then shutdownInLoop ?c1 else ?c1"
  have inv: "conn_inv ?c1" using disconnecting_ok st ok by (simp add: rpc_conn_ok_def)
  have s: "shutdown True c = Some ?c2" using st by (auto simp: shutdown_def stateAtomicGetAndSet_def is_open_def)
  have wr: "isWriting (channel c) \<longleftrightarrow> readable (outputBuffer c) \<noteq> []"
    using ok st by (simp add: rpc_conn_ok_def conn_inv_open)
  have "conn_inv ?c2" using inv shutdownInLoop_ok [OF inv] by (auto simp: keeps_def)
  then have "rpc_conn_ok (es @ [Shutdown]) ?c2"
    using ok wr by (auto simp: rpc_conn_ok_def shutdownInLoop_def stream_of_def sent_bytes_append)
  moreover have "is_open ?c2" "inputBuffer ?c2 = inputBuffer c" by (auto simp: shutdownInLoop_def)
  ultimately show ?thesis using s by blast
qed

lemma effects_done:
  "rpc_conn_ok es c \<Longrightarrow> is_open c \<Longrightarrow> writes_ok rs es' \<Longrightarrow>
     \<exists>c'. do_effects rs es' c = Some c' \<and> rpc_conn_ok (es @ es') c' \<and> is_open c' \<and> inputBuffer c' = inputBuffer c"
proof (induction rs es' c arbitrary: es rule: do_effects.induct)
  case (2 w rs msg es' c)
  obtain c1 where c1: "send True w msg c = Some c1" "rpc_conn_ok (es @ [Send msg]) c1" "is_open c1" "inputBuffer c1 = inputBuffer c"
    using send_effect [OF 2(2,3)] 2(4) by auto
  from 2(1) [OF c1(1) c1(2,3)] 2(4) show ?case using c1 by auto
next
  case (4 rs es' c)
  obtain c1 where c1: "shutdown True c = Some c1" "rpc_conn_ok (es @ [Shutdown]) c1" "is_open c1" "inputBuffer c1 = inputBuffer c"
    using shutdown_effect [OF 4(2,3)] by auto
  from 4(1) [OF c1(1) c1(2,3)] 4(4) show ?case using c1 by auto
qed auto

text \<open>A writable socket and a queued task; the bytes on the wire are never taken back.\<close>

lemma wire_same [simp]: "wire (shutdownInLoop c) = wire c" "wire (queueInLoop t c) = wire c"
  "wire (callback cb c) = wire c"
  by (simp_all add: shutdownInLoop_def queueInLoop_def callback_def)

lemma on_channel_wire: "on_channel f c = Some c' \<Longrightarrow> wire c' = wire c"
  by (auto simp: on_channel_def)

lemma handleWrite_wire:
  assumes h: "handleWrite w c = Some c'"
  shows "prefix (wire c) (wire c')"
proof (cases "state c = kDisconnected \<or> (\<exists>e. w = WriteError e)")
  case True
  then show ?thesis using h by (auto simp: handleWrite_def split: if_splits)
next
  case False
  then obtain n ob where w: "w = Written n" and ob: "retrieve (outputBuffer c) n = Some ob"
    using h by (cases w) (auto simp: handleWrite_def split: if_splits option.splits)
  let ?c1 = "c\<lparr>outputBuffer := ob, wire := wire c @ take n (readable (outputBuffer c))\<rparr>"
  have "\<exists>c2. (c' = ?c1 \<or> on_channel disableWrite ?c1 = Some c2 \<and> wire c' = wire c2)"
    using h False w ob by (auto simp: handleWrite_def Let_def split: if_splits)
  then show ?thesis using on_channel_wire by force
qed

lemma outputRest_wire: "outputRest f dat n c = Some c' \<Longrightarrow> wire c' = wire c"
  by (auto simp: outputRest_def Let_def dest!: on_channel_wire split: if_splits option.splits)

lemma send_wire: "send True w msg c = Some c' \<Longrightarrow> prefix (wire c) (wire c')"
  by (auto simp: send_def sendInLoop_def Let_def dest!: outputRest_wire split: if_splits write_result.splits)

lemma do_effects_wire: "do_effects rs es c = Some c' \<Longrightarrow> prefix (wire c) (wire c')"
proof (induction rs es c rule: do_effects.induct)
  case (2 w rs msg es c)
  then show ?case using send_wire prefix_order.trans by (auto simp: bind_eq_Some_conv) blast
next
  case (4 rs es c)
  then show ?case by (auto simp: bind_eq_Some_conv shutdown_def shutdownInLoop_def stateAtomicGetAndSet_def Let_def split: if_splits)
qed auto

lemma conn_writes:
  assumes ok: "rpc_conn_ok es c" and op: "is_open c" and wr: "isWriting (channel c)"
    and w: "write_ok (readableBytes (outputBuffer c)) w"
  shows "\<exists>c'. handleWrite w c = Some c' \<and> rpc_conn_ok es c' \<and> state c' = state c \<and>
    inputBuffer c' = inputBuffer c \<and> prefix (wire c) (wire c')"
proof -
  have ci: "conn_inv c" using ok by (simp add: rpc_conn_ok_def)
  have out: "readable (outputBuffer c) \<noteq> []" using wr ci op by (simp add: conn_inv_open)
  then have ns: "\<not> shutWr c" using ok by (auto simp: rpc_conn_ok_def)
  obtain c1 where h: "handleWrite w c = Some c1" and c1: "conn_inv c1" "state c1 = state c" "stream_of c1 = stream_of c"
    "shutWr c1 \<longrightarrow> readable (outputBuffer c1) = []"
    using handleWrite_ok [OF ci _ w] op wr ns by (auto simp: stream_of_def)
  have "shutWr c1 \<longrightarrow> state c = kDisconnecting" using handleWrite_quiet [OF h] ns by auto
  then have sh: "shutWr c1 \<longrightarrow> Shutdown \<in> set es \<and> readable (outputBuffer c1) = []"
    using c1(4) rpc_conn_shut [OF ok op] by blast
  have q: "set (TcpConnection.pending c1) \<subseteq> {WriteComplete}" "\<not> hasHighWater c1"
    using ok handleWrite_quiet [OF h] by (auto simp: rpc_conn_ok_def quiet_def)
  have "rpc_conn_ok es c1"
    unfolding rpc_conn_ok_def using ok c1(1-3) rpc_conn_open [OF ok op] sh q by (simp add: rpc_conn_ok_def)
  then show ?thesis using h c1(2) handleWrite_quiet [OF h] handleWrite_wire [OF h] by blast
qed

lemma conn_runs:
  assumes ok: "rpc_conn_ok es c"
  shows "\<exists>c'. run_first w c = Some c' \<and> rpc_conn_ok es c' \<and> state c' = state c \<and>
    inputBuffer c' = inputBuffer c \<and> wire c' = wire c"
proof (cases "TcpConnection.pending c")
  case (Cons t ts)
  have wc: "t = WriteComplete" "set ts \<subseteq> {WriteComplete}" using ok Cons by (auto simp: rpc_conn_ok_def)
  let ?c1 = "callback WriteCompleteCb (c\<lparr>TcpConnection.pending := ts\<rparr>)"
  have "hasHighWater ?c1 = hasHighWater c" "inputBuffer ?c1 = inputBuffer c" "wire ?c1 = wire c" "state ?c1 = state c"
    by (simp_all add: callback_def)
  moreover have "rpc_conn_ok es ?c1" using ok wc(2) calculation by (simp add: rpc_conn_ok_def stream_of_def)
  ultimately show ?thesis using Cons wc(1) by (simp add: run_first_def)
qed (use ok in \<open>simp add: run_first_def\<close>)

text \<open>The buffer stays well-formed, whatever it holds.\<close>

lemma retrieve_inv: "retrieve b n = Some b1 \<Longrightarrow> buffer_inv b \<Longrightarrow> buffer_inv b1"
  using retrieve_ok [of b n] retrieve_fails [of b n] by fastforce

lemma retrieveAsString_inv: "retrieveAsString b n = Some (str, b1) \<Longrightarrow> buffer_inv b \<Longrightarrow> buffer_inv b1"
  by (auto simp: retrieveAsString_def dest: retrieve_inv split: if_splits)

lemma frame_header_inv: "frame_header k b = Invalid_length b1 \<Longrightarrow> buffer_inv b \<Longrightarrow> buffer_inv b1"
  by (auto simp: frame_header_def Let_def dest: retrieve_inv split: option.splits prod.splits if_splits)

lemma take_frame_inv: "take_frame b h n = Some (json, b1) \<Longrightarrow> buffer_inv b \<Longrightarrow> buffer_inv b1"
  by (auto simp: take_frame_def bind_eq_Some_conv dest: retrieve_inv retrieveAsString_inv)

lemma handleMessage_inv: "buffer_inv b \<Longrightarrow> buffer_inv (fst (handleMessage handle b))"
proof (induction handle b rule: handleMessage.induct)
  case (1 handle b)
  show ?case
  proof (cases "frame_header kMaxMessageLen b")
    case (Invalid_length b1)
    then show ?thesis using frame_header_inv 1(2) by (subst handleMessage.simps) simp
  next
    case (Frame h n)
    show ?thesis
    proof (cases "take_frame b h n")
      case (Some x)
      obtain json b1 where x: "x = (json, b1)" by fastforce
      have inv: "buffer_inv b1" using take_frame_inv Some x 1(2) by blast
      obtain rs out where h: "handle json = (rs, out)" by fastforce
      obtain b2 es2 out2 where m: "handleMessage handle b1 = (b2, es2, out2)" by (metis prod_cases3)
      have "buffer_inv b2" if "out = Ret ()"
        using 1(1) [OF Frame Some x [symmetric] refl h [symmetric] respond_Some that inv] m by simp
      then show ?thesis
        using Frame Some x h inv m
        by (subst handleMessage.simps) (cases out; simp add: respond_Some)
    qed (use Frame 1(2) in \<open>subst handleMessage.simps; simp\<close>)
  qed (use 1(2) in \<open>subst handleMessage.simps; simp\<close>)+
qed

lemma onMessage_inv: "onMessage freed handle b = (b1, es, out) \<Longrightarrow> buffer_inv b \<Longrightarrow> buffer_inv b1"
  using handleMessage_inv [of b handle]
  by (auto simp: onMessage_def split: prod.splits outcome.splits rpc_exception.splits option.splits)

section \<open>Each event keeps the invariant\<close>

lemma handleRead_input:
  "handleRead (ReadvData s) c = Some c1 \<Longrightarrow> s \<noteq> [] \<Longrightarrow> read_ok (inputBuffer c) (ReadvData s) \<Longrightarrow> buffer_inv (inputBuffer c) \<Longrightarrow>
     receive freed handle (inputBuffer c) s = onMessage freed handle (inputBuffer c1)"
  using readFd_ok [of "inputBuffer c" s]
  by (auto simp: handleRead_def receive_def read_ok_def callback_def Let_def split: if_splits)

lemma rpc_reads:
  assumes inv: "rpc_inv freed handle e" and legal: "rpc_legal freed handle (Reads s rs) e"
  shows "\<exists>e'. rpc_do freed handle (Reads s rs) e = Some e' \<and> rpc_inv freed handle e' \<and>
    prefix (wire (rpcConn e)) (wire (rpcConn e')) \<and> (s \<noteq> [] \<longrightarrow> is_open (rpcConn e') \<and> chunks e' = chunks e @ [s])"
proof -
  let ?c = "rpcConn e"
  obtain b es where all: "receive_all freed handle (Buffer_new kInitialSize) (chunks e) = (b, es, Ret ())"
    and ib: "inputBuffer ?c = b" and ok: "rpc_conn_ok es ?c" and op: "is_open ?c"
    using inv legal by (auto simp: rpc_inv_def)
  have ci: "conn_inv ?c" using ok by (simp add: rpc_conn_ok_def)
  have bi: "buffer_inv b" using ci ib by (simp add: conn_inv_def)
  obtain c1 where r: "handleRead (ReadvData s) ?c = Some c1" and c1: "conn_inv c1" "wire c1 = wire ?c"
    "outputBuffer c1 = outputBuffer ?c" "shutWr c1 = shutWr ?c"
    "if s = [] then state c1 = kDisconnected else keeps ?c c1"
    using handleRead_ok [OF ci op, of s] legal by auto
  have ok1: "rpc_conn_ok es c1"
    using ok c1 handleRead_quiet [OF r] by (auto simp: rpc_conn_ok_def stream_of_def quiet_def keeps_def split: if_splits)
  show ?thesis
  proof (cases "s = []")
    case True
    then have "rpc_inv freed handle (e\<lparr>rpcConn := c1\<rparr>)" using all ok1 c1 by (auto simp: rpc_inv_def)
    then show ?thesis using r True c1(2) by (simp add: on_rpc_def)
  next
    case False
    obtain b2 es2 where rc: "receive freed handle b s = (b2, es2, Ret ())" and w: "writes_ok rs es2"
      using legal ib by (auto split: prod.splits outcome.splits)
    then have om: "onMessage freed handle (inputBuffer c1) = (b2, es2, Ret ())"
      using handleRead_input [OF r False] legal bi ib by simp
    have "buffer_inv b2" using onMessage_inv [OF om] c1(1) by (simp add: conn_inv_def)
    then have "rpc_conn_ok es (c1\<lparr>inputBuffer := b2\<rparr>)"
      using ok1 conn_inv_input by (simp add: rpc_conn_ok_def stream_of_def)
    moreover have "is_open (c1\<lparr>inputBuffer := b2\<rparr>)" using c1(5) False op by (simp add: keeps_def is_open_def)
    ultimately obtain c2 where c2: "do_effects rs es2 (c1\<lparr>inputBuffer := b2\<rparr>) = Some c2" "rpc_conn_ok (es @ es2) c2"
      "inputBuffer c2 = b2" "is_open c2"
      using effects_done [OF _ _ w] by fastforce
    have "rpc_inv freed handle (e\<lparr>chunks := chunks e @ [s], rpcConn := c2\<rparr>)"
      using receive_all_snoc [OF all rc] c2 by (auto simp: rpc_inv_def)
    then show ?thesis using r False om c2(1,4) c1(2) do_effects_wire [OF c2(1)] by (simp add: on_rpc_def on_message_def)
  qed
qed

lemma rpc_writes:
  assumes inv: "rpc_inv freed handle e" and legal: "rpc_legal freed handle (Writes w) e"
  shows "\<exists>e'. rpc_do freed handle (Writes w) e = Some e' \<and> rpc_inv freed handle e'"
proof -
  obtain b es where all: "receive_all freed handle (Buffer_new kInitialSize) (chunks e) = (b, es, Ret ())"
    and ib: "is_open (rpcConn e) \<longrightarrow> inputBuffer (rpcConn e) = b" and ok: "rpc_conn_ok es (rpcConn e)"
    using inv by (auto simp: rpc_inv_def)
  obtain c1 where c1: "handleWrite w (rpcConn e) = Some c1" "rpc_conn_ok es c1" "state c1 = state (rpcConn e)"
    "inputBuffer c1 = inputBuffer (rpcConn e)"
    using conn_writes [OF ok, of w] legal by auto
  have "rpc_inv freed handle (e\<lparr>rpcConn := c1\<rparr>)" using all ib c1 by (auto simp: rpc_inv_def is_open_def)
  then show ?thesis using c1(1) by (simp add: on_rpc_def)
qed

lemma rpc_runs:
  assumes inv: "rpc_inv freed handle e" and legal: "rpc_legal freed handle (Runs w) e"
  shows "\<exists>e'. rpc_do freed handle (Runs w) e = Some e' \<and> rpc_inv freed handle e'"
proof -
  obtain b es where all: "receive_all freed handle (Buffer_new kInitialSize) (chunks e) = (b, es, Ret ())"
    and ib: "is_open (rpcConn e) \<longrightarrow> inputBuffer (rpcConn e) = b" and ok: "rpc_conn_ok es (rpcConn e)"
    using inv by (auto simp: rpc_inv_def)
  obtain c1 where c1: "run_first w (rpcConn e) = Some c1" "rpc_conn_ok es c1" "state c1 = state (rpcConn e)"
    "inputBuffer c1 = inputBuffer (rpcConn e)"
    using conn_runs [OF ok, of w] by auto
  have "rpc_inv freed handle (e\<lparr>rpcConn := c1\<rparr>)" using all ib c1 by (auto simp: rpc_inv_def is_open_def)
  then show ?thesis using c1(1) by (simp add: on_rpc_def)
qed

lemma rpc_inv_new: "RpcConn_new e \<Longrightarrow> rpc_inv freed handle e"
proof -
  assume e: "RpcConn_new e"
  let ?c = "TcpConnection_new False None"
  have c: "conn_inv ?c" by (rule conn_inv_new)
  have st: "state ?c = kConnecting" by (simp add: TcpConnection_new_def)
  obtain c' where c': "connectEstablished ?c = Some c'" "conn_inv c'" "state c' = kConnected" "same_output ?c c'"
    "shutWr c' = shutWr ?c" "TcpConnection.pending c' = TcpConnection.pending ?c"
    using establish_ok [OF c st] by blast
  have "inputBuffer c' = inputBuffer ?c" "hasHighWater c' = hasHighWater ?c"
    using c'(1) by (auto simp: connectEstablished_def on_channel_def callback_def split: if_splits)
  moreover have "stream_of ?c = []" "inputBuffer ?c = Buffer_new kInitialSize" "\<not> hasHighWater ?c" "TcpConnection.pending ?c = []"
    "\<not> shutWr ?c"
    by (simp_all add: stream_of_def TcpConnection_new_def readable_new)
  ultimately have "rpc_conn_ok [] c'" "inputBuffer c' = Buffer_new kInitialSize"
    using c' by (auto simp: rpc_conn_ok_def same_output_def stream_of_def)
  then show ?thesis using e c'(1) by (auto simp: rpc_inv_def RpcConn_new_def)
qed

interpretation rpcs: machine RpcConn_new "rpc_legal freed handle" "rpc_do freed handle" "rpc_inv freed handle"
  for freed handle
proof
  show "rpc_inv freed handle s" if "RpcConn_new s" for s using that by (rule rpc_inv_new)
  show "\<exists>s'. rpc_do freed handle a s = Some s' \<and> rpc_inv freed handle s'"
    if "rpc_inv freed handle s" "rpc_legal freed handle a s" for s a
    using that rpc_reads rpc_writes rpc_runs by (cases a) blast+
qed

lemma rpc_reach_inv: "rpc_reach freed handle e \<Longrightarrow> rpc_inv freed handle e"
  unfolding rpc_reach_def by (rule rpcs.steps.reached_inv)

section \<open>Properties\<close>

text \<open>
  C10: a connection of the RPC server does what the list of effects of its message layer says, however
  its input is cut and its output is taken: the bytes accepted by \<open>write\<close> and those still in the output
  buffer are the messages sent for the input so far, in order, up to the first shutdown (what is
  answered behind it is dropped, although it is executed); the write side is shut only after the last
  of these bytes; and no handler of the connection fails.
\<close>

theorem rpc_connection_refines:
  assumes r: "rpc_reach freed handle e"
  shows "\<exists>b es. receive_all freed handle (Buffer_new kInitialSize) (chunks e) = (b, es, Ret ()) \<and>
    wire (rpcConn e) @ readable (outputBuffer (rpcConn e)) = sent_bytes es \<and>
    (is_open (rpcConn e) \<longrightarrow> inputBuffer (rpcConn e) = b \<and> (state (rpcConn e) = kDisconnecting \<longleftrightarrow> Shutdown \<in> set es)) \<and>
    (shutWr (rpcConn e) \<longrightarrow> Shutdown \<in> set es \<and> wire (rpcConn e) = sent_bytes es) \<and>
    (\<forall>a. rpc_legal freed handle a e \<longrightarrow> (\<exists>e'. rpc_do freed handle a e = Some e' \<and> rpc_reach freed handle e'))"
proof -
  have "\<exists>e'. rpc_do freed handle a e = Some e' \<and> rpc_reach freed handle e'" if "rpc_legal freed handle a e" for a
    using rpcs.never_fails r that unfolding rpc_reach_def by blast
  moreover obtain b es where all: "receive_all freed handle (Buffer_new kInitialSize) (chunks e) = (b, es, Ret ())"
    and ib: "is_open (rpcConn e) \<longrightarrow> inputBuffer (rpcConn e) = b" and ok: "rpc_conn_ok es (rpcConn e)"
    using rpc_reach_inv [OF r] by (auto simp: rpc_inv_def)
  moreover have "is_open (rpcConn e) \<longrightarrow> (state (rpcConn e) = kDisconnecting \<longleftrightarrow> Shutdown \<in> set es)"
    using rpc_conn_shut [OF ok] by blast
  moreover from ok have "wire (rpcConn e) @ readable (outputBuffer (rpcConn e)) = sent_bytes es"
    "shutWr (rpcConn e) \<longrightarrow> Shutdown \<in> set es \<and> wire (rpcConn e) = sent_bytes es"
    by (auto simp: rpc_conn_ok_def stream_of_def)
  ultimately show ?thesis by blast
qed

text \<open>A server that sends back what it is asked.\<close>

definition mirror :: "string \<Rightarrow> run" where
  "mirror json = ([VString json], Ret ())"

theorem rpc_connection_refines_witness:
  "\<exists>e. rpc_reach (\<lambda>s. s) mirror e \<and> chunks e = [message_of ''7''] \<and>
     wire (rpcConn e) @ readable (outputBuffer (rpcConn e)) =
       message_of (layout (\<lambda>_. []) 0 (VString (''7'' @ crlf_str)))"
proof -
  obtain c where c: "connectEstablished (TcpConnection_new False None) = Some c" "state c = kConnected"
    using establish_ok [OF conn_inv_new, of False None] by (auto simp: TcpConnection_new_def)
  let ?e = "\<lparr>rpcConn = c, chunks = []\<rparr>" and ?m = "message_of ''7''"
  let ?reply = "message_of (layout (\<lambda>_. []) 0 (VString (''7'' @ crlf_str)))" and ?a = "Reads ?m [WriteError EAGAIN]"
  have new: "RpcConn_new ?e" using c by (simp add: RpcConn_new_def)
  then have r: "rpc_reach (\<lambda>s. s) mirror ?e" unfolding rpc_reach_def by (rule reached_initial)
  have ib: "inputBuffer c = Buffer_new kInitialSize"
    using rpc_inv_new [OF new, of "\<lambda>s. s" mirror] c(2) by (simp add: rpc_inv_def)
  have len: "length ?m \<le> 65536" by (simp add: message_of_def nat_to_string.simps)
  have st: "RpcFramingFacts.pending [] [''7'']" by (simp add: RpcFramingFacts.pending_def message_of_def strict_prefix_def)
  have sv: "served_effects mirror [''7''] = [Send ?reply]"
    by (simp add: served_effects_def answers_def mirror_def isNull_def)
  have "list_all short [''7'']" by (simp add: short_def kMaxMessageLen_def)
  then have "\<exists>b. receive_all (\<lambda>s. s) mirror (Buffer_new kInitialSize) [?m] = (b, served_effects mirror [''7''], Ret ())"
    using receive_stream [OF buffer_new_inv, of kInitialSize "[?m]" "[''7'']" mirror "\<lambda>s. s"] st len
    by (simp add: readable_new mirror_def) blast
  then obtain b where all: "receive_all (\<lambda>s. s) mirror (Buffer_new kInitialSize) [?m] = (b, [Send ?reply], Ret ())"
    unfolding sv by blast
  then have rc: "receive (\<lambda>s. s) mirror (inputBuffer c) ?m = (b, [Send ?reply], Ret ())"
    unfolding ib by (auto split: prod.splits outcome.splits)
  have l: "rpc_legal (\<lambda>s. s) mirror ?a ?e"
    using c(2) len rc by (simp add: read_ok_def readv_capacity_def extrabuf_size_def write_ok_def no_fault_def)
  obtain e' where e': "rpc_do (\<lambda>s. s) mirror ?a ?e = Some e'"
    using rpc_reads [OF rpc_inv_new [OF new] l] by blast
  have "?m \<noteq> []" by (simp add: message_of_def crlf_str_def)
  then have ch: "chunks e' = [?m]" using e' by (auto simp: on_rpc_def bind_eq_Some_conv)
  have "acts (rpc_legal (\<lambda>s. s) mirror) (rpc_do (\<lambda>s. s) mirror) ?e e'" using l e' unfolding acts_def by blast
  then have r': "rpc_reach (\<lambda>s. s) mirror e'"
    using reached_step [OF r [unfolded rpc_reach_def]] unfolding rpc_reach_def by blast
  have "wire (rpcConn e') @ readable (outputBuffer (rpcConn e')) = ?reply"
    using rpc_connection_refines [OF r'] all by (auto simp: ch)
  then show ?thesis using r' ch by blast
qed

text \<open>
  A stream of requests, sent without waiting and cut anywhere: the answers are on their way in the
  order of the requests, each once, and none is cut off by a shutdown.
\<close>

lemma sends_bytes: "Shutdown \<notin> set es \<Longrightarrow> sent_bytes es = concat (map (\<lambda>x. case x of Send msg \<Rightarrow> msg | Shutdown \<Rightarrow> []) es)"
  by (induction es rule: sent_bytes.induct) auto

lemma served_no_shutdown: "Shutdown \<notin> set (served_effects handle bodies)"
  by (auto simp: served_effects_def answers_def)

corollary pipeline_answered:
  assumes r: "rpc_reach freed handle e" and in_all: "concat (chunks e) = concat (map message_of bodies)"
    and ok: "list_all short bodies" "\<forall>c \<in> set (chunks e). length c \<le> 65536"
      "\<forall>x \<in> set bodies. snd (handle (x @ crlf_str)) = Ret ()"
  shows "wire (rpcConn e) @ readable (outputBuffer (rpcConn e)) =
      concat (map (\<lambda>body. concat (map (\<lambda>v. message_of (layout (\<lambda>_. []) 0 v))
        (filter (\<lambda>v. \<not> isNull v) (fst (handle (body @ crlf_str)))))) bodies)
    \<and> \<not> shutWr (rpcConn e)"
proof -
  obtain b es where all: "receive_all freed handle (Buffer_new kInitialSize) (chunks e) = (b, es, Ret ())"
    and c: "rpc_conn_ok es (rpcConn e)" using rpc_reach_inv [OF r] by (auto simp: rpc_inv_def)
  have "RpcFramingFacts.pending [] bodies"
    by (cases bodies) (simp_all add: RpcFramingFacts.pending_def message_of_def strict_prefix_def)
  then have es: "es = served_effects handle bodies"
    using receive_stream [OF buffer_new_inv, of kInitialSize "chunks e" bodies handle freed] in_all ok all
    by (auto simp: readable_new)
  have "sent_bytes es = concat (map (\<lambda>body. concat (map (\<lambda>v. message_of (layout (\<lambda>_. []) 0 v))
      (filter (\<lambda>v. \<not> isNull v) (fst (handle (body @ crlf_str)))))) bodies)"
    unfolding es sends_bytes [OF served_no_shutdown] by (induction bodies) (simp_all add: served_effects_def answers_def comp_def)
  then show ?thesis using c served_no_shutdown [of handle bodies] by (auto simp: rpc_conn_ok_def stream_of_def es)
qed

end
