(* ===== verification/RpcClient.thy ===== *)
theory RpcClient
  imports RpcFraming
begin

text \<open>
  \<open>RpcServer/Client/BaseClient.cpp\<close>: calls are numbered, their callbacks wait in a map until
  the response with the number arrives. A callback is user code; here it is a name, and its
  calls are effects, with the value and the flag \<open>isError\<close> it is given. The number of the next call
  is kept as a word that wraps around; the code's is an \<open>int32_t\<close>, so that from the call after
  number \<open>2 ^ 31 - 1\<close> on its behaviour is undefined and the model says one thing it may do.
\<close>

section \<open>The state and the calls\<close>

record 'cb BaseClient =
  nextId :: "32 word"
  idToResponse :: "int \<rightharpoonup> 'cb"

datatype 'cb client_effect = CSend string | Callback 'cb JValue bool

datatype client_exception = ResponseException string "int option"

definition BaseClient_new :: "'cb BaseClient" where
  "BaseClient_new = \<lparr>nextId = 0, idToResponse = Map.empty\<rparr>"

definition clientSendJson :: "JValue \<Rightarrow> 'cb client_effect option" where
  "clientSendJson value =
     map_option (\<lambda>w. CSend (message_of (ws_get (stream w)))) (writeTo fast_ops value (FastWriter_new []))"

definition sendCall :: "'cb BaseClient \<Rightarrow> JValue \<Rightarrow> 'cb \<Rightarrow>
    ('cb BaseClient \<times> JValue \<times> 'cb client_effect) option" where
  "sendCall c call cb =
     Option.bind (addMember call ''id'' (VInt32 (nextId c))) (\<lambda>call1.
       let c1 = c\<lparr>idToResponse := (idToResponse c)(sint (nextId c) \<mapsto> cb), nextId := nextId c + 1\<rparr>
       in map_option (\<lambda>e. (c1, call1, e)) (clientSendJson call1))"

definition sendNotify :: "JValue \<Rightarrow> 'cb client_effect option" where
  "sendNotify notify = clientSendJson notify"

section \<open>Responses\<close>

definition clientFindValue :: "JValue \<Rightarrow> string \<Rightarrow> ValueType \<Rightarrow> (client_exception, JValue) outcome" where
  "clientFindValue cur key type =
     out_bind (of_option (hasMember cur key)) (\<lambda>has.
       if \<not> has then Throw (ResponseException ''key not exist'' None)
       else out_bind (of_option (member_at cur key)) (\<lambda>val.
         if getType val \<noteq> type then Throw (ResponseException ''bad type'' None) else Ret val))"

text \<open>The overload that rethrows with the id.\<close>

definition clientFindValueId ::
    "JValue \<Rightarrow> string \<Rightarrow> ValueType \<Rightarrow> int \<Rightarrow> (client_exception, JValue) outcome" where
  "clientFindValueId cur key type ident =
     (case clientFindValue cur key type of
        Throw (ResponseException msg _) \<Rightarrow> Throw (ResponseException msg (Some ident))
      | r \<Rightarrow> r)"

definition validateResponse :: "JValue \<Rightarrow> (client_exception, unit) outcome" where
  "validateResponse response =
     (if getType response \<noteq> TYPE_OBJECT then
        Throw (ResponseException ''reponse should be json object or array'' None)
      else if getSize response \<noteq> 3 then
        Throw (ResponseException ''response should have exactly 3 field(jsonrpc, error/result, id)'' None)
      else
        out_bind (clientFindValue response ''id'' TYPE_INT32) (\<lambda>v.
        out_bind (of_option (getInt32 v)) (\<lambda>i. let ident = sint i in
        out_bind (clientFindValueId response ''jsonrpc'' TYPE_STRING ident) (\<lambda>ver.
        out_bind (of_option (getString ver)) (\<lambda>version.
          if version \<noteq> ''2.0'' then Throw (ResponseException ''unknown json rpc version'' (Some ident))
          else
        out_bind (of_option (hasMember response ''result'')) (\<lambda>resultIn.
        out_bind (of_option (hasMember response ''error'')) (\<lambda>errorIn.
          if resultIn \<and> errorIn then
            Throw (ResponseException ''result ans error can not include both'' None)
          else if \<not> resultIn \<and> \<not> errorIn then
            Throw (ResponseException ''error and result must contain one'' None)
          else if resultIn then Ret ()
          else out_bind (clientFindValueId response ''error'' TYPE_OBJECT ident) (\<lambda>_. Ret ()))))))))"

type_synonym 'cb client_run =
  "'cb BaseClient \<times> 'cb client_effect list \<times> (client_exception, unit) outcome"

fun client_bind :: "'cb BaseClient \<Rightarrow> (client_exception, 'a) outcome \<Rightarrow> ('a \<Rightarrow> 'cb client_run) \<Rightarrow>
    'cb client_run" where
  "client_bind c (Ret x) f = f x"
| "client_bind c (Throw e) f = (c, [], Throw e)"
| "client_bind c Abort f = (c, [], Abort)"

definition handleResponseSingle :: "'cb BaseClient \<Rightarrow> JValue \<Rightarrow> 'cb client_run" where
  "handleResponseSingle c response =
     client_bind c (validateResponse response) (\<lambda>_.
     client_bind c (of_option (Option.bind (member_at response ''id'') getInt32)) (\<lambda>i.
       case idToResponse c (sint i) of
         None \<Rightarrow> (c, [], Ret ())
       | Some cb \<Rightarrow>
           client_bind c (of_option (hasMember response ''result'')) (\<lambda>resultIn.
           client_bind c (of_option (member_at response (if resultIn then ''result'' else ''error''))) (\<lambda>v.
             (c\<lparr>idToResponse := (idToResponse c)(sint i := None)\<rparr>,
              [Callback cb v (\<not> resultIn)], Ret ())))))"

fun handleResponses :: "'cb BaseClient \<Rightarrow> JValue list \<Rightarrow> 'cb client_run" where
  "handleResponses c [] = (c, [], Ret ())"
| "handleResponses c (r # rs) =
     (case handleResponseSingle c r of
        (c1, effs, Ret _) \<Rightarrow>
          (let (c2, effs2, out) = handleResponses c1 rs in (c2, effs @ effs2, out))
      | x \<Rightarrow> x)"

definition handleResponse :: "'cb BaseClient \<Rightarrow> string \<Rightarrow> 'cb client_run" where
  "handleResponse c json =
     (case parse json VNull of
        None \<Rightarrow> (c, [], Abort)
      | Some (err, responses) \<Rightarrow>
          if err \<noteq> PARSE_OK then (c, [], Throw (ResponseException ''parse error'' None))
          else
            (case getType responses of
               TYPE_OBJECT \<Rightarrow> handleResponseSingle c responses
             | TYPE_ARRAY \<Rightarrow>
                 if getSize responses = 0 then
                   (c, [], Throw (ResponseException ''batch reponse is empty'' None))
                 else client_bind c (of_option (getArray responses)) (handleResponses c)
             | _ \<Rightarrow>
                 (c, [], Throw (ResponseException ''reponse should be json object or array'' None))))"

section \<open>Messages\<close>

definition clientMaxMessageLen :: nat where "clientMaxMessageLen = 65536"

text \<open>
  Where the server takes \<open>bodyLen\<close> bytes, the client takes all that is in the buffer
  (\<open>retrieveAllAsString\<close>).
\<close>

definition take_all :: "Buffer \<Rightarrow> nat \<Rightarrow> (string \<times> Buffer) option" where
  "take_all buffer headerLen = Option.bind (retrieve buffer headerLen) retrieveAllAsString"

lemma take_all_shrinks:
  assumes "frame_header k b = Frame h n" "take_all b h = Some (json, b')"
  shows "readableBytes b' < readableBytes b"
proof -
  have "2 \<le> h" using assms(1)
    by (auto simp: frame_header_def Let_def split: option.splits if_splits prod.splits)
  moreover obtain b1 where "retrieve b h = Some b1" "retrieve b1 (readableBytes b1) = Some b'"
    using assms(2) by (auto simp: take_all_def retrieveAllAsString_def retrieveAsString_def
        bind_eq_Some_conv split: if_splits)
  ultimately show ?thesis using retrieve_shrinks by fastforce
qed

function clientHandleMessage ::
    "'cb BaseClient \<Rightarrow> Buffer \<Rightarrow> Buffer \<times> 'cb client_run" where
  "clientHandleMessage c buffer =
     (case frame_header clientMaxMessageLen buffer of
        Incomplete \<Rightarrow> (buffer, c, [], Ret ())
      | Invalid_length b1 \<Rightarrow> (b1, c, [], Throw (ResponseException ''invalid message length'' None))
      | Too_long \<Rightarrow> (buffer, c, [], Throw (ResponseException ''message is too long'' None))
      | Head_abort \<Rightarrow> (buffer, c, [], Abort)
      | Frame headerLen bodyLen \<Rightarrow>
          (case take_all buffer headerLen of
             None \<Rightarrow> (buffer, c, [], Abort)
           | Some (json, b1) \<Rightarrow>
               (case handleResponse c json of
                  (c1, effs, Ret _) \<Rightarrow>
                    (let (b2, c2, effs2, out) = clientHandleMessage c1 b1
                     in (b2, c2, effs @ effs2, out))
                | r \<Rightarrow> (b1, r))))"
  by pat_completeness auto
termination
  by (relation "measure (\<lambda>(c, b). readableBytes b)") (auto intro: take_all_shrinks)

declare clientHandleMessage.simps [simp del]

definition clientOnMessage :: "'cb BaseClient \<Rightarrow> Buffer \<Rightarrow> Buffer \<times> 'cb client_run" where
  "clientOnMessage c buffer =
     (case clientHandleMessage c buffer of
        (b1, c1, effs, Throw (ResponseException msg ident)) \<Rightarrow>
          (b1, (case ident of None \<Rightarrow> c1
                | Some i \<Rightarrow> c1\<lparr>idToResponse := (idToResponse c1)(i := None)\<rparr>), effs, Ret ())
      | r \<Rightarrow> r)"

end
