(* ===== verification/RpcClientFacts.thy ===== *)
theory RpcClientFacts
  imports RpcClient RpcFramingFacts
begin

text \<open>
  The client: which responses call which callback, that each callback is called at most once,
  and which responses are lost.
\<close>

section \<open>Single responses\<close>

definition response_ms :: "32 word \<Rightarrow> bool \<Rightarrow> JValue \<Rightarrow> member_list" where
  "response_ms i isError v =
     (if isError then [(''error'', v), (''id'', VInt32 i), (''jsonrpc'', VString ''2.0'')]
      else [(''id'', VInt32 i), (''jsonrpc'', VString ''2.0''), (''result'', v)])"

text \<open>The declarative reading of \<open>validateResponse\<close>.\<close>

definition valid_response :: "member_list \<Rightarrow> bool" where
  "valid_response ms \<longleftrightarrow> length ms = 3 \<and> has_type ms ''id'' TYPE_INT32
     \<and> map_of ms ''jsonrpc'' = Some (VString ''2.0'')
     \<and> (map_of ms ''result'' \<noteq> None \<and> map_of ms ''error'' = None
        \<or> map_of ms ''result'' = None \<and> has_type ms ''error'' TYPE_OBJECT)"

lemma clientFindValue_object:
  "clientFindValue (VObject ms) k t =
     (case map_of ms k of
        None \<Rightarrow> Throw (ResponseException ''key not exist'' None)
      | Some v \<Rightarrow> if getType v = t then Ret v else Throw (ResponseException ''bad type'' None))"
  by (auto simp: clientFindValue_def split: option.splits)

lemma clientFindValueId_object:
  "clientFindValueId (VObject ms) k t i =
     (case map_of ms k of
        None \<Rightarrow> Throw (ResponseException ''key not exist'' (Some i))
      | Some v \<Rightarrow> if getType v = t then Ret v else Throw (ResponseException ''bad type'' (Some i)))"
  by (auto simp: clientFindValueId_def clientFindValue_object split: option.splits)

lemma validateResponse_cases:
  "validateResponse (VObject ms) =
    (if length ms \<noteq> 3 then
       Throw (ResponseException ''response should have exactly 3 field(jsonrpc, error/result, id)'' None)
     else case map_of ms ''id'' of
       None \<Rightarrow> Throw (ResponseException ''key not exist'' None)
     | Some (VInt32 i) \<Rightarrow>
         (case map_of ms ''jsonrpc'' of
            None \<Rightarrow> Throw (ResponseException ''key not exist'' (Some (sint i)))
          | Some (VString version) \<Rightarrow>
              if version \<noteq> ''2.0'' then
                Throw (ResponseException ''unknown json rpc version'' (Some (sint i)))
              else
                (case (map_of ms ''result'', map_of ms ''error'') of
                   (Some _, Some _) \<Rightarrow>
                     Throw (ResponseException ''result ans error can not include both'' None)
                 | (None, None) \<Rightarrow>
                     Throw (ResponseException ''error and result must contain one'' None)
                 | (Some _, None) \<Rightarrow> Ret ()
                 | (None, Some e) \<Rightarrow>
                     if getType e = TYPE_OBJECT then Ret ()
                     else Throw (ResponseException ''bad type'' (Some (sint i))))
          | Some _ \<Rightarrow> Throw (ResponseException ''bad type'' (Some (sint i))))
     | Some _ \<Rightarrow> Throw (ResponseException ''bad type'' None))"
proof (cases "map_of ms ''id''")
  case (Some v)
  show ?thesis
  proof (cases v)
    case (VInt32 i)
    show ?thesis
    proof (cases "map_of ms ''jsonrpc''")
      case (Some w)
      then show ?thesis
        using \<open>map_of ms ''id'' = Some v\<close> VInt32
        by (cases w; cases "map_of ms ''result''"; cases "map_of ms ''error''")
          (simp_all add: validateResponse_def clientFindValue_object clientFindValueId_object)
    qed (use Some VInt32 in
        \<open>simp add: validateResponse_def clientFindValue_object clientFindValueId_object\<close>)
  qed (use Some in \<open>simp_all add: validateResponse_def clientFindValue_object\<close>)
qed (simp add: validateResponse_def clientFindValue_object)

lemma validateResponse_iff:
  "validateResponse (VObject ms) = Ret () \<longleftrightarrow> valid_response ms"
  "rejects (validateResponse (VObject ms)) \<longleftrightarrow> \<not> valid_response ms"
  unfolding validateResponse_cases valid_response_def has_type_def
  by (simp split: option.splits JValue.splits; blast)+

text \<open>
  A valid response whose id is waited for calls the callback of that id once, with the
  result or the error object, and forgets the id; one whose id is unknown changes nothing; a
  response that is not valid is thrown out without a callback.
\<close>

theorem response_dispatch:
  assumes "map_of ms ''id'' = Some (VInt32 i)"
  shows "handleResponseSingle c (VObject ms) =
    (if valid_response ms then
       (case idToResponse c (sint i) of
          None \<Rightarrow> (c, [], Ret ())
        | Some cb \<Rightarrow>
            (c\<lparr>idToResponse := (idToResponse c)(sint i := None)\<rparr>,
             [case map_of ms ''result'' of
                Some v \<Rightarrow> Callback cb v False
              | None \<Rightarrow> Callback cb (the (map_of ms ''error'')) True],
             Ret ()))
     else (c, [], validateResponse (VObject ms)))"
proof (cases "valid_response ms")
  case True
  then have "map_of ms ''result'' = None \<Longrightarrow> \<exists>v. map_of ms ''error'' = Some v"
    by (auto simp: valid_response_def has_type_def)
  with True validateResponse_iff(1) [of ms] assms show ?thesis
    by (auto simp: handleResponseSingle_def split: option.splits)
next
  case False
  then obtain e where "validateResponse (VObject ms) = Throw e"
    using validateResponse_iff(2) [of ms] by (auto simp: rejects_def)
  with False show ?thesis by (simp add: handleResponseSingle_def)
qed

lemma response_dispatch_witness:
  "handleResponseSingle \<lparr>nextId = 8, idToResponse = [7 \<mapsto> ''cb'']\<rparr>
     (VObject [(''id'', VInt32 7), (''jsonrpc'', VString ''2.0''), (''result'', VBool True)])
   = (\<lparr>nextId = 8, idToResponse = [7 \<mapsto> ''cb'']\<rparr>\<lparr>idToResponse := [7 \<mapsto> ''cb''](7 := None)\<rparr>,
      [Callback ''cb'' (VBool True) False], Ret ())"
  by (subst response_dispatch [of _ 7]) (simp_all add: valid_response_def has_type_def)

section \<open>Callbacks are called at most once\<close>

fun callback_of :: "'cb client_effect \<Rightarrow> 'cb option" where
  "callback_of (Callback cb v e) = Some cb"
| "callback_of (CSend s) = None"

definition called :: "'cb client_effect list \<Rightarrow> 'cb list" where
  "called effs = List.map_filter callback_of effs"

lemma called_simps [simp]:
  "called [] = []" "called (Callback cb v e # effs) = cb # called effs"
  "called (CSend s # effs) = called effs" "called (xs @ ys) = called xs @ called ys"
  by (simp_all add: called_def map_filter_simps List.map_filter_def)

text \<open>
  From \<open>c\<close> to \<open>c'\<close> the callbacks \<open>cbs\<close> were called: they waited in \<open>c\<close>, no longer wait in
  \<open>c'\<close>, and what waits in \<open>c'\<close> waited in \<open>c\<close>.
\<close>

definition consumed :: "'cb BaseClient \<Rightarrow> 'cb list \<Rightarrow> 'cb BaseClient \<Rightarrow> bool" where
  "consumed c cbs c' \<longleftrightarrow> idToResponse c' \<subseteq>\<^sub>m idToResponse c \<and> distinct cbs
     \<and> set cbs \<subseteq> ran (idToResponse c) - ran (idToResponse c')"

definition unique_names :: "'cb BaseClient \<Rightarrow> bool" where
  "unique_names c \<longleftrightarrow> inj_on (idToResponse c) (dom (idToResponse c))"

lemma map_le_ran: "m \<subseteq>\<^sub>m m' \<Longrightarrow> ran m \<subseteq> ran m'"
  by (force simp: map_le_def ran_def dom_def)

lemma unique_names_le: "unique_names c \<Longrightarrow> idToResponse c' \<subseteq>\<^sub>m idToResponse c \<Longrightarrow> unique_names c'"
  by (auto simp: unique_names_def inj_on_def map_le_def dom_def)

lemma consumed_refl: "consumed c [] c"
  by (simp add: consumed_def)

lemma consumed_trans:
  assumes "consumed c xs c1" "consumed c1 ys c2"
  shows "consumed c (xs @ ys) c2"
  using assms map_le_ran [of "idToResponse c2" "idToResponse c1"]
    map_le_ran [of "idToResponse c1" "idToResponse c"] map_le_trans
  unfolding consumed_def by auto

lemma consumed_remove:
  assumes "unique_names c" "idToResponse c i = Some cb"
  shows "consumed c [cb] (c\<lparr>idToResponse := (idToResponse c)(i := None)\<rparr>)"
  using assms by (auto simp: consumed_def map_le_def ran_def unique_names_def inj_on_def dom_def)

lemma single_consumed:
  assumes "unique_names c" "handleResponseSingle c r = (c', effs, out)"
  shows "consumed c (called effs) c'"
proof (cases "validateResponse r")
  case (Ret u)
  obtain m where m: "Option.bind (member_at r ''id'') getInt32 = m" by simp
  from assms(2) Ret consumed_remove [OF assms(1)] consumed_refl [of c] show ?thesis
    by (cases m; cases "hasMember r ''result''"; cases "member_at r ''result''"; cases "member_at r ''error''")
      (auto simp: handleResponseSingle_def m split: option.splits if_splits)
qed (use assms consumed_refl [of c] in \<open>auto simp: handleResponseSingle_def\<close>)

lemma responses_consumed:
  "unique_names c \<Longrightarrow> handleResponses c rs = (c', effs, out) \<Longrightarrow> consumed c (called effs) c'"
proof (induction rs arbitrary: c effs c' out)
  case Nil
  then show ?case using consumed_refl [of c] by auto
next
  case (Cons r rs)
  obtain c1 e1 o1 where 1: "handleResponseSingle c r = (c1, e1, o1)" using prod_cases3 by blast
  note s = single_consumed [OF Cons.prems(1) 1]
  show ?case
  proof (cases o1)
    case (Ret u)
    obtain c2 e2 o2 where 2: "handleResponses c1 rs = (c2, e2, o2)" using prod_cases3 by blast
    have "unique_names c1" using unique_names_le [OF Cons.prems(1)] s by (simp add: consumed_def)
    from consumed_trans [OF s Cons.IH [OF this 2]] Cons.prems(2) 1 2 Ret show ?thesis by auto
  qed (use Cons.prems(2) 1 s in auto)
qed

text \<open>
  C16: whatever responses arrive in one message, every callback is called at most once: the
  callbacks called are distinct, they were waiting, none of them waits afterwards, and no new
  one waits.
\<close>

theorem callbacks_at_most_once:
  assumes "unique_names c" "handleResponse c json = (c', effs, out)"
  shows "distinct (called effs) \<and> set (called effs) \<subseteq> ran (idToResponse c)
    \<and> set (called effs) \<inter> ran (idToResponse c') = {} \<and> idToResponse c' \<subseteq>\<^sub>m idToResponse c"
proof -
  have "consumed c (called effs) c'"
    using assms(2) single_consumed [OF assms(1)] responses_consumed [OF assms(1)] consumed_refl [of c]
    by (cases "parse json VNull")
      (auto simp: handleResponse_def split: prod.splits if_splits ValueType.splits)
  then show ?thesis by (auto simp: consumed_def)
qed

lemma callbacks_at_most_once_witness:
  "set (called (fst (snd (handleResponse \<lparr>nextId = 8, idToResponse = [7 \<mapsto> ''cb'']\<rparr> ''[]'')))) \<subseteq> {''cb''}"
  using callbacks_at_most_once [of "\<lparr>nextId = 8, idToResponse = [7 \<mapsto> ''cb'']\<rparr>" "''[]''",
    OF _ prod.collapse [symmetric, THEN trans, OF arg_cong2 [where f = Pair, OF refl prod.collapse [symmetric]]]]
  by (simp add: unique_names_def)

section \<open>Messages\<close>

lemma parse_body:
  assumes "writable v"
  shows "parse (layout (\<lambda>_. []) 0 v @ crlf_str) VNull = Some (PARSE_OK, reread_value v)"
proof -
  obtain t w where "layout (\<lambda>_. []) 0 v = t @ w" "jtext (reread_value v) t" "ws w"
    using layout_laid_out [where nl = "\<lambda>_. []" and d = 0, OF _ assms] by (auto simp: laid_out_def)
  with parse_text [of True "reread_value v" t "[]" "w @ crlf_str" VNull] show ?thesis by simp
qed

lemma parse_trailing:
  assumes "jtext v t" "ws w" "\<not> is_ws c" "w \<noteq> []"
  shows "parse (t @ w @ c # s) u = Some (PARSE_ROOT_NOT_SINGULAR, u)"
proof -
  let ?r = "w @ c # s"
  have "delim ?r" using assms(2,4) by (cases w) (auto simp: delim_def)
  then have "parseValue (fuel_for (t @ ?r)) (t @ ?r) VNull = Done PARSE_OK v ?r"
    by (intro reads_text [OF assms(1)]) (simp add: fuel_for_def)
  then show ?thesis
    using parseWhitespace_jtext(1) [OF assms(1), of "[]" ?r] parseWhitespace_token [OF assms(2,3), of s]
    by (simp add: parse_def hasNext_def del: parseValue.simps)
qed

definition client_short :: "string \<Rightarrow> bool" where
  "client_short body \<longleftrightarrow> length body + 2 < clientMaxMessageLen"

lemma take_all_message:
  assumes "buffer_inv b" "readable b = message_of body @ r"
  shows "\<exists>b'. take_all b (length (header_of (length body + 2)) + 2) = Some (body @ crlf_str @ r, b')
    \<and> buffer_inv b' \<and> readable b' = []"
proof -
  let ?h = "header_of (length body + 2)"
  obtain b1 where b1: "retrieve b (length ?h + 2) = Some b1" "buffer_inv b1"
    "readable b1 = (body @ crlf_str @ r) @ []"
    using bq.skip_front [OF assms(1), of "?h @ crlf_str" "body @ crlf_str @ r"] assms(2)
    by (auto simp: message_of_header)
  then have "readableBytes b1 = length (body @ crlf_str @ r)" by (simp flip: length_readable)
  with bq.get_front [OF b1(2,3)] b1(1) show ?thesis
    by (auto simp: take_all_def retrieveAllAsString_def)
qed

lemma clientHandleMessage_frame:
  assumes "buffer_inv b" "readable b = message_of body @ r" "client_short body"
  shows "\<exists>b'. buffer_inv b' \<and> readable b' = []
    \<and> clientHandleMessage c b = (b', handleResponse c (body @ crlf_str @ r))"
proof -
  obtain b' where b': "take_all b (length (header_of (length body + 2)) + 2) = Some (body @ crlf_str @ r, b')"
    "buffer_inv b'" "readable b' = []"
    using take_all_message [OF assms(1,2)] by blast
  have fh: "frame_header clientMaxMessageLen b = Frame (length (header_of (length body + 2)) + 2) (length body + 2)"
    using assms(3) by (intro frame_header_message [OF assms(1,2)]) (simp_all add: client_short_def clientMaxMessageLen_def)
  have "frame_header clientMaxMessageLen b' = Incomplete"
    using b'(2,3) by (simp add: frame_header_def findCRLF_def length_readable [symmetric])
  then have "clientHandleMessage c1 b' = (b', c1, [], Ret ())" for c1 :: "'a BaseClient"
    by (simp add: clientHandleMessage.simps)
  with b' fh show ?thesis
    by (intro exI [of _ b'])
      (simp add: clientHandleMessage.simps [of c b] split: prod.splits outcome.splits)
qed

text \<open>
  C21: when the bytes of a second message are in the buffer together with a complete first one,
  the client loses both: it takes the whole buffer as the first body, the reader finds more
  than one value, no callback is called and the buffer is empty.
\<close>

theorem client_loses_joined_messages:
  assumes "buffer_inv b" "readable b = message_of t @ message_of body" "jtext v t" "client_short t"
  shows "\<exists>b'. readable b' = [] \<and> clientOnMessage c b = (b', c, [], Ret ())"
proof -
  obtain d ds where d: "nat_to_string (length body + 2) = d # ds" "isDigit d"
    using nat_to_string_digits [of "length body + 2"] nat_to_string_nonempty [of "length body + 2"]
    by (cases "nat_to_string (length body + 2)") auto
  then obtain s where m: "message_of body = d # s" by (simp add: message_of_def)
  have "parse (t @ crlf_str @ message_of body) VNull = Some (PARSE_ROOT_NOT_SINGULAR, VNull)"
    using parse_trailing [OF assms(3) ws_crlf not_ws_digit [OF d(2)], of s VNull]
    by (simp add: m crlf_str_def)
  then have "handleResponse c (t @ crlf_str @ message_of body)
      = (c, [], Throw (ResponseException ''parse error'' None))"
    by (simp add: handleResponse_def)
  with clientHandleMessage_frame [OF assms(1,2,4), of c] show ?thesis
    by (auto simp: clientOnMessage_def)
qed

lemma client_loses_joined_messages_witness:
  "\<exists>b b'. readable b = message_of ''null'' @ message_of ''null'' \<and> readable b' = []
     \<and> clientOnMessage (BaseClient_new :: string BaseClient) b = (b', BaseClient_new, [], Ret ())"
proof -
  obtain b where b: "buffer_inv b" "readable b = message_of ''null'' @ message_of ''null''"
    using buffer_with by blast
  have "client_short ''null''" by (simp add: client_short_def clientMaxMessageLen_def)
  from client_loses_joined_messages [OF b jt_null this, of BaseClient_new] b(2)
  show ?thesis by blast
qed

section \<open>The server's errors\<close>

lemma writable_wrapException: "writable (the (wrapException freed err det))"
  by (simp add: wrapException_Some sorted_keys_def plain_key_def char_le_iff char_less_iff)

text \<open>
  C22: no error that \<open>onMessage\<close> sends for a \<open>RequestException\<close> reaches a callback: the error
  object has no \<open>id\<close>, so it has two members where the client demands three, and the call it
  answers stays in the map.
\<close>

theorem server_errors_unheard:
  assumes "buffer_inv b" "t = layout (\<lambda>_. []) 0 (the (wrapException freed err det))"
    "readable b = message_of t" "client_short t"
  shows "\<exists>b'. readable b' = [] \<and> clientOnMessage c b = (b', c, [], Ret ())"
proof -
  let ?v = "the (wrapException freed err det)"
  have rr: "reread_value ?v = ?v" by (rule reread_no_double) (simp add: wrapException_Some)
  have "handleResponse c (t @ crlf_str) = (c, [],
      Throw (ResponseException ''response should have exactly 3 field(jsonrpc, error/result, id)'' None))"
    using parse_body [OF writable_wrapException, of freed err det]
    unfolding assms(2) rr
    by (simp add: handleResponse_def wrapException_Some handleResponseSingle_def validateResponse_def)
  with clientHandleMessage_frame [OF assms(1) _ assms(4), of "[]" c] assms(3) show ?thesis
    by (auto simp: clientOnMessage_def)
qed

lemma server_errors_unheard_witness:
  "\<exists>b b'. readable b' = [] \<and> clientOnMessage (BaseClient_new :: string BaseClient) b = (b', BaseClient_new, [], Ret ())"
proof -
  let ?t = "layout (\<lambda>_. []) 0 (the (wrapException (\<lambda>s. s) RPC_PARSE_ERROR (Literal ''x'')))"
  obtain b where b: "buffer_inv b" "readable b = message_of ?t"
    using buffer_with by blast
  have "length ?t + 2 < 65536"
    by (simp add: wrapException_Some quoted_def escape_def char_less_iff int_to_string_def
        nat_to_string.simps)
  then have "client_short ?t" by (simp add: client_short_def clientMaxMessageLen_def)
  from server_errors_unheard [OF b(1) refl b(2) this, of BaseClient_new] show ?thesis by blast
qed

end
