(* ===== verification/RpcSystem.thy ===== *)
theory RpcSystem
  imports RpcConnection RpcClientFacts RpcServerFacts RpcEcho
begin

text \<open>
  A client of \<open>RpcServer/Client/BaseClient.cpp\<close> and the server, each on its own \<open>TcpConnection\<close>,
  with the bytes on their way between them: the client's calls, reads, writes and tasks and those of
  the server in any order. Calls are made one at a time, in the client's loop: the client loses
  responses that arrive together (\<open>client_loses_joined_messages\<close>) and does not lock its map.
\<close>

section \<open>A request and its response\<close>

abbreviation body :: "JValue \<Rightarrow> string" where
  "body v \<equiv> layout (\<lambda>_. []) 0 v"

lemma handleRequest_call:
  assumes "valid_request req" "map_of req ''method'' = Some (VString (svc @ CHR ''.'' # m))"
    "CHR ''.'' \<notin> set svc" "svc \<noteq> []" "m \<noteq> []" "services S svc = Some s"
    "procedureReturn s m = Some p" "params_match (params p) (map_of req ''params'')"
    "writable (VObject req)" "no_double (VObject req)"
  shows "handleRequest freed S (body (VObject req) @ crlf_str) = callBack p (VObject req)"
proof -
  obtain ident where i: "map_of req ''id'' = Some ident"
    using assms(1) by (auto simp: valid_request_def has_type_def)
  have "parse (body (VObject req) @ crlf_str) VNull = Some (PARSE_OK, VObject req)"
    unfolding parse_body [OF assms(9)] reread_no_double [OF assms(10)] ..
  then show ?thesis
    using handleRequestSingle_method [OF assms(1) i assms(2,3), of S] assms(4-8) i
    by (simp add: handleRequest_def isNotify_object callProcedureReturn_def invokeReturn_def
        validateReturn_iff)
qed

lemma handleResponse_call:
  assumes "idToResponse c (sint i) = Some cb" "writable v" "no_double v"
  shows "handleResponse c (body (VObject (response_ms i False v)) @ crlf_str)
    = (c\<lparr>idToResponse := (idToResponse c)(sint i := None)\<rparr>, [Callback cb v False], Ret ())"
proof -
  let ?r = "VObject (response_ms i False v)"
  have "writable ?r" "no_double ?r"
    using assms(2,3)
    by (simp_all add: response_ms_def sorted_keys_def plain_key_def char_le_iff char_less_iff)
  then have "parse (body ?r @ crlf_str) VNull = Some (PARSE_OK, ?r)"
    using parse_body [of ?r] reread_no_double [of ?r] by simp
  then show ?thesis
    using assms(1) validateResponse_iff(1) [of "response_ms i False v"]
    by (simp add: handleResponse_def handleResponseSingle_def valid_response_def has_type_def
        response_ms_def)
qed

text \<open>
  The server \<open>S\<close> has a procedure for the request \<open>req\<close>, with matching parameters, and the result of
  this procedure is \<open>v\<close>. (Values without doubles, which the six printed decimals could change.)
\<close>

definition answered :: "RpcServer \<Rightarrow> JValue \<Rightarrow> 32 word \<Rightarrow> JValue \<Rightarrow> bool" where
  "answered S req i v \<longleftrightarrow> (\<exists>ms svc m s p. req = VObject ms \<and> valid_request ms \<and>
     map_of ms ''method'' = Some (VString (svc @ CHR ''.'' # m)) \<and> CHR ''.'' \<notin> set svc \<and> svc \<noteq> [] \<and> m \<noteq> [] \<and>
     services S svc = Some s \<and> procedureReturn s m = Some p \<and> params_match (params p) (map_of ms ''params'') \<and>
     callBack p req = ([VObject (response_ms i False v)], Ret ()) \<and>
     writable req \<and> no_double req \<and> writable v \<and> no_double v \<and>
     short (body req) \<and> client_short (body (VObject (response_ms i False v))))"

definition reply :: "(string \<Rightarrow> string) \<Rightarrow> RpcServer \<Rightarrow> JValue \<Rightarrow> string" where
  "reply freed S req = message_of (body (hd (fst (handleRequest freed S (body req @ crlf_str)))))"

lemma answeredD:
  assumes "answered S req i v"
  shows "handleRequest freed S (body req @ crlf_str) = ([VObject (response_ms i False v)], Ret ())"
    "reply freed S req = message_of (body (VObject (response_ms i False v)))"
    "writable v" "no_double v" "short (body req)" "client_short (body (VObject (response_ms i False v)))"
proof -
  show h: "handleRequest freed S (body req @ crlf_str) = ([VObject (response_ms i False v)], Ret ())"
    using assms handleRequest_call [of _ _ _ S] unfolding answered_def by auto
  show "reply freed S req = message_of (body (VObject (response_ms i False v)))" by (simp add: reply_def h)
qed (use assms in \<open>auto simp: answered_def\<close>)

definition callable :: "RpcServer \<Rightarrow> 32 word \<Rightarrow> JValue \<Rightarrow> bool" where
  "callable S i call \<longleftrightarrow> (\<exists>req v. addMember call ''id'' (VInt32 i) = Some req \<and> answered S req i v)"

text \<open>
  Or the server refuses it: \<open>handleRequest\<close> throws a \<open>RequestException\<close>, for an unknown method or wrong
  parameters.
\<close>

definition refused :: "(string \<Rightarrow> string) \<Rightarrow> RpcServer \<Rightarrow> JValue \<Rightarrow> bool" where
  "refused freed S req \<longleftrightarrow> short (body req) \<and>
     (\<exists>err ident det. handleRequest freed S (body req @ crlf_str) = ([], Throw (RequestException err ident det)))"

definition handled :: "(string \<Rightarrow> string) \<Rightarrow> RpcServer \<Rightarrow> JValue \<Rightarrow> bool" where
  "handled freed S req \<longleftrightarrow> (\<exists>i v. answered S req i v) \<or> refused freed S req"

lemma unknown_refused:
  assumes "valid_request req" "map_of req ''method'' = Some (VString (svc @ CHR ''.'' # m))" "CHR ''.'' \<notin> set svc" "svc \<noteq> []"
    "services S svc = None \<or> (\<exists>s. services S svc = Some s \<and> m \<noteq> [] \<and> procedureReturn s m = None)"
    "writable (VObject req)" "no_double (VObject req)" "short (body (VObject req))"
  shows "refused freed S (VObject req)"
proof -
  obtain ident where i: "map_of req ''id'' = Some ident"
    using assms(1) by (auto simp: valid_request_def has_type_def)
  have "parse (body (VObject req) @ crlf_str) VNull = Some (PARSE_OK, VObject req)"
    unfolding parse_body [OF assms(6)] reread_no_double [OF assms(7)] ..
  then have "\<exists>e det. handleRequest freed S (body (VObject req) @ crlf_str) = ([], Throw (RequestException e ident det))"
    using handleRequestSingle_method [OF assms(1) i assms(2,3), of S] assms(4,5) i
    by (auto simp: handleRequest_def isNotify_object callProcedureReturn_def throws_def)
  then show ?thesis using assms(8) by (auto simp: refused_def)
qed

text \<open>The text that comes back, and all that come back for a list of requests: none behind a refused one.\<close>

definition reply_body :: "(string \<Rightarrow> string) \<Rightarrow> RpcServer \<Rightarrow> JValue \<Rightarrow> string" where
  "reply_body freed S req =
     (case handleRequest freed S (body req @ crlf_str) of
        (rs, Throw (RequestException err ident det)) \<Rightarrow> body (the (wrapException freed err det))
      | (rs, out) \<Rightarrow> body (hd rs))"

fun reply_bodies :: "(string \<Rightarrow> string) \<Rightarrow> RpcServer \<Rightarrow> JValue list \<Rightarrow> string list" where
  "reply_bodies freed S [] = []"
| "reply_bodies freed S (req # reqs) =
     reply_body freed S req # (if refused freed S req then [] else reply_bodies freed S reqs)"

lemma answered_not_refused: "answered S req i v \<Longrightarrow> \<not> refused freed S req"
  using answeredD(1) [of S req i v freed] by (simp add: refused_def)

lemma answered_body: "answered S req i v \<Longrightarrow> reply_body freed S req = body (VObject (response_ms i False v))"
  using answeredD(1) [of S req i v freed] by (simp add: reply_body_def)

lemma reply_message: "answered S req i v \<Longrightarrow> reply freed S req = message_of (reply_body freed S req)"
  by (simp add: answered_body answeredD(2))

lemma answered_bodies:
  "\<forall>req \<in> set reqs. \<exists>i v. answered S req i v \<Longrightarrow> concat (map message_of (reply_bodies freed S reqs)) = concat (map (reply freed S) reqs)"
  by (induction reqs) (use answered_not_refused reply_message in auto)

lemma reply_bodies_append:
  "reply_bodies freed S (xs @ ys) =
     reply_bodies freed S xs @ (if \<exists>x \<in> set xs. refused freed S x then [] else reply_bodies freed S ys)"
  by (induction xs) auto

lemma sendCall_message:
  "addMember call ''id'' (VInt32 (nextId c)) = Some req \<Longrightarrow>
     sendCall c call cb = Some (c\<lparr>idToResponse := (idToResponse c)(sint (nextId c) \<mapsto> cb), nextId := nextId c + 1\<rparr>,
       req, CSend (message_of (body req)))"
  using fast.write_root [of "FastWriter_new []" req]
  by (auto simp: sendCall_def clientSendJson_def FastWriter_new_def ws_get_def)

section \<open>The system\<close>

text \<open>\<open>clientRead\<close>, \<open>made\<close> and \<open>fired\<close> are what the client read, the calls made and the callbacks called so far.\<close>

record 'cb RpcSystem =
  rpcClient :: "'cb BaseClient"
  clientConn :: TcpConnection
  clientRead :: string
  serverSide :: RpcConn
  made :: "('cb \<times> JValue) list"
  fired :: "'cb client_effect list"

definition to_server :: "'cb RpcSystem \<Rightarrow> string" where
  "to_server s = drop (length (concat (chunks (serverSide s)))) (wire (clientConn s))"

definition to_client :: "'cb RpcSystem \<Rightarrow> string" where
  "to_client s = drop (length (clientRead s)) (wire (rpcConn (serverSide s)))"

definition client_calls :: "JValue \<Rightarrow> 'cb \<Rightarrow> write_result \<Rightarrow> 'cb RpcSystem \<Rightarrow> 'cb RpcSystem option" where
  "client_calls call cb w s =
     (case sendCall (rpcClient s) call cb of
        Some (cl, req, CSend m) \<Rightarrow>
          map_option (\<lambda>c. s\<lparr>rpcClient := cl, clientConn := c, made := made s @ [(cb, req)]\<rparr>) (send True w m (clientConn s))
      | _ \<Rightarrow> None)"

definition client_reads :: "string \<Rightarrow> 'cb RpcSystem \<Rightarrow> 'cb RpcSystem option" where
  "client_reads x s =
     Option.bind (handleRead (ReadvData x) (clientConn s)) (\<lambda>c.
       case clientOnMessage (rpcClient s) (inputBuffer c) of
         (b, cl, effs, Ret _) \<Rightarrow>
           Some (s\<lparr>rpcClient := cl, clientConn := c\<lparr>inputBuffer := b\<rparr>, clientRead := clientRead s @ x, fired := fired s @ effs\<rparr>)
       | _ \<Rightarrow> None)"

definition on_client :: "(TcpConnection \<Rightarrow> TcpConnection option) \<Rightarrow> 'cb RpcSystem \<Rightarrow> 'cb RpcSystem option" where
  "on_client f s = map_option (\<lambda>c. s\<lparr>clientConn := c\<rparr>) (f (clientConn s))"

definition on_server :: "(RpcConn \<Rightarrow> RpcConn option) \<Rightarrow> 'cb RpcSystem \<Rightarrow> 'cb RpcSystem option" where
  "on_server f s = map_option (\<lambda>e. s\<lparr>serverSide := e\<rparr>) (f (serverSide s))"

text \<open>A read takes some of the bytes on the way; the results of \<open>write\<close> are given.\<close>

datatype 'cb rpc_action =
  ClientCalls JValue 'cb write_result | ClientReads nat | ClientWrites write_result | ClientRuns write_result
| ServerReads nat "write_result list" | ServerWrites write_result | ServerRuns write_result

fun system_do :: "(string \<Rightarrow> string) \<Rightarrow> RpcServer \<Rightarrow> 'cb rpc_action \<Rightarrow> 'cb RpcSystem \<Rightarrow> 'cb RpcSystem option" where
  "system_do freed S (ClientCalls call cb w) s = client_calls call cb w s"
| "system_do freed S (ClientReads n) s = client_reads (take n (to_client s)) s"
| "system_do freed S (ClientWrites w) s = on_client (handleWrite w) s"
| "system_do freed S (ClientRuns w) s = on_client (run_first w) s"
| "system_do freed S (ServerReads n rs) s = on_server (rpc_do freed (handleRequest freed S) (Reads (take n (to_server s)) rs)) s"
| "system_do freed S (ServerWrites w) s = on_server (rpc_do freed (handleRequest freed S) (Writes w)) s"
| "system_do freed S (ServerRuns w) s = on_server (rpc_do freed (handleRequest freed S) (Runs w)) s"

fun system_legal :: "(string \<Rightarrow> string) \<Rightarrow> RpcServer \<Rightarrow> 'cb rpc_action \<Rightarrow> 'cb RpcSystem \<Rightarrow> bool" where
  "system_legal freed S (ClientCalls call cb w) s =
     (idToResponse (rpcClient s) = Map.empty \<and> callable S (nextId (rpcClient s)) call \<and>
      (case sendCall (rpcClient s) call cb of
         Some (cl, req, CSend m) \<Rightarrow> write_ok (length m) w \<and> no_fault w | _ \<Rightarrow> False))"
| "system_legal freed S (ClientReads n) s =
     (0 < n \<and> n \<le> length (to_client s) \<and> read_ok (inputBuffer (clientConn s)) (ReadvData (take n (to_client s))))"
| "system_legal freed S (ClientWrites w) s =
     (isWriting (channel (clientConn s)) \<and> write_ok (readableBytes (outputBuffer (clientConn s))) w)"
| "system_legal freed S (ClientRuns w) s = (TcpConnection.pending (clientConn s) \<noteq> [])"
| "system_legal freed S (ServerReads n rs) s =
     (0 < n \<and> n \<le> length (to_server s) \<and>
      read_ok (inputBuffer (rpcConn (serverSide s))) (ReadvData (take n (to_server s))) \<and>
      (case receive freed (handleRequest freed S) (inputBuffer (rpcConn (serverSide s))) (take n (to_server s)) of
         (b, es, out) \<Rightarrow> writes_ok rs es))"
| "system_legal freed S (ServerWrites w) s =
     (isWriting (channel (rpcConn (serverSide s))) \<and> write_ok (readableBytes (outputBuffer (rpcConn (serverSide s)))) w)"
| "system_legal freed S (ServerRuns w) s = (TcpConnection.pending (rpcConn (serverSide s)) \<noteq> [])"

definition RpcSystem_new :: "'cb RpcSystem \<Rightarrow> bool" where
  "RpcSystem_new s \<longleftrightarrow> rpcClient s = BaseClient_new \<and> clientRead s = [] \<and> made s = [] \<and> fired s = [] \<and>
     connectEstablished (TcpConnection_new False None) = Some (clientConn s) \<and> RpcConn_new (serverSide s)"

definition system_reach :: "(string \<Rightarrow> string) \<Rightarrow> RpcServer \<Rightarrow> 'cb RpcSystem \<Rightarrow> bool" where
  "system_reach freed S = reached RpcSystem_new (acts (system_legal freed S) (system_do freed S))"

section \<open>The server's side\<close>

lemma sent_map: "sent_bytes (map (\<lambda>x. Send (f x)) xs) = concat (map f xs)"
  by (induction xs) simp_all

text \<open>
  The effects of one message, and of several. When the handler throws, the error is sent and the
  connection shut down, but the messages behind it are read, and executed, later all the same.
\<close>

definition effects_of :: "(string \<Rightarrow> string) \<Rightarrow> (string \<Rightarrow> run) \<Rightarrow> string \<Rightarrow> conn_effect list" where
  "effects_of freed H x = (case H (x @ crlf_str) of
     (rs, Throw (RequestException err ident det)) \<Rightarrow> answers rs @ error_reply freed err det
   | (rs, out) \<Rightarrow> answers rs)"

definition all_effects :: "(string \<Rightarrow> string) \<Rightarrow> (string \<Rightarrow> run) \<Rightarrow> string list \<Rightarrow> conn_effect list" where
  "all_effects freed H xs = concat (map (effects_of freed H) xs)"

lemma all_effects_simps [simp]: "all_effects freed H [] = []"
  "all_effects freed H (x # xs) = effects_of freed H x @ all_effects freed H xs"
  "all_effects freed H (xs @ ys) = all_effects freed H xs @ all_effects freed H ys"
  by (simp_all add: all_effects_def)

definition survived :: "(string \<Rightarrow> run) \<Rightarrow> string \<Rightarrow> bool" where
  "survived H x \<longleftrightarrow> (\<exists>rs. H (x @ crlf_str) = (rs, Ret ())) \<or>
     (\<exists>rs err ident det. H (x @ crlf_str) = (rs, Throw (RequestException err ident det)))"

lemma handled_effects:
  assumes "handled freed S req"
  shows "survived (handleRequest freed S) (body req)" "short (body req)"
    "refused freed S req \<Longrightarrow> effects_of freed (handleRequest freed S) (body req) = [Send (message_of (reply_body freed S req)), Shutdown]"
    "\<not> refused freed S req \<Longrightarrow> effects_of freed (handleRequest freed S) (body req) = [Send (message_of (reply_body freed S req))]"
proof -
  have a: "\<not> refused freed S req \<Longrightarrow> \<exists>i v. answered S req i v" using assms by (simp add: handled_def)
  show "survived (handleRequest freed S) (body req)" "short (body req)"
    using a answeredD(1,5) unfolding survived_def by (fastforce simp: refused_def)+
  show "refused freed S req \<Longrightarrow> effects_of freed (handleRequest freed S) (body req) = [Send (message_of (reply_body freed S req)), Shutdown]"
    by (auto simp: refused_def effects_of_def reply_body_def error_reply_def answers_def)
  show "\<not> refused freed S req \<Longrightarrow> effects_of freed (handleRequest freed S) (body req) = [Send (message_of (reply_body freed S req))]"
    using a answeredD(1) answered_body by (fastforce simp: effects_of_def answers_def isNull_def)
qed

lemma sent_replies:
  "\<forall>req \<in> set reqs. handled freed S req \<Longrightarrow>
     sent_bytes (all_effects freed (handleRequest freed S) (map body reqs)) = concat (map message_of (reply_bodies freed S reqs))"
  by (induction reqs) (auto simp: handled_effects)

lemma sent_shutdown:
  "\<forall>req \<in> set reqs. handled freed S req \<Longrightarrow>
     Shutdown \<in> set (all_effects freed (handleRequest freed S) (map body reqs)) \<longleftrightarrow> (\<exists>req \<in> set reqs. refused freed S req)"
  by (induction reqs) (auto simp: handled_effects)

text \<open>
  One read of a stream of messages, the first of which may have begun to arrive: messages are taken
  until a handler throws or the next one is not complete.
\<close>

lemma message_some:
  assumes "buffer_inv b" "prefix (readable b) (concat (map message_of bs))" "list_all short bs" "\<forall>x \<in> set bs. survived H x"
  shows "\<exists>bs1 bs2 b' es out. bs = bs1 @ bs2 \<and> handleMessage H b = (b', es, out) \<and>
    readable b = concat (map message_of bs1) @ readable b' \<and>
    (out = Ret () \<and> es = all_effects freed H bs1 \<and> RpcFramingFacts.pending (readable b') bs2 \<or>
     (\<exists>err ident det. out = Throw (RequestException err ident det) \<and> es @ error_reply freed err det = all_effects freed H bs1))"
  using assms
proof (induction bs arbitrary: b)
  case Nil
  then have p: "RpcFramingFacts.pending (readable b) []" by (simp add: RpcFramingFacts.pending_def)
  then show ?case using handleMessage_pending [OF Nil(1) p] by fastforce
next
  case (Cons x bs)
  show ?case
  proof (cases "strict_prefix (readable b) (message_of x)")
    case True
    then have p: "RpcFramingFacts.pending (readable b) (x # bs)" by (simp add: RpcFramingFacts.pending_def)
    from handleMessage_pending [OF Cons.prems(1) p Cons.prems(3)] p show ?thesis
      by (intro exI [of _ "[]"] exI [of _ "x # bs"]) auto
  next
    case False
    with Cons.prems(2) obtain r where r: "readable b = message_of x @ r" "prefix r (concat (map message_of bs))"
      by (auto simp: prefix_append strict_prefix_def)
    obtain b1 where b1: "buffer_inv b1" "readable b1 = r" "handleMessage H b =
      (let (rs, out) = H (x @ crlf_str)
       in case out of
            Ret _ \<Rightarrow> (let (b2, effs, out2) = handleMessage H b1 in (b2, answers rs @ effs, out2))
          | _ \<Rightarrow> (b1, answers rs, out))"
      using handleMessage_frame [OF Cons.prems(1) r(1), of H] Cons.prems(3) by auto
    consider rs where "H (x @ crlf_str) = (rs, Ret ())"
      | rs err ident det where "H (x @ crlf_str) = (rs, Throw (RequestException err ident det))"
      using Cons.prems(4) by (auto simp: survived_def)
    then show ?thesis
    proof cases
      case 1
      obtain bs1 bs2 b' es out where i: "bs = bs1 @ bs2" "handleMessage H b1 = (b', es, out)"
        "readable b1 = concat (map message_of bs1) @ readable b'"
        "out = Ret () \<and> es = all_effects freed H bs1 \<and> RpcFramingFacts.pending (readable b') bs2 \<or>
         (\<exists>err ident det. out = Throw (RequestException err ident det) \<and> es @ error_reply freed err det = all_effects freed H bs1)"
        using Cons.IH [OF b1(1)] b1(2) r(2) Cons.prems(3,4) by auto
      then show ?thesis using 1 b1(2,3) r(1)
        by (intro exI [of _ "x # bs1"] exI [of _ bs2] exI [of _ b'] exI [of _ "answers rs @ es"] exI [of _ out])
          (auto simp: effects_of_def)
    next
      case 2
      then show ?thesis using b1(2,3) r(1)
        by (intro exI [of _ "[x]"] exI [of _ bs] exI [of _ b1] exI [of _ "answers rs"]) (simp add: effects_of_def)
    qed
  qed
qed

lemma receive_some:
  assumes b: "buffer_inv b" and r: "read_ok b (ReadvData s)"
    and pre: "prefix (readable b @ s) (concat (map message_of bs))"
    and sh: "list_all short bs" and ret: "\<forall>x \<in> set bs. survived H x"
  shows "\<exists>bs1 bs2 b'. bs = bs1 @ bs2 \<and> receive freed H b s = (b', all_effects freed H bs1, Ret ()) \<and>
    readable b @ s = concat (map message_of bs1) @ readable b' \<and>
    (Shutdown \<notin> set (all_effects freed H bs1) \<longrightarrow> RpcFramingFacts.pending (readable b') bs2)"
proof -
  obtain b1 where b1: "readFd b (ReadvData s) = Some (b1, int (length s), None)" "buffer_inv b1" "readable b1 = readable b @ s"
    using readFd_ok [OF b, of s] r by (auto simp: read_ok_def)
  obtain bs1 bs2 b' es out where m: "bs = bs1 @ bs2" "handleMessage H b1 = (b', es, out)"
    "readable b1 = concat (map message_of bs1) @ readable b'"
    "out = Ret () \<and> es = all_effects freed H bs1 \<and> RpcFramingFacts.pending (readable b') bs2 \<or>
     (\<exists>err ident det. out = Throw (RequestException err ident det) \<and> es @ error_reply freed err det = all_effects freed H bs1)"
    using message_some [OF b1(2) _ sh ret, of freed] pre b1(3) by auto
  have "onMessage freed H b1 = (b', all_effects freed H bs1, Ret ())"
    using m(2,4) onMessage_throws(1) [of H b1 b' es] by (auto simp: onMessage_def)
  moreover have "Shutdown \<notin> set (all_effects freed H bs1) \<longrightarrow> RpcFramingFacts.pending (readable b') bs2"
    using m(4) by (auto simp: error_reply_def dest!: sym [of _ "all_effects freed H bs1"])
  ultimately show ?thesis using m(1,3) b1(1,3) by (intro exI [of _ bs1] exI [of _ bs2] exI [of _ b']) (simp add: receive_def)
qed

definition server_ok :: "(string \<Rightarrow> string) \<Rightarrow> RpcServer \<Rightarrow> JValue list \<Rightarrow> RpcConn \<Rightarrow> bool" where
  "server_ok freed S reqs e \<longleftrightarrow> (\<exists>d rest es. reqs = d @ rest \<and> es = all_effects freed (handleRequest freed S) (map body d) \<and>
     receive_all freed (handleRequest freed S) (Buffer_new kInitialSize) (chunks e) = (inputBuffer (rpcConn e), es, Ret ()) \<and>
     concat (chunks e) = concat (map message_of (map body d)) @ readable (inputBuffer (rpcConn e)) \<and>
     (Shutdown \<notin> set es \<longrightarrow> RpcFramingFacts.pending (readable (inputBuffer (rpcConn e))) (map body rest)) \<and>
     rpc_conn_ok es (rpcConn e) \<and> is_open (rpcConn e))"

lemma server_more: "server_ok freed S reqs e \<Longrightarrow> server_ok freed S (reqs @ [req]) e"
proof -
  assume "server_ok freed S reqs e"
  then obtain d rest es where a: "reqs = d @ rest" "es = all_effects freed (handleRequest freed S) (map body d)"
    "receive_all freed (handleRequest freed S) (Buffer_new kInitialSize) (chunks e) = (inputBuffer (rpcConn e), es, Ret ())"
    "concat (chunks e) = concat (map message_of (map body d)) @ readable (inputBuffer (rpcConn e))"
    "Shutdown \<notin> set es \<longrightarrow> RpcFramingFacts.pending (readable (inputBuffer (rpcConn e))) (map body rest)"
    "rpc_conn_ok es (rpcConn e)" "is_open (rpcConn e)"
    unfolding server_ok_def by blast
  have "Shutdown \<notin> set es \<longrightarrow> RpcFramingFacts.pending (readable (inputBuffer (rpcConn e))) (map body (rest @ [req]))"
    using a(5) by (cases rest) (auto simp: RpcFramingFacts.pending_def message_of_def strict_prefix_def)
  then show ?thesis using a unfolding server_ok_def
    by (intro exI [of _ d] exI [of _ "rest @ [req]"] exI [of _ es]) simp
qed

lemma server_step:
  assumes "server_ok freed S reqs e"
    and "\<And>es. rpc_conn_ok es (rpcConn e) \<Longrightarrow> rpc_conn_ok es c" "state c = state (rpcConn e)"
    "inputBuffer c = inputBuffer (rpcConn e)"
  shows "server_ok freed S reqs (e\<lparr>rpcConn := c\<rparr>)"
  using assms unfolding server_ok_def by (simp add: is_open_def) blast

lemma server_reads:
  assumes ok: "server_ok freed S reqs e" and all: "\<forall>req \<in> set reqs. handled freed S req"
    and s: "s \<noteq> []" "read_ok (inputBuffer (rpcConn e)) (ReadvData s)"
      "prefix (concat (chunks e) @ s) (concat (map message_of (map body reqs)))"
    and w: "case receive freed (handleRequest freed S) (inputBuffer (rpcConn e)) s of (b, es, out) \<Rightarrow> writes_ok rs es"
  shows "\<exists>e'. rpc_do freed (handleRequest freed S) (Reads s rs) e = Some e' \<and> server_ok freed S reqs e' \<and>
    chunks e' = chunks e @ [s] \<and> prefix (wire (rpcConn e)) (wire (rpcConn e'))"
proof -
  let ?H = "handleRequest freed S" and ?b = "inputBuffer (rpcConn e)"
  obtain d rest es where d: "reqs = d @ rest" "es = all_effects freed ?H (map body d)"
    "receive_all freed ?H (Buffer_new kInitialSize) (chunks e) = (?b, es, Ret ())"
    "concat (chunks e) = concat (map message_of (map body d)) @ readable ?b" "rpc_conn_ok es (rpcConn e)" "is_open (rpcConn e)"
    "Shutdown \<notin> set es \<longrightarrow> RpcFramingFacts.pending (readable ?b) (map body rest)"
    using ok unfolding server_ok_def by blast
  have bi: "buffer_inv ?b" using d(5) by (simp add: rpc_conn_ok_def conn_inv_def)
  have pre: "prefix (readable ?b @ s) (concat (map message_of (map body rest)))"
    using s(3) unfolding d(1,4) by simp
  have sh: "list_all short (map body rest)" "\<forall>x \<in> set (map body rest). survived ?H x"
    using all handled_effects(1,2) unfolding d(1) by (fastforce simp: list_all_iff)+
  obtain bs1 bs2 b' where bs: "map body rest = bs1 @ bs2" "receive freed ?H ?b s = (b', all_effects freed ?H bs1, Ret ())"
    "readable ?b @ s = concat (map message_of bs1) @ readable b'"
    "Shutdown \<notin> set (all_effects freed ?H bs1) \<longrightarrow> RpcFramingFacts.pending (readable b') bs2"
    using receive_some [OF bi s(2) pre sh] by blast
  obtain d1 rest1 where r: "rest = d1 @ rest1" "bs1 = map body d1" "bs2 = map body rest1"
    using bs(1) by (auto simp: map_eq_append_conv)
  have inv: "rpc_inv freed ?H e" using d(3,5) by (auto simp: rpc_inv_def)
  have legal: "rpc_legal freed ?H (Reads s rs) e" using d(6) s(2) w bs(2) by simp
  obtain e' where e': "rpc_do freed ?H (Reads s rs) e = Some e'" "rpc_inv freed ?H e'" "is_open (rpcConn e')"
    "chunks e' = chunks e @ [s]" "prefix (wire (rpcConn e)) (wire (rpcConn e'))"
    using rpc_reads [OF inv legal] s(1) by blast
  let ?es = "all_effects freed ?H (map body (d @ d1))"
  have ra: "receive_all freed ?H (Buffer_new kInitialSize) (chunks e') = (b', ?es, Ret ())"
    using receive_all_snoc [OF d(3) bs(2)] e'(4) by (simp add: r(2) d(2))
  then have "inputBuffer (rpcConn e') = b'" "rpc_conn_ok ?es (rpcConn e')"
    using e'(2,3) by (auto simp: rpc_inv_def)
  moreover have "concat (chunks e') = concat (map message_of (map body (d @ d1))) @ readable b'"
    using d(4) bs(3) e'(4) r(2) by simp
  moreover have "Shutdown \<notin> set ?es \<longrightarrow> RpcFramingFacts.pending (readable b') (map body rest1)"
    using bs(4) r by simp
  ultimately have "server_ok freed S reqs e'"
    using ra e'(3) d(1) r unfolding server_ok_def by (intro exI [of _ "d @ d1"] exI [of _ rest1] exI [of _ ?es]) simp
  then show ?thesis using e' by blast
qed

section \<open>The client's side\<close>

text \<open>While a part of the response is missing nothing happens; when it is complete the callback is called.\<close>

lemma client_receives:
  assumes b: "buffer_inv b" and a: "answered S req i v" and cb: "idToResponse c (sint i) = Some cb"
  shows "strict_prefix (readable b) (reply freed S req) \<Longrightarrow> clientOnMessage c b = (b, c, [], Ret ())"
    "readable b = reply freed S req \<Longrightarrow> \<exists>b'. buffer_inv b' \<and> readable b' = [] \<and> clientOnMessage c b =
       (b', c\<lparr>idToResponse := (idToResponse c)(sint i := None)\<rparr>, [Callback cb v False], Ret ())"
proof -
  note an = answeredD [OF a]
  assume "strict_prefix (readable b) (reply freed S req)"
  then have "frame_header clientMaxMessageLen b = Incomplete"
    using frame_header_partial [OF b] an(2,6) by (simp add: client_short_def clientMaxMessageLen_def)
  then show "clientOnMessage c b = (b, c, [], Ret ())"
    by (simp add: clientOnMessage_def clientHandleMessage.simps)
next
  note an = answeredD [OF a]
  assume "readable b = reply freed S req"
  then show "\<exists>b'. buffer_inv b' \<and> readable b' = [] \<and> clientOnMessage c b =
       (b', c\<lparr>idToResponse := (idToResponse c)(sint i := None)\<rparr>, [Callback cb v False], Ret ())"
    using clientHandleMessage_frame [OF b _ an(6), of "[]" c] handleResponse_call [OF cb an(3,4)] an(2)
    by (auto simp: clientOnMessage_def)
qed

lemma conn_input: "rpc_conn_ok es c \<Longrightarrow> buffer_inv b \<Longrightarrow> rpc_conn_ok es (c\<lparr>inputBuffer := b\<rparr>)"
  using conn_inv_input by (simp add: rpc_conn_ok_def stream_of_def)

lemma conn_reads:
  assumes ok: "rpc_conn_ok es c" and op: "is_open c" and s: "s \<noteq> []" "read_ok (inputBuffer c) (ReadvData s)"
  shows "\<exists>c'. handleRead (ReadvData s) c = Some c' \<and> rpc_conn_ok es c' \<and> is_open c' \<and> wire c' = wire c \<and>
    readable (inputBuffer c') = readable (inputBuffer c) @ s"
proof -
  have ci: "conn_inv c" using ok by (simp add: rpc_conn_ok_def)
  obtain c1 where r: "handleRead (ReadvData s) c = Some c1" and c1: "conn_inv c1" "wire c1 = wire c"
    "outputBuffer c1 = outputBuffer c" "shutWr c1 = shutWr c" "keeps c c1"
    "readable (inputBuffer c1) = readable (inputBuffer c) @ s"
    using handleRead_ok [OF ci op s(2)] s(1) by auto
  have "rpc_conn_ok es c1"
    using ok c1 handleRead_quiet [OF r] by (auto simp: rpc_conn_ok_def stream_of_def quiet_def keeps_def split: if_splits)
  moreover have "is_open c1" using c1(5) op by (simp add: keeps_def is_open_def)
  ultimately show ?thesis using r c1 by blast
qed

definition fires :: "RpcServer \<Rightarrow> 'cb \<times> JValue \<Rightarrow> 'cb client_effect \<Rightarrow> bool" where
  "fires S call e \<longleftrightarrow> (\<exists>i v. answered S (snd call) i v \<and> e = Callback (fst call) v False)"

fun call_waits :: "(string \<Rightarrow> string) \<Rightarrow> RpcServer \<Rightarrow> ('cb \<times> JValue) list \<Rightarrow> string \<Rightarrow> (int \<rightharpoonup> 'cb) \<Rightarrow> bool" where
  "call_waits freed S [] p m = (p = [] \<and> m = Map.empty)"
| "call_waits freed S [(cb, req)] p m =
     (strict_prefix p (reply freed S req) \<and> (\<exists>i v. answered S req i v \<and> m = [sint i \<mapsto> cb]))"
| "call_waits freed S (x # y # z) p m = False"

lemma waiting_none: "call_waits freed S y p m \<Longrightarrow> m = Map.empty \<Longrightarrow> y = [] \<and> p = []"
  by (induction freed S y p m rule: call_waits.induct) (auto dest: fun_cong split: if_splits)

definition requests :: "('cb \<times> JValue) list \<Rightarrow> conn_effect list" where
  "requests calls = map (\<lambda>call. Send (message_of (body (snd call)))) calls"

definition client_ok :: "(string \<Rightarrow> string) \<Rightarrow> RpcServer \<Rightarrow> 'cb RpcSystem \<Rightarrow> bool" where
  "client_ok freed S s \<longleftrightarrow> (\<exists>d x. made s = d @ x \<and> list_all2 (fires S) d (fired s) \<and>
     rpc_conn_ok (requests (made s)) (clientConn s) \<and> is_open (clientConn s) \<and>
     clientRead s = concat (map (reply freed S) (map snd d)) @ readable (inputBuffer (clientConn s)) \<and>
     call_waits freed S x (readable (inputBuffer (clientConn s))) (idToResponse (rpcClient s)))"

lemma client_reads_ok:
  assumes ok: "client_ok freed S s" and x: "x \<noteq> []" "read_ok (inputBuffer (clientConn s)) (ReadvData x)"
    "prefix (clientRead s @ x) (concat (map (reply freed S) (map snd (made s))))"
  shows "\<exists>s'. client_reads x s = Some s' \<and> client_ok freed S s' \<and> wire (clientConn s') = wire (clientConn s) \<and>
    made s' = made s \<and> serverSide s' = serverSide s \<and> clientRead s' = clientRead s @ x"
proof -
  let ?c = "clientConn s" and ?p = "readable (inputBuffer (clientConn s))" and ?m = "idToResponse (rpcClient s)"
  obtain d y where d: "made s = d @ y" "list_all2 (fires S) d (fired s)" "rpc_conn_ok (requests (made s)) ?c" "is_open ?c"
    "clientRead s = concat (map (reply freed S) (map snd d)) @ ?p" "call_waits freed S y ?p ?m"
    using ok unfolding client_ok_def by blast
  obtain c where c: "handleRead (ReadvData x) ?c = Some c" "rpc_conn_ok (requests (made s)) c" "is_open c" "wire c = wire ?c"
    "readable (inputBuffer c) = ?p @ x"
    using conn_reads [OF d(3,4) x(1,2)] by blast
  have bi: "buffer_inv (inputBuffer c)" using c(2) by (simp add: rpc_conn_ok_def conn_inv_def)
  have pre: "prefix (?p @ x) (concat (map (reply freed S) (map snd y)))" using x(3) unfolding d(1,5) by simp
  then obtain cb req where y: "y = [(cb, req)]" using x(1) d(6) by (cases "(freed, S, y, ?p, ?m)" rule: call_waits.cases) auto
  then obtain i v where a: "answered S req i v" "?m = [sint i \<mapsto> cb]" using d(6) by auto
  have cb: "idToResponse (rpcClient s) (sint i) = Some cb" by (simp add: a(2))
  note got = client_receives [OF bi a(1) cb, where freed = freed, unfolded c(5)]
  show ?thesis
  proof (cases "?p @ x = reply freed S req")
    case True
    then obtain b' where b': "buffer_inv b'" "readable b' = []" "clientOnMessage (rpcClient s) (inputBuffer c) =
       (b', (rpcClient s)\<lparr>idToResponse := ?m(sint i := None)\<rparr>, [Callback cb v False], Ret ())"
      using got(2) by blast
    let ?s = "s\<lparr>rpcClient := (rpcClient s)\<lparr>idToResponse := ?m(sint i := None)\<rparr>, clientConn := c\<lparr>inputBuffer := b'\<rparr>,
      clientRead := clientRead s @ x, fired := fired s @ [Callback cb v False]\<rparr>"
    have "list_all2 (fires S) (d @ y) (fired s @ [Callback cb v False])"
      using d(2) a(1) y by (auto simp: fires_def intro!: list_all2_appendI)
    moreover have "is_open (c\<lparr>inputBuffer := b'\<rparr>)" using c(3) by (simp add: is_open_def)
    moreover have "clientRead s @ x = concat (map (reply freed S) (map snd (d @ y)))" using d(5) y True by simp
    ultimately have "client_ok freed S ?s"
      unfolding client_ok_def using d(1) conn_input [OF c(2) b'(1)] b'(2) a(2)
      by (intro exI [of _ "d @ y"] exI [of _ "[]"]) simp
    then show ?thesis using c b'(3) by (intro exI [of _ ?s]) (simp add: client_reads_def)
  next
    case False
    then have sp: "strict_prefix (?p @ x) (reply freed S req)" using pre y by (simp add: strict_prefix_def)
    let ?s = "s\<lparr>clientConn := c, clientRead := clientRead s @ x\<rparr>"
    have "clientRead ?s = concat (map (reply freed S) (map snd d)) @ readable (inputBuffer c)" using d(5) c(5) by simp
    moreover have "call_waits freed S y (readable (inputBuffer c)) ?m" using sp y a c(5) by auto
    ultimately have "client_ok freed S ?s" unfolding client_ok_def using d(1,2) c(2,3) by auto
    then show ?thesis using c got(1) [OF sp] by (intro exI [of _ ?s]) (simp add: client_reads_def)
  qed
qed

lemma client_calls_ok:
  assumes ok: "client_ok freed S s" and m: "idToResponse (rpcClient s) = Map.empty"
    and req: "addMember call ''id'' (VInt32 (nextId (rpcClient s))) = Some req" and a: "answered S req (nextId (rpcClient s)) v"
    and w: "write_ok (length (message_of (body req))) w" "no_fault w"
  shows "\<exists>s'. client_calls call cb w s = Some s' \<and> client_ok freed S s' \<and> prefix (wire (clientConn s)) (wire (clientConn s')) \<and>
    made s' = made s @ [(cb, req)] \<and> serverSide s' = serverSide s \<and> clientRead s' = clientRead s"
proof -
  let ?c = "clientConn s" and ?p = "readable (inputBuffer (clientConn s))" and ?i = "nextId (rpcClient s)"
  obtain d y where d: "made s = d @ y" "list_all2 (fires S) d (fired s)" "rpc_conn_ok (requests (made s)) ?c" "is_open ?c"
    "clientRead s = concat (map (reply freed S) (map snd d)) @ ?p" "call_waits freed S y ?p Map.empty"
    using ok m unfolding client_ok_def by auto
  then have y: "y = []" "?p = []" using waiting_none by blast+
  obtain c where c: "send True w (message_of (body req)) ?c = Some c" "rpc_conn_ok (requests (made s @ [(cb, req)])) c" "is_open c"
    "inputBuffer c = inputBuffer ?c"
    using send_effect [OF d(3,4) w] by (auto simp: requests_def)
  let ?cl = "(rpcClient s)\<lparr>idToResponse := [sint ?i \<mapsto> cb], nextId := ?i + 1\<rparr>"
  let ?s = "s\<lparr>rpcClient := ?cl, clientConn := c, made := made s @ [(cb, req)]\<rparr>"
  have "strict_prefix [] (reply freed S req)" using answeredD(2) [OF a] by (simp add: message_of_def strict_prefix_def)
  then have "client_ok freed S ?s"
    unfolding client_ok_def using d y c a by (intro exI [of _ d] exI [of _ "[(cb, req)]"]) auto
  then show ?thesis
    using sendCall_message [OF req, of cb] m c send_wire [OF c(1)] by (intro exI [of _ ?s]) (simp add: client_calls_def)
qed

lemma all_handled: "\<forall>req \<in> set reqs. \<exists>i v. answered S req i v \<Longrightarrow> (\<forall>req \<in> set reqs. handled freed S req) \<and> (\<forall>req \<in> set reqs. \<not> refused freed S req)"
  using answered_not_refused by (fastforce simp: handled_def)

lemma client_same:
  assumes "client_ok freed S s" "\<And>es. rpc_conn_ok es (clientConn s) \<Longrightarrow> rpc_conn_ok es c"
    "state c = state (clientConn s)" "inputBuffer c = inputBuffer (clientConn s)"
  shows "client_ok freed S (s\<lparr>clientConn := c\<rparr>)"
  using assms unfolding client_ok_def by (simp add: is_open_def) blast

section \<open>Each action keeps the invariant\<close>

definition system_inv :: "(string \<Rightarrow> string) \<Rightarrow> RpcServer \<Rightarrow> 'cb RpcSystem \<Rightarrow> bool" where
  "system_inv freed S s \<longleftrightarrow> (\<forall>req \<in> set (map snd (made s)). \<exists>i v. answered S req i v) \<and> client_ok freed S s \<and>
     server_ok freed S (map snd (made s)) (serverSide s) \<and>
     prefix (concat (chunks (serverSide s))) (wire (clientConn s)) \<and>
     prefix (clientRead s) (wire (rpcConn (serverSide s)))"

lemma requests_bytes: "rpc_conn_ok (requests calls) c \<Longrightarrow> stream_of c = concat (map message_of (map body (map snd calls)))"
  by (simp add: rpc_conn_ok_def requests_def sent_map [where f = "\<lambda>call. message_of (body (snd call))"] comp_def)

lemma replies_bytes:
  assumes "\<forall>req \<in> set reqs. handled freed S req" "server_ok freed S reqs e"
  shows "prefix (stream_of (rpcConn e)) (concat (map message_of (reply_bodies freed S reqs)))"
    "concat (chunks e) = concat (map message_of (map body reqs)) \<Longrightarrow> \<forall>req \<in> set reqs. \<not> refused freed S req \<Longrightarrow>
       stream_of (rpcConn e) = concat (map message_of (reply_bodies freed S reqs))"
proof -
  let ?es = "\<lambda>d. all_effects freed (handleRequest freed S) (map body d)"
  obtain d rest where d: "reqs = d @ rest" "stream_of (rpcConn e) = sent_bytes (?es d)"
    "concat (chunks e) = concat (map message_of (map body d)) @ readable (inputBuffer (rpcConn e))"
    "Shutdown \<notin> set (?es d) \<longrightarrow> RpcFramingFacts.pending (readable (inputBuffer (rpcConn e))) (map body rest)"
    using assms(2) unfolding server_ok_def rpc_conn_ok_def by blast
  have h: "\<forall>req \<in> set d. handled freed S req" using assms(1) d(1) by simp
  then have r: "stream_of (rpcConn e) = concat (map message_of (reply_bodies freed S d))"
    using sent_replies d(2) by simp
  then show "prefix (stream_of (rpcConn e)) (concat (map message_of (reply_bodies freed S reqs)))"
    using d(1) by (simp add: reply_bodies_append)
  assume c: "concat (chunks e) = concat (map message_of (map body reqs))" "\<forall>req \<in> set reqs. \<not> refused freed S req"
  then have "Shutdown \<notin> set (?es d)" using sent_shutdown [OF h] d(1) by simp
  then have "rest = []" using c(1) d(1,3,4) pending_all [of "map body rest"] by simp
  then show "stream_of (rpcConn e) = concat (map message_of (reply_bodies freed S reqs))" using r d(1) by simp
qed

lemma system_answered:
  assumes "system_inv freed S s"
  shows "\<forall>req \<in> set (map snd (made s)). handled freed S req" "\<forall>req \<in> set (map snd (made s)). \<not> refused freed S req"
    "concat (map message_of (reply_bodies freed S (map snd (made s)))) = concat (map (reply freed S) (map snd (made s)))"
  using assms all_handled [of "map snd (made s)" S freed] answered_bodies [of "map snd (made s)" S freed]
  unfolding system_inv_def by blast+

lemma on_the_way: "prefix q w \<Longrightarrow> prefix (q @ take n (drop (length q) w)) w"
  by (auto simp: prefix_def) (metis append_take_drop_id)

lemma system_client_calls:
  assumes inv: "system_inv freed S s" and legal: "system_legal freed S (ClientCalls call cb w) s"
  shows "\<exists>s'. system_do freed S (ClientCalls call cb w) s = Some s' \<and> system_inv freed S s'"
proof -
  obtain req v where req: "addMember call ''id'' (VInt32 (nextId (rpcClient s))) = Some req"
    and a: "answered S req (nextId (rpcClient s)) v" using legal by (auto simp: callable_def)
  have "client_ok freed S s" "idToResponse (rpcClient s) = Map.empty" using inv legal by (auto simp: system_inv_def)
  moreover have "write_ok (length (message_of (body req))) w" "no_fault w" using legal sendCall_message [OF req, of cb] by auto
  ultimately obtain s' where s': "client_calls call cb w s = Some s'" "client_ok freed S s'"
    "prefix (wire (clientConn s)) (wire (clientConn s'))" "made s' = made s @ [(cb, req)]" "serverSide s' = serverSide s"
    "clientRead s' = clientRead s"
    using client_calls_ok [OF _ _ req a] by blast
  then have "system_inv freed S s'"
    using inv a server_more prefix_order.trans unfolding system_inv_def by fastforce
  then show ?thesis using s'(1) by auto
qed

text \<open>
  What the events other than a call and a read of the client need of an invariant of the system; here
  \<open>system_inv\<close> provides it, in \<open>RpcPipeline\<close> another one.
\<close>

lemma rpc_do_conn: "rpc_do freed handle (Writes w) = on_rpc (handleWrite w)" "rpc_do freed handle (Runs w) = on_rpc (run_first w)"
  by (simp_all add: fun_eq_iff)

locale rpc_links =
  fixes freed :: "string \<Rightarrow> string" and S :: RpcServer and sys :: "'cb RpcSystem \<Rightarrow> bool"
  assumes sys_calls: "sys s \<Longrightarrow> \<forall>req \<in> set (map snd (made s)). handled freed S req"
    and sys_client: "sys s \<Longrightarrow> rpc_conn_ok (requests (made s)) (clientConn s) \<and> is_open (clientConn s)"
    and sys_server: "sys s \<Longrightarrow> server_ok freed S (map snd (made s)) (serverSide s)"
    and sys_bytes: "sys s \<Longrightarrow> prefix (concat (chunks (serverSide s))) (wire (clientConn s)) \<and>
      prefix (clientRead s) (wire (rpcConn (serverSide s)))"
    and sys_client_change: "sys s \<Longrightarrow> (\<And>es. rpc_conn_ok es (clientConn s) \<Longrightarrow> rpc_conn_ok es c) \<Longrightarrow>
      state c = state (clientConn s) \<Longrightarrow> inputBuffer c = inputBuffer (clientConn s) \<Longrightarrow>
      prefix (wire (clientConn s)) (wire c) \<Longrightarrow> sys (s\<lparr>clientConn := c\<rparr>)"
    and sys_server_change: "sys s \<Longrightarrow> server_ok freed S (map snd (made s)) e \<Longrightarrow>
      prefix (concat (chunks e)) (wire (clientConn s)) \<Longrightarrow> prefix (wire (rpcConn (serverSide s))) (wire (rpcConn e)) \<Longrightarrow>
      sys (s\<lparr>serverSide := e\<rparr>)"
begin

lemma link_replies:
  assumes "sys s"
  shows "prefix (clientRead s @ take n (to_client s)) (wire (rpcConn (serverSide s)))"
    "prefix (clientRead s @ take n (to_client s)) (concat (map message_of (reply_bodies freed S (map snd (made s)))))"
proof -
  show i: "prefix (clientRead s @ take n (to_client s)) (wire (rpcConn (serverSide s)))"
    unfolding to_client_def by (rule on_the_way) (use sys_bytes [OF assms] in blast)
  have "prefix (wire (rpcConn (serverSide s))) (concat (map message_of (reply_bodies freed S (map snd (made s)))))"
    using replies_bytes(1) [OF sys_calls [OF assms] sys_server [OF assms]] unfolding stream_of_def by (metis append_prefixD)
  then show "prefix (clientRead s @ take n (to_client s)) (concat (map message_of (reply_bodies freed S (map snd (made s)))))"
    using i by (rule prefix_order.trans [rotated])
qed

lemma link_server_reads:
  assumes inv: "sys s" and legal: "system_legal freed S (ServerReads n rs) s"
  shows "\<exists>s' e. system_do freed S (ServerReads n rs) s = Some s' \<and> sys s' \<and> s' = s\<lparr>serverSide := e\<rparr> \<and>
    chunks e = chunks (serverSide s) @ [take n (to_server s)] \<and> prefix (wire (rpcConn (serverSide s))) (wire (rpcConn e))"
proof -
  let ?x = "take n (to_server s)" and ?e = "serverSide s"
  have i: "prefix (concat (chunks ?e)) (wire (clientConn s))" using sys_bytes [OF inv] by blast
  have "prefix (wire (clientConn s)) (concat (map message_of (map body (map snd (made s)))))"
    using sys_client [OF inv] requests_bytes unfolding stream_of_def by (metis prefixI)
  then have pre: "prefix (concat (chunks ?e) @ ?x) (concat (map message_of (map body (map snd (made s)))))"
    using on_the_way [OF i, of n] unfolding to_server_def by (rule prefix_order.trans [rotated])
  have x: "?x \<noteq> []" "read_ok (inputBuffer (rpcConn ?e)) (ReadvData ?x)" using legal by auto
  have w: "case receive freed (handleRequest freed S) (inputBuffer (rpcConn ?e)) ?x of (b, es, out) \<Rightarrow> writes_ok rs es"
    using legal by simp
  obtain e where e: "rpc_do freed (handleRequest freed S) (Reads ?x rs) ?e = Some e" "server_ok freed S (map snd (made s)) e"
    "chunks e = chunks ?e @ [?x]" "prefix (wire (rpcConn ?e)) (wire (rpcConn e))"
    using server_reads [OF sys_server [OF inv] sys_calls [OF inv] x pre w] by blast
  have "prefix (concat (chunks e)) (wire (clientConn s))" using on_the_way [OF i, of n] e(3) by (simp add: to_server_def)
  then have "sys (s\<lparr>serverSide := e\<rparr>)" using sys_server_change [OF inv e(2)] e(4) by blast
  then show ?thesis using e by (intro exI [of _ "s\<lparr>serverSide := e\<rparr>"] exI [of _ e]) (simp add: on_server_def)
qed

lemma link_server_conn:
  assumes inv: "sys s" and f: "\<And>es. rpc_conn_ok es (rpcConn (serverSide s)) \<Longrightarrow>
    \<exists>c'. f (rpcConn (serverSide s)) = Some c' \<and> rpc_conn_ok es c' \<and> state c' = state (rpcConn (serverSide s)) \<and>
      inputBuffer c' = inputBuffer (rpcConn (serverSide s)) \<and> prefix (wire (rpcConn (serverSide s))) (wire c')"
  shows "\<exists>s' c. on_server (on_rpc f) s = Some s' \<and> sys s' \<and> f (rpcConn (serverSide s)) = Some c \<and>
    s' = s\<lparr>serverSide := (serverSide s)\<lparr>rpcConn := c\<rparr>\<rparr>"
proof -
  let ?e = "serverSide s"
  have ok: "server_ok freed S (map snd (made s)) ?e" using sys_server [OF inv] .
  then obtain es where "rpc_conn_ok es (rpcConn ?e)" unfolding server_ok_def by blast
  then obtain c where c: "f (rpcConn ?e) = Some c" "state c = state (rpcConn ?e)" "inputBuffer c = inputBuffer (rpcConn ?e)"
    "prefix (wire (rpcConn ?e)) (wire c)" using f by blast
  have "rpc_conn_ok es c" if "rpc_conn_ok es (rpcConn ?e)" for es using f [OF that] c(1) by auto
  then have "sys (s\<lparr>serverSide := ?e\<lparr>rpcConn := c\<rparr>\<rparr>)"
    using sys_server_change [OF inv server_step [OF ok _ c(2,3)]] sys_bytes [OF inv] c(4) by simp
  then show ?thesis using c(1) by (simp add: on_server_def on_rpc_def)
qed

lemma link_client_conn:
  assumes inv: "sys s" and f: "\<And>es. rpc_conn_ok es (clientConn s) \<Longrightarrow> is_open (clientConn s) \<Longrightarrow>
    \<exists>c'. f (clientConn s) = Some c' \<and> rpc_conn_ok es c' \<and> state c' = state (clientConn s) \<and>
      inputBuffer c' = inputBuffer (clientConn s) \<and> prefix (wire (clientConn s)) (wire c')"
  shows "\<exists>s' c. on_client f s = Some s' \<and> sys s' \<and> f (clientConn s) = Some c \<and> s' = s\<lparr>clientConn := c\<rparr>"
proof -
  have e: "rpc_conn_ok (requests (made s)) (clientConn s)" "is_open (clientConn s)" using sys_client [OF inv] by blast+
  then obtain c where c: "f (clientConn s) = Some c" "state c = state (clientConn s)" "inputBuffer c = inputBuffer (clientConn s)"
    "prefix (wire (clientConn s)) (wire c)" using f by blast
  have "rpc_conn_ok es c" if "rpc_conn_ok es (clientConn s)" for es using f [OF that e(2)] c(1) by auto
  then have "sys (s\<lparr>clientConn := c\<rparr>)" using sys_client_change [OF inv _ c(2-4)] by simp
  then show ?thesis using c(1) by (simp add: on_client_def)
qed

lemma link_open: "sys s \<Longrightarrow> is_open (rpcConn (serverSide s))"
  using sys_server unfolding server_ok_def by blast

lemma link_server_writes:
  assumes inv: "sys s" and wr: "isWriting (channel (rpcConn (serverSide s)))"
    and w: "write_ok (readableBytes (outputBuffer (rpcConn (serverSide s)))) w"
  shows "\<exists>s' c. on_server (on_rpc (handleWrite w)) s = Some s' \<and> sys s' \<and>
    handleWrite w (rpcConn (serverSide s)) = Some c \<and> s' = s\<lparr>serverSide := (serverSide s)\<lparr>rpcConn := c\<rparr>\<rparr>"
  by (rule link_server_conn [OF inv]) (rule conn_writes [OF _ link_open [OF inv] wr w])

lemma link_act:
  assumes inv: "sys s" and legal: "system_legal freed S a s"
  shows "(\<exists>s'. system_do freed S a s = Some s' \<and> sys s') \<or> (\<exists>call cb w. a = ClientCalls call cb w) \<or> (\<exists>n. a = ClientReads n)"
proof (cases a)
  case (ServerReads n rs)
  then show ?thesis using link_server_reads [OF inv] legal by blast
next
  case (ClientWrites w)
  then show ?thesis using link_client_conn [OF inv, of "handleWrite w"] conn_writes legal by auto
next
  case (ClientRuns w)
  then show ?thesis using link_client_conn [OF inv, of "run_first w"] conn_runs by fastforce
next
  case (ServerWrites w)
  then have l: "isWriting (channel (rpcConn (serverSide s)))"
    "write_ok (readableBytes (outputBuffer (rpcConn (serverSide s)))) w" using legal by simp_all
  show ?thesis using link_server_writes [OF inv l] ServerWrites by (auto simp: rpc_do_conn)
next
  case (ServerRuns w)
  then show ?thesis using link_server_conn [OF inv, of "run_first w"] conn_runs by (fastforce simp: rpc_do_conn)
qed auto

end

interpretation one: rpc_links freed S "system_inv freed S" for freed S
proof
  fix s :: "'a RpcSystem" and c :: TcpConnection and e :: RpcConn
  assume inv: "system_inv freed S s"
  show "\<forall>req \<in> set (map snd (made s)). handled freed S req" using system_answered(1) [OF inv] .
  show "system_inv freed S (s\<lparr>clientConn := c\<rparr>)"
    if "\<And>es. rpc_conn_ok es (clientConn s) \<Longrightarrow> rpc_conn_ok es c" "state c = state (clientConn s)"
      "inputBuffer c = inputBuffer (clientConn s)" "prefix (wire (clientConn s)) (wire c)"
    using inv that client_same [OF _ that(1-3)] prefix_order.trans unfolding system_inv_def by auto
qed (auto simp: system_inv_def client_ok_def intro: prefix_order.trans)

lemma system_client_reads:
  assumes inv: "system_inv freed S s" and legal: "system_legal freed S (ClientReads n) s"
  shows "\<exists>s'. system_do freed S (ClientReads n) s = Some s' \<and> system_inv freed S s' \<and>
    wire (clientConn s') = wire (clientConn s) \<and> made s' = made s \<and> serverSide s' = serverSide s \<and>
    clientRead s' = clientRead s @ take n (to_client s)"
proof -
  let ?x = "take n (to_client s)"
  note pre = one.link_replies [OF inv, of n, unfolded system_answered(3) [OF inv]]
  have x: "?x \<noteq> []" "read_ok (inputBuffer (clientConn s)) (ReadvData ?x)" using legal by auto
  obtain s' where s': "client_reads ?x s = Some s'" "client_ok freed S s'" "wire (clientConn s') = wire (clientConn s)"
    "made s' = made s" "serverSide s' = serverSide s" "clientRead s' = clientRead s @ ?x"
    using client_reads_ok [OF _ x pre(2)] inv unfolding system_inv_def by blast
  then have "system_inv freed S s'" using inv pre(1) unfolding system_inv_def by auto
  then show ?thesis using s' by auto
qed

lemma system_act_inv:
  assumes inv: "system_inv freed S s" and legal: "system_legal freed S a s"
  shows "\<exists>s'. system_do freed S a s = Some s' \<and> system_inv freed S s'"
  using one.link_act [OF inv legal] system_client_calls [OF inv] system_client_reads [OF inv] legal by blast

lemma system_inv_new: "RpcSystem_new s \<Longrightarrow> system_inv freed S s"
proof -
  assume s: "RpcSystem_new s"
  have e: "RpcConn_new (serverSide s)" "RpcConn_new \<lparr>rpcConn = clientConn s, chunks = []\<rparr>"
    using s unfolding RpcSystem_new_def RpcConn_new_def by auto
  have st: "state c = kConnected" if "connectEstablished (TcpConnection_new False None) = Some c" for c
    using establish_ok [OF conn_inv_new, of False None] that by (auto simp: TcpConnection_new_def)
  have ok: "rpc_conn_ok [] (rpcConn e)" "inputBuffer (rpcConn e) = Buffer_new kInitialSize" "is_open (rpcConn e)" "chunks e = []"
    if "RpcConn_new e" for e
    using rpc_inv_new [OF that, of freed "handleRequest freed S"] that st by (auto simp: rpc_inv_def RpcConn_new_def)
  have "server_ok freed S [] (serverSide s)"
    using ok [OF e(1)] by (simp add: server_ok_def readable_new RpcFramingFacts.pending_def)
  moreover have "client_ok freed S s"
    using ok [OF e(2)] s by (simp add: client_ok_def requests_def readable_new RpcSystem_new_def BaseClient_new_def)
  ultimately show ?thesis using s ok(4) [OF e(1)] by (simp add: system_inv_def RpcSystem_new_def)
qed

interpretation whole: machine RpcSystem_new "system_legal freed S" "system_do freed S" "system_inv freed S"
  for freed S
proof
  show "system_inv freed S s" if "RpcSystem_new s" for s :: "'a RpcSystem" using that by (rule system_inv_new)
  show "\<exists>s'. system_do freed S a s = Some s' \<and> system_inv freed S s'"
    if "system_inv freed S s" "system_legal freed S a s" for s and a :: "'a rpc_action" using that by (rule system_act_inv)
qed

lemma system_reach_inv: "system_reach freed S s \<Longrightarrow> system_inv freed S s"
  unfolding system_reach_def by (rule whole.steps.reached_inv)

section \<open>What is left to do\<close>

text \<open>When nothing is on its way and nothing waits in an output buffer, no call waits.\<close>

lemma quiet_answered:
  assumes inv: "system_inv freed S s" and q: "to_server s = []" "to_client s = []"
    "\<not> isWriting (channel (clientConn s))" "\<not> isWriting (channel (rpcConn (serverSide s)))"
  shows "length (fired s) = length (made s)"
proof -
  let ?c = "clientConn s" and ?e = "serverSide s"
  obtain d x where d: "made s = d @ x" "list_all2 (fires S) d (fired s)" "rpc_conn_ok (requests (made s)) ?c" "is_open ?c"
    "clientRead s = concat (map (reply freed S) (map snd d)) @ readable (inputBuffer ?c)"
    "call_waits freed S x (readable (inputBuffer ?c)) (idToResponse (rpcClient s))"
    using inv unfolding system_inv_def client_ok_def by blast
  have e: "conn_inv (rpcConn ?e)" "is_open (rpcConn ?e)"
    using inv unfolding system_inv_def server_ok_def rpc_conn_ok_def by blast+
  have "readable (outputBuffer ?c) = []" "readable (outputBuffer (rpcConn ?e)) = []"
    using q(3,4) d(3,4) e by (auto simp: rpc_conn_ok_def conn_inv_open)
  then have w: "wire ?c = concat (map message_of (map body (map snd (made s))))" "wire (rpcConn ?e) = stream_of (rpcConn ?e)"
    using requests_bytes [OF d(3)] by (simp_all add: stream_of_def)
  have "concat (chunks ?e) = wire ?c" "clientRead s = wire (rpcConn ?e)"
    using inv q(1,2) by (auto simp: system_inv_def to_server_def to_client_def prefix_def)
  then have "clientRead s = concat (map (reply freed S) (map snd (d @ x)))"
    using replies_bytes(2) [OF system_answered(1) [OF inv], of ?e] system_answered(2,3) [OF inv] inv w d(1) by (simp add: system_inv_def)
  then have r: "readable (inputBuffer ?c) = concat (map (reply freed S) (map snd x))" using d(5) by simp
  have "x = []"
  proof (cases x)
    case (Cons y z)
    then show ?thesis using d(6) r by (cases y; cases z) auto
  qed simp
  then show ?thesis using d(1,2) by (simp add: list_all2_lengthD)
qed

text \<open>The bytes still to be written and read, on both sides.\<close>

definition bytes_left :: "(string \<Rightarrow> string) \<Rightarrow> RpcServer \<Rightarrow> 'cb RpcSystem \<Rightarrow> nat" where
  "bytes_left freed S s =
     (let q = length (concat (map message_of (map body (map snd (made s)))));
          a = length (concat (map (reply freed S) (map snd (made s))))
      in (q - length (wire (clientConn s))) + (q - length (concat (chunks (serverSide s)))) +
         (a - length (wire (rpcConn (serverSide s)))) + (a - length (clientRead s)))"

lemma in_bounds:
  assumes "system_inv freed S s"
  shows "length (wire (clientConn s)) \<le> length (concat (map message_of (map body (map snd (made s)))))"
    "length (concat (chunks (serverSide s))) \<le> length (wire (clientConn s))"
    "length (wire (rpcConn (serverSide s))) \<le> length (concat (map (reply freed S) (map snd (made s))))"
    "length (clientRead s) \<le> length (wire (rpcConn (serverSide s)))"
proof -
  obtain c where "c = clientConn s" "rpc_conn_ok (requests (made s)) c"
    using assms unfolding system_inv_def client_ok_def by blast
  then have "prefix (wire (clientConn s)) (concat (map message_of (map body (map snd (made s)))))"
    using requests_bytes unfolding stream_of_def by (metis prefixI)
  then show "length (wire (clientConn s)) \<le> length (concat (map message_of (map body (map snd (made s)))))"
    by (rule prefix_length_le)
  have "prefix (stream_of (rpcConn (serverSide s))) (concat (map (reply freed S) (map snd (made s))))"
    using replies_bytes(1) [OF system_answered(1) [OF assms]] system_answered(3) [OF assms] assms unfolding system_inv_def by metis
  then show "length (wire (rpcConn (serverSide s))) \<le> length (concat (map (reply freed S) (map snd (made s))))"
    using prefix_length_le by (fastforce simp: stream_of_def)
qed (use assms prefix_length_le in \<open>auto simp: system_inv_def\<close>)

lemma left_less:
  fixes a a' b b' c c' d d' q r :: nat
  shows "a \<le> a' \<Longrightarrow> b \<le> b' \<Longrightarrow> c \<le> c' \<Longrightarrow> d \<le> d' \<Longrightarrow> a' \<le> q \<Longrightarrow> b' \<le> q \<Longrightarrow> c' \<le> r \<Longrightarrow> d' \<le> r \<Longrightarrow>
    a < a' \<or> b < b' \<or> c < c' \<or> d < d' \<Longrightarrow> (q - a') + (q - b') + (r - c') + (r - d') < (q - a) + (q - b) + (r - c) + (r - d)"
  by arith

lemma fewer_left:
  assumes "system_inv freed S s'" "made s' = made s"
    "length (wire (clientConn s)) \<le> length (wire (clientConn s'))"
    "length (concat (chunks (serverSide s))) \<le> length (concat (chunks (serverSide s')))"
    "length (wire (rpcConn (serverSide s))) \<le> length (wire (rpcConn (serverSide s')))"
    "length (clientRead s) \<le> length (clientRead s')"
    "length (wire (clientConn s)) < length (wire (clientConn s')) \<or>
     length (concat (chunks (serverSide s))) < length (concat (chunks (serverSide s'))) \<or>
     length (wire (rpcConn (serverSide s))) < length (wire (rpcConn (serverSide s'))) \<or>
     length (clientRead s) < length (clientRead s')"
  shows "bytes_left freed S s' < bytes_left freed S s"
  unfolding bytes_left_def Let_def assms(2)
  by (rule left_less [OF assms(3-6)])
    (use in_bounds [OF assms(1), unfolded assms(2)] assms(7) in \<open>blast intro: order_trans\<close>)+

lemma handleWrite_all:
  assumes h: "handleWrite (Written (readableBytes (outputBuffer c))) c = Some c'" and op: "is_open c"
    and wr: "isWriting (channel c)" and ci: "conn_inv c"
  shows "length (wire c) < length (wire c')"
proof -
  let ?n = "readableBytes (outputBuffer c)"
  obtain ob where ob: "retrieve (outputBuffer c) ?n = Some ob"
    using h op by (auto simp: handleWrite_def is_open_def split: if_splits option.splits)
  let ?c1 = "c\<lparr>outputBuffer := ob, wire := wire c @ take ?n (readable (outputBuffer c))\<rparr>"
  have "\<exists>c2. (c' = ?c1 \<or> on_channel disableWrite ?c1 = Some c2 \<and> wire c' = wire c2)"
    using h op ob by (auto simp: handleWrite_def Let_def is_open_def split: if_splits)
  then have w: "wire c' = wire c @ take ?n (readable (outputBuffer c))" using on_channel_wire by force
  have "readable (outputBuffer c) \<noteq> []" "buffer_inv (outputBuffer c)" using ci op wr by (simp_all add: conn_inv_open)
  then have "0 < readableBytes (outputBuffer c)" using length_readable by (metis length_greater_0_conv)
  then show ?thesis using length_readable [of "outputBuffer c"] w \<open>buffer_inv (outputBuffer c)\<close> by simp
qed

lemma writes_again: "length es \<le> n \<Longrightarrow> writes_ok (replicate n (WriteError EAGAIN)) es"
proof (induction es arbitrary: n)
  case (Cons e es)
  then obtain k where "n = Suc k" "length es \<le> k" by (cases n) auto
  then show ?case using Cons.IH [of k] Cons.IH [of n] by (cases e) (simp_all add: write_ok_def no_fault_def)
qed simp

lemma system_progress:
  assumes inv: "system_inv freed S s" and w: "length (fired s) \<noteq> length (made s)"
  shows "\<exists>a s'. system_legal freed S a s \<and> system_do freed S a s = Some s' \<and> system_inv freed S s' \<and>
    made s' = made s \<and> bytes_left freed S s' < bytes_left freed S s"
proof -
  let ?c = "clientConn s" and ?sc = "rpcConn (serverSide s)"
  consider "to_server s \<noteq> []" | "to_client s \<noteq> []" | "isWriting (channel ?c)" | "isWriting (channel ?sc)"
    using quiet_answered [OF inv] w by blast
  then show ?thesis
  proof cases
    case 1
    obtain b es out where r: "receive freed (handleRequest freed S) (inputBuffer ?sc) (take 1 (to_server s)) = (b, es, out)"
      by (metis prod_cases3)
    let ?a = "ServerReads 1 (replicate (length es) (WriteError EAGAIN)) :: 'a rpc_action"
    have l: "system_legal freed S ?a s"
      using 1 r writes_again by (auto simp: read_ok_def readv_capacity_def extrabuf_size_def Suc_le_eq)
    obtain s' e where s': "system_do freed S ?a s = Some s'" "system_inv freed S s'" "s' = s\<lparr>serverSide := e\<rparr>"
      "chunks e = chunks (serverSide s) @ [take 1 (to_server s)]" "prefix (wire ?sc) (wire (rpcConn e))"
      using one.link_server_reads [OF inv l] by blast
    have "bytes_left freed S s' < bytes_left freed S s"
      by (rule fewer_left [OF s'(2)]) (use s' 1 prefix_length_le in auto)
    moreover have "made s' = made s" using s'(3) by simp
    ultimately show ?thesis using l s'(1,2) by blast
  next
    case 2
    let ?a = "ClientReads 1 :: 'a rpc_action"
    have l: "system_legal freed S ?a s"
      using 2 by (auto simp: read_ok_def readv_capacity_def extrabuf_size_def Suc_le_eq)
    obtain s' where s': "system_do freed S ?a s = Some s'" "system_inv freed S s'" "wire (clientConn s') = wire ?c" "made s' = made s"
      "serverSide s' = serverSide s" "clientRead s' = clientRead s @ take 1 (to_client s)"
      using system_client_reads [OF inv l] by blast
    have "bytes_left freed S s' < bytes_left freed S s"
      by (rule fewer_left [OF s'(2)]) (use s' 2 in auto)
    then show ?thesis using l s' by blast
  next
    case 3
    let ?w = "Written (readableBytes (outputBuffer ?c))"
    have l: "system_legal freed S (ClientWrites ?w :: 'a rpc_action) s" using 3 by (simp add: write_ok_def)
    obtain es where e: "rpc_conn_ok es ?c" "is_open ?c" using inv unfolding system_inv_def client_ok_def by blast
    obtain s' c where s': "on_client (handleWrite ?w) s = Some s'" "system_inv freed S s'" "handleWrite ?w ?c = Some c" "s' = s\<lparr>clientConn := c\<rparr>"
      using one.link_client_conn [OF inv, of "handleWrite ?w"] conn_writes 3 l by force
    have "length (wire ?c) < length (wire c)" using handleWrite_all [OF s'(3) e(2) 3] e(1) by (simp add: rpc_conn_ok_def)
    then have "bytes_left freed S s' < bytes_left freed S s"
      by (intro fewer_left [OF s'(2)]) (use s' in auto)
    then show ?thesis using l s' by (intro exI [of _ "ClientWrites ?w"]) auto
  next
    case 4
    let ?w = "Written (readableBytes (outputBuffer ?sc))"
    have l: "system_legal freed S (ServerWrites ?w :: 'a rpc_action) s" using 4 by (simp add: write_ok_def)
    have ci: "conn_inv ?sc" using inv unfolding system_inv_def server_ok_def rpc_conn_ok_def by blast
    obtain s' c where s': "on_server (on_rpc (handleWrite ?w)) s = Some s'" "system_inv freed S s'" "handleWrite ?w ?sc = Some c"
      "s' = s\<lparr>serverSide := (serverSide s)\<lparr>rpcConn := c\<rparr>\<rparr>"
      using one.link_server_writes [OF inv 4, of ?w] l by auto
    have "length (wire ?sc) < length (wire c)" using handleWrite_all [OF s'(3) one.link_open [OF inv] 4 ci] .
    then have "bytes_left freed S s' < bytes_left freed S s"
      by (intro fewer_left [OF s'(2)]) (use s' in auto)
    then show ?thesis using l s' by (intro exI [of _ "ServerWrites ?w"]) (auto simp: rpc_do_conn)
  qed
qed

lemma system_finishes:
  "system_reach freed S s \<Longrightarrow> \<exists>s'. (acts (system_legal freed S) (system_do freed S))\<^sup>*\<^sup>* s s' \<and> system_reach freed S s' \<and>
     made s' = made s \<and> length (fired s') = length (made s')"
proof (induction "bytes_left freed S s" arbitrary: s rule: less_induct)
  case less
  note inv = system_reach_inv [OF less(2)]
  show ?case
  proof (cases "length (fired s) = length (made s)")
    case False
    then obtain a s1 where s1: "system_legal freed S a s" "system_do freed S a s = Some s1" "made s1 = made s"
      "bytes_left freed S s1 < bytes_left freed S s" using system_progress [OF inv] by blast
    have st: "acts (system_legal freed S) (system_do freed S) s s1" using s1(1,2) by (auto simp: acts_def)
    have "system_reach freed S s1" using reached_step [OF less(2) [unfolded system_reach_def] st] by (simp add: system_reach_def)
    then show ?thesis using less(1) [OF s1(4)] s1(3) st by (metis converse_rtranclp_into_rtranclp)
  qed (use less(2) in blast)
qed

end
