(* ===== verification/JsonLanguage.thy ===== *)
theory JsonLanguage
  imports JsonRoundtrip
begin

text \<open>
  The language of the reader: what \<open>parse\<close> accepts, and as which value, is exactly the grammar of
  \<open>JsonGrammar\<close> in its lax form, and the texts of one unterminated string.
\<close>

section \<open>Tokens\<close>

lemma parseWhitespace_split: "\<exists>w. ws w \<and> s = w @ parseWhitespace s"
proof (induction s rule: parseWhitespace.induct)
  case (2 c s)
  then show ?case by (cases "is_ws c") (auto intro: exI [of _ "c # w" for w])
qed simp

lemma parseWhitespace_front: "parseWhitespace s = c # r \<Longrightarrow> \<not> is_ws c"
  by (induction s rule: parseWhitespace.induct) (auto split: if_splits)

lemma next_ws:
  assumes "next_char (parseWhitespace s) = (c, r)"
  shows "c = CHR 0x00 \<and> r = [] \<or> (\<exists>w. ws w \<and> \<not> is_ws c \<and> s = w @ c # r)"
proof (cases "parseWhitespace s")
  case (Cons d u)
  obtain w where "ws w" "s = w @ parseWhitespace s" using parseWhitespace_split by blast
  then show ?thesis using assms Cons parseWhitespace_front [OF Cons] by auto
qed (use assms in simp)

lemma match_literal_whole: "match_literal ls s = ([], r) \<Longrightarrow> CHR 0x00 \<notin> set ls \<Longrightarrow> s = ls @ r"
proof (induction ls s rule: match_literal.induct)
  case (2 l ls s)
  then show ?case using front_nonempty [of s l] by (auto split: if_splits)
qed simp

lemma parseLiteral_whole:
  assumes "parseLiteral s v lit t = Done PARSE_OK v' r" "CHR 0x00 \<notin> set lit" "lit \<noteq> []"
  shows "s = lit @ r"
proof -
  obtain s1 where s1: "expect s (hd lit) = Some s1"
    using assms(1) by (cases "expect s (hd lit)") (auto simp: parseLiteral_def)
  obtain l s2 where m: "match_literal (tl lit) s1 = (l, s2)" by fastforce
  have "l = []" "s2 = r" using assms(1) s1 m by (auto simp: parseLiteral_def split: if_splits)
  then show ?thesis
    using match_literal_whole [of "tl lit" s1 r] expect_Some [OF s1] m assms(2,3) by (cases lit) auto
qed

section \<open>Numbers\<close>

lemma front_skipDigits: "\<not> isDigit (front (skipDigits s))"
  unfolding skipDigits_def by (induction s) auto

lemma digit_nonempty: "isDigit (front s) \<Longrightarrow> s = front s # pop s"
  using front_nonempty [OF refl, of s] by (cases "front s = CHR 0x00") auto

lemma digits_split:
  assumes "isDigit (front s)"
  shows "\<exists>ds. s = ds @ skipDigits (pop s) \<and> digits ds \<and> hd ds = front s"
proof -
  let ?ds = "front s # takeWhile isDigit (pop s)"
  have "s = ?ds @ skipDigits (pop s)" using digit_nonempty [OF assms] by (simp add: skipDigits_def)
  moreover have "digits ?ds" using assms by (simp add: digits_def list_all_iff) (meson set_takeWhileD)
  ultimately show ?thesis by (intro exI [of _ ?ds]) simp
qed

lemma skipDigits_pop: "isDigit (front s) \<Longrightarrow> skipDigits s = skipDigits (pop s)"
  using digit_nonempty [of s] by (cases s) (auto simp: skipDigits_def)

lemma scanInt_sound:
  assumes "scanInt s = Inr r"
  shows "\<exists>sg ip. s = sg @ ip @ r \<and> sign_text sg \<and> int_part ip"
proof -
  let ?s1 = "if front s = CHR ''-'' then pop s else s"
  have "\<exists>sg. sign_text sg \<and> s = sg @ ?s1"
  proof (cases "front s = CHR ''-''")
    case True
    then have "s = [CHR ''-''] @ pop s" using front_nonempty [of s "CHR ''-''"] by simp
    then show ?thesis using True by (intro exI [of _ "[CHR ''-'']"]) (simp add: sign_text_def)
  qed (intro exI [of _ "[]"], simp add: sign_text_def)
  moreover have "\<exists>ip. int_part ip \<and> ?s1 = ip @ r"
  proof (cases "front ?s1 = CHR ''0''")
    case True
    then have "?s1 = ''0'' @ r" using assms front_nonempty [OF True] by (simp add: scanInt_def Let_def)
    then show ?thesis by (intro exI [of _ "''0''"]) (simp add: int_part_def)
  next
    case False
    then have d: "isDigit19 (front ?s1)" "r = skipDigits ?s1" using assms by (auto simp: scanInt_def Let_def split: if_splits)
    then show ?thesis
      using digits_split [OF isDigit19_isDigit [OF d(1)]] skipDigits_pop [OF isDigit19_isDigit [OF d(1)]]
      by (auto simp: int_part_def)
  qed
  ultimately show ?thesis by metis
qed

lemma scanFrac_sound:
  assumes "scanFrac s = Inr (t, r)"
  shows "\<exists>fp. s = fp @ r \<and> frac_part fp \<and> t = (if fp = [] then TYPE_NULL else TYPE_DOUBLE) \<and>
    (fp \<noteq> [] \<longrightarrow> \<not> isDigit (front r))"
proof (cases "front s = CHR ''.''")
  case True
  then have d: "isDigit (front (pop s))" "t = TYPE_DOUBLE" "r = skipDigits (pop (pop s))"
    using assms by (auto simp: scanFrac_def Let_def split: if_splits)
  obtain ds where "pop s = ds @ r" "digits ds" using digits_split [OF d(1)] d(3) by auto
  then show ?thesis
    using front_nonempty [OF True] d(2,3) front_skipDigits [of "pop (pop s)"]
    by (intro exI [of _ "CHR ''.'' # ds"]) (auto simp: frac_part_def)
next
  case False
  then show ?thesis using assms by (auto simp: scanFrac_def frac_part_def)
qed

lemma scanExp_sound:
  assumes "scanExp t0 s = Inr (t, r)"
  shows "\<exists>xp. s = xp @ r \<and> exp_part xp \<and> t = (if xp = [] then t0 else TYPE_DOUBLE) \<and>
    (if xp = [] then front r \<noteq> CHR ''e'' \<and> front r \<noteq> CHR ''E'' else \<not> isDigit (front r))"
proof (cases "front s = CHR ''e'' \<or> front s = CHR ''E''")
  case True
  let ?s1 = "pop s"
  let ?s2 = "if front ?s1 = CHR ''+'' \<or> front ?s1 = CHR ''-'' then pop ?s1 else ?s1"
  have d: "isDigit (front ?s2)" "t = TYPE_DOUBLE" "r = skipDigits (pop ?s2)"
    using assms True by (auto simp: scanExp_def Let_def split: if_splits)
  have s: "s = front s # ?s1" using True front_nonempty [of s] by auto
  obtain sg where sg: "sg = [] \<or> sg = ''+'' \<or> sg = ''-''" "?s1 = sg @ ?s2"
  proof (cases "front ?s1 = CHR ''+'' \<or> front ?s1 = CHR ''-''")
    case True
    then have "?s1 = [front ?s1] @ ?s2" using front_nonempty [OF refl, of ?s1] by auto
    then show ?thesis using True by (intro that [of "[front ?s1]"]) auto
  qed (auto intro: that [of "[]"])
  obtain ds where ds: "?s2 = ds @ r" "digits ds" using digits_split [OF d(1)] d(3) by auto
  have "(front s # sg @ ds) @ r = front s # ?s1" by (subst sg(2)) (simp only: append_Cons append_assoc ds(1))
  then have "s = (front s # sg @ ds) @ r" by (rule trans [OF s sym])
  moreover have "exp_part (front s # sg @ ds)" using sg(1) True ds(2) unfolding exp_part_def by blast
  moreover have "\<not> isDigit (front r)" unfolding d(3) by (rule front_skipDigits)
  ultimately show ?thesis using d(2) by (intro exI [of _ "front s # sg @ ds"]) simp
next
  case False
  then show ?thesis using assms by (auto simp: scanExp_def exp_part_def)
qed

lemma next_char_eq: "next_char s = (c, r) \<Longrightarrow> c \<noteq> CHR 0x00 \<Longrightarrow> s = c # r"
  by (cases s) auto

lemma scanSuffix_sound:
  assumes "scanSuffix t0 s = Inr (t, r)"
  shows "t = t0 \<and> r = s \<and> front s \<noteq> CHR ''i'' \<or> t0 \<noteq> TYPE_DOUBLE \<and>
    (s = ''i32'' @ r \<and> t = TYPE_INT32 \<or> s = ''i64'' @ r \<and> t = TYPE_INT64)"
proof (cases "front s = CHR ''i''")
  case True
  obtain c s2 where c: "next_char (pop s) = (c, s2)" by fastforce
  obtain d s3 where d: "next_char s2 = (d, s3)" by fastforce
  have t0: "t0 \<noteq> TYPE_DOUBLE" using assms True by (auto simp: scanSuffix_def Let_def)
  then have "c = CHR ''3'' \<and> d = CHR ''2'' \<and> t = TYPE_INT32 \<and> r = s3 \<or> c = CHR ''6'' \<and> d = CHR ''4'' \<and> t = TYPE_INT64 \<and> r = s3"
    using assms True c d by (simp add: scanSuffix_def Let_def split: if_splits)
  moreover have "s = CHR ''i'' # pop s" using front_nonempty [OF True] by simp
  moreover have "pop s = c # d # s3" if "c \<noteq> CHR 0x00" "d \<noteq> CHR 0x00" using next_char_eq [OF c] next_char_eq [OF d] that by simp
  ultimately show ?thesis using t0 by (elim disjE conjE) simp_all
qed (use assms in \<open>auto simp: scanSuffix_def\<close>)

lemma stol_text:
  assumes "int_text i s" "\<not> isDigit (front u)"
  shows "stol (s @ u) = (if i < - (2 ^ 63) \<or> 2 ^ 63 \<le> i then None else Some i)"
proof -
  obtain sg ip where s: "s = sg @ ip" and p: "sign_text sg" "int_part ip"
    and i: "i = (if sg = ''-'' then - int (digits_val 0 ip) else int (digits_val 0 ip))"
    using assms(1) unfolding int_text_def by blast
  have ip: "list_all isDigit ip" "ip \<noteq> []" "front (ip @ x) \<noteq> CHR ''-''" for x
    using int_part_digits [OF p(2)] front_digits [of ip x] by (auto simp: digits_def isDigit_iff)
  let ?s = "sg @ ip @ u"
  have neg: "(str_head ?s = CHR ''-'') = (sg = ''-'')"
    and s1: "(if str_head ?s = CHR ''-'' then tl ?s else ?s) = ip @ u"
    using p(1) ip(3) by (auto simp: sign_text_def str_head_front)
  have "stol ?s = (if i < - (2 ^ 63) \<or> 2 ^ 63 \<le> i then None else Some i)"
    unfolding stol_def Let_def neg s1 [unfolded neg]
    using takeWhile_digits [OF ip(1) assms(2)] ip(2) by (auto simp: i)
  then show ?thesis by (simp add: s)
qed

lemma parseNumber_language:
  assumes "parseNumber s v = Done PARSE_OK v' r"
  shows "\<exists>t. s = t @ r \<and> gtext strict v' t \<and> ends v' t r"
proof -
  obtain r1 t2 r2 t3 r3 t4 where *: "scanInt s = Inr r1" "scanFrac r1 = Inr (t2, r2)" "scanExp t2 r2 = Inr (t3, r3)"
    "scanSuffix t3 r3 = Inr (t4, r)" and c: "convertNumber t4 s v r = Done PARSE_OK v' r"
    using assms convertNumber_rest by (fastforce simp: parseNumber_def split: sum.splits if_splits)
  obtain sg ip where ip: "s = sg @ ip @ r1" "sign_text sg" "int_part ip" using scanInt_sound [OF *(1)] by blast
  obtain fp where fp: "r1 = fp @ r2" "frac_part fp" "t2 = (if fp = [] then TYPE_NULL else TYPE_DOUBLE)"
    "fp \<noteq> [] \<Longrightarrow> \<not> isDigit (front r2)" using scanFrac_sound [OF *(2)] by blast
  obtain xp where xp: "r2 = xp @ r3" "exp_part xp" "t3 = (if xp = [] then t2 else TYPE_DOUBLE)"
    "if xp = [] then front r3 \<noteq> CHR ''e'' \<and> front r3 \<noteq> CHR ''E'' else \<not> isDigit (front r3)"
    using scanExp_sound [OF *(3)] by blast
  note parts = ip(2,3) fp(2) xp(2)
  show ?thesis
  proof (cases "t4 = TYPE_DOUBLE")
    case True
    let ?s = "sg @ ip @ fp @ xp"
    have d: "fp \<noteq> [] \<or> xp \<noteq> []" "r = r3" "front r \<noteq> CHR ''i''"
      using scanSuffix_sound [OF *(4)] True fp(3) xp(3) by (auto split: if_splits)
    have s: "s = ?s @ r" using ip(1) fp(1) xp(1) d(2) by simp
    have ne: "number_ends ?s r"
      using d fp(4) xp(1,4) unfolding number_ends_def has_exp_parts [OF parts] by (auto split: if_splits)
    obtain x where x: "stod s = Some x" "v' = VDouble (fst x)"
      using c True by (auto simp: convertNumber_def numberTooBig_def setDouble_def split: option.splits if_splits)
    let ?D = "dec_value (sg = ''-'') (digits_val 0 (ip @ tl fp)) (fst (read_exponent xp) - int (length (tl fp)))"
    have nd: "\<not> isDigit (front r)" "xp = [] \<Longrightarrow> front r \<noteq> CHR ''e''" "xp = [] \<Longrightarrow> front r \<noteq> CHR ''E''"
      using ne unfolding number_ends_def has_exp_parts [OF parts] by blast+
    have "stod (sg @ ip @ fp @ xp @ r) = map_option (\<lambda>d. (d, length ?s)) ?D"
      by (rule stod_parts [OF parts nd(1) _ nd(2,3)]) (use d(1) in blast)+
    then have "stod s = map_option (\<lambda>d. (d, length ?s)) ?D" unfolding s append_assoc .
    then have "map_option (\<lambda>d. (d, length ?s)) ?D = Some x" using x(1) by (rule subst)
    then obtain y where y: "?D = Some y" "x = (y, length ?s)" unfolding map_option_eq_Some by blast
    have "stod ?s = map_option (\<lambda>d. (d, length ?s)) ?D" using stod_parts [OF parts, of "[]"] by (simp add: isDigit_NUL)
    then have "stod ?s = Some (fst x, length ?s)" unfolding y by simp
    moreover have "double_text ?s" using parts d(1) unfolding double_text_def by blast
    ultimately show ?thesis using jt_double [of ?s "fst x" strict] s ne x(2) by auto
  next
    case False
    have t4: "t4 = TYPE_INT32 \<or> t4 = TYPE_INT64"
      using c False by (auto simp: convertNumber_def numberTooBig_def split: if_splits option.splits)
    then have d: "fp = []" "xp = []" "r3 = (if t4 = TYPE_INT32 then ''i32'' else ''i64'') @ r"
      using scanSuffix_sound [OF *(4)] fp(3) xp(3) False by (auto split: if_splits)
    define i where "i = (if sg = ''-'' then - int (digits_val 0 ip) else int (digits_val 0 ip))"
    have it: "int_text i (sg @ ip)" using int_textI [OF ip(2,3) i_def] .
    have s: "s = (sg @ ip) @ (if t4 = TYPE_INT32 then ''i32'' else ''i64'') @ r" using ip(1) fp(1) xp(1) d by simp
    have st: "stol s = (if i < - (2 ^ 63) \<or> 2 ^ 63 \<le> i then None else Some i)"
      unfolding s by (rule stol_text [OF it]) (auto simp: isDigit_iff)
    then have rg: "- (2 ^ 63) \<le> i" "i < 2 ^ 63"
      using c False by (auto simp: convertNumber_def numberTooBig_def split: if_splits)
    show ?thesis
    proof (cases "t4 = TYPE_INT32")
      case True
      then have "- (2 ^ 31) \<le> i" "i < 2 ^ 31" "v' = VInt32 (word_of_int i)"
        using c st rg by (auto simp: convertNumber_def setInt32_def split: if_splits)
      then show ?thesis using jt_int32 [OF it, of strict] True s by auto
    next
      case f: False
      then have "v' = VInt64 (word_of_int i)" using c st rg t4 by (auto simp: convertNumber_def setInt64_def)
      then show ?thesis using jt_int64 [OF it rg, of strict] f s by auto
    qed
  qed
qed

section \<open>Strings\<close>

lemma hex_digit_NUL: "hex_digit (CHR 0x00) = None"
  by (simp add: hex_digit_def char_le_iff)

lemma parseHex4_step:
  assumes "parseHex4 (Suc k) u s = (Some x, r)"
  shows "\<exists>c d s'. s = c # s' \<and> hex_digit c = Some d \<and> parseHex4 k (u * 16 + d) s' = (Some x, r)"
proof (cases s)
  case (Cons c s')
  then obtain d where "hex_digit c = Some d" using assms by (auto split: option.splits)
  then show ?thesis using Cons assms or_push_bit4 [OF hex_digit_less] by auto
qed (use assms in \<open>simp add: hex_digit_NUL\<close>)

lemma parseHex4_sound:
  assumes "parseHex4 4 0 s = (Some u, r)"
  shows "\<exists>h. s = h @ r \<and> hex4 u h"
proof -
  have "parseHex4 (Suc (Suc (Suc (Suc 0)))) 0 s = (Some u, r)" using assms by (simp add: eval_nat_numeral)
  from parseHex4_step [OF this] obtain a a' s1 where 1: "s = a # s1" "hex_digit a = Some a'"
    "parseHex4 (Suc (Suc (Suc 0))) (0 * 16 + a') s1 = (Some u, r)" by blast
  from parseHex4_step [OF 1(3)] obtain b b' s2 where 2: "s1 = b # s2" "hex_digit b = Some b'"
    "parseHex4 (Suc (Suc 0)) ((0 * 16 + a') * 16 + b') s2 = (Some u, r)" by blast
  from parseHex4_step [OF 2(3)] obtain c c' s3 where 3: "s2 = c # s3" "hex_digit c = Some c'"
    "parseHex4 (Suc 0) (((0 * 16 + a') * 16 + b') * 16 + c') s3 = (Some u, r)" by blast
  from parseHex4_step [OF 3(3)] obtain d d' s4 where 4: "s3 = d # s4" "hex_digit d = Some d'"
    "parseHex4 0 ((((0 * 16 + a') * 16 + b') * 16 + c') * 16 + d') s4 = (Some u, r)" by blast
  have "s = a # b # c # d # r" "u = ((a' * 16 + b') * 16 + c') * 16 + d'" using 1(1) 2(1) 3(1) 4(1,3) by simp_all
  then show ?thesis by (intro exI [of _ "[a, b, c, d]"]) (use 1(2) 2(2) 3(2) 4(2) in \<open>auto simp: hex4_def\<close>)
qed

lemma parseUnicode_sound:
  assumes "parseUnicode s = (Some (Inr bs), r)"
  shows "\<exists>e. s = e @ r \<and> (\<forall>cs t. jchars cs t \<longrightarrow> jchars (bs @ cs) (CHR 0x5C # CHR ''u'' # e @ t))"
proof -
  obtain u s1 where 1: "parseHex4 4 0 s = (Some u, s1)"
    using assms by (auto simp: parseUnicode_def split: prod.splits option.splits)
  obtain h where h: "s = h @ s1" "hex4 u h" using parseHex4_sound [OF 1] by blast
  show ?thesis
  proof (cases "0xD800 \<le> u \<and> u \<le> 0xDBFF")
    case False
    then have e: "encodeUtf8 u = Some bs" "r = s1" using assms 1 by (auto simp: parseUnicode_def)
    show ?thesis
      using h e(2) jc_unicode [OF h(2) False e(1)] by (intro exI [of _ h]) simp
  next
    case True
    obtain c s2 where 2: "next_char s1 = (c, s2)" by fastforce
    obtain d s3 where 3: "next_char s2 = (d, s3)" by fastforce
    have c: "c = CHR 0x5C" "d = CHR ''u''" using assms 1 2 3 True by (auto simp: parseUnicode_def split: if_splits)
    obtain u2 s4 where 4: "parseHex4 4 0 s3 = (Some u2, s4)"
      using assms 1 2 3 True by (auto simp: parseUnicode_def split: if_splits prod.splits option.splits)
    have e: "0xDC00 \<le> u2" "u2 \<le> 0xDFFF" "encodeUtf8 (0x10000 + (u - 0xD800) * 0x400 + (u2 - 0xDC00)) = Some bs" "r = s4"
      using assms 1 2 3 4 True by (auto simp: parseUnicode_def split: if_splits)
    obtain h2 where h2: "s3 = h2 @ s4" "hex4 u2 h2" using parseHex4_sound [OF 4] by blast
    have "s1 = CHR 0x5C # CHR ''u'' # s3" using next_char_eq [OF 2] next_char_eq [OF 3] c by simp
    then show ?thesis
      using h h2 e(4) jc_surrogates [OF h(2) conjunct1 [OF True] conjunct2 [OF True] h2(2) e(1-3)]
      by (intro exI [of _ "h @ CHR 0x5C # CHR ''u'' # h2"]) simp
  qed
qed

lemma parseEscape_sound:
  assumes "parseEscape s = (Some (Inr bs), r)"
  shows "\<exists>e. s = e @ r \<and> (\<forall>cs t. jchars cs t \<longrightarrow> jchars (bs @ cs) (CHR 0x5C # e @ t))"
proof -
  obtain c s1 where n: "next_char s = (c, s1)" by fastforce
  show ?thesis
  proof (cases "c = CHR ''u''")
    case True
    have "parseUnicode s1 = (Some (Inr bs), r)" using assms n True by (simp add: parseEscape_def)
    from parseUnicode_sound [OF this] obtain e where
      e: "s1 = e @ r" "\<forall>cs t. jchars cs t \<longrightarrow> jchars (bs @ cs) (CHR 0x5C # CHR ''u'' # e @ t)" by blast
    then show ?thesis using next_char_eq [OF n] True by (intro exI [of _ "c # e"]) simp
  next
    case False
    then obtain d where d: "simple_escape c d" "bs = [d]" "r = s1"
      using assms n by (auto simp: parseEscape_def simple_escape_def split: if_splits)
    moreover have "c \<noteq> CHR 0x00" using d(1) by (auto simp: simple_escape_def)
    ultimately show ?thesis using next_char_eq [OF n] jc_escape by (intro exI [of _ "[c]"]) simp
  qed
qed

lemma parseEscape_not_ok: "parseEscape s \<noteq> (Some (Inl PARSE_OK), r)"
  by (auto simp: parseEscape_def parseUnicode_def map_option_case split: prod.splits option.splits if_splits)

text \<open>The loop ends at a quotation mark, or at the end of the text, without a value.\<close>

lemma parseChars_language:
  "parseChars s v b = Done PARSE_OK v' r \<Longrightarrow>
     (\<exists>cs t. s = t @ CHR 0x22 # r \<and> jchars cs t \<and> v' = VString (b @ cs)) \<or> (\<exists>cs. jchars cs s) \<and> r = [] \<and> v' = v"
proof (induction s v b rule: parseChars.induct)
  case (1 v b)
  then show ?case using jc_nil by auto
next
  case (2 ch s v b)
  show ?case
  proof (cases "ch = CHR 0x22")
    case True
    then show ?thesis using "2.prems" jc_nil by (intro disjI1 exI [of _ "[]"]) (simp add: setString_def)
  next
    case q: False
    show ?thesis
    proof (cases "ch = CHR 0x5C")
      case True
      then obtain bs s1 where e: "parseEscape s = (Some (Inr bs), s1)"
        using "2.prems" q parseEscape_not_ok by (fastforce split: option.splits prod.splits sum.splits)
      obtain x where x: "s = x @ s1" "\<forall>cs t. jchars cs t \<longrightarrow> jchars (bs @ cs) (CHR 0x5C # x @ t)"
        using parseEscape_sound [OF e] by blast
      have "parseChars s1 v (b @ bs) = Done PARSE_OK v' r" using "2.prems" True q e by simp
      then consider cs t where "s1 = t @ CHR 0x22 # r" "jchars cs t" "v' = VString ((b @ bs) @ cs)"
        | cs where "jchars cs s1" "r = []" "v' = v"
        using "2.IH"(1) [OF q True e [symmetric] refl refl] by blast
      then show ?thesis
      proof cases
        case (1 cs t)
        then show ?thesis using x True by (intro disjI1 exI [of _ "bs @ cs"] exI [of _ "CHR 0x5C # x @ t"]) simp
      next
        case (2 cs)
        then show ?thesis using x True by (intro disjI2) auto
      qed
    next
      case f: False
      have c: "ch \<noteq> CHR 0x00" "\<not> ch < CHR 0x20" using "2.prems" q f by (auto split: if_splits)
      have p: "jchars (ch # cs) (ch # t)" if "jchars cs t" for cs t
        using c(2) q f that by (intro jc_plain) simp_all
      have "parseChars s v (b @ [ch]) = Done PARSE_OK v' r" using "2.prems" q f c by simp
      then consider cs t where "s = t @ CHR 0x22 # r" "jchars cs t" "v' = VString ((b @ [ch]) @ cs)"
        | cs where "jchars cs s" "r = []" "v' = v"
        using "2.IH"(2) [OF q f c] by blast
      then show ?thesis
      proof cases
        case (1 cs t)
        then show ?thesis using p by (intro disjI1 exI [of _ "ch # cs"] exI [of _ "ch # t"]) simp
      next
        case (2 cs)
        then show ?thesis using p by (intro disjI2) blast
      qed
    qed
  qed
qed

definition open_string :: "string \<Rightarrow> bool" where
  "open_string s \<longleftrightarrow> (\<exists>cs t. s = CHR 0x22 # t \<and> jchars cs t)"

lemma parseString_language:
  assumes "parseString s v = Done PARSE_OK v' r"
  shows "(\<exists>cs t. s = CHR 0x22 # t @ CHR 0x22 # r \<and> jchars cs t \<and> v' = VString cs) \<or> open_string s \<and> r = [] \<and> v' = v"
proof -
  obtain s1 where s1: "expect s (CHR 0x22) = Some s1" "parseChars s1 v [] = Done PARSE_OK v' r"
    using assms by (auto simp: parseString_def split: option.splits)
  have "s = CHR 0x22 # s1" using expect_Some [OF s1(1)] by simp
  then show ?thesis using parseChars_language [OF s1(2)] by (auto simp: open_string_def)
qed

section \<open>Values\<close>

definition reads :: "string \<Rightarrow> JValue \<Rightarrow> string \<Rightarrow> bool" where
  "reads s v r \<longleftrightarrow> (\<exists>t. s = t @ r \<and> gtext False v t \<and> ends v t r) \<or> v = VNull \<and> r = [] \<and> open_string s"

definition sound_reader :: "value_reader \<Rightarrow> bool" where
  "sound_reader pv \<longleftrightarrow> (\<forall>s v r. pv s VNull = Done PARSE_OK v r \<longrightarrow> reads s v r)"

lemma readsI: "s = t @ r \<Longrightarrow> gtext False v t \<Longrightarrow> ends v t r \<Longrightarrow> reads s v r"
  unfolding reads_def by blast

lemma gtext_nonempty: "gtext strict v t \<Longrightarrow> t \<noteq> []" "gelems strict vs t \<Longrightarrow> t \<noteq> []"
  using jtext_head(1,2) by fastforce+

lemma not_reads_empty: "\<not> reads [] v r"
  using gtext_nonempty(1) by (auto simp: reads_def open_string_def)

lemma array_sound:
  assumes pv: "sound_reader pv"
  shows "parseArrayLoop pv n s (VArray acc) = Done PARSE_OK v r \<Longrightarrow>
    \<exists>vs t. s = t @ r \<and> gelems False vs t \<and> v = VArray (acc @ vs)"
proof (induction n arbitrary: s acc)
  case (Suc n)
  obtain x s1 where x: "pv s VNull = Done PARSE_OK x s1"
    using Suc.prems by (auto split: read_result.splits if_splits)
  obtain c s2 where c: "next_char (parseWhitespace s1) = (c, s2)" by fastforce
  let ?k = "\<lambda>u. parseArrayLoop pv n u (VArray (acc @ [x])) = Done PARSE_OK v r"
  have next_ok: "if c = CHR '','' then ?k (parseWhitespace s2) else if c = CHR '']'' then v = VArray (acc @ [x]) \<and> r = s2 else ?k s2"
    using Suc.prems x c by (auto split: if_splits)
  have more: "\<exists>vs t. u = t @ r \<and> gelems False vs t \<and> v = VArray (acc @ x # vs)" if "?k u" for u
    using Suc.IH [OF that] by simp
  have "reads s x s1" using pv x unfolding sound_reader_def by blast
  then consider "s1 = []" "open_string s" | t where "s = t @ s1" "gtext False x t" "ends x t s1" unfolding reads_def by blast
  then show ?case
  proof cases
    case 1
    then have "?k []" using next_ok c by (auto split: if_splits)
    then show ?thesis using more [of "[]"] gtext_nonempty(2) by fastforce
  next
    case (2 t)
    from next_ws [OF c] consider "c = CHR 0x00" "s2 = []" | w where "ws w" "\<not> is_ws c" "s1 = w @ c # s2" by blast
    then show ?thesis
    proof cases
      case 1
      then show ?thesis using next_ok more [of "[]"] gtext_nonempty(2) by fastforce
    next
      case (2 w)
      note s1 = this
      consider "c = CHR '',''" | "c = CHR '']''" | "c \<noteq> CHR '',''" "c \<noteq> CHR '']''" by blast
      then show ?thesis
      proof cases
        case 1
        obtain w' where w': "ws w'" "s2 = w' @ parseWhitespace s2" using parseWhitespace_split by blast
        obtain vs u where u: "parseWhitespace s2 = u @ r" "gelems False vs u" "v = VArray (acc @ x # vs)"
          using next_ok more [of "parseWhitespace s2"] unfolding if_P [OF 1] by blast
        have "s = (t @ w @ '','' @ w' @ u) @ r" using \<open>s = t @ s1\<close> s1(3) 1 w'(2) u(1) by simp
        then show ?thesis using je_cons [OF \<open>gtext False x t\<close> s1(1) w'(1) u(2)] u(3) by blast
      next
        case 2
        then have "s = (t @ w @ '']'') @ r" "v = VArray (acc @ [x])" using \<open>s = t @ s1\<close> s1(3) next_ok by auto
        then show ?thesis using je_last [OF \<open>gtext False x t\<close> s1(1)] by blast
      next
        case 3
        then obtain vs u where u: "s2 = u @ r" "gelems False vs u" "v = VArray (acc @ x # vs)"
          using next_ok more [of s2] by auto
        have "ends x t (w @ [c])"
          using \<open>ends x t s1\<close> ends_front [of "w @ [c]" s1] s1(3) by (cases w) auto
        moreover have "s = (t @ w @ c # u) @ r" using \<open>s = t @ s1\<close> s1(3) u(1) by simp
        ultimately show ?thesis
          using je_any [OF _ \<open>gtext False x t\<close> s1(1,2) 3 _ u(2)] u(3) by blast
      qed
    qed
  qed
qed simp

lemma object_sound:
  assumes pv: "sound_reader pv"
  shows "parseObjectLoop pv n s (VObject acc) = Done PARSE_OK v r \<Longrightarrow>
    \<exists>ms t. s = t @ r \<and> gmembers False ms t \<and> v = VObject (insert_all acc ms) \<and> distinct (map fst ms) \<and>
      fst ` set ms \<inter> fst ` set acc = {}"
proof (induction n arbitrary: s acc)
  case (Suc n)
  have q: "front s = CHR 0x22" using Suc.prems by (auto split: if_splits)
  obtain key s1 where key: "parseString s VNull = Done PARSE_OK key s1"
    using Suc.prems q by (auto split: read_result.splits if_splits)
  obtain c s2 where c: "next_char (parseWhitespace s1) = (c, s2)" by fastforce
  have colon: "c = CHR '':''" using Suc.prems q key c by (auto split: if_splits)
  from next_ws [OF c] colon obtain w1 where w1: "ws w1" "s1 = w1 @ '':'' @ s2" by auto
  obtain k kt where k: "s = CHR 0x22 # kt @ CHR 0x22 # s1" "jchars k kt" "key = VString k"
    using parseString_language [OF key] w1(2) by auto
  obtain x s3 where x: "pv (parseWhitespace s2) VNull = Done PARSE_OK x s3"
    using Suc.prems q key c colon by (auto split: read_result.splits if_splits)
  obtain w2 where w2: "ws w2" "s2 = w2 @ parseWhitespace s2" using parseWhitespace_split by blast
  obtain w3 where w3: "ws w3" "s3 = w3 @ parseWhitespace s3" using parseWhitespace_split by blast
  have new: "map_of acc k = None"
    using Suc.prems q key c colon x k(3) by (auto split: option.splits if_splits)
  let ?acc = "map_insert k x acc" and ?s4 = "parseWhitespace s3"
  have rest: "if front ?s4 = CHR '','' then parseObjectLoop pv n (parseWhitespace (pop ?s4)) (VObject ?acc) = Done PARSE_OK v r
    else front ?s4 = CHR ''}'' \<and> v = VObject ?acc \<and> r = pop ?s4"
    using Suc.prems q key c colon x k(3) new by (auto simp: Let_def split: if_splits)
  have "front ?s4 \<noteq> CHR 0x00" using rest by (auto split: if_splits)
  then have "?s4 \<noteq> []" by auto
  moreover have "reads (parseWhitespace s2) x s3" using pv x unfolding sound_reader_def by blast
  ultimately obtain t where t: "parseWhitespace s2 = t @ s3" "gtext False x t" unfolding reads_def by force
  have s: "s = CHR 0x22 # kt @ CHR 0x22 # w1 @ '':'' @ w2 @ t @ w3 @ ?s4" using k(1) w1(2) w2(2) t(1) w3(2) by simp
  show ?case
  proof (cases "front ?s4 = CHR '',''")
    case True
    obtain w4 where w4: "ws w4" "pop ?s4 = w4 @ parseWhitespace (pop ?s4)" using parseWhitespace_split by blast
    obtain ms u where u: "parseWhitespace (pop ?s4) = u @ r" "gmembers False ms u" "v = VObject (insert_all ?acc ms)"
      "distinct (map fst ms)" "fst ` set ms \<inter> fst ` set ?acc = {}"
      using Suc.IH [of "parseWhitespace (pop ?s4)" ?acc] rest unfolding if_P [OF True] by blast
    have "?s4 = '','' @ w4 @ u @ r" using front_nonempty [OF True] w4(2) u(1) by simp
    then have "s = (CHR 0x22 # kt @ CHR 0x22 # w1 @ '':'' @ w2 @ t @ w3 @ '','' @ w4 @ u) @ r" using s by simp
    moreover have "distinct (map fst ((k, x) # ms))" "fst ` set ((k, x) # ms) \<inter> fst ` set acc = {}"
      using u(4,5) new by (auto simp: map_of_eq_None_iff)
    ultimately show ?thesis
      using jm_cons [OF k(2) w1(1) w2(1) t(2) w3(1) w4(1) u(2)] u(3) by (metis insert_all_simps(2))
  next
    case False
    then have r: "front ?s4 = CHR ''}''" "v = VObject ?acc" "r = pop ?s4" using rest by auto
    have "?s4 = ''}'' @ r" using front_nonempty [OF r(1)] r(3) by simp
    then have "s = (CHR 0x22 # kt @ CHR 0x22 # w1 @ '':'' @ w2 @ t @ w3 @ ''}'') @ r" using s by simp
    moreover have "fst ` set [(k, x)] \<inter> fst ` set acc = {}" using new by (auto simp: map_of_eq_None_iff)
    ultimately show ?thesis
      using jm_last [OF k(2) w1(1) w2(1) t(2) w3(1)] r(2)
      by (intro exI [of _ "[(k, x)]"] exI [of _ "CHR 0x22 # kt @ CHR 0x22 # w1 @ '':'' @ w2 @ t @ w3 @ ''}''"]) simp
  qed
qed simp

lemma parseArray_sound:
  assumes "sound_reader pv" "parseArray pv n s v = Done PARSE_OK v' r"
  shows "reads s v' r"
proof -
  obtain s1 where s1: "expect s (CHR ''['') = Some s1" using assms(2) by (auto simp: parseArray_def split: option.splits)
  then have s: "s = CHR ''['' # s1" using expect_Some by simp
  obtain w where w: "ws w" "s1 = w @ parseWhitespace s1" using parseWhitespace_split by blast
  show ?thesis
  proof (cases "front (parseWhitespace s1) = CHR '']''")
    case True
    then have "v' = VArray []" "r = pop (parseWhitespace s1)" using assms(2) s1 by (auto simp: parseArray_def setArray_def)
    then show ?thesis
      using front_nonempty [OF True] s w(2) jt_array0 [OF w(1), of False] by (intro readsI [of _ "''['' @ w @ '']''"]) simp_all
  next
    case False
    then have "parseArrayLoop pv n (parseWhitespace s1) (VArray []) = Done PARSE_OK v' r"
      using assms(2) s1 by (auto simp: parseArray_def setArray_def)
    then obtain vs t where t: "parseWhitespace s1 = t @ r" "gelems False vs t" "v' = VArray vs"
      using array_sound [OF assms(1)] by fastforce
    then show ?thesis using s w(2) jt_array [OF w(1) t(2)] by (intro readsI [of _ "''['' @ w @ t"]) simp_all
  qed
qed

lemma parseObject_sound:
  assumes "sound_reader pv" "parseObject pv n s v = Done PARSE_OK v' r"
  shows "reads s v' r"
proof -
  obtain s1 where s1: "expect s (CHR ''{'') = Some s1" using assms(2) by (auto simp: parseObject_def split: option.splits)
  then have s: "s = CHR ''{'' # s1" using expect_Some by simp
  obtain w where w: "ws w" "s1 = w @ parseWhitespace s1" using parseWhitespace_split by blast
  show ?thesis
  proof (cases "front (parseWhitespace s1) = CHR ''}''")
    case True
    then have "v' = VObject []" "r = pop (parseWhitespace s1)" using assms(2) s1 by (auto simp: parseObject_def setObject_def)
    then show ?thesis
      using front_nonempty [OF True] s w(2) jt_object0 [OF w(1), of False] by (intro readsI [of _ "''{'' @ w @ ''}''"]) simp_all
  next
    case False
    then have "parseObjectLoop pv n (parseWhitespace s1) (VObject []) = Done PARSE_OK v' r"
      using assms(2) s1 by (auto simp: parseObject_def setObject_def)
    then obtain ms t where t: "parseWhitespace s1 = t @ r" "gmembers False ms t" "v' = VObject (insert_all [] ms)" "distinct (map fst ms)"
      using object_sound [OF assms(1)] by blast
    then show ?thesis using s w(2) jt_object [OF w(1) t(2,4)] by (intro readsI [of _ "''{'' @ w @ t"]) simp_all
  qed
qed

lemma literal_sound:
  assumes "parseLiteral s v lit t = Done PARSE_OK v' r" "CHR 0x00 \<notin> set lit" "lit \<noteq> []"
    "parseLiteral (lit @ r) v lit t = Done PARSE_OK x r" "gtext False x lit" "\<And>d. x \<noteq> VDouble d"
  shows "reads s v' r"
proof -
  have s: "s = lit @ r" using parseLiteral_whole [OF assms(1-3)] .
  then have "v' = x" using assms(1,4) by simp
  then show ?thesis using readsI [OF s] assms(5,6) by (cases x) auto
qed

lemma parseValue_language: "sound_reader (parseValue n)"
proof (induction n)
  case (Suc n)
  have "reads s v r" if p: "parseValue (Suc n) s VNull = Done PARSE_OK v r" for s v r
  proof -
    consider "front s = CHR ''n''" | "front s = CHR ''t''" | "front s = CHR ''f''" | "front s = CHR 0x22" | "front s = CHR ''[''"
      | "front s = CHR ''{''" | "parseNumber s VNull = Done PARSE_OK v r" using p by (auto split: if_splits)
    then show ?thesis
    proof cases
      case 1
      then show ?thesis
        using p jt_null by (intro literal_sound [of s VNull "''null''" TYPE_NULL v r VNull]) (auto simp: parseLiteral_def expect_def setNull_def)
    next
      case 2
      then show ?thesis
        using p jt_true by (intro literal_sound [of s VNull "''true''" TYPE_BOOL v r "VBool True"]) (auto simp: parseLiteral_def expect_def setBool_def)
    next
      case 3
      then show ?thesis
        using p jt_false by (intro literal_sound [of s VNull "''false''" TYPE_BOOL v r "VBool False"]) (auto simp: parseLiteral_def expect_def setBool_def)
    next
      case 4
      then have "parseString s VNull = Done PARSE_OK v r" using p by simp
      from parseString_language [OF this] consider cs t where "s = CHR 0x22 # t @ CHR 0x22 # r" "jchars cs t" "v = VString cs"
        | "open_string s" "r = []" "v = VNull" by blast
      then show ?thesis
      proof cases
        case (1 cs t)
        then show ?thesis using jt_string [OF 1(2), of False] by (intro readsI [of _ "CHR 0x22 # t @ [CHR 0x22]"]) simp_all
      qed (simp add: reads_def)
    next
      case 5
      then have "parseArray (parseValue n) n s VNull = Done PARSE_OK v r" using p by simp
      then show ?thesis using parseArray_sound [OF Suc.IH] by blast
    next
      case 6
      then have "parseObject (parseValue n) n s VNull = Done PARSE_OK v r" using p by simp
      then show ?thesis using parseObject_sound [OF Suc.IH] by blast
    next
      case 7
      then show ?thesis using parseNumber_language readsI by blast
    qed
  qed
  then show ?case unfolding sound_reader_def by blast
qed (simp add: sound_reader_def)

section \<open>The language\<close>

lemma parseChars_open: "jchars cs t \<Longrightarrow> parseChars t v b = Done PARSE_OK v []"
  by (induction arbitrary: b rule: jchars.induct)
    (simp_all add: plain_char parseEscape_simple parseEscape_unicode parseEscape_surrogates)

lemma parse_open:
  assumes "ws w" "open_string t"
  shows "parse (w @ t) u = Some (PARSE_OK, VNull)"
proof -
  obtain cs t' where t: "t = CHR 0x22 # t'" "jchars cs t'" using assms(2) unfolding open_string_def by blast
  have "parseValue (fuel_for t) t VNull = Done PARSE_OK VNull []"
    using parseChars_open [OF t(2)] t(1) by (simp add: fuel_for_def parseString_def expect_def)
  then show ?thesis using parseWhitespace_token [OF assms(1), of "CHR 0x22" t'] t(1) by (simp add: parse_def hasNext_def)
qed

lemma parse_language:
  assumes p: "parse s u = Some (PARSE_OK, v)"
  shows "(\<exists>w1 t w2. s = w1 @ t @ w2 \<and> ws w1 \<and> gtext False v t \<and> ws w2) \<or>
     v = VNull \<and> (\<exists>w1 t. s = w1 @ t \<and> ws w1 \<and> open_string t)"
proof -
  obtain w1 where w1: "ws w1" "s = w1 @ parseWhitespace s" using parseWhitespace_split by blast
  obtain r where r: "parseValue (fuel_for (parseWhitespace s)) (parseWhitespace s) VNull = Done PARSE_OK v r"
    "parseWhitespace r = []"
    using p by (auto simp: parse_def Let_def hasNext_def split: read_result.splits if_splits)
  have "ws r" using parseWhitespace_split [of r] r(2) by auto
  moreover have "reads (parseWhitespace s) v r" using parseValue_language r(1) unfolding sound_reader_def by blast
  ultimately show ?thesis using w1 unfolding reads_def by metis
qed

section \<open>Doubles too small\<close>

text \<open>
  A nonzero value that stays below \<open>2 ^ -1022\<close> after rounding and is no multiple of \<open>2 ^ -1074\<close>:
  \<open>strtod\<close> sets \<open>ERANGE\<close>, and \<open>__stoa\<close> throws.
\<close>

lemma pick_exp_tiny:
  assumes n: "0 < n" "n * 2 ^ 1076 < 2 ^ 54 * d"
  shows "pick_exp n d \<le> - 1075"
proof -
  have d: "0 < d" using n(2) by (cases d) auto
  have c: "(2 :: nat) ^ 1076 = 2 ^ 54 * 2 ^ 1022" by (simp flip: power_add)
  have lt: "n * 2 ^ 1022 < d" using n(2) unfolding c by simp
  have "2 ^ (floorlog 2 n - 1 + 1022) \<le> n * 2 ^ 1022" using floorlog_bounds [OF n(1), of 2] by (simp add: power_add)
  also have "\<dots> < 2 ^ floorlog 2 d" using lt floorlog_bounds [OF d, of 2] by simp
  finally have "floorlog 2 n - 1 + 1022 < floorlog 2 d" by (rule power_less_imp_less_exp [rotated]) simp
  moreover have "0 < floorlog 2 n" using n(1) by (simp add: floorlog_def)
  moreover define x where "x = int (floorlog 2 n) - int (floorlog 2 d)"
  ultimately have e: "x - 53 \<le> - 1075" by linarith
  have "\<not> 2 ^ 53 * d \<le> n * 2 ^ 1075" using n(2) by simp
  then show ?thesis using e unfolding pick_exp_def scale2_def Let_def x_def [symmetric]
    by (cases "x = - 1022") simp_all
qed

lemma to_double_tiny:
  assumes n: "0 < n" "n * 2 ^ 1076 < (2 ^ 54 - 1) * d" and x: "\<not> d dvd n * 2 ^ 1074"
  shows "to_double s n d = None"
proof -
  have p: "pick_exp n d \<le> - 1075" using n by (intro pick_exp_tiny) (auto elim: less_le_trans)
  let ?a = "n * 2 ^ 1075"
  have "round_half_even ?a d \<noteq> 2 ^ 53"
  proof
    assume r: "round_half_even ?a d = 2 ^ 53"
    obtain q m where q: "?a div d = q" "?a mod d = m" and eq: "?a = q * d + m" by (metis div_mult_mod_eq)
    have "2 ^ 54 * d \<le> 2 * ?a + d"
    proof (cases "q = 2 ^ 53")
      case False
      then have "q + 1 = 2 ^ 53" "d \<le> 2 * m" using r q by (auto simp: round_half_even_def Let_def split: if_splits)
      moreover from this(1) have "q * d + d = 2 ^ 53 * d" by (metis add_mult_distrib mult_1)
      ultimately show ?thesis using eq by simp
    qed (use eq in simp)
    then have "(2 ^ 54 - 1) * d \<le> 2 * ?a" by (simp add: diff_mult_distrib)
    then show False using n(2) by simp
  qed
  moreover obtain a1 b1 where ab: "scale2 n d (pick_exp n d) = (a1, b1)" by fastforce
  ultimately have t: "\<not> (pick_exp n d = - 1075 \<and> round_half_even a1 b1 = 2 ^ 53)"
    by (auto simp: scale2_def simp del: power_numeral)
  have e: "max (pick_exp n d) (- 1074) = - 1074" "pick_exp n d < - 1074" using p by simp_all
  have sc: "scale2 n d (- 1074) = (n * 2 ^ 1074, d)" by (simp add: scale2_def del: power_numeral)
  have m: "n * 2 ^ 1074 mod d \<noteq> 0" using x by (simp only: dvd_eq_mod_eq_0 not_False_eq_True)
  show ?thesis
    unfolding to_double_def Let_def ab e(1) sc prod.case using n(1) t e(2) m
    by (simp del: power_numeral split: prod.splits)
qed

text \<open>The texts of \<open>test/testReader.cpp\<close>, lines 127 and 130 to 133, are refused.\<close>

lemma not_dvd_pow10: "0 < n \<Longrightarrow> n < 5 ^ k \<Longrightarrow> \<not> 10 ^ k dvd n * 2 ^ j" for n :: nat
proof
  assume n: "0 < n" "n < 5 ^ k" and dvd: "10 ^ k dvd n * 2 ^ j"
  have "(10 :: nat) ^ k = 2 ^ k * 5 ^ k" by (simp flip: power_mult_distrib)
  then have "5 ^ k dvd n * 2 ^ j" using dvd by (metis dvd_mult_right)
  moreover have "coprime (5 ^ k) (2 ^ j :: nat)" by simp
  ultimately have "5 ^ k dvd n" by (simp add: coprime_dvd_mult_left_iff)
  then show False using n by (auto dest: dvd_imp_le)
qed

lemma to_double_pow10:
  assumes "0 < n" "n < 5 ^ 50" "50 \<le> k" "n * 2 ^ 1076 < (2 ^ 54 - 1) * 10 ^ k"
  shows "to_double s n (10 ^ k) = None"
proof (rule to_double_tiny [OF assms(1,4)])
  have "(5 :: nat) ^ 50 \<le> 5 ^ k" using assms(3) by (intro power_increasing) simp_all
  then show "\<not> 10 ^ k dvd n * 2 ^ 1074" using assms(1,2) by (intro not_dvd_pow10) linarith+
qed

text \<open>The last one is close: \<open>5 ^ 81\<close> and the square of it are taken to a hundred binary digits.\<close>

lemma pow10_sizes:
  "(1 :: nat) * 2 ^ 1076 < (2 ^ 54 - 1) * 10 ^ 10000"
  "(49406564584124654 :: nat) * 2 ^ 1076 < (2 ^ 54 - 1) * 10 ^ 340"
  "(22250738585072009 :: nat) * 2 ^ 1076 < (2 ^ 54 - 1) * 10 ^ 324"
proof -
  have big: "n * 2 ^ 1076 < (2 ^ 54 - 1) * (10 :: nat) ^ (10 * k)" if n: "n < 2 ^ 56" and k: "34 \<le> k" for n k :: nat
  proof -
    have "(2 :: nat) ^ (33 * 34) \<le> 2 ^ (33 * k)" using k by (intro power_increasing) simp_all
    also have "\<dots> \<le> (10 ^ 10) ^ k" unfolding power_mult by (rule power_mono) simp_all
    finally have le: "(2 :: nat) ^ 1122 \<le> 10 ^ (10 * k)" by (simp add: power_mult del: power_numeral)
    have "n * 2 ^ 1076 < 2 ^ 56 * 2 ^ 1076" using n by simp
    also have "\<dots> \<le> (2 :: nat) ^ 53 * 2 ^ 1122" unfolding power_add [symmetric] by (rule power_increasing) simp_all
    also have "\<dots> \<le> (2 ^ 54 - 1) * 10 ^ (10 * k)" using le by (intro mult_mono) simp_all
    finally show ?thesis .
  qed
  have n: "1 < (2 :: nat) ^ 56" "49406564584124654 < (2 :: nat) ^ 56" by simp_all
  show "(1 :: nat) * 2 ^ 1076 < (2 ^ 54 - 1) * 10 ^ 10000" using big [OF n(1), of 1000] by (simp del: power_numeral)
  show "(49406564584124654 :: nat) * 2 ^ 1076 < (2 ^ 54 - 1) * 10 ^ 340"
    using big [OF n(2), of 34] by (simp del: power_numeral)
  let ?a = "668191177523048911535134116787 :: nat" and ?b = "704420365736826765499796353338 :: nat"
  have "(?b * 2 ^ 99) ^ 2 * (2 ^ 89) ^ 4 \<le> (?a ^ 2) ^ 2 * (2 ^ 89) ^ 4" by (intro mult_mono power_mono) simp_all
  also have "\<dots> = (?a * 2 ^ 89) ^ 4" by (simp only: power_mult_distrib power_mult [symmetric]) simp
  also have "\<dots> \<le> (5 ^ 81) ^ 4" by (intro power_mono) simp_all
  finally have "?b ^ 2 * 2 ^ 554 \<le> 5 ^ 324"
    by (simp only: power_mult_distrib power_mult [symmetric] mult.assoc power_add [symmetric]) simp
  then have le: "2 ^ 324 * (?b ^ 2 * 2 ^ 554) \<le> 2 ^ 324 * 5 ^ 324" by (rule mult_le_mono2)
  have e: "(2 :: nat) ^ 878 = 2 ^ 324 * 2 ^ 554" by (simp flip: power_add)
  have "22250738585072009 * 2 ^ 198 < (2 ^ 54 - 1) * ?b ^ 2" by simp
  then have "22250738585072009 * 2 ^ 198 * 2 ^ 878 < (2 ^ 54 - 1) * ?b ^ 2 * 2 ^ 878" by (rule mult_less_mono1) simp
  also have "\<dots> = (2 ^ 54 - 1) * (2 ^ 324 * (?b ^ 2 * 2 ^ 554))"
    by (simp only: e mult.assoc mult.left_commute)
  also have "\<dots> \<le> (2 ^ 54 - 1) * (2 ^ 324 * 5 ^ 324)" using le by (rule mult_le_mono2)
  finally have "22250738585072009 * (2 ^ 198 * 2 ^ 878) < (2 ^ 54 - 1) * (2 * 5 :: nat) ^ 324"
    unfolding power_mult_distrib mult.assoc .
  then show "(22250738585072009 :: nat) * 2 ^ 1076 < (2 ^ 54 - 1) * 10 ^ 324"
    unfolding power_add [symmetric] by (simp del: power_numeral)
qed

lemma stod_tiny:
  "stod ''1e-10000'' = None" "stod ''4.9406564584124654e-324'' = None" "stod ''2.2250738585072009e-308'' = None"
proof -
  have t: "to_double False 1 (10 ^ 10000) = None" "to_double False 49406564584124654 (10 ^ 340) = None"
    "to_double False 22250738585072009 (10 ^ 324) = None"
    by (rule to_double_pow10 [OF _ _ _ pow10_sizes(1)] to_double_pow10 [OF _ _ _ pow10_sizes(2)]
        to_double_pow10 [OF _ _ _ pow10_sizes(3)]; simp)+
  show "stod ''1e-10000'' = None" "stod ''4.9406564584124654e-324'' = None" "stod ''2.2250738585072009e-308'' = None"
    by (simp_all add: stod_def read_fraction_def read_exponent_def isDigit_iff digit_val_def dec_value_def
        t t(1) [unfolded One_nat_def] del: power_numeral)
qed

lemma small_doubles_refused:
  "parse ''1e-10000'' u = Some (PARSE_NUMBER_TOO_BIG, VDouble dzero)"
  "parse ''4.9406564584124654e-324'' u = Some (PARSE_NUMBER_TOO_BIG, VDouble dzero)"
  "parse ''2.2250738585072009e-308'' u = Some (PARSE_NUMBER_TOO_BIG, VDouble dzero)"
proof -
  note scan = scanInt_def scanFrac_def scanExp_def scanSuffix_def isDigit_iff isDigit19_def skipDigits_def
  have i: "scanInt ''1e-10000'' = Inr ''e-10000''" "scanInt ''4.9406564584124654e-324'' = Inr ''.9406564584124654e-324''"
    "scanInt ''2.2250738585072009e-308'' = Inr ''.2250738585072009e-308''" by (simp_all add: scan)
  have f: "scanFrac ''e-10000'' = Inr (TYPE_NULL, ''e-10000'')" "scanFrac ''.9406564584124654e-324'' = Inr (TYPE_DOUBLE, ''e-324'')"
    "scanFrac ''.2250738585072009e-308'' = Inr (TYPE_DOUBLE, ''e-308'')" by (simp_all add: scan)
  have e: "scanExp TYPE_NULL ''e-10000'' = Inr (TYPE_DOUBLE, [])" "scanExp TYPE_DOUBLE ''e-324'' = Inr (TYPE_DOUBLE, [])"
    "scanExp TYPE_DOUBLE ''e-308'' = Inr (TYPE_DOUBLE, [])" by (simp_all add: scan)
  have x: "scanSuffix TYPE_DOUBLE [] = Inr (TYPE_DOUBLE, [])" by (simp add: scan)
  note number = parseNumber_def i f e x convertNumber_def numberTooBig_def setDouble_def stod_tiny
  show "parse ''1e-10000'' u = Some (PARSE_NUMBER_TOO_BIG, VDouble dzero)"
    "parse ''4.9406564584124654e-324'' u = Some (PARSE_NUMBER_TOO_BIG, VDouble dzero)"
    "parse ''2.2250738585072009e-308'' u = Some (PARSE_NUMBER_TOO_BIG, VDouble dzero)"
    by (simp_all add: parse_def fuel_for_def is_ws_def number)
qed

section \<open>The language of the reader\<close>

text \<open>
  C5: the reader accepts exactly these texts: a text of the lax grammar, in whitespace, as its value,
  and a text that is one string without its closing quotation mark, as null. The doubles of the grammar
  are the texts that \<open>std::stod\<close> converts; where \<open>strtod\<close> reports \<open>ERANGE\<close>, on overflow and also on an
  inexact result below \<open>2 ^ -1022\<close>, \<open>stod\<close> throws and the reader answers \<open>PARSE_NUMBER_TOO_BIG\<close>, also for
  the texts which lines 127 and 130 to 133 of \<open>test/testReader.cpp\<close> expect to be accepted.
\<close>

theorem reader_accepts:
  "(parse s u = Some (PARSE_OK, v) \<longleftrightarrow>
     (\<exists>w1 t w2. s = w1 @ t @ w2 \<and> ws w1 \<and> gtext False v t \<and> ws w2) \<or>
     v = VNull \<and> (\<exists>w1 t. s = w1 @ t \<and> ws w1 \<and> open_string t)) \<and>
   map (\<lambda>t. parse t u) [''1e-10000'', ''4.9406564584124654e-324'', ''2.2250738585072009e-308''] =
     replicate 3 (Some (PARSE_NUMBER_TOO_BIG, VDouble dzero))"
  using parse_language [of s u v] parse_text parse_open small_doubles_refused
  by (intro conjI) (blast, simp add: eval_nat_numeral)

end
