(* ===== verification/RpcPipeline.thy ===== *)
theory RpcPipeline
  imports RpcSystem JsonLanguage
begin

text \<open>
  The system of \<open>RpcSystem\<close> when the client makes calls while others wait. Responses can then arrive
  together or in pieces that the client takes for whole messages, and are lost
  (\<open>client_loses_joined_messages\<close>). The server may also refuse a call, which shuts the connection. What
  is shown here is that no answer goes to a wrong callback: what the client takes for a message is
  dropped, or is one whole response or error of the server.
\<close>

section \<open>The text of a value has no carriage return\<close>

lemma no_cr_number: "CHR 0x0D \<notin> set (int_to_string i)"
proof -
  have "\<not> isDigit (CHR 0x0D)" by (simp add: isDigit_iff)
  then have "CHR 0x0D \<notin> set (nat_to_string n)" for n using nat_to_string_digits by (auto simp: list_all_iff)
  then show ?thesis by (simp add: int_to_string_def)
qed

lemma no_cr_hex: "n < 16 \<Longrightarrow> hex_char n \<noteq> CHR 0x0D"
proof -
  have "list_all (\<lambda>n. hex_char n \<noteq> CHR 0x0D) [0..<16]" by code_simp
  then show "n < 16 \<Longrightarrow> hex_char n \<noteq> CHR 0x0D" by (auto simp: list_all_iff)
qed

lemma no_cr_format: "CHR 0x0D \<notin> set (format_04x n)"
proof -
  have "CHR 0x0D \<noteq> hex_char (k mod 16)" for k using no_cr_hex [of "k mod 16"] by fastforce
  then show ?thesis unfolding format_04x_def by simp
qed

lemma no_cr_escape: "CHR 0x0D \<notin> set (escape c)"
  using no_cr_format [of "of_char c"] unfolding escape_def by simp

lemma no_cr_key: "plain_key k \<Longrightarrow> CHR 0x0D \<notin> set k"
proof -
  have "\<not> CHR 0x20 \<le> CHR 0x0D" by (simp add: char_le_iff)
  then show "plain_key k \<Longrightarrow> CHR 0x0D \<notin> set k" unfolding plain_key_def list_all_iff by blast
qed

lemma no_cr_layout:
  "\<forall>n. CHR 0x0D \<notin> set (nl n) \<Longrightarrow> writable v \<Longrightarrow> no_double v \<Longrightarrow> CHR 0x0D \<notin> set (layout nl d v)"
  "\<forall>n. CHR 0x0D \<notin> set (nl n) \<Longrightarrow> list_all writable vs \<Longrightarrow> list_all no_double vs \<Longrightarrow>
     CHR 0x0D \<notin> set (layout_elems nl d first vs)"
  "\<forall>n. CHR 0x0D \<notin> set (nl n) \<Longrightarrow> list_all (\<lambda>m. plain_key (fst m) \<and> writable (snd m)) ms \<Longrightarrow>
     list_all (\<lambda>m. no_double (snd m)) ms \<Longrightarrow> CHR 0x0D \<notin> set (layout_members nl d first ms)"
  by (induction nl d v and nl d first vs and nl d first ms rule: layout_layout_elems_layout_members.induct)
    (auto simp: no_cr_number no_cr_escape no_cr_key JsonWriter.quoted_def)

section \<open>The lines of a stream of messages\<close>

text \<open>
  Whatever ends in a CRLF in a stream of messages ends with a header, and then the body follows, or
  with a body.
\<close>

lemma first_cr:
  "u @ CHR 0x0D # x = h @ CHR 0x0D # y \<Longrightarrow> CHR 0x0D \<notin> set h \<Longrightarrow>
     u = h \<and> x = y \<or> (\<exists>u1. u = h @ CHR 0x0D # u1 \<and> u1 @ CHR 0x0D # x = y)"
  by (auto simp: append_eq_append_conv2 append_eq_Cons_conv Cons_eq_append_conv)

lemma crlf_position:
  assumes "prefix (u @ crlf_str @ json) (h @ crlf_str @ b @ crlf_str @ z)" "CHR 0x0D \<notin> set h" "CHR 0x0D \<notin> set b"
  shows "u = h \<and> prefix json (b @ crlf_str @ z) \<or> u = h @ crlf_str @ b \<or>
    (\<exists>u'. u = h @ crlf_str @ b @ crlf_str @ u' \<and> prefix (u' @ crlf_str @ json) z)"
proof -
  obtain r where "(u @ crlf_str @ json) @ r = h @ crlf_str @ b @ crlf_str @ z" using assms(1) by (auto simp: prefix_def)
  then have r: "u @ CHR 0x0D # (CHR 0x0A # json @ r) = h @ CHR 0x0D # (CHR 0x0A # b) @ CHR 0x0D # CHR 0x0A # z"
    by (simp add: crlf_str_def)
  have cr: "CHR 0x0D \<notin> set (CHR 0x0A # b)" using assms(3) by simp
  consider "u = h" "CHR 0x0A # json @ r = (CHR 0x0A # b) @ CHR 0x0D # CHR 0x0A # z"
    | u1 where "u = h @ CHR 0x0D # u1"
        "u1 @ CHR 0x0D # (CHR 0x0A # json @ r) = (CHR 0x0A # b) @ CHR 0x0D # CHR 0x0A # z"
    using first_cr [OF r assms(2)] by auto
  then show ?thesis
  proof cases
    case 1
    then show ?thesis by (auto simp: crlf_str_def prefix_def intro: sym)
  next
    case 2
    show ?thesis
    proof (cases "u1 = CHR 0x0A # b")
      case False
      then obtain u2 where u2: "u1 = CHR 0x0A # b @ CHR 0x0D # u2" "u2 @ CHR 0x0D # CHR 0x0A # json @ r = CHR 0x0A # z"
        using first_cr [OF 2(2) cr] by auto
      then obtain u' where "u2 = CHR 0x0A # u'" "z = u' @ CHR 0x0D # CHR 0x0A # json @ r" by (cases u2) auto
      then show ?thesis using 2(1) u2(1) by (auto simp: crlf_str_def)
    qed (use 2(1) in \<open>simp add: crlf_str_def\<close>)
  qed
qed

lemma stream_lines:
  assumes "prefix (u @ crlf_str @ json) (concat (map message_of bs))" "\<forall>b \<in> set bs. CHR 0x0D \<notin> set b"
  shows "(\<exists>i z. i < length bs \<and> u = concat (map message_of (take i bs)) @ header_of (length (bs ! i) + 2) \<and>
      prefix json (bs ! i @ z)) \<or> (\<exists>b \<in> set bs. suffix b u)"
  using assms
proof (induction bs arbitrary: u)
  case Nil
  then show ?case by (simp add: crlf_str_def)
next
  case (Cons b bs)
  let ?h = "header_of (length b + 2)" and ?z = "concat (map message_of bs)"
  have "prefix (u @ crlf_str @ json) (?h @ crlf_str @ b @ crlf_str @ ?z)" using Cons.prems(1) by (simp add: message_of_header [of b])
  note pos = crlf_position [OF this header_no_cr]
  consider "u = ?h" "prefix json (b @ crlf_str @ ?z)" | "u = ?h @ crlf_str @ b"
    | u' where "u = message_of b @ u'" "prefix (u' @ crlf_str @ json) ?z"
    using pos Cons.prems(2) unfolding message_of_header [of b] by auto
  then show ?case
  proof cases
    case 1
    then have "\<exists>i z. i < length (b # bs) \<and> u = concat (map message_of (take i (b # bs))) @ header_of (length ((b # bs) ! i) + 2) \<and>
      prefix json ((b # bs) ! i @ z)" by (intro exI [of _ 0]) auto
    then show ?thesis ..
  next
    case 2
    then show ?thesis by (auto simp: suffix_def)
  next
    case 3
    from Cons.IH [OF 3(2)] Cons.prems(2) consider i z where "i < length bs"
      "u' = concat (map message_of (take i bs)) @ header_of (length (bs ! i) + 2)" "prefix json (bs ! i @ z)"
      | c where "c \<in> set bs" "suffix c u'" by auto
    then show ?thesis
    proof cases
      case 1
      then have "\<exists>i z. i < length (b # bs) \<and> u = concat (map message_of (take i (b # bs))) @ header_of (length ((b # bs) ! i) + 2) \<and>
        prefix json ((b # bs) ! i @ z)" using 3(1) by (intro exI [of _ "Suc i"]) auto
      then show ?thesis ..
    next
      case 2
      then show ?thesis using 3(1) by (auto intro: suffix_appendI)
    qed
  qed
qed

section \<open>What the client takes for a header and for a body\<close>

lemma last_token:
  assumes "x @ c # w = y @ d # w'" "ws w" "ws w'" "\<not> is_ws c" "\<not> is_ws d"
  shows "c = d"
proof -
  have "dropWhile is_ws (rev (z @ e # v)) = e # rev z" if "ws v" "\<not> is_ws e" for z e v
    using that dropWhile_append2 [of "rev v" is_ws "e # rev z"] by (simp add: ws_def list_all_iff)
  then show ?thesis using assms by (metis list.inject)
qed

lemma int32_line:
  assumes "parse (line @ crlf_str) u = Some (PARSE_OK, VInt32 n)"
  shows "line \<noteq> [] \<and> \<not> suffix (x @ ''}'') line"
proof -
  obtain w1 t w2 where t: "line @ crlf_str = w1 @ t @ w2" "gtext False (VInt32 n) t" "ws w2"
    using parse_language [OF assms] by auto
  from t(2) obtain q where "t = q @ ''i32''" by (cases rule: gtext.cases) auto
  then have l: "line @ crlf_str = (w1 @ q @ ''i3'') @ CHR ''2'' # w2" using t(1) by simp
  have "line \<noteq> []"
  proof
    assume "line = []"
    then have "CHR ''2'' \<in> set crlf_str" using arg_cong [OF l, of set] by simp
    then show False by (simp add: crlf_str_def)
  qed
  moreover have "\<not> suffix (x @ ''}'') line"
  proof
    assume "suffix (x @ ''}'') line"
    then obtain z where "line = z @ x @ ''}''" by (auto simp: suffix_def)
    then have "(z @ x) @ CHR ''}'' # crlf_str = (w1 @ q @ ''i3'') @ CHR ''2'' # w2" using l by simp
    from last_token [OF this _ t(3)] show False by (simp add: is_ws_def)
  qed
  ultimately show ?thesis ..
qed

lemma object_text: "gtext strict v (CHR ''{'' # x) \<Longrightarrow> \<exists>ms. v = VObject ms"
  by (cases rule: gtext.cases) (auto simp: int_text_def double_text_def sign_text_def int_part_def digits_def isDigit_iff isDigit19_iff
      append_eq_Cons_conv Cons_eq_append_conv)

lemma parse_response:
  assumes ms: "writable (VObject ms)" "no_double (VObject ms)"
    and pre: "prefix json (body (VObject ms) @ y)" and p: "parse json u = Some (PARSE_OK, v)"
  shows "v = VObject ms \<and> prefix (body (VObject ms)) json"
proof -
  let ?b = "body (VObject ms)"
  obtain t w where b: "?b = t @ w" "jtext (VObject ms) t" "ws w"
    using layout_laid_out [where nl = "\<lambda>_. []" and d = 0, OF _ ms(1)] reread_no_double [OF ms(2)] by (auto simp: laid_out_def)
  obtain x where x: "?b = CHR ''{'' # x @ ''}''" by simp
  have "w = []"
  proof (rule ccontr)
    assume "w \<noteq> []"
    then have "last w = CHR ''}''" using arg_cong [OF b(1), of last] by simp
    then have "CHR ''}'' \<in> set w" using last_in_set [OF \<open>w \<noteq> []\<close>] by simp
    then show False using b(3) by (simp add: ws_def list_all_iff is_ws_def) (auto dest: bspec)
  qed
  then have bt: "jtext (VObject ms) ?b" using b by simp
  obtain z where z: "json @ z = ?b @ y" using pre by (auto simp: prefix_def)
  have "json \<noteq> []" using parse_language [OF p] by (auto simp: open_string_def dest: jtext_head)
  then obtain j where j: "json = CHR ''{'' # j" using z x by (cases json) auto
  then have nows: "json = w1 @ r \<Longrightarrow> ws w1 \<Longrightarrow> w1 = []" for w1 r by (cases w1) (auto simp: is_ws_def)
  have "\<not> (\<exists>w1 t. json = w1 @ t \<and> ws w1 \<and> open_string t)" using nows j by (force simp: open_string_def)
  then obtain w1 t' w2 where "json = w1 @ t' @ w2" "ws w1" "gtext False v t'" using parse_language [OF p] by blast
  then have t': "json = t' @ w2" "gtext False v t'" using nows by auto
  obtain t1 where "t' = CHR ''{'' # t1" using jtext_head(1) [OF t'(2)] t'(1) j by auto
  then obtain ms' where v: "v = VObject ms'" using t'(2) object_text by blast
  let ?n = "Suc (length (json @ z))"
  have "parseValue ?n (t' @ w2 @ z) VNull = Done PARSE_OK v (w2 @ z)"
    using t' by (intro reads_gtext(1) [OF t'(2)]) (simp_all add: v)
  moreover have "parseValue ?n (?b @ y) VNull = Done PARSE_OK (VObject ms) y"
    unfolding z by (rule reads_gtext(1) [OF bt]) simp_all
  ultimately have "v = VObject ms" "w2 @ z = y" using z t'(1) by simp_all
  then show ?thesis using z t'(1) by auto
qed

section \<open>One event of the client\<close>

lemma handleResponse_object:
  assumes "parse json VNull = Some (PARSE_OK, VObject (response_ms i False v))"
  shows "handleResponse c json = (case idToResponse c (sint i) of None \<Rightarrow> (c, [], Ret ())
    | Some cb \<Rightarrow> (c\<lparr>idToResponse := (idToResponse c)(sint i := None)\<rparr>, [Callback cb v False], Ret ()))"
  using assms validateResponse_iff(1) [of "response_ms i False v"]
  by (simp add: handleResponse_def handleResponseSingle_def valid_response_def has_type_def response_ms_def
      split: option.split)

lemma response_plain:
  assumes "answered S req i v"
  shows "writable (VObject (response_ms i False v))" "no_double (VObject (response_ms i False v))"
  using answeredD(3,4) [OF assms]
  by (simp_all add: response_ms_def sorted_keys_def plain_key_def char_le_iff char_less_iff)

text \<open>The calls have the numbers from 0 on, and the server answers or refuses each.\<close>

definition numbered :: "(string \<Rightarrow> string) \<Rightarrow> RpcServer \<Rightarrow> ('cb \<times> JValue) list \<Rightarrow> bool" where
  "numbered freed S calls \<longleftrightarrow> length calls \<le> 2 ^ 32 \<and>
     (\<forall>j < length calls. (\<exists>v. answered S (snd (calls ! j)) (word_of_nat j) v) \<or> refused freed S (snd (calls ! j)))"

lemma numbered_handled: "numbered freed S calls \<Longrightarrow> \<forall>req \<in> set (map snd calls). handled freed S req"
  by (fastforce simp: numbered_def handled_def in_set_conv_nth)

text \<open>What comes back is the text of an object: a response, or an error.\<close>

lemma reply_object:
  assumes "handled freed S req"
  shows "\<exists>ms. reply_body freed S req = body (VObject ms) \<and> writable (VObject ms) \<and> no_double (VObject ms) \<and>
    ((\<exists>i v. answered S req i v \<and> VObject ms = VObject (response_ms i False v)) \<or>
     (\<exists>err det. VObject ms = the (wrapException freed err det)))"
proof (cases "refused freed S req")
  case True
  then obtain err ident det where h: "handleRequest freed S (body req @ crlf_str) = ([], Throw (RequestException err ident det))"
    by (auto simp: refused_def)
  obtain ms where ms: "the (wrapException freed err det) = VObject ms" by (simp add: wrapException_Some)
  have nd: "no_double (the (wrapException freed err det))" by (simp add: wrapException_Some)
  have "reply_body freed S req = body (the (wrapException freed err det))" by (simp only: reply_body_def h prod.case outcome.case rpc_exception.case)
  then have "reply_body freed S req = body (VObject ms) \<and> writable (VObject ms) \<and> no_double (VObject ms)"
    using nd writable_wrapException [of freed err det] unfolding ms by blast
  then show ?thesis using ms [symmetric] by blast
next
  case False
  then obtain i v where "answered S req i v" using assms by (auto simp: handled_def)
  then show ?thesis using answered_body [of S req i v freed] response_plain [of S req i v] by blast
qed

lemma reply_nth:
  "j < length (reply_bodies freed S reqs) \<Longrightarrow> j < length reqs \<and> reply_bodies freed S reqs ! j = reply_body freed S (reqs ! j) \<and>
     (\<forall>k < j. \<not> refused freed S (reqs ! k))"
  by (induction reqs arbitrary: j) (auto simp: nth_Cons less_Suc_eq_0_disj split: nat.split if_splits)

text \<open>Where the last byte of a body is in the stream.\<close>

definition answer_end :: "string list \<Rightarrow> nat \<Rightarrow> nat" where
  "answer_end bs j = length (concat (map message_of (take (Suc j) bs))) - 2"

lemma answer_end_at:
  "j < length bs \<Longrightarrow> answer_end bs j = length (concat (map message_of (take j bs))) +
    length (header_of (length (bs ! j) + 2)) + 2 + length (bs ! j)"
  by (simp add: answer_end_def take_Suc_conv_app_nth message_of_header)

lemma answer_end_mono: "j \<le> k \<Longrightarrow> answer_end bs j \<le> answer_end bs k"
proof -
  assume "j \<le> k"
  then have "take (Suc k) bs = take (Suc j) bs @ take (k - j) (drop (Suc j) bs)"
    using take_add [of "Suc j" "k - j" bs] by simp
  then show ?thesis by (simp add: answer_end_def)
qed

lemma frame_line:
  assumes b: "buffer_inv b" and f: "frame_header k b = Frame h n"
  shows "\<exists>line json m. readable b = line @ crlf_str @ json \<and> h = length line + 2 \<and>
    parse (line @ crlf_str) VNull = Some (PARSE_OK, VInt32 m)"
proof -
  obtain i where i: "findCRLF b = Some i" "h = i + 2"
    using f by (auto simp: frame_header_def Let_def split: option.splits if_splits prod.splits)
  then have "prefix KCRLF (drop i (readable b))"
    using std_search_prefix [of KCRLF "readable b"] std_search_le [of KCRLF "readable b"] length_readable [OF b]
    by (auto simp: findCRLF_def Let_def split: if_splits)
  then obtain json where "drop i (readable b) = crlf_str @ json" unfolding KCRLF_crlf_str by (auto simp: prefix_def)
  moreover define line where "line = take i (readable b)"
  ultimately have r: "readable b = line @ crlf_str @ json" by (metis append_take_drop_id)
  have "length line = i"
    using i(1) std_search_le [of KCRLF "readable b"] by (auto simp: line_def findCRLF_def Let_def split: if_splits)
  then have "\<exists>m. parse (line @ crlf_str) VNull = Some (PARSE_OK, VInt32 m)"
    using f i r unfolding frame_header_def
    by (auto simp: Let_def isInt32_def split: option.splits if_splits prod.splits)
  then show ?thesis using r \<open>length line = i\<close> i(2) by blast
qed

lemma take_all_front:
  assumes "buffer_inv b" "readable b = x @ r"
  shows "\<exists>b'. take_all b (length x) = Some (r, b') \<and> buffer_inv b' \<and> readable b' = []"
proof -
  obtain b1 where b1: "retrieve b (length x) = Some b1" "buffer_inv b1" "readable b1 = r @ []"
    using bq.skip_front [OF assms(1), of x r] assms(2) by auto
  then have "readableBytes b1 = length r" by (simp flip: length_readable)
  with bq.get_front [OF b1(2,3)] b1(1) show ?thesis
    by (auto simp: take_all_def retrieveAllAsString_def)
qed

lemma taken_is_reply:
  assumes n: "numbered freed S calls" and b: "buffer_inv b" and bs: "bs = reply_bodies freed S (map snd calls)"
    and pre: "prefix (p @ readable b) (concat (map message_of bs))"
    and f: "frame_header k b = Frame h l" and t: "take_all b h = Some (json, b')"
  shows "buffer_inv b' \<and> readable b' = [] \<and> (\<exists>j < length bs. length p < answer_end bs j \<and>
    (\<forall>v'. parse json VNull = Some (PARSE_OK, v') \<longrightarrow> answer_end bs j \<le> length (p @ readable b) \<and>
       ((\<exists>v. answered S (snd (calls ! j)) (word_of_nat j) v \<and> v' = VObject (response_ms (word_of_nat j) False v)) \<or>
        (\<exists>err det. v' = the (wrapException freed err det)))))"
proof -
  obtain line js m where l: "readable b = (line @ crlf_str) @ js" "h = length (line @ crlf_str)"
    "parse (line @ crlf_str) VNull = Some (PARSE_OK, VInt32 m)" using frame_line [OF b f] by auto
  have tk: "json = js" "buffer_inv b'" "readable b' = []" using take_all_front [OF b l(1)] t l(2) by auto
  have nth: "j < length calls" "handled freed S (snd (calls ! j))" "bs ! j = reply_body freed S (snd (calls ! j))"
    if "j < length bs" for j
    using reply_nth [OF that [unfolded bs]] numbered_handled [OF n] by (auto simp: bs)
  have bodies: "CHR 0x0D \<notin> set c \<and> (\<exists>y. c = y @ ''}'')" if c: "c \<in> set bs" for c
  proof -
    obtain j where j: "j < length bs" "c = bs ! j" using c by (auto simp: in_set_conv_nth)
    obtain ms where ms: "c = body (VObject ms)" "writable (VObject ms)" "no_double (VObject ms)"
      using reply_object [OF nth(2) [OF j(1)]] nth(3) [OF j(1)] j(2) by auto
    then show ?thesis using no_cr_layout(1) [OF _ ms(2,3), of "\<lambda>_. []" 0] by auto
  qed
  have "prefix ((p @ line) @ crlf_str @ json) (concat (map message_of bs))" using pre l(1) tk(1) by simp
  moreover have "\<forall>c \<in> set bs. CHR 0x0D \<notin> set c" using bodies by blast
  ultimately consider i z where "i < length bs"
      "p @ line = concat (map message_of (take i bs)) @ header_of (length (bs ! i) + 2)" "prefix json (bs ! i @ z)"
    | c where "c \<in> set bs" "suffix c (p @ line)" using stream_lines by blast
  then show ?thesis
  proof cases
    case (1 j z)
    note e = answer_end_at [OF 1(1)] and lu = arg_cong [OF 1(2), of length]
    have "length p < answer_end bs j" using e lu by simp
    moreover have "answer_end bs j \<le> length (p @ readable b) \<and>
        ((\<exists>v. answered S (snd (calls ! j)) (word_of_nat j) v \<and> v' = VObject (response_ms (word_of_nat j) False v)) \<or>
         (\<exists>err det. v' = the (wrapException freed err det)))"
      if ok: "parse json VNull = Some (PARSE_OK, v')" for v'
    proof -
      obtain ms where ms: "bs ! j = body (VObject ms)" "writable (VObject ms)" "no_double (VObject ms)"
        "(\<exists>i v. answered S (snd (calls ! j)) i v \<and> VObject ms = VObject (response_ms i False v)) \<or>
         (\<exists>err det. VObject ms = the (wrapException freed err det))"
        using reply_object [OF nth(2) [OF 1(1)]] unfolding nth(3) [OF 1(1), symmetric] by blast
      have v': "v' = VObject ms" "length (bs ! j) \<le> length json"
        using parse_response [OF ms(2,3) _ ok, of z] 1(3) prefix_length_le unfolding ms(1) by blast+
      have "i = word_of_nat j" if an: "answered S (snd (calls ! j)) i v" for i v
      proof -
        obtain v1 where a: "answered S (snd (calls ! j)) (word_of_nat j) v1"
          using n nth(1) [OF 1(1)] answered_not_refused [OF an, of freed] by (auto simp: numbered_def)
        show ?thesis using answeredD(1) [OF an, of freed] answeredD(1) [OF a, of freed] by (simp add: response_ms_def)
      qed
      then show ?thesis using v' ms(4) e lu l(1) tk(1) by auto
    qed
    ultimately show ?thesis using 1(1) tk(2,3) by blast
  next
    case (2 c)
    then obtain y where "c = y @ ''}''" using bodies by blast
    then have "suffix (y @ ''}'') (p @ line)" using 2(2) by simp
    then have "line \<noteq> [] \<longrightarrow> last line = CHR ''}''" by (auto simp: suffix_def dest: arg_cong [where f = last])
    moreover have "line \<noteq> []" "\<not> suffix ([] @ ''}'') line" using int32_line [OF l(3)] by blast+
    ultimately show ?thesis by (metis append_Nil append_butlast_last_id suffixI)
  qed
qed

lemma handleResponse_error:
  "parse json VNull = Some (PARSE_OK, the (wrapException freed err det)) \<Longrightarrow>
     \<exists>msg. handleResponse c json = (c, [], Throw (ResponseException msg None))"
  by (simp add: handleResponse_def wrapException_Some handleResponseSingle_def validateResponse_def)

text \<open>
  \<open>heard_calls\<close>: of these calls the callbacks called belong to the calls with increasing numbers \<open>ns\<close>,
  each with its own result, after its response was taken from the stream, which is read up to \<open>p\<close>; the
  callbacks that wait belong to other calls.
\<close>

definition heard_calls :: "(string \<Rightarrow> string) \<Rightarrow> RpcServer \<Rightarrow> ('cb \<times> JValue) list \<Rightarrow> (int \<rightharpoonup> 'cb) \<Rightarrow>
    'cb client_effect list \<Rightarrow> string \<Rightarrow> bool" where
  "heard_calls freed S calls m effs p \<longleftrightarrow> (\<exists>ns. sorted_wrt (<) ns \<and>
     (\<forall>n \<in> set ns. n < length (reply_bodies freed S (map snd calls)) \<and>
        answer_end (reply_bodies freed S (map snd calls)) n \<le> length p) \<and>
     list_all2 (\<lambda>n. fires S (calls ! n)) ns effs \<and>
     (\<forall>k cb. m k = Some cb \<longrightarrow>
        (\<exists>n < length calls. n \<notin> set ns \<and> k = sint (word_of_nat n :: 32 word) \<and> cb = fst (calls ! n))))"

lemma heard_on: "heard_calls freed S calls m effs p \<Longrightarrow> heard_calls freed S calls m effs (p @ q)"
  unfolding heard_calls_def length_append by (meson trans_le_add1)

lemma same_number:
  assumes "n < 2 ^ 32" "k < 2 ^ 32" "sint (word_of_nat n :: 32 word) = sint (word_of_nat k :: 32 word)"
  shows "n = k"
proof -
  have "unat (word_of_nat n :: 32 word) = unat (word_of_nat k :: 32 word)" using signed_word_eqI [OF assms(3)] by simp
  then show ?thesis using assms(1,2) by (simp add: unsigned_of_nat take_bit_nat_eq_self)
qed

lemma heard_fires:
  assumes n: "numbered freed S calls" and bs: "bs = reply_bodies freed S (map snd calls)"
    and h: "heard_calls freed S calls m effs p" and j: "j < length bs"
    and e: "length p < answer_end bs j" "answer_end bs j \<le> length q"
    and cb: "m (sint (word_of_nat j :: 32 word)) = Some cb" and v: "answered S (snd (calls ! j)) (word_of_nat j) v"
  shows "heard_calls freed S calls (m(sint (word_of_nat j :: 32 word) := None)) (effs @ [Callback cb v False]) q"
proof -
  obtain ns where ns: "sorted_wrt (<) ns" "\<forall>n \<in> set ns. n < length bs \<and> answer_end bs n \<le> length p"
    "list_all2 (\<lambda>n. fires S (calls ! n)) ns effs"
    "\<forall>k cb. m k = Some cb \<longrightarrow> (\<exists>n < length calls. n \<notin> set ns \<and> k = sint (word_of_nat n :: 32 word) \<and> cb = fst (calls ! n))"
    using h unfolding heard_calls_def bs by blast
  have jc: "j < length calls" using reply_nth j unfolding bs by fastforce
  have inj: "i = k" if "i < length calls" "k < length calls" "sint (word_of_nat i :: 32 word) = sint (word_of_nat k :: 32 word)" for i k
    using that n same_number [of i k] by (simp add: numbered_def)
  have "cb = fst (calls ! j)" using ns(4) cb inj [OF jc] by blast
  then have f: "fires S (calls ! j) (Callback cb v False)" using v unfolding fires_def by blast
  have before: "k < j" if "k \<in> set ns" for k
    using ns(2) that e(1) answer_end_mono [of j k bs] by (meson leI le_less_trans not_le)
  have "sorted_wrt (<) (ns @ [j])" using ns(1) before by (simp add: sorted_wrt_append)
  moreover have "\<forall>n \<in> set (ns @ [j]). n < length bs \<and> answer_end bs n \<le> length q"
    using ns(2) j e by fastforce
  moreover have "list_all2 (\<lambda>n. fires S (calls ! n)) (ns @ [j]) (effs @ [Callback cb v False])"
    using ns(3) f by (simp add: list_all2_appendI)
  moreover have "\<exists>n < length calls. n \<notin> set (ns @ [j]) \<and> k = sint (word_of_nat n :: 32 word) \<and> c = fst (calls ! n)"
    if "(m(sint (word_of_nat j :: 32 word) := None)) k = Some c" for k c
    using that ns(4) by (force split: if_splits)
  ultimately show ?thesis unfolding heard_calls_def bs by blast
qed

lemma empty_incomplete: "buffer_inv b \<Longrightarrow> readable b = [] \<Longrightarrow> clientHandleMessage c b = (b, c, [], Ret ())"
  by (simp add: clientHandleMessage.simps frame_header_def findCRLF_def length_readable [symmetric])

lemma client_hears:
  assumes n: "numbered freed S calls" and b: "buffer_inv b" and bs: "bs = reply_bodies freed S (map snd calls)"
    and pre: "prefix (p @ readable b) (concat (map message_of bs))"
    and h: "heard_calls freed S calls (idToResponse c) effs p" and run: "clientOnMessage c b = (b', c', effs', Ret u)"
  shows "\<exists>p'. p @ readable b = p' @ readable b' \<and> buffer_inv b' \<and> nextId c' = nextId c \<and>
    heard_calls freed S calls (idToResponse c') (effs @ effs') p'"
proof (cases "frame_header clientMaxMessageLen b")
  case (Invalid_length b1)
  then obtain n where "retrieve b n = Some b1"
    by (auto simp: frame_header_def Let_def split: option.splits if_splits prod.splits)
  moreover from this have "n \<le> length (readable b)" using retrieve_shrinks length_readable [OF b] by fastforce
  ultimately have "buffer_inv b1" "readable b = take n (readable b) @ readable b1"
    using bq.skip_front [OF b, of "take n (readable b)" "drop n (readable b)"] by auto
  moreover have "b' = b1" "c' = c" "effs' = []"
    using run Invalid_length by (simp_all add: clientOnMessage_def clientHandleMessage.simps)
  ultimately show ?thesis using heard_on [OF h] by (intro exI [of _ "p @ take n (readable b)"]) simp
next
  case (Frame hl bl)
  obtain json b1 where t: "take_all b hl = Some (json, b1)"
    using run Frame by (auto simp: clientOnMessage_def clientHandleMessage.simps [of c b] split: option.splits)
  from taken_is_reply [OF n b bs pre Frame t] obtain j where b1: "buffer_inv b1" "readable b1 = []" and j: "j < length bs"
    "length p < answer_end bs j" and ok: "\<And>v'. parse json VNull = Some (PARSE_OK, v') \<Longrightarrow>
      answer_end bs j \<le> length (p @ readable b) \<and>
      ((\<exists>v. answered S (snd (calls ! j)) (word_of_nat j) v \<and> v' = VObject (response_ms (word_of_nat j) False v)) \<or>
       (\<exists>err det. v' = the (wrapException freed err det)))"
    by blast
  have hm: "clientHandleMessage c b = (b1, handleResponse c json)"
    using Frame t by (simp add: clientHandleMessage.simps [of c b] empty_incomplete [OF b1] split: prod.splits outcome.splits)
  have same: "heard_calls freed S calls (idToResponse c) effs (p @ readable b)" using heard_on [OF h] .
  consider "\<And>v'. parse json VNull \<noteq> Some (PARSE_OK, v')"
    | err det where "parse json VNull = Some (PARSE_OK, the (wrapException freed err det))"
    | v where "answered S (snd (calls ! j)) (word_of_nat j) v" "answer_end bs j \<le> length (p @ readable b)"
        "parse json VNull = Some (PARSE_OK, VObject (response_ms (word_of_nat j) False v))"
    using ok by metis
  then show ?thesis
  proof cases
    case 1
    then have "b' = b1 \<and> c' = c \<and> effs' = []"
      using run hm by (auto simp: clientOnMessage_def handleResponse_def split: option.splits prod.splits if_splits)
    then show ?thesis using same b1 by (intro exI [of _ "p @ readable b"]) simp
  next
    case 2
    then obtain msg where "handleResponse c json = (c, [], Throw (ResponseException msg None))" using handleResponse_error by blast
    then show ?thesis using run hm same b1 by (intro exI [of _ "p @ readable b"]) (simp add: clientOnMessage_def)
  next
    case (3 v)
    show ?thesis
    proof (cases "idToResponse c (sint (word_of_nat j :: 32 word))")
      case None
      then show ?thesis using run hm same b1 by (intro exI [of _ "p @ readable b"]) (simp add: clientOnMessage_def handleResponse_object [OF 3(3)])
    next
      case (Some cb)
      then have "b' = b1" "c' = c\<lparr>idToResponse := (idToResponse c)(sint (word_of_nat j :: 32 word) := None)\<rparr>"
        "effs' = [Callback cb v False]" using run hm by (simp_all add: clientOnMessage_def handleResponse_object [OF 3(3)])
      then show ?thesis using heard_fires [OF n bs h j 3(2) Some 3(1)] b1 by (intro exI [of _ "p @ readable b"]) simp
    qed
  qed
qed (use run h b in \<open>auto simp: clientOnMessage_def clientHandleMessage.simps\<close>)

section \<open>The system\<close>

text \<open>
  A call that the server answers or refuses may be made at any time, up to \<open>2 ^ 32\<close> of them (then the
  numbers repeat).
\<close>

fun pipe_legal :: "(string \<Rightarrow> string) \<Rightarrow> RpcServer \<Rightarrow> 'cb rpc_action \<Rightarrow> 'cb RpcSystem \<Rightarrow> bool" where
  "pipe_legal freed S (ClientCalls call cb w) s =
     (length (made s) < 2 ^ 32 \<and>
      (callable S (nextId (rpcClient s)) call \<or>
       (\<exists>req. addMember call ''id'' (VInt32 (nextId (rpcClient s))) = Some req \<and> refused freed S req)) \<and>
      (case sendCall (rpcClient s) call cb of
         Some (cl, req, CSend m) \<Rightarrow> write_ok (length m) w \<and> no_fault w | _ \<Rightarrow> False))"
| "pipe_legal freed S a s = system_legal freed S a s"

definition pipe_reach :: "(string \<Rightarrow> string) \<Rightarrow> RpcServer \<Rightarrow> 'cb RpcSystem \<Rightarrow> bool" where
  "pipe_reach freed S = reached RpcSystem_new (acts (pipe_legal freed S) (system_do freed S))"

definition pipe_inv :: "(string \<Rightarrow> string) \<Rightarrow> RpcServer \<Rightarrow> 'cb RpcSystem \<Rightarrow> bool" where
  "pipe_inv freed S s \<longleftrightarrow> numbered freed S (made s) \<and> nextId (rpcClient s) = word_of_nat (length (made s)) \<and>
     rpc_conn_ok (requests (made s)) (clientConn s) \<and> is_open (clientConn s) \<and>
     server_ok freed S (map snd (made s)) (serverSide s) \<and>
     prefix (concat (chunks (serverSide s))) (wire (clientConn s)) \<and>
     prefix (clientRead s) (wire (rpcConn (serverSide s))) \<and>
     (\<exists>p. clientRead s = p @ readable (inputBuffer (clientConn s)) \<and>
        heard_calls freed S (made s) (idToResponse (rpcClient s)) (fired s) p)"

lemma numbered_more:
  "numbered freed S calls \<Longrightarrow> length calls < 2 ^ 32 \<Longrightarrow>
     (\<exists>v. answered S (snd x) (word_of_nat (length calls)) v) \<or> refused freed S (snd x) \<Longrightarrow> numbered freed S (calls @ [x])"
  by (auto simp: numbered_def nth_append less_Suc_eq)

lemma answer_end_more: "j < length bs \<Longrightarrow> answer_end (bs @ xs) j = answer_end bs j"
  by (simp add: answer_end_def)

lemma heard_more:
  assumes "heard_calls freed S calls m effs p" "length calls < 2 ^ 32"
  shows "heard_calls freed S (calls @ [(cb, req)]) (m(sint (word_of_nat (length calls) :: 32 word) \<mapsto> cb)) effs p"
proof -
  let ?bs = "\<lambda>calls. reply_bodies freed S (map snd calls)" and ?calls = "calls @ [(cb, req)]"
  obtain ns where ns: "sorted_wrt (<) ns" "\<forall>n \<in> set ns. n < length (?bs calls) \<and> answer_end (?bs calls) n \<le> length p"
    "list_all2 (\<lambda>n. fires S (calls ! n)) ns effs"
    "\<forall>k cb. m k = Some cb \<longrightarrow> (\<exists>n < length calls. n \<notin> set ns \<and> k = sint (word_of_nat n :: 32 word) \<and> cb = fst (calls ! n))"
    using assms(1) unfolding heard_calls_def by blast
  have nc: "n < length calls" if "n \<in> set ns" for n using ns(2) that reply_nth [of n freed S "map snd calls"] by simp
  obtain more where more: "?bs ?calls = ?bs calls @ more" by (simp add: reply_bodies_append)
  have "list_all2 (\<lambda>n. fires S (?calls ! n)) ns effs"
    using ns(3) nc by (fastforce simp: list_all2_conv_all_nth nth_append)
  moreover have "\<forall>n \<in> set ns. n < length (?bs ?calls) \<and> answer_end (?bs ?calls) n \<le> length p"
    using ns(2) unfolding more by (auto simp: answer_end_more)
  moreover have "\<exists>n < length ?calls. n \<notin> set ns \<and> k = sint (word_of_nat n :: 32 word) \<and> c = fst (?calls ! n)"
    if k: "(m(sint (word_of_nat (length calls) :: 32 word) \<mapsto> cb)) k = Some c" for k c
  proof (cases "k = sint (word_of_nat (length calls) :: 32 word)")
    case True
    then show ?thesis using k nc by (intro exI [of _ "length calls"]) auto
  next
    case False
    then obtain n where "n < length calls" "n \<notin> set ns" "k = sint (word_of_nat n :: 32 word)" "c = fst (calls ! n)"
      using k ns(4) by auto
    then show ?thesis by (intro exI [of _ n]) (simp add: nth_append)
  qed
  ultimately show ?thesis using ns(1) unfolding heard_calls_def by blast
qed

lemma pipe_new: "RpcSystem_new s \<Longrightarrow> pipe_inv freed S s"
proof -
  assume s: "RpcSystem_new s"
  have inv: "system_inv freed S s" using system_inv_new [OF s] .
  then obtain d x where c: "made s = d @ x" "rpc_conn_ok (requests (made s)) (clientConn s)" "is_open (clientConn s)"
    "clientRead s = concat (map (reply freed S) (map snd d)) @ readable (inputBuffer (clientConn s))"
    unfolding system_inv_def client_ok_def by blast
  have "heard_calls freed S [] Map.empty [] []" by (simp add: heard_calls_def)
  then show ?thesis using s inv c by (simp add: pipe_inv_def system_inv_def RpcSystem_new_def numbered_def BaseClient_new_def)
qed

interpretation many: rpc_links freed S "pipe_inv freed S" for freed S
proof
  fix s :: "'a RpcSystem" and c :: TcpConnection and e :: RpcConn
  assume inv: "pipe_inv freed S s"
  show "\<forall>req \<in> set (map snd (made s)). handled freed S req"
    by (rule numbered_handled) (use inv in \<open>simp add: pipe_inv_def\<close>)
  show "pipe_inv freed S (s\<lparr>clientConn := c\<rparr>)"
    if "\<And>es. rpc_conn_ok es (clientConn s) \<Longrightarrow> rpc_conn_ok es c" "state c = state (clientConn s)"
      "inputBuffer c = inputBuffer (clientConn s)" "prefix (wire (clientConn s)) (wire c)"
    using inv that prefix_order.trans unfolding pipe_inv_def by (auto simp: is_open_def)
qed (auto simp: pipe_inv_def intro: prefix_order.trans)

lemma pipe_client_calls:
  assumes inv: "pipe_inv freed S s" and legal: "pipe_legal freed S (ClientCalls call cb w) s"
  shows "\<exists>s'. system_do freed S (ClientCalls call cb w) s = Some s' \<and> pipe_inv freed S s'"
proof -
  let ?i = "nextId (rpcClient s)" and ?cl = "rpcClient s"
  have i: "?i = word_of_nat (length (made s))" and n: "numbered freed S (made s)" "length (made s) < 2 ^ 32"
    using inv legal by (simp_all add: pipe_inv_def)
  obtain req where req: "addMember call ''id'' (VInt32 ?i) = Some req" and a: "(\<exists>v. answered S req ?i v) \<or> refused freed S req"
    using legal by (auto simp: callable_def)
  note m = sendCall_message [OF req, of cb]
  have w: "write_ok (length (message_of (body req))) w" "no_fault w" using legal m by auto
  obtain c where c: "send True w (message_of (body req)) (clientConn s) = Some c"
    "rpc_conn_ok (requests (made s @ [(cb, req)])) c" "is_open c" "inputBuffer c = inputBuffer (clientConn s)"
    using send_effect [of "requests (made s)" "clientConn s", OF _ _ w] inv by (auto simp: requests_def pipe_inv_def)
  let ?s = "s\<lparr>rpcClient := ?cl\<lparr>idToResponse := (idToResponse ?cl)(sint ?i \<mapsto> cb), nextId := ?i + 1\<rparr>, clientConn := c,
    made := made s @ [(cb, req)]\<rparr>"
  have "numbered freed S (made s @ [(cb, req)])" using numbered_more [OF n, of "(cb, req)"] a i by simp
  moreover have "heard_calls freed S (made s @ [(cb, req)]) ((idToResponse ?cl)(sint ?i \<mapsto> cb)) (fired s) p"
    if "heard_calls freed S (made s) (idToResponse ?cl) (fired s) p" for p using heard_more [OF that n(2)] unfolding i .
  moreover have "prefix (concat (chunks (serverSide s))) (wire c)"
    using inv send_wire [OF c(1)] prefix_order.trans unfolding pipe_inv_def by blast
  ultimately have "pipe_inv freed S ?s" using inv c i server_more unfolding pipe_inv_def by (auto simp: add.commute)
  then show ?thesis using m c(1) by (intro exI [of _ ?s]) (simp add: client_calls_def)
qed

lemma pipe_client_reads:
  assumes inv: "pipe_inv freed S s" and legal: "pipe_legal freed S (ClientReads n) s"
    and d: "system_do freed S (ClientReads n) s = Some s'"
  shows "pipe_inv freed S s'"
proof -
  let ?x = "take n (to_client s)" and ?c = "clientConn s"
  note pre = many.link_replies [OF inv, of n]
  have x: "?x \<noteq> []" "read_ok (inputBuffer ?c) (ReadvData ?x)" using legal by auto
  have ok: "rpc_conn_ok (requests (made s)) ?c" "is_open ?c" "numbered freed S (made s)" using inv by (simp_all add: pipe_inv_def)
  obtain p where p: "clientRead s = p @ readable (inputBuffer ?c)"
    "heard_calls freed S (made s) (idToResponse (rpcClient s)) (fired s) p" using inv by (auto simp: pipe_inv_def)
  obtain c where c: "handleRead (ReadvData ?x) ?c = Some c" "rpc_conn_ok (requests (made s)) c" "is_open c" "wire c = wire ?c"
    "readable (inputBuffer c) = readable (inputBuffer ?c) @ ?x" using conn_reads [OF ok(1,2) x] by blast
  have bi: "buffer_inv (inputBuffer c)" using c(2) by (simp add: rpc_conn_ok_def conn_inv_def)
  obtain b cl effs u where r: "clientOnMessage (rpcClient s) (inputBuffer c) = (b, cl, effs, Ret u)"
    and s': "s' = s\<lparr>rpcClient := cl, clientConn := c\<lparr>inputBuffer := b\<rparr>, clientRead := clientRead s @ ?x, fired := fired s @ effs\<rparr>"
    using d c(1) by (auto simp: client_reads_def split: prod.splits outcome.splits)
  have "prefix (p @ readable (inputBuffer c)) (concat (map message_of (reply_bodies freed S (map snd (made s)))))" using pre(2) p(1) c(5) by simp
  from client_hears [OF ok(3) bi refl this p(2) r] obtain p' where p': "p @ readable (inputBuffer c) = p' @ readable b"
    "buffer_inv b" "nextId cl = nextId (rpcClient s)" "heard_calls freed S (made s) (idToResponse cl) (fired s @ effs) p'" by blast
  have "clientRead s @ ?x = p' @ readable b" using p'(1) p(1) c(5) by simp
  moreover have "is_open (c\<lparr>inputBuffer := b\<rparr>)" using c(3) by (simp add: is_open_def)
  ultimately show ?thesis using inv p'(3,4) conn_input [OF c(2) p'(2)] c(4) pre(1) s' unfolding pipe_inv_def by auto
qed

lemma pipe_legal_other: "pipe_legal freed S a s \<Longrightarrow> (\<exists>call cb w. a = ClientCalls call cb w) \<or> system_legal freed S a s"
  by (cases a) auto

interpretation pipe: step_system RpcSystem_new "acts (pipe_legal freed S) (system_do freed S)" "pipe_inv freed S" for freed S
proof
  show "pipe_inv freed S s" if "RpcSystem_new s" for s :: "'a RpcSystem" using that by (rule pipe_new)
  show "pipe_inv freed S s'" if st: "acts (pipe_legal freed S) (system_do freed S) s s'" and inv: "pipe_inv freed S s" for s s' :: "'a RpcSystem"
  proof -
    obtain a where a: "pipe_legal freed S a s" "system_do freed S a s = Some s'" using st by (auto simp: acts_def)
    consider call cb w where "a = ClientCalls call cb w" | n where "a = ClientReads n"
      | s1 where "system_do freed S a s = Some s1" "pipe_inv freed S s1"
      using pipe_legal_other [OF a(1)] many.link_act [OF inv, of a] by blast
    then show ?thesis
    proof cases
      case 1
      then show ?thesis using pipe_client_calls [OF inv] a by fastforce
    next
      case 2
      then show ?thesis using pipe_client_reads [OF inv] a by blast
    qed (use a in simp)
  qed
qed

lemma pipe_reach_inv: "pipe_reach freed S s \<Longrightarrow> pipe_inv freed S s"
  unfolding pipe_reach_def by (rule pipe.reached_inv)

lemma pipe_act:
  assumes "pipe_reach freed S s" "pipe_legal freed S a s" "\<forall>n. a \<noteq> ClientReads n"
  shows "\<exists>s'. system_do freed S a s = Some s' \<and> pipe_reach freed S s'"
proof -
  note inv = pipe_reach_inv [OF assms(1)]
  obtain s' where s': "system_do freed S a s = Some s'"
    using pipe_legal_other [OF assms(2)] many.link_act [OF inv, of a] pipe_client_calls [OF inv] assms(2,3) by blast
  then have "acts (pipe_legal freed S) (system_do freed S) s s'" using assms(2) by (auto simp: acts_def)
  then show ?thesis using reached_step [of RpcSystem_new _ s s'] assms(1) s' unfolding pipe_reach_def by blast
qed

lemma pipe_call:
  assumes r: "pipe_reach freed S s" "length (made s) < 2 ^ 32"
    and req: "addMember call ''id'' (VInt32 (word_of_nat (length (made s)))) = Some req"
    and a: "answered S req (word_of_nat (length (made s))) v \<or> refused freed S req"
  shows "\<exists>s'. pipe_reach freed S s' \<and> made s' = made s @ [(cb, req)] \<and> fired s' = fired s"
proof -
  have i: "nextId (rpcClient s) = word_of_nat (length (made s))" using pipe_reach_inv [OF r(1)] by (simp add: pipe_inv_def)
  note m = sendCall_message [OF req [folded i], of cb]
  have "pipe_legal freed S (ClientCalls call cb (WriteError EAGAIN)) s"
    using r(2) req a m i by (auto simp: callable_def write_ok_def no_fault_def)
  then obtain s' where s': "system_do freed S (ClientCalls call cb (WriteError EAGAIN)) s = Some s'" "pipe_reach freed S s'"
    using pipe_act [OF r(1)] by blast
  have "made s' = made s @ [(cb, req)]" "fired s' = fired s" using s'(1) m by (auto simp: client_calls_def)
  then show ?thesis using s'(2) by blast
qed

text \<open>Calls made one after the other are a special case.\<close>

lemma reads_made: "client_reads x s = Some s' \<Longrightarrow> made s' = made s"
proof -
  assume r: "client_reads x s = Some s'"
  then obtain c where c: "handleRead (ReadvData x) (clientConn s) = Some c" by (auto simp: client_reads_def bind_eq_Some_conv)
  obtain b cl effs out where m: "clientOnMessage (rpcClient s) (inputBuffer c) = (b, cl, effs, out)" by (metis prod_cases4)
  show ?thesis using r c m by (cases out) (auto simp: client_reads_def)
qed

lemma made_grows: "system_do freed S a s = Some s' \<Longrightarrow> length (made s) \<le> length (made s') \<and>
  (\<forall>call cb w. a = ClientCalls call cb w \<longrightarrow> length (made s) < length (made s'))"
  by (cases a) (auto simp: client_calls_def on_client_def on_server_def dest: reads_made
      split: option.split_asm prod.split_asm client_effect.split_asm outcome.split_asm)

lemma one_by_one: "system_reach freed S s \<Longrightarrow> length (made s) \<le> 2 ^ 32 \<Longrightarrow> pipe_reach freed S s"
  unfolding system_reach_def pipe_reach_def
proof (induction rule: reached.induct)
  case (reached_step s s')
  then obtain a where a: "system_legal freed S a s" "system_do freed S a s = Some s'" by (auto simp: acts_def)
  note g = made_grows [OF a(2)]
  have "pipe_legal freed S a s" using a(1) g reached_step.prems by (cases a) auto
  then have "acts (pipe_legal freed S) (system_do freed S) s s'" using a(2) by (auto simp: acts_def)
  then show ?case using reached_step.IH reached_step.prems g reached.reached_step by fastforce
qed (rule reached_initial)

end
