(* ===== verification/NetTcpClient.thy ===== *)
theory NetTcpClient
  imports NetThreads TcpConnection TimerFacts
begin

text \<open>
  \<open>NetServer/Connector.cpp\<close> and \<open>TcpClient.cpp\<close>: the attempt to connect, its repetition every
  three seconds, and the one connection of the client, in the loop with its channels and timers.
  What the kernel answers is an argument. \<open>None\<close> is a failed assertion, an access to an object
  that was deleted (or to the null pointer) or an overflow of the clock. \<open>createSocket\<close> has no return
  statement, which is undefined behaviour: everything here is said of a build in which its caller gets
  the descriptor all the same.
\<close>

section \<open>Connector\<close>

record Connector =
  conConnected :: bool
  conStarted :: bool
  conChannel :: Channel

definition Connector_new :: Connector where
  "Connector_new = \<lparr>conConnected = False, conStarted = False, conChannel = Channel_new\<rparr>"

datatype connect_result = ConnectOk | ConnectInProgress | ConnectFailed

text \<open>What \<open>handleWrite\<close> calls: the error callback, or the client's \<open>newConnection\<close>.\<close>

datatype connector_callback = ConnectError | NewSocket

text \<open>\<open>err\<close> is \<open>errno\<close> after \<open>getsockopt\<close>, 0 if the socket is connected.\<close>

definition connector_handleWrite :: "nat \<Rightarrow> Connector \<Rightarrow> (Connector \<times> connector_callback) option" where
  "connector_handleWrite err k =
     (if \<not> conStarted k then None
      else map_option (\<lambda>ch.
        if err \<noteq> 0 then (k\<lparr>conChannel := ch\<rparr>, ConnectError)
        else (k\<lparr>conChannel := ch, conConnected := True\<rparr>, NewSocket)) (removeChannel (conChannel k)))"

definition connector_start ::
    "connect_result \<Rightarrow> Connector \<Rightarrow> (Connector \<times> connector_callback option) option" where
  "connector_start r k =
     (if conStarted k then None
      else let k1 = k\<lparr>conStarted := True\<rparr>
           in case r of
                ConnectFailed \<Rightarrow> map_option (\<lambda>(k2, e). (k2, Some e)) (connector_handleWrite 1 k1)
              | ConnectInProgress \<Rightarrow>
                  map_option (\<lambda>ch. (k1\<lparr>conChannel := ch\<rparr>, None)) (enableWrite (conChannel k1))
              | ConnectOk \<Rightarrow> map_option (\<lambda>(k2, e). (k2, Some e)) (connector_handleWrite 0 k1))"

section \<open>TcpClient\<close>

text \<open>\<open>retryTimer\<close> is a pointer into the heap of timers, 0 the null pointer.\<close>

record TcpClient =
  clientConnected :: bool
  retryTimer :: nat
  connector :: Connector
  connection :: "TcpConnection option"
  countLatch :: CountDownLatch

definition TcpClient_new :: TcpClient where
  "TcpClient_new = \<lparr>clientConnected = False, retryTimer = 0, connector = Connector_new,
     connection = None, countLatch = CountDownLatch_new 1\<rparr>"

text \<open>
  The client in its loop: \<open>generation\<close> numbers the connectors (each has its own channel),
  \<open>activeChannels\<close> are the channels that \<open>epoll_wait\<close> reported and that are not handled yet;
  \<open>startQueued\<close>: \<open>start\<close> was called on another thread and its task waits in the loop.
  \<open>created\<close> counts the connections, \<open>released\<close> are those handed to \<open>connectDestroyed\<close>.
\<close>

datatype client_channel = ConnectorChannel nat | TimerChannel

record ClientSystem =
  client :: TcpClient
  clientTimers :: "unit TimerQueue"
  generation :: nat
  activeChannels :: "client_channel list"
  startQueued :: bool
  created :: nat
  released :: "TcpConnection list"

definition ClientSystem_new :: ClientSystem where
  "ClientSystem_new = \<lparr>client = TcpClient_new, clientTimers = TimerQueue_new, generation = 0,
     activeChannels = [], startQueued = False, created = 0, released = []\<rparr>"

text \<open>\<open>newConnection\<close> up to \<open>countDown_.countDown()\<close>, after which other threads see the connection.\<close>

definition publishConnection :: "ClientSystem \<Rightarrow> ClientSystem option" where
  "publishConnection s =
     map_option (\<lambda>q. s\<lparr>clientTimers := q, created := Suc (created s),
         client := (client s)\<lparr>retryTimer := 0, clientConnected := True,
           connection := Some (TcpConnection_new False None),
           countLatch := countDown (countLatch (client s))\<rparr>\<rparr>)
       (cancelTimer (retryTimer (client s)) (clientTimers s))"

definition establishConnection :: "ClientSystem \<Rightarrow> ClientSystem option" where
  "establishConnection s =
     (case connection (client s) of
        None \<Rightarrow> None
      | Some c \<Rightarrow> map_option (\<lambda>c1. s\<lparr>client := (client s)\<lparr>connection := Some c1\<rparr>\<rparr>) (connectEstablished c))"

definition client_newConnection :: "ClientSystem \<Rightarrow> ClientSystem option" where
  "client_newConnection s = Option.bind (publishConnection s) establishConnection"

definition set_connector :: "Connector \<Rightarrow> ClientSystem \<Rightarrow> ClientSystem" where
  "set_connector k s = s\<lparr>client := (client s)\<lparr>connector := k\<rparr>\<rparr>"

fun connector_calls :: "connector_callback \<Rightarrow> ClientSystem \<Rightarrow> ClientSystem option" where
  "connector_calls ConnectError s = Some s"
| "connector_calls NewSocket s = client_newConnection s"

definition client_connect :: "connect_result \<Rightarrow> ClientSystem \<Rightarrow> ClientSystem option" where
  "client_connect r s =
     Option.bind (connector_start r (connector (client s))) (\<lambda>(k, cb).
       case cb of None \<Rightarrow> Some (set_connector k s) | Some e \<Rightarrow> connector_calls e (set_connector k s))"

definition retryInterval :: int where
  "retryInterval = 3000000000"

definition startRetryTimer :: "int \<Rightarrow> ClientSystem \<Rightarrow> ClientSystem option" where
  "startRetryTimer now s =
     (if fits64 (now + retryInterval)
      then map_option (\<lambda>(p, q). s\<lparr>clientTimers := q, client := (client s)\<lparr>retryTimer := p\<rparr>\<rparr>)
        (addTimer (Some ()) (now + retryInterval) retryInterval (clientTimers s))
      else None)"

text \<open>\<open>TcpClient::start\<close> on the loop's thread.\<close>

definition client_start :: "connect_result \<Rightarrow> int \<Rightarrow> ClientSystem \<Rightarrow> ClientSystem option" where
  "client_start r now s = Option.bind (client_connect r s) (startRetryTimer now)"

definition client_retry :: "connect_result \<Rightarrow> ClientSystem \<Rightarrow> ClientSystem option" where
  "client_retry r s =
     (if clientConnected (client s) then Some s
      else client_connect r (set_connector Connector_new s\<lparr>generation := Suc (generation s)\<rparr>))"

definition client_closeConnection :: "TcpConnection \<Rightarrow> ClientSystem \<Rightarrow> ClientSystem option" where
  "client_closeConnection c s =
     (if connection (client s) = None then None
      else Some (s\<lparr>client := (client s)\<lparr>connection := None\<rparr>, released := released s @ [c]\<rparr>))"

text \<open>\<open>getTcpConnection\<close>: \<open>None\<close> if the caller goes to sleep.\<close>

definition getTcpConnection :: "TcpClient \<Rightarrow> TcpConnection option option" where
  "getTcpConnection c = (if fst (latch_wait (countLatch c)) then Some (connection c) else None)"

text \<open>The destructor: a connection is closed by force, the timer cancelled.\<close>

definition client_destroy :: "ClientSystem \<Rightarrow> (unit TimerQueue \<times> TcpConnection option) option" where
  "client_destroy s =
     (let conn = map_option (\<lambda>c. if \<not> disconnected c then forceClose c else c) (connection (client s))
      in if retryTimer (client s) \<noteq> 0
         then map_option (\<lambda>q. (q, conn)) (cancelTimer (retryTimer (client s)) (clientTimers s))
         else Some (clientTimers s, conn))"

section \<open>Runs\<close>

text \<open>
  \<open>StartThere\<close>: \<open>start\<close> on another thread, whose task \<open>RunStart\<close> takes from the loop's queue;
  the timer is set by that other thread later (\<open>SetTimer\<close>; its insertion, a task of its own, is
  taken together with it). \<open>Reported\<close>: \<open>epoll_wait\<close> returns; \<open>Handle\<close>: the next active channel
  is handled, with the answers of \<open>getsockopt\<close>, the clock and \<open>connect\<close>. The timer's callback
  runs inside \<open>timerRead\<close>; as it does not touch the timers without failing
  (\<open>fresh_connector_start\<close>), it is taken after it.
\<close>

datatype client_event = StartHere connect_result int | StartThere | RunStart connect_result
  | SetTimer int | Reported "client_channel list" | Handle nat int connect_result | PeerCloses

fun client_do :: "client_event \<Rightarrow> ClientSystem \<Rightarrow> ClientSystem option" where
  "client_do (StartHere r now) s = client_start r now s"
| "client_do StartThere s = Some (s\<lparr>startQueued := True\<rparr>)"
| "client_do (RunStart r) s = client_connect r (s\<lparr>startQueued := False\<rparr>)"
| "client_do (SetTimer now) s = startRetryTimer now s"
| "client_do (Reported chs) s = Some (s\<lparr>activeChannels := chs\<rparr>)"
| "client_do (Handle err now r) s =
     (case activeChannels s of
        [] \<Rightarrow> Some s
      | ConnectorChannel n # chs \<Rightarrow>
          if n \<noteq> generation s then None
          else Option.bind (connector_handleWrite err (connector (client s)))
                 (\<lambda>(k, e). connector_calls e (set_connector k s\<lparr>activeChannels := chs\<rparr>))
      | TimerChannel # chs \<Rightarrow>
          Option.bind (timerRead (\<lambda>_. []) now (clientTimers s)) (\<lambda>q.
            let s1 = s\<lparr>clientTimers := q, activeChannels := chs\<rparr>
            in if ran q \<noteq> ran (clientTimers s) then client_retry r s1 else Some s1))"
| "client_do PeerCloses s =
     (case connection (client s) of
        None \<Rightarrow> Some s
      | Some c \<Rightarrow> Option.bind (handleClose c) (\<lambda>c1. client_closeConnection c1 s))"

text \<open>
  A run of a client that is started once, on its loop's thread, whose connects do not complete at
  once, for which \<open>epoll_wait\<close> never reports the timer before the connector, and whose clock does not
  run out.
\<close>

definition connector_active :: "ClientSystem \<Rightarrow> bool" where
  "connector_active s \<longleftrightarrow> chState (conChannel (connector (client s))) = IN"

fun client_legal :: "client_event \<Rightarrow> ClientSystem \<Rightarrow> bool" where
  "client_legal (StartHere r now) s \<longleftrightarrow>
     r = ConnectInProgress \<and> \<not> conStarted (connector (client s)) \<and> activeChannels s = [] \<and> fits64 (now + retryInterval)"
| "client_legal (Reported chs) s \<longleftrightarrow> activeChannels s = [] \<and>
     (chs \<in> {[], [TimerChannel]} \<or>
      connector_active s \<and> chs \<in> {[ConnectorChannel (generation s)], [ConnectorChannel (generation s), TimerChannel]})"
| "client_legal (Handle err now r) s \<longleftrightarrow> r = ConnectInProgress \<and> fits64 (now + retryInterval)"
| "client_legal PeerCloses s \<longleftrightarrow> True"
| "client_legal a s \<longleftrightarrow> False"

definition client_reach :: "ClientSystem \<Rightarrow> bool" where
  "client_reach = reached (\<lambda>s. s = ClientSystem_new) (acts client_legal client_do)"

lemma client_init: "client_reach ClientSystem_new"
  by (simp add: client_reach_def reached_initial)

end
