(* ===== verification/NetTcpClientFacts.thy ===== *)
theory NetTcpClientFacts
  imports NetTcpClient
begin

text \<open>
  The life of a client: it tries every three seconds until it is connected, makes one connection
  and cancels its timer; and the ways in which that goes wrong.
\<close>

section \<open>Channels and connections of the client\<close>

definition waiting :: Channel where
  "waiting = \<lparr>chState = IN, events = EPOLLOUT, ctl = [EpollAdd EPOLLOUT]\<rparr>"

definition removed :: Channel where
  "removed = \<lparr>chState = OUT, events = 0, ctl = [EpollAdd EPOLLOUT, EpollDel]\<rparr>"

lemma waiting_channel:
  "enableWrite Channel_new = Some waiting" "removeChannel waiting = Some removed"
  "removeChannel Channel_new = None"
  by (simp_all add: channel_op_defs updateChannel_def Channel_new_def waiting_def removed_def
      isNoneEvents_def EPOLLOUT_def)

lemma fresh_connector_start:
  assumes "\<not> conStarted k" "conChannel k = Channel_new"
  shows "connector_start r k =
    (if r = ConnectInProgress then Some (k\<lparr>conStarted := True, conChannel := waiting\<rparr>, None) else None)"
  using assms by (cases r) (simp_all add: connector_start_def connector_handleWrite_def waiting_channel Let_def)

definition reading :: Channel where
  "reading = \<lparr>chState = IN, events = EPOLLIN OR EPOLLPRI, ctl = [EpollAdd (EPOLLIN OR EPOLLPRI)]\<rparr>"

definition established :: TcpConnection where
  "established = (TcpConnection_new False None)\<lparr>state := kConnected, channel := reading,
     called := [ConnectionCb True]\<rparr>"

lemma connect_new: "connectEstablished (TcpConnection_new False None) = Some established"
  by (simp add: connectEstablished_def on_channel_def callback_def TcpConnection_new_def established_def
      reading_def channel_op_defs updateChannel_def isNoneEvents_def Channel_new_def EPOLLIN_def EPOLLPRI_def)

lemma close_established: "\<exists>c. handleClose established = Some c \<and> disconnected c"
  by (simp add: established_def handleClose_def on_channel_def reading_def channel_op_defs updateChannel_def
      isNoneEvents_def callback_def disconnected_def)

section \<open>The timer of the client\<close>

lemma timerRead_plain:
  assumes "timer_inv q" "\<forall>p t. heap q p = Some t \<longrightarrow> fits64 (now + interval t)"
  shows "\<exists>q'. timerRead (\<lambda>_. []) now q = Some q' \<and> timer_inv q' \<and>
    ran q' = ran q @ callbacks_of q (filter (\<lambda>e. fst e \<le> now) (timers q)) \<and>
    heap q' = (\<lambda>p. Option.bind (heap q p) (\<lambda>t. if whenT t \<le> now then served now t else Some t))"
proof -
  obtain q' where q': "timerRead (\<lambda>_. []) now q = Some q'" "timer_inv q'"
    "ran q' = ran q @ callbacks_of q (filter (\<lambda>e. fst e \<le> now) (timers q))"
    "\<forall>p < fresh q. heap q' p = Option.bind (heap q p) (\<lambda>t. if whenT t \<le> now then served now t else Some t)"
    using timerRead_ok [OF assms(1), of "\<lambda>_. []" now] assms(2) by (auto simp: only_adds_def restarts_fit_def)
  have "heap q' p = Option.bind (heap q p) (\<lambda>t. if whenT t \<le> now then served now t else Some t)" for p
  proof (cases "p < fresh q")
    case False
    then have "heap q p = None" "heap q' p = None"
      using assms q'(2) timerRead_fresh [OF q'(1)] by (auto simp: timer_inv_def queue_ok_def)
    then show ?thesis by simp
  qed (use q'(4) in simp)
  then show ?thesis using q' by auto
qed

lemma timers_empty: "timer_inv q \<Longrightarrow> heap q = Map.empty \<Longrightarrow> timers q = []"
  by (auto simp: timer_inv_def queue_ok_def entries_of_def)

lemma distinct_singleton: "distinct xs \<Longrightarrow> set xs = {x} \<Longrightarrow> xs = [x]"
  by (cases xs; cases "tl xs") auto

lemma timers_single:
  assumes "timer_inv q" "heap q = [p \<mapsto> t]"
  shows "timers q = [(whenT t, p)]"
proof -
  have "entries_of q = {(whenT t, p)}"
    by (auto simp: entries_of_def assms(2) split: if_splits)
  then have "set (timers q) = {(whenT t, p)}" "sorted_wrt (<) (timers q)"
    using assms(1) by (simp_all add: timer_inv_def queue_ok_def)
  then have "set (timers q) = {(whenT t, p)}" "distinct (timers q)"
    by (simp_all add: strict_sorted_iff)
  then show ?thesis using distinct_singleton [of "timers q"] by simp
qed

definition retrying :: "unit Timer \<Rightarrow> bool" where
  "retrying t \<longleftrightarrow> timerCallback t = Some () \<and> interval t = retryInterval \<and> repeat t"

section \<open>The invariant\<close>

definition idle :: "ClientSystem \<Rightarrow> bool" where
  "idle s \<longleftrightarrow> client s = TcpClient_new \<and> heap (clientTimers s) = Map.empty \<and> created s = 0 \<and> released s = []"

definition trying :: "ClientSystem \<Rightarrow> bool" where
  "trying s \<longleftrightarrow> \<not> clientConnected (client s) \<and> created s = 0 \<and> released s = [] \<and> connection (client s) = None \<and>
     getCount (countLatch (client s)) = 1 \<and> conStarted (connector (client s)) \<and>
     conChannel (connector (client s)) \<in> {waiting, removed} \<and> retryTimer (client s) \<noteq> 0 \<and>
     (\<exists>t. heap (clientTimers s) = [retryTimer (client s) \<mapsto> t] \<and> retrying t)"

definition linked :: "ClientSystem \<Rightarrow> bool" where
  "linked s \<longleftrightarrow> clientConnected (client s) \<and> created s = 1 \<and> getCount (countLatch (client s)) = 0 \<and>
     conStarted (connector (client s)) \<and> conChannel (connector (client s)) = removed \<and>
     retryTimer (client s) = 0 \<and> heap (clientTimers s) = Map.empty \<and>
     (connection (client s) = Some established \<and> released s = [] \<or>
      connection (client s) = None \<and> (\<exists>c. released s = [c] \<and> disconnected c))"

definition client_inv :: "ClientSystem \<Rightarrow> bool" where
  "client_inv s \<longleftrightarrow> timer_inv (clientTimers s) \<and> (idle s \<or> trying s \<or> linked s) \<and>
     (activeChannels s \<in> {[], [TimerChannel]} \<or>
      trying s \<and> conChannel (connector (client s)) = waiting \<and>
      activeChannels s \<in> {[ConnectorChannel (generation s)], [ConnectorChannel (generation s), TimerChannel]})"

lemma client_init_inv: "client_inv ClientSystem_new"
  using timer_inv_new
  by (simp add: client_inv_def idle_def ClientSystem_new_def TimerQueue_new_def)

lemma start_ok:
  assumes inv: "client_inv s" and "\<not> conStarted (connector (client s))" "activeChannels s = []" and fit: "fits64 (now + retryInterval)"
  shows "\<exists>s'. client_start ConnectInProgress now s = Some s' \<and> client_inv s'"
proof -
  have i: "idle s" "timer_inv (clientTimers s)"
    using inv assms(2) by (auto simp: client_inv_def trying_def linked_def)
  let ?k = "Connector_new\<lparr>conStarted := True, conChannel := waiting\<rparr>"
  have c: "client_connect ConnectInProgress s = Some (set_connector ?k s)"
    using i(1) fresh_connector_start [of Connector_new ConnectInProgress]
    by (simp add: client_connect_def idle_def TcpClient_new_def Connector_new_def)
  obtain q where q: "addTimer (Some ()) (now + retryInterval) retryInterval (clientTimers s)
      = Some (fresh (clientTimers s), q)" "timer_inv q"
    "heap q = (heap (clientTimers s))(fresh (clientTimers s) \<mapsto> Timer_new (Some ()) (now + retryInterval) retryInterval)"
    using addTimer_ok [of "[]" "clientTimers s" "Some ()" "now + retryInterval" retryInterval] i(2)
    by (auto simp: timer_inv_def)
  have "fresh (clientTimers s) \<noteq> 0" using i(2) by (auto simp: timer_inv_def queue_ok_def)
  then show ?thesis
    using c q i(1) assms(3) fit
    by (auto simp: client_start_def startRetryTimer_def set_connector_def client_inv_def trying_def idle_def
        TcpClient_new_def CountDownLatch_new_def getCount_def retrying_def Timer_new_def retryInterval_def)
qed

lemma connector_event_ok:
  assumes inv: "client_inv s" and act: "activeChannels s = ConnectorChannel n # chs"
  shows "\<exists>s'. client_do (Handle err now r) s = Some s' \<and> client_inv s'"
proof -
  have t: "trying s" "conChannel (connector (client s)) = waiting" "n = generation s" "chs \<in> {[], [TimerChannel]}"
    and q: "timer_inv (clientTimers s)"
    using inv act by (auto simp: client_inv_def)
  let ?k = "(connector (client s))\<lparr>conChannel := removed\<rparr>"
  show ?thesis
  proof (cases "err = 0")
    case False
    then have "client_do (Handle err now r) s = Some (set_connector ?k s\<lparr>activeChannels := chs\<rparr>)"
      using t act by (simp add: connector_handleWrite_def trying_def waiting_channel)
    then show ?thesis
      using t q by (auto simp: client_inv_def trying_def set_connector_def)
  next
    case True
    obtain tm where tm: "heap (clientTimers s) = [retryTimer (client s) \<mapsto> tm]"
      using t(1) by (auto simp: trying_def)
    obtain q' where q': "cancelTimer (retryTimer (client s)) (clientTimers s) = Some q'" "timer_inv q'"
      "heap q' = Map.empty"
      using cancelTimer_ok [of "clientTimers s" "retryTimer (client s)" tm] q tm
      by (auto simp: timer_inv_def)
    show ?thesis
      using t q' act True
      by (auto simp: connector_handleWrite_def trying_def waiting_channel client_newConnection_def
          publishConnection_def establishConnection_def set_connector_def connect_new client_inv_def linked_def
          getCount_def countDown_def Let_def)
  qed
qed

lemma connector_connects:
  assumes inv: "client_inv s" and act: "activeChannels s = ConnectorChannel n # chs"
  shows "\<exists>s'. client_do (Handle 0 now r) s = Some s' \<and> created s' = 1 \<and> connection (client s') \<noteq> None"
proof -
  have t: "trying s" "conChannel (connector (client s)) = waiting" "n = generation s"
    and q: "timer_inv (clientTimers s)"
    using inv act by (auto simp: client_inv_def)
  obtain tm where tm: "heap (clientTimers s) = [retryTimer (client s) \<mapsto> tm]" using t(1) by (auto simp: trying_def)
  obtain q' where "cancelTimer (retryTimer (client s)) (clientTimers s) = Some q'"
    using cancelTimer_ok [of "clientTimers s" "retryTimer (client s)" tm] q tm by (auto simp: timer_inv_def)
  then show ?thesis using t act
    by (auto simp: connector_handleWrite_def trying_def waiting_channel client_newConnection_def
        publishConnection_def establishConnection_def set_connector_def connect_new)
qed

lemma timers_fit:
  "client_inv s \<Longrightarrow> fits64 (now + retryInterval) \<Longrightarrow> \<forall>p t. heap (clientTimers s) p = Some t \<longrightarrow> fits64 (now + interval t)"
  by (auto simp: client_inv_def idle_def trying_def linked_def retrying_def split: if_splits)

lemma timer_event_ok:
  assumes inv: "client_inv s" and act: "activeChannels s = TimerChannel # chs" and fit: "fits64 (now + retryInterval)"
  shows "\<exists>s'. client_do (Handle err now ConnectInProgress) s = Some s' \<and> client_inv s' \<and>
    (\<forall>t. trying s \<and> heap (clientTimers s) (retryTimer (client s)) = Some t \<and> whenT t \<le> now \<longrightarrow>
      generation s' = Suc (generation s) \<and> connector (client s') = Connector_new\<lparr>conStarted := True, conChannel := waiting\<rparr> \<and>
      heap (clientTimers s') = [retryTimer (client s) \<mapsto> t\<lparr>whenT := now + retryInterval\<rparr>])"
proof -
  have chs: "chs = []" and q: "timer_inv (clientTimers s)" using inv act by (auto simp: client_inv_def)
  obtain q' where q': "timerRead (\<lambda>_. []) now (clientTimers s) = Some q'" "timer_inv q'"
    "ran q' = ran (clientTimers s) @ callbacks_of (clientTimers s) (filter (\<lambda>e. fst e \<le> now) (timers (clientTimers s)))"
    "heap q' = (\<lambda>p. Option.bind (heap (clientTimers s) p) (\<lambda>t. if whenT t \<le> now then served now t else Some t))"
    using timerRead_plain [OF q timers_fit [OF inv fit]] by blast
  let ?s = "s\<lparr>clientTimers := q', activeChannels := []\<rparr>"
  show ?thesis
  proof (cases "trying s")
    case False
    then have empty: "heap (clientTimers s) = Map.empty" using inv by (auto simp: client_inv_def idle_def linked_def)
    then have "ran q' = ran (clientTimers s)" "heap q' = Map.empty"
      using q' timers_empty [OF q] by (simp_all add: callbacks_of_def map_filter_simps)
    then have "client_do (Handle err now ConnectInProgress) s = Some ?s"
      using q'(1) act chs by simp
    moreover have "idle ?s \<or> linked ?s"
      using False inv \<open>heap q' = Map.empty\<close> by (auto simp: client_inv_def idle_def linked_def)
    then have "client_inv ?s" using q'(2) unfolding client_inv_def by auto
    ultimately show ?thesis using False by blast
  next
    case True
    then obtain t where t: "heap (clientTimers s) = [retryTimer (client s) \<mapsto> t]" "retrying t"
      by (auto simp: trying_def)
    have ts: "timers (clientTimers s) = [(whenT t, retryTimer (client s))]" using timers_single [OF q t(1)] .
    show ?thesis
    proof (cases "whenT t \<le> now")
      case False
      then have "ran q' = ran (clientTimers s)" "heap q' = heap (clientTimers s)"
        using q'(3,4) ts t(1) by (auto simp: callbacks_of_def map_filter_simps fun_eq_iff)
      then have "client_do (Handle err now ConnectInProgress) s = Some ?s" using q'(1) act chs by simp
      moreover have "client_inv ?s"
        using True t q'(2) \<open>heap q' = heap (clientTimers s)\<close> by (auto simp: client_inv_def trying_def)
      ultimately show ?thesis using t(1) False by simp
    next
      case due: True
      have r: "ran q' \<noteq> ran (clientTimers s)"
        using q'(3) ts t due by (simp add: callbacks_of_def map_filter_simps retrying_def)
      have h: "heap q' = [retryTimer (client s) \<mapsto> t\<lparr>whenT := now + interval t\<rparr>]"
        using q'(4) t due by (auto simp: served_def retrying_def fun_eq_iff)
      have "retrying (t\<lparr>whenT := now + interval t\<rparr>)" using t(2) by (simp add: retrying_def)
      then have "client_inv (set_connector (Connector_new\<lparr>conStarted := True, conChannel := waiting\<rparr>)
          (?s\<lparr>generation := Suc (generation s)\<rparr>))"
        using True q'(2) h by (auto simp: client_inv_def trying_def set_connector_def)
      then show ?thesis
        using q'(1) r act chs True fresh_connector_start [of Connector_new ConnectInProgress] t h
        by (simp add: retrying_def client_retry_def client_connect_def trying_def set_connector_def Connector_new_def)
    qed
  qed
qed

lemma client_do_ok:
  assumes inv: "client_inv s" and legal: "client_legal a s"
  shows "\<exists>s'. client_do a s = Some s' \<and> client_inv s'"
proof (cases a)
  case (StartHere r now)
  then show ?thesis using start_ok [OF inv] legal by simp
next
  case (Reported chs)
  have "conChannel (connector (client s)) = waiting \<and> trying s" if "connector_active s"
    using that inv
    by (auto simp: connector_active_def client_inv_def idle_def linked_def trying_def removed_def
        TcpClient_new_def Connector_new_def Channel_new_def)
  then show ?thesis
    using inv legal Reported by (auto simp: client_inv_def idle_def linked_def trying_def)
next
  case (Handle err now r)
  then have r: "r = ConnectInProgress" "fits64 (now + retryInterval)" using legal by simp_all
  show ?thesis
  proof (cases "activeChannels s")
    case (Cons c chs)
    then show ?thesis
      using connector_event_ok [OF inv] timer_event_ok [OF inv _ r(2)] Handle r(1) by (cases c) blast+
  qed (use inv Handle in simp)
next
  case PeerCloses
  show ?thesis
  proof (cases "connection (client s)")
    case (Some c)
    then have c: "c = established" "linked s" using inv by (auto simp: client_inv_def idle_def linked_def trying_def TcpClient_new_def)
    obtain c1 where "handleClose established = Some c1" "disconnected c1" using close_established by blast
    then show ?thesis
      using c Some inv PeerCloses
      by (auto simp: client_closeConnection_def client_inv_def linked_def idle_def trying_def)
  qed (use inv PeerCloses in simp)
qed (use legal in simp_all)

interpretation client: machine "\<lambda>s. s = ClientSystem_new" client_legal client_do client_inv
  by unfold_locales (simp add: client_init_inv, erule (1) client_do_ok)

lemma client_reach_inv: "client_reach s \<Longrightarrow> client_inv s"
  unfolding client_reach_def by (rule client.steps.reached_inv)


fun client_run :: "client_event list \<Rightarrow> ClientSystem \<Rightarrow> ClientSystem option" where
  "client_run [] s = Some s"
| "client_run (a # as) s = Option.bind (client_do a s) (client_run as)"

lemma reach_trying:
  assumes "client_reach s" "retryTimer (client s) \<noteq> 0"
  shows "trying s"
  using client_reach_inv [OF assms(1)] assms(2)
  by (auto simp: client_inv_def idle_def linked_def TcpClient_new_def)

lemma publish_early:
  assumes "client_reach s" "publishConnection s = Some s1"
  shows "getTcpConnection (client s1) = Some (Some (TcpConnection_new False None))"
proof -
  have "retryTimer (client s) \<noteq> 0"
  proof
    assume "retryTimer (client s) = 0"
    moreover have "heap (clientTimers s) 0 = None"
      using client_reach_inv [OF assms(1)] by (simp add: client_inv_def timer_inv_def queue_ok_def)
    ultimately show False using assms(2) by (simp add: publishConnection_def cancelTimer_def)
  qed
  then show ?thesis
    using reach_trying [OF assms(1)] assms(2)
    by (auto simp: trying_def publishConnection_def getTcpConnection_def latch_wait_def countDown_def
        getCount_def Let_def)
qed

lemma timerRead_overflow:
  assumes q: "timer_inv q" and h: "heap q = [p \<mapsto> t]" "retrying t" and now: "whenT t \<le> now" "\<not> fits64 (now + interval t)"
  shows "timerRead (\<lambda>_. []) now q = None"
proof -
  have ts: "timers q = [(whenT t, p)]" using timers_single [OF q h(1)] .
  have c: "\<not> canceled t" using q h(1) by (simp add: timer_inv_def queue_ok_def)
  have "getExpired now (q\<lparr>armed := None\<rparr>) = ([(whenT t, p)], q\<lparr>armed := None, timers := []\<rparr>)"
    using now(1) by (simp add: getExpired_def Let_def ts less_prod_def)
  then show ?thesis
    using h c now by (simp add: timerRead_def timer_expired_def timer_run_def retrying_def timer_restart_def)
qed

lemma retry_under_connector:
  assumes reach: "client_reach s" and t: "retryTimer (client s) \<noteq> 0"
    "heap (clientTimers s) (retryTimer (client s)) = Some t" "whenT t \<le> now"
  shows "client_run [Reported [TimerChannel, ConnectorChannel (generation s)],
    Handle err1 now ConnectInProgress, Handle err2 now2 r] s = None"
proof -
  have tr: "trying s" using reach_trying [OF reach t(1)] .
  have q: "timer_inv (clientTimers s)" using client_reach_inv [OF reach] by (simp add: client_inv_def)
  have h: "heap (clientTimers s) = [retryTimer (client s) \<mapsto> t]" "retrying t"
    using tr t(2) by (auto simp: trying_def)
  show ?thesis
  proof (cases "fits64 (now + interval t)")
    case True
    then have "\<forall>p t. heap (clientTimers s) p = Some t \<longrightarrow> fits64 (now + interval t)" using h(1) by simp
    from timerRead_plain [OF q this] obtain q' where q': "timerRead (\<lambda>_. []) now (clientTimers s) = Some q'"
      "ran q' = ran (clientTimers s) @ callbacks_of (clientTimers s) (filter (\<lambda>e. fst e \<le> now) (timers (clientTimers s)))"
      by blast
    have "ran q' \<noteq> ran (clientTimers s)"
      using q'(2) timers_single [OF q h(1)] h t(3) by (simp add: callbacks_of_def map_filter_simps retrying_def)
    then show ?thesis
      using q'(1) tr fresh_connector_start [of Connector_new ConnectInProgress]
      by (simp add: client_retry_def client_connect_def trying_def set_connector_def Connector_new_def)
  next
    case False
    then show ?thesis using timerRead_overflow [OF q h t(3)] by simp
  qed
qed

section \<open>Properties\<close>

text \<open>
  C32: a client that is started once in its loop never fails an assertion, as long as its connects
  are in progress when \<open>connect\<close> returns, the timer is never reported before the connector and the clock
  does not run out (\<open>client_legal\<close>; \<open>client_faults\<close> shows that the first two are needed). Until it is
  connected it keeps a timer of three seconds; whenever that is due the client tries again with a
  connector of its own, which waits for its socket, and the timer is set again; when the socket is there
  it makes the connection; it makes one at most, and from then on it has no timer: when the peer closes,
  the client does not connect again.
\<close>

theorem client_lifecycle:
  assumes "client_reach s"
  shows "created s \<le> 1 \<and> (clientConnected (client s) \<longleftrightarrow> created s = 1) \<and>
    (conStarted (connector (client s)) \<and> \<not> clientConnected (client s) \<longrightarrow>
      (\<exists>t. heap (clientTimers s) = [retryTimer (client s) \<mapsto> t] \<and> interval t = retryInterval \<and> repeat t \<and>
        (\<forall>err now chs. activeChannels s = TimerChannel # chs \<and> whenT t \<le> now \<and> fits64 (now + retryInterval) \<longrightarrow>
          (\<exists>s'. client_do (Handle err now ConnectInProgress) s = Some s' \<and> generation s' = Suc (generation s) \<and>
            connector (client s') = Connector_new\<lparr>conStarted := True, conChannel := waiting\<rparr> \<and>
            heap (clientTimers s') = [retryTimer (client s) \<mapsto> t\<lparr>whenT := now + retryInterval\<rparr>])))) \<and>
    (\<forall>n chs now r. activeChannels s = ConnectorChannel n # chs \<longrightarrow>
      (\<exists>s'. client_do (Handle 0 now r) s = Some s' \<and> created s' = 1 \<and> connection (client s') \<noteq> None)) \<and>
    (clientConnected (client s) \<longrightarrow> timers (clientTimers s) = [] \<and>
      (connection (client s) = None \<longleftrightarrow> released s \<noteq> [])) \<and>
    (client_legal a s \<longrightarrow> (\<exists>s'. client_do a s = Some s'))"
proof -
  have inv: "client_inv s" using client_reach_inv [OF assms] .
  have em: "timers (clientTimers s) = []" if "linked s"
    using timers_empty [of "clientTimers s"] that inv unfolding linked_def client_inv_def by blast
  have le: "client_legal a s \<longrightarrow> (\<exists>s'. client_do a s = Some s')"
    using client_do_ok [OF inv] by blast
  have st: "idle s \<or> trying s \<or> linked s" using inv by (simp add: client_inv_def)
  have re: "\<exists>s'. client_do (Handle err now ConnectInProgress) s = Some s' \<and> generation s' = Suc (generation s) \<and>
      connector (client s') = Connector_new\<lparr>conStarted := True, conChannel := waiting\<rparr> \<and>
      heap (clientTimers s') = [retryTimer (client s) \<mapsto> t\<lparr>whenT := now + retryInterval\<rparr>]"
    if "trying s" "heap (clientTimers s) = [retryTimer (client s) \<mapsto> t]" "activeChannels s = TimerChannel # chs"
      "whenT t \<le> now" "fits64 (now + retryInterval)" for err now chs t
    using timer_event_ok [OF inv that(3,5), of err] that(1,2,4) by fastforce
  have "conStarted (connector (client s)) \<and> \<not> clientConnected (client s) \<longrightarrow> trying s"
    using st by (auto simp: idle_def linked_def TcpClient_new_def Connector_new_def)
  moreover have "\<exists>t. heap (clientTimers s) = [retryTimer (client s) \<mapsto> t] \<and> interval t = retryInterval \<and> repeat t \<and>
        (\<forall>err now chs. activeChannels s = TimerChannel # chs \<and> whenT t \<le> now \<and> fits64 (now + retryInterval) \<longrightarrow>
          (\<exists>s'. client_do (Handle err now ConnectInProgress) s = Some s' \<and> generation s' = Suc (generation s) \<and>
            connector (client s') = Connector_new\<lparr>conStarted := True, conChannel := waiting\<rparr> \<and>
            heap (clientTimers s') = [retryTimer (client s) \<mapsto> t\<lparr>whenT := now + retryInterval\<rparr>]))" if tr: "trying s"
  proof -
    obtain t where t: "heap (clientTimers s) = [retryTimer (client s) \<mapsto> t]" "retrying t" using tr by (auto simp: trying_def)
    show ?thesis using re [OF tr t(1)] t by (intro exI [of _ t]) (simp add: retrying_def)
  qed
  moreover have "\<exists>s'. client_do (Handle 0 now r) s = Some s' \<and> created s' = 1 \<and> connection (client s') \<noteq> None"
    if "activeChannels s = ConnectorChannel n # chs" for n chs now r
    using connector_connects [OF inv that] .
  moreover have "created s \<le> 1 \<and> (clientConnected (client s) \<longleftrightarrow> created s = 1) \<and> (clientConnected (client s) \<longrightarrow>
      timers (clientTimers s) = [] \<and> (connection (client s) = None \<longleftrightarrow> released s \<noteq> []))"
    using st em by (auto simp: idle_def trying_def linked_def TcpClient_new_def)
  ultimately show ?thesis using le by simp
qed

theorem client_lifecycle_witness:
  "\<exists>s. client_reach s \<and> created s = 1 \<and> connection (client s) = None \<and> timers (clientTimers s) = []"
proof -
  have run: "\<exists>s'. client_do a s = Some s' \<and> client_reach s'" if "client_reach s" "client_legal a s" for a s
    using client.never_fails [of s a] that by (auto simp: client_reach_def)
  obtain s1 where s1: "client_do (StartHere ConnectInProgress 0) ClientSystem_new = Some s1" "client_reach s1"
    using run [OF client_init, of "StartHere ConnectInProgress 0"]
    by (auto simp: ClientSystem_new_def TcpClient_new_def Connector_new_def fits64_def retryInterval_def)
  have f1: "activeChannels s1 = []" "generation s1 = 0" "conChannel (connector (client s1)) = waiting"
    using s1(1) waiting_channel fresh_connector_start [of Connector_new ConnectInProgress]
    by (auto simp: client_start_def client_connect_def startRetryTimer_def set_connector_def ClientSystem_new_def
        TcpClient_new_def Connector_new_def Channel_new_def split: if_splits)
  obtain s2 where s2: "client_do (Reported [ConnectorChannel 0]) s1 = Some s2" "client_reach s2"
    using run [OF s1(2), of "Reported [ConnectorChannel 0]"] f1
    by (auto simp: connector_active_def waiting_def)
  obtain s3 where s3: "client_do (Handle 0 0 ConnectInProgress) s2 = Some s3" "client_reach s3"
    using run [OF s2(2), of "Handle 0 0 ConnectInProgress"] by (auto simp: fits64_def retryInterval_def)
  have "created s3 = 1" using client_lifecycle [OF s3(2)] s2(1) s3(1) f1
    by (auto simp: bind_eq_Some_conv connector_handleWrite_def client_newConnection_def publishConnection_def
        establishConnection_def split: option.splits if_splits)
  obtain s4 where s4: "client_do PeerCloses s3 = Some s4" "client_reach s4"
    using run [OF s3(2), of PeerCloses] by auto
  have "created s4 = created s3" "connection (client s4) = None"
    using s4(1) by (auto simp: client_closeConnection_def bind_eq_Some_conv split: option.splits if_splits)
  then show ?thesis using client_lifecycle [OF s4(2)] s4(2) \<open>created s3 = 1\<close> by auto
qed

text \<open>
  C33: the client fails in four ways. A connect that succeeds or fails at once removes a channel
  that was never registered. When \<open>start\<close> is called on another thread, the connection may be
  there before that thread has set the timer, and the null pointer is cancelled. When the timer
  expires in the same round in which the connector gets its event, and comes first, the channel
  of the deleted connector is used. And \<open>getTcpConnection\<close> returns before the connection is
  established: what is sent then is dropped, and a shutdown makes \<open>connectEstablished\<close> abort.
\<close>

theorem client_faults:
  assumes "client_reach s"
  shows "(r \<noteq> ConnectInProgress \<longrightarrow> client_do (StartHere r now) ClientSystem_new = None) \<and>
    client_run [StartThere, RunStart ConnectInProgress, Reported [ConnectorChannel 0], Handle 0 now r]
      ClientSystem_new = None \<and>
    (retryTimer (client s) \<noteq> 0 \<and> heap (clientTimers s) (retryTimer (client s)) = Some t \<and> whenT t \<le> now \<longrightarrow>
      client_run [Reported [TimerChannel, ConnectorChannel (generation s)],
        Handle err now ConnectInProgress, Handle 0 now r] s = None) \<and>
    (publishConnection s = Some s1 \<longrightarrow> (\<exists>c. getTcpConnection (client s1) = Some (Some c) \<and>
      send False w dat c = Some c \<and> Option.bind (shutdown False c) connectEstablished = None))"
proof (intro conjI impI)
  show "client_do (StartHere r now) ClientSystem_new = None" if "r \<noteq> ConnectInProgress"
    using that fresh_connector_start [of Connector_new r]
    by (simp add: client_start_def client_connect_def ClientSystem_new_def TcpClient_new_def Connector_new_def)
  show "client_run [StartThere, RunStart ConnectInProgress, Reported [ConnectorChannel 0], Handle 0 now r]
      ClientSystem_new = None"
    using fresh_connector_start [of Connector_new ConnectInProgress]
    by (simp add: client_connect_def ClientSystem_new_def TcpClient_new_def Connector_new_def set_connector_def
        connector_handleWrite_def waiting_channel client_newConnection_def publishConnection_def
        cancelTimer_def TimerQueue_new_def)
next
  assume "retryTimer (client s) \<noteq> 0 \<and> heap (clientTimers s) (retryTimer (client s)) = Some t \<and> whenT t \<le> now"
  then show "client_run [Reported [TimerChannel, ConnectorChannel (generation s)],
      Handle err now ConnectInProgress, Handle 0 now r] s = None"
    using retry_under_connector [OF assms] by blast
next
  assume "publishConnection s = Some s1"
  from publish_early [OF assms this]
  show "\<exists>c. getTcpConnection (client s1) = Some (Some c) \<and> send False w dat c = Some c \<and>
      Option.bind (shutdown False c) connectEstablished = None"
    by (simp add: TcpConnection_new_def send_def shutdown_def stateAtomicGetAndSet_def connectEstablished_def)
qed

theorem client_faults_witness:
  "client_reach ClientSystem_new \<and> client_do (StartHere ConnectOk 0) ClientSystem_new = None"
  using client_faults [OF client_init, of ConnectOk 0] client_init by simp

end
