(* ===== verification/LogLine.thy ===== *)
theory LogLine
  imports Prelude
begin

text \<open>
  \<open>LogServer/log_line.hpp\<close> and \<open>log_line.cpp\<close>: a log line is encoded into a byte buffer, on
  the stack up to 256 bytes and on the heap beyond, and turned into text later. Values are kept
  in the machine's representation (little endian, 8-byte pointers); a string literal is kept as
  its address, \<open>lit\<close> gives the string there. \<open>None\<close> is a write outside the buffer or a read
  beyond the bytes written (where the loop of \<open>stringify\<close>, which tests for equality with the end,
  runs on). Bytes that the program has not written are 0 here; nothing reads them. How the C++ library prints thread ids,
  doubles and calendar times is a parameter.
\<close>

section \<open>Representation of values\<close>

fun le_bytes :: "nat \<Rightarrow> nat \<Rightarrow> string" where
  "le_bytes 0 n = []"
| "le_bytes (Suc k) n = char_of (n mod 256) # le_bytes k (n div 256)"

fun le_val :: "string \<Rightarrow> nat" where
  "le_val [] = 0"
| "le_val (c # s) = of_char c + 256 * le_val s"

datatype LogLevel = TRACE | DEBUG | INFO | WARN | ERROR | FATAL

fun level_code :: "LogLevel \<Rightarrow> nat" where
  "level_code TRACE = 0" | "level_code DEBUG = 1" | "level_code INFO = 2"
| "level_code WARN = 3" | "level_code ERROR = 4" | "level_code FATAL = 5"

text \<open>\<open>to_string\<close> of the byte read back, \<open>XXXX\<close> if it is not a level.\<close>

definition level_to_string :: "nat \<Rightarrow> string" where
  "level_to_string level =
     (if level = 0 then ''TRACE'' else if level = 1 then ''DEBUG'' else if level = 2 then ''INFO''
      else if level = 3 then ''WARN'' else if level = 4 then ''ERROR'' else if level = 5 then ''FATAL''
      else ''XXXX'')"

section \<open>The buffer\<close>

record LogLine =
  bufferUsed :: nat
  bufferSize :: nat
  heapBuffer :: "string option"
  stackBuffer :: string

definition LogLine_empty :: LogLine where
  "LogLine_empty = \<lparr>bufferUsed = 0, bufferSize = 256, heapBuffer = None,
     stackBuffer = replicate 256 (CHR 0x00)\<rparr>"

definition storage :: "LogLine \<Rightarrow> string" where
  "storage l = (case heapBuffer l of None \<Rightarrow> stackBuffer l | Some h \<Rightarrow> h)"

definition store :: "string \<Rightarrow> LogLine \<Rightarrow> LogLine" where
  "store buf l = (case heapBuffer l of None \<Rightarrow> l\<lparr>stackBuffer := buf\<rparr>
                  | Some _ \<Rightarrow> l\<lparr>heapBuffer := Some buf\<rparr>)"

text \<open>Writing at \<open>buffer()\<close> and advancing \<open>m_buffer_used\<close>: the untyped \<open>encode\<close>.\<close>

definition encode_raw :: "string \<Rightarrow> LogLine \<Rightarrow> LogLine option" where
  "encode_raw bs l =
     (if bufferUsed l + length bs \<le> length (storage l)
      then Some ((store (copy_to (bufferUsed l) bs (storage l)) l)\<lparr>bufferUsed := bufferUsed l + length bs\<rparr>)
      else None)"

definition resize_if_need :: "nat \<Rightarrow> LogLine \<Rightarrow> LogLine" where
  "resize_if_need need_size l =
     (let required_size = bufferUsed l + need_size
      in if required_size \<le> bufferSize l then l
         else case heapBuffer l of
                Some h \<Rightarrow>
                  (let n = max (2 * bufferSize l) required_size
                   in l\<lparr>bufferSize := n,
                        heapBuffer := Some (copy_to 0 (take (bufferUsed l) h) (replicate n (CHR 0x00)))\<rparr>)
              | None \<Rightarrow>
                  (let n = max 512 required_size
                   in l\<lparr>bufferSize := n,
                        heapBuffer := Some (copy_to 0 (take (bufferUsed l) (stackBuffer l))
                          (replicate n (CHR 0x00)))\<rparr>))"

definition encode_typed :: "nat \<Rightarrow> string \<Rightarrow> LogLine \<Rightarrow> LogLine option" where
  "encode_typed type_id bs l =
     Option.bind (encode_raw (le_bytes 1 type_id) (resize_if_need (length bs + 1) l)) (encode_raw bs)"

text \<open>\<open>encode_c_str\<close>: the string with its final NUL, in one copy; nothing for an empty string.\<close>

definition encode_c_str :: "string \<Rightarrow> LogLine \<Rightarrow> LogLine option" where
  "encode_c_str str l =
     (if length str = 0 then Some l
      else encode_raw (le_bytes 1 7 @ str @ [CHR 0x00]) (resize_if_need (1 + length str + 1) l))"

definition LogLine_new ::
    "64 word \<Rightarrow> 64 word \<Rightarrow> LogLevel \<Rightarrow> 64 word \<Rightarrow> 64 word \<Rightarrow> 32 word \<Rightarrow> LogLine option" where
  "LogLine_new timestamp tid level file func line =
     Option.bind (encode_raw (le_bytes 8 (unat timestamp)) LogLine_empty) (\<lambda>l.
     Option.bind (encode_raw (le_bytes 8 (unat tid)) l) (\<lambda>l.
     Option.bind (encode_raw (le_bytes 8 (unat file)) l) (\<lambda>l.
     Option.bind (encode_raw (le_bytes 8 (unat func)) l) (\<lambda>l.
     Option.bind (encode_raw (le_bytes 4 (unat line)) l) (\<lambda>l.
     encode_raw (le_bytes 1 (level_code level)) l)))))"

section \<open>Arguments\<close>

text \<open>
  The arguments of \<open>operator<<\<close>. \<open>ArgStr\<close> is a \<open>std::string\<close> of these bytes, \<open>ArgCStr\<close> a
  \<open>const char*\<close>, \<open>None\<close> for a null pointer; a string literal is one of these.
\<close>

datatype log_arg = ArgChar char | ArgU32 "32 word" | ArgU64 "64 word" | ArgI32 "32 word"
  | ArgI64 "64 word" | ArgDouble "64 word" | ArgStr string | ArgCStr "string option"

fun log_put :: "log_arg \<Rightarrow> LogLine \<Rightarrow> LogLine option" where
  "log_put (ArgChar c) l = encode_typed 0 [c] l"
| "log_put (ArgU32 x) l = encode_typed 1 (le_bytes 4 (unat x)) l"
| "log_put (ArgU64 x) l = encode_typed 2 (le_bytes 8 (unat x)) l"
| "log_put (ArgI32 x) l = encode_typed 3 (le_bytes 4 (unat x)) l"
| "log_put (ArgI64 x) l = encode_typed 4 (le_bytes 8 (unat x)) l"
| "log_put (ArgDouble x) l = encode_typed 5 (le_bytes 8 (unat x)) l"
| "log_put (ArgStr s) l = encode_c_str s l"
| "log_put (ArgCStr None) l = Some l"
| "log_put (ArgCStr (Some s)) l = encode_c_str (takeWhile (\<lambda>c. c \<noteq> CHR 0x00) s) l"

fun log_puts :: "log_arg list \<Rightarrow> LogLine \<Rightarrow> LogLine option" where
  "log_puts [] l = Some l"
| "log_puts (a # as) l = Option.bind (log_put a l) (log_puts as)"

section \<open>Text\<close>

record printers =
  showTid :: "64 word \<Rightarrow> string"
  showDouble :: "64 word \<Rightarrow> string"
  showSeconds :: "nat \<Rightarrow> string"
  lit :: "64 word \<Rightarrow> string"

definition pad6 :: "nat \<Rightarrow> string" where
  "pad6 n = replicate (6 - length (nat_to_string n)) (CHR ''0'') @ nat_to_string n"

definition format_timestamp :: "printers \<Rightarrow> 64 word \<Rightarrow> string" where
  "format_timestamp pr timestamp =
     ''['' @ showSeconds pr (unat timestamp div 1000000) @ pad6 (unat timestamp mod 1000000) @ '']''"

text \<open>
  \<open>decode\<close> of a fixed-size value: the bytes are taken and printed. \<open>stringify\<close> of the
  arguments goes from \<open>begin\<close> to \<open>end\<close>; a type it does not know is skipped.
\<close>

definition decode_fixed :: "nat \<Rightarrow> (nat \<Rightarrow> string) \<Rightarrow> string \<Rightarrow> (string \<times> string) option" where
  "decode_fixed k shw bs = (if k \<le> length bs then Some (shw (le_val (take k bs)), drop k bs) else None)"

definition decode_c_str :: "string \<Rightarrow> (string \<times> string) option" where
  "decode_c_str bs =
     (let s = takeWhile (\<lambda>c. c \<noteq> CHR 0x00) bs
      in if length s < length bs then Some (s, drop (Suc (length s)) bs) else None)"

definition decode_arg :: "printers \<Rightarrow> nat \<Rightarrow> string \<Rightarrow> (string \<times> string) option" where
  "decode_arg pr type_id bs =
     (if type_id = 0 then decode_fixed 1 (\<lambda>n. [char_of n]) bs
      else if type_id = 1 then decode_fixed 4 nat_to_string bs
      else if type_id = 2 then decode_fixed 8 nat_to_string bs
      else if type_id = 3 then decode_fixed 4 (\<lambda>n. int_to_string (sint (word_of_nat n :: 32 word))) bs
      else if type_id = 4 then decode_fixed 8 (\<lambda>n. int_to_string (sint (word_of_nat n :: 64 word))) bs
      else if type_id = 5 then decode_fixed 8 (\<lambda>n. showDouble pr (word_of_nat n)) bs
      else if type_id = 6 then decode_fixed 8 (\<lambda>n. lit pr (word_of_nat n)) bs
      else if type_id = 7 then decode_c_str bs
      else Some ([], bs))"

lemma decode_arg_shrinks: "decode_arg pr t bs = Some (s, r) \<Longrightarrow> length r \<le> length bs"
  by (auto simp: decode_arg_def decode_fixed_def decode_c_str_def Let_def split: if_splits)

function stringify_args :: "printers \<Rightarrow> string \<Rightarrow> string option" where
  "stringify_args pr [] = Some []"
| "stringify_args pr (t # bs) =
     (case decode_arg pr (of_char t) bs of
        None \<Rightarrow> None
      | Some (s, rest) \<Rightarrow> map_option ((@) s) (stringify_args pr rest))"
  by pat_completeness auto
termination
  by (relation "measure (\<lambda>(pr, bs). length bs)") (auto dest: decode_arg_shrinks)

definition take_val :: "nat \<Rightarrow> string \<Rightarrow> (nat \<times> string) option" where
  "take_val k bs = (if k \<le> length bs then Some (le_val (take k bs), drop k bs) else None)"

definition stringify :: "printers \<Rightarrow> LogLine \<Rightarrow> string option" where
  "stringify pr l =
     Option.bind (take_val 8 (take (bufferUsed l) (storage l))) (\<lambda>(timestamp, p).
     Option.bind (take_val 8 p) (\<lambda>(threadid, p).
     Option.bind (take_val 8 p) (\<lambda>(file, p).
     Option.bind (take_val 8 p) (\<lambda>(func, p).
     Option.bind (take_val 4 p) (\<lambda>(line, p).
     Option.bind (take_val 1 p) (\<lambda>(level, p).
     map_option (\<lambda>args.
         format_timestamp pr (word_of_nat timestamp) @ ''['' @ level_to_string level @ '']''
         @ ''['' @ showTid pr (word_of_nat threadid) @ '']''
         @ ''['' @ lit pr (word_of_nat file) @ '':'' @ lit pr (word_of_nat func) @ '':''
         @ nat_to_string line @ '']'' @ args @ [CHR 0x0A])
       (stringify_args pr p)))))))"

section \<open>Facts\<close>

lemma length_le_bytes [simp]: "length (le_bytes k n) = k"
  by (induction k n rule: le_bytes.induct) auto

lemma le_val_le_bytes: "le_val (le_bytes k n) = n mod 256 ^ k"
proof (induction k n rule: le_bytes.induct)
  case (2 k n)
  then show ?case by (simp add: mod_mult2_eq)
qed simp

lemma le_val_word:
  "le_val (le_bytes 8 (unat (x :: 64 word))) = unat x" "le_val (le_bytes 4 (unat (y :: 32 word))) = unat y"
  using unsigned_less [of x, where 'a = nat] unsigned_less [of y, where 'a = nat]
  by (simp_all add: le_val_le_bytes)

lemma le_val_char: "le_val [c] = of_char c"
  by simp

text \<open>The bytes written so far, and the invariant.\<close>

definition contents :: "LogLine \<Rightarrow> string" where
  "contents l = take (bufferUsed l) (storage l)"

definition log_inv :: "LogLine \<Rightarrow> bool" where
  "log_inv l \<longleftrightarrow> bufferUsed l \<le> bufferSize l \<and> length (storage l) = bufferSize l"

lemma log_empty: "log_inv LogLine_empty" "contents LogLine_empty = []" "bufferSize LogLine_empty = 256"
  "bufferUsed LogLine_empty = 0"
  by (simp_all add: log_inv_def contents_def LogLine_empty_def storage_def)

lemma storage_store [simp]: "storage (store buf l) = buf" "bufferUsed (store buf l) = bufferUsed l"
  "bufferSize (store buf l) = bufferSize l"
  by (auto simp: storage_def store_def split: option.split)

lemma storage_used [simp]: "storage (l\<lparr>bufferUsed := n\<rparr>) = storage l"
  by (simp add: storage_def split: option.split)

lemma length_contents: "log_inv l \<Longrightarrow> length (contents l) = bufferUsed l"
  by (simp add: log_inv_def contents_def)

lemma encode_raw_ok:
  assumes "log_inv l" "bufferUsed l + length bs \<le> bufferSize l"
  shows "\<exists>l'. encode_raw bs l = Some l' \<and> log_inv l' \<and> contents l' = contents l @ bs \<and>
    bufferSize l' = bufferSize l \<and> bufferUsed l' = bufferUsed l + length bs"
  using assms by (auto simp: encode_raw_def log_inv_def contents_def copy_to_def)

lemma resize_ok:
  assumes "log_inv l"
  shows "log_inv (resize_if_need n l) \<and> contents (resize_if_need n l) = contents l \<and>
    bufferUsed (resize_if_need n l) + n \<le> bufferSize (resize_if_need n l)"
  using assms
  by (auto simp: resize_if_need_def Let_def log_inv_def contents_def storage_def copy_to_def
      split: option.splits)

lemma encode_typed_ok:
  assumes "log_inv l"
  shows "\<exists>l'. encode_typed t bs l = Some l' \<and> log_inv l' \<and> contents l' = contents l @ le_bytes 1 t @ bs"
proof -
  let ?r = "resize_if_need (length bs + 1) l"
  have r: "log_inv ?r" "contents ?r = contents l" "bufferUsed ?r + (length bs + 1) \<le> bufferSize ?r"
    using resize_ok [OF assms] by blast+
  obtain l1 where l1: "encode_raw (le_bytes 1 t) ?r = Some l1" "log_inv l1"
    "contents l1 = contents l @ le_bytes 1 t" "bufferUsed l1 + length bs \<le> bufferSize l1"
    using encode_raw_ok [OF r(1), of "le_bytes 1 t"] r by auto
  then show ?thesis using encode_raw_ok [OF l1(2,4)] by (auto simp: encode_typed_def)
qed

lemma encode_c_str_ok:
  assumes "log_inv l"
  shows "\<exists>l'. encode_c_str s l = Some l' \<and> log_inv l' \<and>
    contents l' = contents l @ (if s = [] then [] else le_bytes 1 7 @ s @ [CHR 0x00])"
proof (cases "s = []")
  case False
  let ?r = "resize_if_need (1 + length s + 1) l"
  have r: "log_inv ?r" "contents ?r = contents l" "bufferUsed ?r + (1 + length s + 1) \<le> bufferSize ?r"
    using resize_ok [OF assms] by blast+
  then show ?thesis
    using encode_raw_ok [OF r(1), of "le_bytes 1 7 @ s @ [CHR 0x00]"] False by (auto simp: encode_c_str_def)
qed (simp add: encode_c_str_def assms)

section \<open>What is written and read back\<close>

definition cstr :: "string \<Rightarrow> string" where
  "cstr s = takeWhile (\<lambda>c. c \<noteq> CHR 0x00) s"

definition str_bytes :: "string \<Rightarrow> string" where
  "str_bytes s = (if s = [] then [] else le_bytes 1 7 @ s @ [CHR 0x00])"

fun arg_bytes :: "log_arg \<Rightarrow> string" where
  "arg_bytes (ArgChar c) = le_bytes 1 0 @ [c]"
| "arg_bytes (ArgU32 x) = le_bytes 1 1 @ le_bytes 4 (unat x)"
| "arg_bytes (ArgU64 x) = le_bytes 1 2 @ le_bytes 8 (unat x)"
| "arg_bytes (ArgI32 x) = le_bytes 1 3 @ le_bytes 4 (unat x)"
| "arg_bytes (ArgI64 x) = le_bytes 1 4 @ le_bytes 8 (unat x)"
| "arg_bytes (ArgDouble x) = le_bytes 1 5 @ le_bytes 8 (unat x)"
| "arg_bytes (ArgStr s) = str_bytes s"
| "arg_bytes (ArgCStr s) = (case s of None \<Rightarrow> [] | Some s \<Rightarrow> str_bytes (cstr s))"

text \<open>What an argument should look like in the text.\<close>

fun arg_text :: "printers \<Rightarrow> log_arg \<Rightarrow> string" where
  "arg_text pr (ArgChar c) = [c]"
| "arg_text pr (ArgU32 x) = nat_to_string (unat x)"
| "arg_text pr (ArgU64 x) = nat_to_string (unat x)"
| "arg_text pr (ArgI32 x) = int_to_string (sint x)"
| "arg_text pr (ArgI64 x) = int_to_string (sint x)"
| "arg_text pr (ArgDouble x) = showDouble pr x"
| "arg_text pr (ArgStr s) = s"
| "arg_text pr (ArgCStr s) = (case s of None \<Rightarrow> [] | Some s \<Rightarrow> cstr s)"

fun arg_ok :: "log_arg \<Rightarrow> bool" where
  "arg_ok (ArgStr s) \<longleftrightarrow> CHR 0x00 \<notin> set s"
| "arg_ok a \<longleftrightarrow> True"

definition line_text ::
    "printers \<Rightarrow> 64 word \<Rightarrow> 64 word \<Rightarrow> LogLevel \<Rightarrow> 64 word \<Rightarrow> 64 word \<Rightarrow> 32 word \<Rightarrow> log_arg list \<Rightarrow> string"
  where
  "line_text pr ts tid level file func line as =
     format_timestamp pr ts @ ''['' @ level_to_string (level_code level) @ '']''
     @ ''['' @ showTid pr tid @ '']'' @ ''['' @ lit pr file @ '':'' @ lit pr func @ '':''
     @ nat_to_string (unat line) @ '']'' @ concat (map (arg_text pr) as) @ [CHR 0x0A]"

lemma log_put_ok:
  assumes "log_inv l"
  shows "\<exists>l'. log_put a l = Some l' \<and> log_inv l' \<and> contents l' = contents l @ arg_bytes a"
proof (cases a)
  case (ArgCStr s)
  then show ?thesis
    using encode_c_str_ok [OF assms] assms by (cases s) (auto simp: str_bytes_def cstr_def)
qed (use encode_typed_ok [OF assms] encode_c_str_ok [OF assms] in \<open>auto simp: str_bytes_def\<close>)

lemma log_puts_ok:
  "log_inv l \<Longrightarrow> \<exists>l'. log_puts as l = Some l' \<and> log_inv l' \<and>
     contents l' = contents l @ concat (map arg_bytes as)"
proof (induction as arbitrary: l)
  case (Cons a as)
  obtain l1 where "log_put a l = Some l1" "log_inv l1" "contents l1 = contents l @ arg_bytes a"
    using log_put_ok [OF Cons.prems] by blast
  then show ?case using Cons.IH [of l1] by auto
qed simp

definition header_bytes ::
    "64 word \<Rightarrow> 64 word \<Rightarrow> LogLevel \<Rightarrow> 64 word \<Rightarrow> 64 word \<Rightarrow> 32 word \<Rightarrow> string" where
  "header_bytes ts tid level file func line =
     le_bytes 8 (unat ts) @ le_bytes 8 (unat tid) @ le_bytes 8 (unat file) @ le_bytes 8 (unat func)
     @ le_bytes 4 (unat line) @ le_bytes 1 (level_code level)"

lemma LogLine_new_ok:
  "\<exists>l. LogLine_new ts tid level file func line = Some l \<and> log_inv l \<and>
     contents l = header_bytes ts tid level file func line"
proof -
  have step: "\<exists>l'. encode_raw bs l = Some l' \<and> log_inv l' \<and> contents l' = c @ bs \<and>
      bufferSize l' = 256 \<and> bufferUsed l' = n + length bs"
    if "log_inv l" "contents l = c" "bufferSize l = 256" "bufferUsed l = n" "n + length bs \<le> 256" for l c n bs
    using encode_raw_ok [of l bs] that by auto
  obtain l1 where l1: "encode_raw (le_bytes 8 (unat ts)) LogLine_empty = Some l1" "log_inv l1"
    "contents l1 = [] @ le_bytes 8 (unat ts)" "bufferSize l1 = 256" "bufferUsed l1 = 8"
    using step [OF log_empty, of "le_bytes 8 (unat ts)"] by auto
  obtain l2 where l2: "encode_raw (le_bytes 8 (unat tid)) l1 = Some l2" "log_inv l2"
    "contents l2 = le_bytes 8 (unat ts) @ le_bytes 8 (unat tid)" "bufferSize l2 = 256" "bufferUsed l2 = 16"
    using step [OF l1(2-5), of "le_bytes 8 (unat tid)"] by auto
  obtain l3 where l3: "encode_raw (le_bytes 8 (unat file)) l2 = Some l3" "log_inv l3"
    "contents l3 = le_bytes 8 (unat ts) @ le_bytes 8 (unat tid) @ le_bytes 8 (unat file)"
    "bufferSize l3 = 256" "bufferUsed l3 = 24"
    using step [OF l2(2-5), of "le_bytes 8 (unat file)"] by auto
  obtain l4 where l4: "encode_raw (le_bytes 8 (unat func)) l3 = Some l4" "log_inv l4"
    "contents l4 = le_bytes 8 (unat ts) @ le_bytes 8 (unat tid) @ le_bytes 8 (unat file) @ le_bytes 8 (unat func)"
    "bufferSize l4 = 256" "bufferUsed l4 = 32"
    using step [OF l3(2-5), of "le_bytes 8 (unat func)"] by auto
  obtain l5 where l5: "encode_raw (le_bytes 4 (unat line)) l4 = Some l5" "log_inv l5"
    "contents l5 = le_bytes 8 (unat ts) @ le_bytes 8 (unat tid) @ le_bytes 8 (unat file) @ le_bytes 8 (unat func)
      @ le_bytes 4 (unat line)" "bufferSize l5 = 256" "bufferUsed l5 = 36"
    using step [OF l4(2-5), of "le_bytes 4 (unat line)"] by auto
  show ?thesis
    using step [OF l5(2-5), of "le_bytes 1 (level_code level)"] l1(1) l2(1) l3(1) l4(1) l5(1)
    by (auto simp: LogLine_new_def header_bytes_def)
qed

lemma map_option_append_Nil: "map_option ((@) []) x = x"
  by (cases x) simp_all

lemma stringify_str: "CHR 0x00 \<notin> set s \<Longrightarrow>
  stringify_args pr (str_bytes s @ bs) = map_option ((@) s) (stringify_args pr bs)"
proof (cases "s = []")
  case False
  assume "CHR 0x00 \<notin> set s"
  then have "takeWhile (\<lambda>c. c \<noteq> CHR 0x00) (s @ CHR 0x00 # bs) = s" by (induction s) auto
  then show ?thesis using False
    by (simp add: str_bytes_def decode_arg_def decode_c_str_def)
qed (simp add: str_bytes_def map_option_append_Nil)

lemma cstr_no_nul: "CHR 0x00 \<notin> set (cstr s)"
  by (auto simp: cstr_def dest: set_takeWhileD)

lemma decode_fixed_ok: "length x = k \<Longrightarrow> decode_fixed k f (x @ bs) = Some (f (le_val x), bs)"
  by (simp add: decode_fixed_def)

lemma stringify_arg:
  "arg_ok a \<Longrightarrow> stringify_args pr (arg_bytes a @ bs) = map_option ((@) (arg_text pr a)) (stringify_args pr bs)"
proof (cases a)
  case (ArgChar c)
  then show ?thesis
    using decode_fixed_ok [of "[c]" 1 "\<lambda>n. [char_of n]" bs] by (simp add: decode_arg_def)
next
  case (ArgStr s)
  moreover assume "arg_ok a"
  ultimately show ?thesis by (simp add: stringify_str)
next
  case (ArgCStr s)
  then show ?thesis
    by (cases s) (simp_all add: stringify_str cstr_no_nul map_option_append_Nil)
qed (simp_all add: decode_arg_def decode_fixed_ok le_val_word)

lemma stringify_args_ok:
  "list_all arg_ok as \<Longrightarrow> stringify_args pr (concat (map arg_bytes as)) = Some (concat (map (arg_text pr) as))"
  by (induction as) (simp_all add: stringify_arg)

lemma take_val_ok: "length x = k \<Longrightarrow> take_val k (x @ bs) = Some (le_val x, bs)"
  by (simp add: take_val_def)

lemma stringify_line:
  assumes "contents l = header_bytes ts tid level file func line @ concat (map arg_bytes as)"
    "list_all arg_ok as"
  shows "stringify pr l = Some (line_text pr ts tid level file func line as)"
proof -
  have lv: "le_val (le_bytes (Suc 0) (level_code level)) = level_code level"
    by (cases level) (simp_all add: le_val_le_bytes)
  show ?thesis
    using stringify_args_ok [OF assms(2), of pr]
    unfolding stringify_def contents_def [symmetric] assms(1) header_bytes_def append_assoc
    by (simp add: take_val_ok le_val_word lv line_text_def del: le_bytes.simps)
qed

section \<open>Properties\<close>

text \<open>A \<open>std::string\<close> with a NUL in it: the text of its bytes, read up to the NUL and on from there.\<close>

lemma nul_string_line:
  "\<exists>l0 l. LogLine_new ts tid level file func line = Some l0 \<and>
     log_puts [ArgStr [CHR ''a'', CHR 0x00]] l0 = Some l \<and> stringify pr l = None"
proof -
  obtain l0 where l0: "LogLine_new ts tid level file func line = Some l0" "log_inv l0"
    "contents l0 = header_bytes ts tid level file func line"
    using LogLine_new_ok by blast
  obtain l where l: "log_puts [ArgStr [CHR ''a'', CHR 0x00]] l0 = Some l"
    "contents l = contents l0 @ arg_bytes (ArgStr [CHR ''a'', CHR 0x00])"
    using log_puts_ok [OF l0(2), of "[ArgStr [CHR ''a'', CHR 0x00]]"] by auto
  have "stringify_args pr (str_bytes [CHR ''a'', CHR 0x00]) = None"
    by (simp add: str_bytes_def decode_arg_def decode_c_str_def decode_fixed_def)
  then have "stringify pr l = None"
    unfolding stringify_def contents_def [symmetric] l(2) l0(3) header_bytes_def append_assoc
    by (simp add: take_val_ok del: le_bytes.simps)
  then show ?thesis using l0(1) l(1) by blast
qed

text \<open>
  C29: a log line of any arguments is built without a write outside its buffer, however often the
  buffer has to grow. If no argument is a \<open>std::string\<close> with a NUL in it (\<open>arg_ok\<close>; C strings end at
  their NUL anyway), its text is the header followed by the arguments in order, each as the stream
  operator of its type prints it. That condition is needed: a string is kept with its NUL and
  decoded up to the first one, so that the bytes behind it are taken for encoded arguments; with the
  string of \<open>a\<close> and NUL as its only argument, \<open>stringify\<close> reads beyond the bytes written, on
  every line.
\<close>

theorem log_line_roundtrip:
  shows "(\<exists>l0 l. LogLine_new ts tid level file func line = Some l0 \<and> log_puts as l0 = Some l \<and>
      bufferUsed l \<le> bufferSize l \<and>
      (list_all arg_ok as \<longrightarrow> stringify pr l = Some (line_text pr ts tid level file func line as))) \<and>
    (\<exists>l0 l. LogLine_new ts tid level file func line = Some l0 \<and>
      log_puts [ArgStr [CHR ''a'', CHR 0x00]] l0 = Some l \<and> stringify pr l = None)"
proof
  obtain l0 where l0: "LogLine_new ts tid level file func line = Some l0" "log_inv l0"
    "contents l0 = header_bytes ts tid level file func line"
    using LogLine_new_ok by blast
  obtain l where "log_puts as l0 = Some l" "log_inv l" "contents l = contents l0 @ concat (map arg_bytes as)"
    using log_puts_ok [OF l0(2)] by blast
  then show "\<exists>l0 l. LogLine_new ts tid level file func line = Some l0 \<and> log_puts as l0 = Some l \<and>
      bufferUsed l \<le> bufferSize l \<and>
      (list_all arg_ok as \<longrightarrow> stringify pr l = Some (line_text pr ts tid level file func line as))"
    using l0 stringify_line [of l] by (auto simp: log_inv_def)
qed (rule nul_string_line)

definition plain_printers :: printers where
  "plain_printers = \<lparr>showTid = (\<lambda>_. ''1''), showDouble = (\<lambda>_. ''0''), showSeconds = (\<lambda>_. ''2020-01-01 00:00:00.''),
     lit = (\<lambda>_. ''main'')\<rparr>"

theorem log_line_roundtrip_witness:
  "\<exists>l0 l. LogLine_new 5 1 INFO 8 16 42 = Some l0 \<and> log_puts [ArgStr ''x='', ArgI32 (- 3)] l0 = Some l \<and>
     stringify plain_printers l = Some (line_text plain_printers 5 1 INFO 8 16 42 [ArgStr ''x='', ArgI32 (- 3)])"
  using log_line_roundtrip [of 5 1 INFO 8 16 42 "[ArgStr ''x='', ArgI32 (- 3)]" plain_printers] by auto

end
