(* ===== verification/LogWriter.thy ===== *)
theory LogWriter
  imports Machines
begin

text \<open>
  \<open>LogServer/LogServer.h\<close>: the writer that rolls its files, and the asynchronous writer with its
  queue and thread. Lines are the texts of \<open>LogLine::stringify\<close>. The counters of the file writer
  are \<open>uint32_t\<close>, kept as 32-bit words.
\<close>

section \<open>FileWriter\<close>

text \<open>\<open>files\<close> are the names and contents of the files opened so far; the last one is open.\<close>

record FileWriter =
  fileNumber :: "32 word"
  bytesWritten :: "32 word"
  rollSizeBytes :: "32 word"
  fileName :: string
  files :: "(string \<times> string) list"

definition roll_file :: "FileWriter \<Rightarrow> FileWriter" where
  "roll_file w =
     (let n = fileNumber w + 1;
          log_file_name = fileName w @ ''.'' @ nat_to_string (unat n) @ ''.txt''
      in w\<lparr>bytesWritten := 0, fileNumber := n, files := files w @ [(log_file_name, [])]\<rparr>)"

definition FileWriter_new :: "string \<Rightarrow> string \<Rightarrow> 32 word \<Rightarrow> FileWriter" where
  "FileWriter_new log_directory log_file_name log_file_roll_size_mb =
     roll_file \<lparr>fileNumber = 0, bytesWritten = 0,
       rollSizeBytes = log_file_roll_size_mb * 1024 * 1024,
       fileName = log_directory @ log_file_name, files = []\<rparr>"

definition fw_append :: "string \<Rightarrow> FileWriter \<Rightarrow> FileWriter" where
  "fw_append line w =
     w\<lparr>files := butlast (files w) @ [(fst (last (files w)), snd (last (files w)) @ line)]\<rparr>"

definition file_write :: "string \<Rightarrow> FileWriter \<Rightarrow> FileWriter" where
  "file_write line w =
     (let w1 = (fw_append line w)\<lparr>bytesWritten := bytesWritten w + word_of_nat (length line)\<rparr>
      in if bytesWritten w1 \<ge> rollSizeBytes w1 then roll_file w1 else w1)"

definition file_writes :: "string list \<Rightarrow> FileWriter \<Rightarrow> FileWriter" where
  "file_writes = fold file_write"

section \<open>AsyncWriter\<close>

text \<open>
  The positions of the writer's thread: \<open>AtTest\<close> at the test of the \<open>while\<close>; \<open>Locked\<close> with the
  mutex, before the predicate of \<open>cv_.wait\<close>; \<open>GoingToSleep\<close> when the predicate was false and the
  mutex is not released yet; \<open>Asleep\<close> on the condition variable; \<open>Woken\<close> on the way to the mutex;
  \<open>Awake\<close> behind \<open>wait\<close>, still with the mutex; \<open>Writing\<close> in \<open>log_->write\<close>; \<open>Draining\<close> in the
  loop behind. \<open>push\<close> runs under the mutex. The destructor sets \<open>state_\<close> without it (\<open>stopFlag\<close>)
  and then notifies (\<open>stopNotified\<close>). \<open>pushed\<close> are all lines pushed.
\<close>

datatype writer_pc = AtTest | Locked | GoingToSleep | Asleep | Woken | Awake | Writing | Draining | Finished

record AsyncWriter =
  wpc :: writer_pc
  stopFlag :: bool
  stopNotified :: bool
  lineQueue :: "string list"
  lineTaken :: "string list"
  written :: "string list"
  pushed :: "string list"

definition AsyncWriter_new :: AsyncWriter where
  "AsyncWriter_new = \<lparr>wpc = AtTest, stopFlag = False, stopNotified = False, lineQueue = [],
     lineTaken = [], written = [], pushed = []\<rparr>"

definition notify_one :: "AsyncWriter \<Rightarrow> AsyncWriter" where
  "notify_one a = (if wpc a = Asleep then a\<lparr>wpc := Woken\<rparr> else a)"

definition async_push :: "string \<Rightarrow> AsyncWriter \<Rightarrow> AsyncWriter" where
  "async_push t a =
     (let a1 = a\<lparr>lineQueue := lineQueue a @ [t], pushed := pushed a @ [t]\<rparr>
      in if length (lineQueue a1) = 1 then notify_one a1 else a1)"

definition holds_mutex :: "AsyncWriter \<Rightarrow> bool" where
  "holds_mutex a \<longleftrightarrow> wpc a = Locked \<or> wpc a = GoingToSleep \<or> wpc a = Awake"

text \<open>
  The steps of the program's threads, of the destructor and of the writer. A writer that is
  notified or wakes without a notification has to take the mutex again, and a \<open>push\<close> may get it
  before.
\<close>

inductive async_step :: "AsyncWriter \<Rightarrow> AsyncWriter \<Rightarrow> bool" where
  step_push: "\<not> stopFlag a \<Longrightarrow> \<not> holds_mutex a \<Longrightarrow> async_step a (async_push t a)"
| step_stop: "\<not> stopFlag a \<Longrightarrow> async_step a (a\<lparr>stopFlag := True\<rparr>)"
| step_notify: "stopFlag a \<Longrightarrow> \<not> stopNotified a \<Longrightarrow> async_step a ((notify_one a)\<lparr>stopNotified := True\<rparr>)"
| step_test: "wpc a = AtTest \<Longrightarrow>
    async_step a (a\<lparr>wpc := (if \<not> stopFlag a then Locked else Draining)\<rparr>)"
| step_predicate: "wpc a = Locked \<Longrightarrow>
    async_step a (a\<lparr>wpc := (if lineQueue a = [] \<and> \<not> stopFlag a then GoingToSleep else Awake)\<rparr>)"
| step_sleep: "wpc a = GoingToSleep \<Longrightarrow> async_step a (a\<lparr>wpc := Asleep\<rparr>)"
| step_spurious: "wpc a = Asleep \<Longrightarrow> async_step a (a\<lparr>wpc := Woken\<rparr>)"
| step_relock: "wpc a = Woken \<Longrightarrow> async_step a (a\<lparr>wpc := Locked\<rparr>)"
| step_return: "wpc a = Awake \<Longrightarrow> stopFlag a \<Longrightarrow> async_step a (a\<lparr>wpc := Finished\<rparr>)"
| step_take: "wpc a = Awake \<Longrightarrow> \<not> stopFlag a \<Longrightarrow> lineQueue a = t # ts \<Longrightarrow>
    async_step a (a\<lparr>lineTaken := [t], lineQueue := ts, wpc := Writing\<rparr>)"
| step_write: "wpc a = Writing \<Longrightarrow>
    async_step a (a\<lparr>written := written a @ lineTaken a, lineTaken := [], wpc := AtTest\<rparr>)"
| step_drain: "wpc a = Draining \<Longrightarrow> lineQueue a = t # ts \<Longrightarrow>
    async_step a (a\<lparr>written := written a @ [t], lineQueue := ts\<rparr>)"
| step_drained: "wpc a = Draining \<Longrightarrow> lineQueue a = [] \<Longrightarrow> async_step a (a\<lparr>wpc := Finished\<rparr>)"

definition async_reach :: "AsyncWriter \<Rightarrow> bool" where
  "async_reach = reached (\<lambda>a. a = AsyncWriter_new) async_step"

lemma async_start: "async_reach AsyncWriter_new"
  by (simp add: async_reach_def reached_initial)

lemma async_next: "async_reach a \<Longrightarrow> async_step a b \<Longrightarrow> async_reach b"
  unfolding async_reach_def by (rule reached_step)

inductive_cases async_stepE: "async_step a b"

section \<open>Facts on the asynchronous writer\<close>

definition async_inv :: "AsyncWriter \<Rightarrow> bool" where
  "async_inv a \<longleftrightarrow> pushed a = written a @ lineTaken a @ lineQueue a \<and> (wpc a \<noteq> Writing \<longrightarrow> lineTaken a = []) \<and>
     (wpc a = Asleep \<or> wpc a = GoingToSleep \<longrightarrow> lineQueue a = []) \<and>
     (wpc a = Awake \<longrightarrow> lineQueue a \<noteq> [] \<or> stopFlag a) \<and> (wpc a = Draining \<longrightarrow> stopFlag a)"

lemma async_step_inv: "async_step a b \<Longrightarrow> async_inv a \<Longrightarrow> async_inv b"
  by (induction rule: async_step.induct)
    (auto simp: async_inv_def async_push_def notify_one_def holds_mutex_def Let_def)

interpretation async: step_system "\<lambda>a. a = AsyncWriter_new" async_step async_inv
  by unfold_locales (simp add: async_inv_def AsyncWriter_new_def, rule async_step_inv)

lemma async_reach_inv: "async_reach a \<Longrightarrow> async_inv a"
  unfolding async_reach_def by (rule async.reached_inv)

text \<open>Two lines are pushed and the writer is destroyed before its thread has looked at the queue.\<close>

definition lost_lines :: AsyncWriter where
  "lost_lines = AsyncWriter_new\<lparr>wpc := Finished, stopFlag := True,
     lineQueue := [''first'', ''second''], pushed := [''first'', ''second'']\<rparr>"

lemma lost_lines_reach: "async_reach lost_lines"
proof -
  let ?a = "async_push ''second'' (async_push ''first'' AsyncWriter_new)"
  have "async_reach (async_push ''first'' AsyncWriter_new)"
    using async_next [OF async_start step_push [of AsyncWriter_new]]
    by (simp add: AsyncWriter_new_def holds_mutex_def)
  then have "async_reach ?a"
    using async_next [OF _ step_push [of "async_push ''first'' AsyncWriter_new"]]
    by (simp add: AsyncWriter_new_def holds_mutex_def async_push_def notify_one_def)
  then have "async_reach (?a\<lparr>wpc := Locked\<rparr>)" (is "async_reach ?b")
    using async_next [OF _ step_test [of ?a]]
    by (simp add: AsyncWriter_new_def async_push_def notify_one_def)
  then have "async_reach (?b\<lparr>stopFlag := True\<rparr>)" (is "async_reach ?c")
    using async_next [OF _ step_stop [of ?b]]
    by (simp add: AsyncWriter_new_def async_push_def notify_one_def)
  then have "async_reach (?c\<lparr>wpc := Awake\<rparr>)" (is "async_reach ?d")
    using async_next [OF _ step_predicate [of ?c]] by simp
  then show ?thesis
    using async_next [OF _ step_return [of ?d]]
    by (simp add: lost_lines_def AsyncWriter_new_def async_push_def notify_one_def)
qed

text \<open>The destructor comes between the predicate and the sleep.\<close>

definition join_hangs :: AsyncWriter where
  "join_hangs = AsyncWriter_new\<lparr>wpc := Asleep, stopFlag := True, stopNotified := True\<rparr>"

lemma join_hangs_reach: "async_reach join_hangs"
proof -
  let ?n = "AsyncWriter_new"
  have "async_reach (?n\<lparr>wpc := Locked\<rparr>)" (is "async_reach ?a")
    using async_next [OF async_start step_test [of ?n]] by (simp add: AsyncWriter_new_def)
  then have "async_reach (?a\<lparr>wpc := GoingToSleep\<rparr>)" (is "async_reach ?b")
    using async_next [OF _ step_predicate [of ?a]] by (simp add: AsyncWriter_new_def)
  then have "async_reach (?b\<lparr>stopFlag := True\<rparr>)" (is "async_reach ?c")
    using async_next [OF _ step_stop [of ?b]] by (simp add: AsyncWriter_new_def)
  then have "async_reach (?c\<lparr>stopNotified := True\<rparr>)" (is "async_reach ?d")
    using async_next [OF _ step_notify [of ?c]] by (simp add: AsyncWriter_new_def notify_one_def)
  then show ?thesis
    using async_next [OF _ step_sleep [of ?d]] by (simp add: join_hangs_def AsyncWriter_new_def)
qed

lemma join_hangs_step: "async_step join_hangs b \<Longrightarrow> b = join_hangs\<lparr>wpc := Woken\<rparr>"
  by (erule async_stepE) (simp_all add: join_hangs_def)

section \<open>Which writer is in use\<close>

text \<open>
  The three global pointers of \<open>LogServer.h\<close>: \<open>logOut\<close> is the function of the current
  \<open>LogServer\<close>, if there is one; \<open>terminal\<close> is \<open>std::cout\<close>. An asynchronous writer that is
  replaced is destroyed.
\<close>

datatype log_sink = ToTerminal | ToFile | ToAsync

record LogSystem =
  logOut :: "log_sink option"
  filewriter :: "FileWriter option"
  asyncwriter :: "AsyncWriter option"
  terminal :: string

definition LogTerminalInitSync :: "LogSystem \<Rightarrow> LogSystem" where
  "LogTerminalInitSync s = s\<lparr>logOut := Some ToTerminal\<rparr>"

definition LogFileInitSync :: "string \<Rightarrow> string \<Rightarrow> 32 word \<Rightarrow> LogSystem \<Rightarrow> LogSystem" where
  "LogFileInitSync directory file roll_size_mb s =
     s\<lparr>filewriter := Some (FileWriter_new directory file roll_size_mb), logOut := Some ToFile\<rparr>"

definition LogFileInitAsync :: "string \<Rightarrow> string \<Rightarrow> 32 word \<Rightarrow> LogSystem \<Rightarrow> LogSystem" where
  "LogFileInitAsync directory file roll_size_mb s =
     s\<lparr>asyncwriter := Some AsyncWriter_new, logOut := Some ToAsync\<rparr>"

text \<open>\<open>LogWrapper::operator=\<close> and \<open>LogServer::logIn\<close>, as the macros \<open>LOG_...\<close> use them.\<close>

definition logIn :: "string \<Rightarrow> LogSystem \<Rightarrow> LogSystem" where
  "logIn line s =
     (case logOut s of
        None \<Rightarrow> s
      | Some ToTerminal \<Rightarrow> s\<lparr>terminal := terminal s @ line\<rparr>
      | Some ToFile \<Rightarrow> s\<lparr>filewriter := map_option (file_write line) (filewriter s)\<rparr>
      | Some ToAsync \<Rightarrow> s\<lparr>asyncwriter := map_option (async_push line) (asyncwriter s)\<rparr>)"

lemma log_sync:
  "logOut s = Some ToFile \<Longrightarrow>
     filewriter (fold logIn ls s) = map_option (file_writes ls) (filewriter s) \<and> logOut (fold logIn ls s) = Some ToFile"
  by (induction ls arbitrary: s)
    (auto simp: logIn_def file_writes_def option.map_comp comp_def option.map_ident option.map_id0)

lemma log_async:
  "logOut s = Some ToAsync \<Longrightarrow> asyncwriter s = Some a \<Longrightarrow>
     \<exists>b. asyncwriter (fold logIn ls s) = Some b \<and> pushed b = pushed a @ ls \<and> logOut (fold logIn ls s) = Some ToAsync"
proof (induction ls arbitrary: s a)
  case (Cons l ls)
  have "pushed (async_push l a) = pushed a @ [l]"
    by (simp add: async_push_def notify_one_def Let_def)
  then show ?case using Cons.IH [of "logIn l s" "async_push l a"] Cons.prems by (auto simp: logIn_def)
qed simp

section \<open>Facts on the file writer\<close>

text \<open>
  The lines of the files, one list of lines for every file: \<open>group_full\<close> is what makes a list
  fill a file, so that the next line goes to another one.
\<close>

definition group_full :: "nat \<Rightarrow> string list \<Rightarrow> bool" where
  "group_full roll g \<longleftrightarrow> g \<noteq> [] \<and> roll \<le> length (concat g) \<and>
     (length (concat (butlast g)) < roll \<or> butlast g = [])"

definition numbered_name :: "string \<Rightarrow> nat \<Rightarrow> string" where
  "numbered_name name i = name @ ''.'' @ nat_to_string (Suc i mod 2 ^ 32) @ ''.txt''"

definition names_ok :: "FileWriter \<Rightarrow> bool" where
  "names_ok w \<longleftrightarrow> fileNumber w = word_of_nat (length (files w)) \<and>
     map fst (files w) = map (numbered_name (fileName w)) [0..<length (files w)]"

definition fw_groups :: "nat \<Rightarrow> string list list \<Rightarrow> FileWriter \<Rightarrow> bool" where
  "fw_groups roll gs w \<longleftrightarrow> gs \<noteq> [] \<and> roll = unat (rollSizeBytes w) \<and> map snd (files w) = map concat gs \<and>
     unat (bytesWritten w) = length (concat (last gs)) \<and>
     (length (concat (last gs)) < roll \<or> last gs = []) \<and> list_all (group_full roll) (butlast gs)"

lemma names_roll: "names_ok w \<Longrightarrow> names_ok (roll_file w)"
proof -
  assume names: "names_ok w"
  have n: "(word_of_nat k :: 32 word) + 1 = word_of_nat (Suc k)" for k by simp
  have u: "unat (word_of_nat (Suc k) :: 32 word) = Suc k mod 2 ^ 32" for k by (simp add: unat_of_nat del: of_nat_Suc)
  show ?thesis
    using names by (simp add: names_ok_def roll_file_def Let_def numbered_name_def n u del: of_nat_Suc)
qed

lemma names_append: "names_ok w \<Longrightarrow> files w \<noteq> [] \<Longrightarrow> names_ok (fw_append line w)"
  by (cases "files w" rule: rev_cases) (simp_all add: names_ok_def fw_append_def)

lemma names_write:
  assumes "names_ok w" "files w \<noteq> []"
  shows "names_ok (file_write line w)" "fileName (file_write line w) = fileName w"
proof -
  have "names_ok ((fw_append line w)\<lparr>bytesWritten := n\<rparr>)" for n
    using names_append [OF assms] by (simp add: names_ok_def)
  then show "names_ok (file_write line w)" by (simp add: file_write_def Let_def names_roll)
  show "fileName (file_write line w) = fileName w"
    by (simp add: file_write_def Let_def fw_append_def roll_file_def)
qed

lemma groups_roll:
  assumes "map snd (files w) = map concat gs" "gs \<noteq> []" "list_all (group_full roll) gs"
    "roll = unat (rollSizeBytes w)"
  shows "fw_groups roll (gs @ [[]]) (roll_file w)"
  using assms by (simp add: fw_groups_def roll_file_def Let_def)

lemma groups_write:
  assumes groups: "fw_groups roll gs w" and len: "roll + length line < 2 ^ 32"
  shows "\<exists>hs. fw_groups roll hs (file_write line w) \<and> concat hs = concat gs @ [line]"
proof -
  obtain gs0 g where gs: "gs = gs0 @ [g]"
    using groups by (cases gs rule: rev_cases) (auto simp: fw_groups_def)
  have g: "unat (bytesWritten w) = length (concat g)" "length (concat g) < roll \<or> g = []"
    "list_all (group_full roll) gs0" "roll = unat (rollSizeBytes w)" "map snd (files w) = map concat (gs0 @ [g])"
    using groups unfolding gs fw_groups_def by auto
  obtain fs x where files: "files w = fs @ [x]" "map snd fs = map concat gs0" "snd x = concat g"
    using g(5) by (cases "files w" rule: rev_cases) auto
  let ?w1 = "(fw_append line w)\<lparr>bytesWritten := bytesWritten w + word_of_nat (length line)\<rparr>"
  let ?hs = "gs0 @ [g @ [line]]"
  have u: "unat (bytesWritten ?w1) = length (concat (g @ [line]))"
    using g(1,2) len by (auto simp: unat_word_ariths unat_of_nat)
  have w1: "map snd (files ?w1) = map concat ?hs" "rollSizeBytes ?w1 = rollSizeBytes w"
    using files by (simp_all add: fw_append_def)
  show ?thesis
  proof (cases "bytesWritten ?w1 \<ge> rollSizeBytes ?w1")
    case True
    then have "roll \<le> length (concat (g @ [line]))"
      using u w1(2) g(4) by (simp add: word_le_nat_alt)
    then have "list_all (group_full roll) ?hs"
      using g(2,3) by (auto simp: group_full_def)
    then have "fw_groups roll (?hs @ [[]]) (roll_file ?w1)"
      using w1 g(4) by (intro groups_roll) simp_all
    then show ?thesis
      using True gs by (intro exI [of _ "?hs @ [[]]"]) (simp add: file_write_def)
  next
    case False
    then have "length (concat (g @ [line])) < roll"
      using u w1(2) g(4) by (simp add: word_le_nat_alt)
    then have "fw_groups roll ?hs ?w1"
      using w1 u g(3,4) by (simp add: fw_groups_def)
    then show ?thesis
      using False gs by (intro exI [of _ ?hs]) (simp add: file_write_def)
  qed
qed

lemma FileWriter_new_ok:
  "fw_groups (unat (mb * 1024 * 1024)) [[]] (FileWriter_new d f mb)" "names_ok (FileWriter_new d f mb)"
  "fileName (FileWriter_new d f mb) = d @ f" "rollSizeBytes (FileWriter_new d f mb) = mb * 1024 * 1024"
  by (simp_all add: FileWriter_new_def roll_file_def fw_groups_def names_ok_def numbered_name_def Let_def)

lemma groups_files: "fw_groups roll gs w \<Longrightarrow> files w \<noteq> []"
  by (auto simp: fw_groups_def)

lemma file_writes_ok:
  "fw_groups roll gs w \<Longrightarrow> names_ok w \<Longrightarrow> list_all (\<lambda>l. roll + length l < 2 ^ 32) ls \<Longrightarrow>
     \<exists>hs. fw_groups roll hs (file_writes ls w) \<and> concat hs = concat gs @ ls \<and>
       names_ok (file_writes ls w) \<and> fileName (file_writes ls w) = fileName w"
proof (induction ls arbitrary: w gs)
  case (Cons l ls)
  obtain hs where hs: "fw_groups roll hs (file_write l w)" "concat hs = concat gs @ [l]"
    using groups_write [OF Cons.prems(1), of l] Cons.prems(3) by auto
  have "names_ok (file_write l w)" "fileName (file_write l w) = fileName w"
    using names_write [OF Cons.prems(2) groups_files [OF Cons.prems(1)]] by simp_all
  then show ?case
    using Cons.IH [OF hs(1)] Cons.prems(3) hs(2) by (simp add: file_writes_def)
qed (auto simp: file_writes_def)

section \<open>Properties\<close>

text \<open>
  C30: the lines written to a file writer are cut into groups of whole lines, one for each file, in
  order: the contents of a file are the lines of its group, so that no line is split between two
  files. A file is left for the next one exactly when its size has reached the configured one:
  every file but the last has that size, and without its last line it was below it, so that it
  exceeds the size by less than one line; the last file is below the size or empty. The files are
  numbered in order from 1. (If the configured size is 0 every line gets a file of its own.)
  This is for lines with which the 32-bit byte counter does not overflow. The configured size
  itself is computed modulo \<open>2 ^ 32\<close>: from 4096 megabytes on it wraps around, and at 4096 it is 0.
\<close>

theorem log_files_hold_lines:
  assumes "list_all (\<lambda>l. unat (mb * 1024 * 1024) + length l < 2 ^ 32) ls"
  shows "(\<exists>gs. concat gs = ls \<and> gs \<noteq> [] \<and>
      map snd (files (file_writes ls (FileWriter_new d f mb))) = map concat gs \<and>
      map fst (files (file_writes ls (FileWriter_new d f mb))) =
        map (\<lambda>i. d @ f @ ''.'' @ nat_to_string (Suc i mod 2 ^ 32) @ ''.txt'') [0..<length gs] \<and>
      (\<forall>g \<in> set (butlast gs). g \<noteq> [] \<and> unat (mb * 1024 * 1024) \<le> length (concat g) \<and>
        (length (concat (butlast g)) < unat (mb * 1024 * 1024) \<or> butlast g = [])) \<and>
      (length (concat (last gs)) < unat (mb * 1024 * 1024) \<or> last gs = [])) \<and>
    rollSizeBytes (FileWriter_new d f 4096) = 0"
proof -
  let ?w = "file_writes ls (FileWriter_new d f mb)"
  obtain gs where gs: "fw_groups (unat (mb * 1024 * 1024)) gs ?w" "concat gs = ls" "names_ok ?w"
    "fileName ?w = d @ f"
    using file_writes_ok [OF FileWriter_new_ok(1,2), of mb ls d f] assms FileWriter_new_ok(3) by fastforce
  have "length (files ?w) = length gs"
    using gs(1) by (metis fw_groups_def length_map)
  then have "map fst (files ?w) =
      map (\<lambda>i. d @ f @ ''.'' @ nat_to_string (Suc i mod 2 ^ 32) @ ''.txt'') [0..<length gs]"
    using gs(3) by (simp add: names_ok_def gs(4) numbered_name_def)
  moreover have "rollSizeBytes (FileWriter_new d f 4096) = 0" by (simp add: FileWriter_new_ok(4))
  ultimately show ?thesis
    using gs(1,2) by (auto simp: fw_groups_def list_all_iff group_full_def)
qed

theorem log_files_hold_lines_witness:
  "\<exists>gs. concat gs = [''a'', ''bc''] \<and>
     map snd (files (file_writes [''a'', ''bc''] (FileWriter_new ''/tmp/'' ''log'' 1))) = map concat gs"
  using log_files_hold_lines [of 1 "[''a'', ''bc'']" "''/tmp/''" "''log''"] by auto

text \<open>
  C31: the asynchronous writer writes the lines pushed in their order, none twice: those written,
  the one in hand and those queued are together the lines pushed, and its thread never sleeps
  while a line is queued. But its destruction goes wrong in two ways: the thread may return with
  lines still queued, which are never written; and since the flag is set without the mutex, the
  notification may come between the test and the sleep, so that the thread sleeps on and the
  destructor waits for it, unless it wakes up without reason.
\<close>

theorem async_writer_lines:
  "(\<forall>a. async_reach a \<longrightarrow> pushed a = written a @ lineTaken a @ lineQueue a \<and>
      (wpc a = Asleep \<longrightarrow> lineQueue a = [])) \<and>
   (\<exists>a. async_reach a \<and> wpc a = Finished \<and> written a = [] \<and> pushed a = [''first'', ''second'']) \<and>
   (\<exists>a. async_reach a \<and> stopNotified a \<and> wpc a = Asleep \<and> (\<forall>b. async_step a b \<longrightarrow> b = a\<lparr>wpc := Woken\<rparr>))"
proof (intro conjI)
  show "\<forall>a. async_reach a \<longrightarrow> pushed a = written a @ lineTaken a @ lineQueue a \<and>
      (wpc a = Asleep \<longrightarrow> lineQueue a = [])"
    using async_reach_inv unfolding async_inv_def by blast
  show "\<exists>a. async_reach a \<and> wpc a = Finished \<and> written a = [] \<and> pushed a = [''first'', ''second'']"
    using lost_lines_reach by (intro exI [of _ lost_lines]) (simp add: lost_lines_def AsyncWriter_new_def)
  show "\<exists>a. async_reach a \<and> stopNotified a \<and> wpc a = Asleep \<and> (\<forall>b. async_step a b \<longrightarrow> b = a\<lparr>wpc := Woken\<rparr>)"
    using join_hangs_reach join_hangs_step by (intro exI [of _ join_hangs]) (simp add: join_hangs_def)
qed

theorem async_writer_lines_witness:
  "async_reach lost_lines \<and> pushed lost_lines = written lost_lines @ lineTaken lost_lines @ lineQueue lost_lines"
  using async_writer_lines lost_lines_reach by blast

end
