(* ===== verification/JsonHeap.thy ===== *)
theory JsonHeap
  imports JsonValue Machines
begin

text \<open>
  \<open>JsonServer/Value.h\<close>: the storage behind a value. Strings, arrays and objects live in cells
  with a reference count (\<open>Json<T>\<close>), which copies of a value share; constructors, assignments and
  the destructor keep the counts. A count is a \<open>std::atomic_int\<close>: 32 bits, and behind the largest
  number comes the smallest. A store is the cells and the values of the program's variables.
  \<open>None\<close> is a failed assertion or an access to a deleted cell. Addresses are not used twice, so
  that a dangling pointer is recognised.
\<close>

section \<open>Cells and handles\<close>

text \<open>\<open>Atom\<close> is a value without storage of its own: null, a boolean or a number.\<close>

datatype hvalue = Atom JValue | HString nat | HArray nat | HObject nat

datatype jcell = StrCell string | ArrCell "hvalue list" | ObjCell "(hvalue \<times> hvalue) list"

type_synonym vheap = "(int \<times> jcell) option list"

fun ref_of :: "hvalue \<Rightarrow> nat option" where
  "ref_of (Atom _) = None"
| "ref_of (HString a) = Some a"
| "ref_of (HArray a) = Some a"
| "ref_of (HObject a) = Some a"

fun kids :: "jcell \<Rightarrow> hvalue list" where
  "kids (StrCell _) = []"
| "kids (ArrCell vs) = vs"
| "kids (ObjCell ms) = concat (map (\<lambda>(k, v). [k, v]) ms)"

definition cell_at :: "vheap \<Rightarrow> nat \<Rightarrow> (int \<times> jcell) option" where
  "cell_at h a = (if a < length h then h ! a else None)"

definition alloc :: "jcell \<Rightarrow> vheap \<Rightarrow> nat \<times> vheap" where
  "alloc c h = (length h, h @ [Some (1, c)])"

definition next_count :: "int \<Rightarrow> int" where
  "next_count n = (if n = 2 ^ 31 - 1 then - (2 ^ 31) else n + 1)"

definition incrAndGet :: "hvalue \<Rightarrow> vheap \<Rightarrow> vheap option" where
  "incrAndGet v h =
     (case ref_of v of
        None \<Rightarrow> Some h
      | Some a \<Rightarrow>
          (case cell_at h a of
             None \<Rightarrow> None
           | Some (n, c) \<Rightarrow> if n \<le> 0 then None else Some (h[a := Some (next_count n, c)])))"

text \<open>
  The destructor of a list of values: a count that gets to 0 deletes the cell, and with it the
  values in it. Every step takes one away from the counts or from the list.
\<close>

function release :: "hvalue list \<Rightarrow> vheap \<Rightarrow> vheap option" where
  "release [] h = Some h"
| "release (v # vs) h =
     (case ref_of v of
        None \<Rightarrow> release vs h
      | Some a \<Rightarrow>
          (case cell_at h a of
             None \<Rightarrow> None
           | Some (n, c) \<Rightarrow>
               if n \<le> 0 then None
               else if n = 1 then release (kids c @ vs) (h[a := None])
               else release vs (h[a := Some (n - 1, c)])))"
  by pat_completeness auto

definition rc :: "(int \<times> jcell) option \<Rightarrow> nat" where
  "rc x = (case x of None \<Rightarrow> 0 | Some (n, c) \<Rightarrow> nat n)"

lemma sum_list_upd:
  "a < length h \<Longrightarrow> sum_list (map f (h[a := x])) + f (h ! a) = sum_list (map f h) + (f x :: nat)"
  by (induction h arbitrary: a) (auto split: nat.split)

lemma rc_decreases:
  assumes "cell_at h a = Some (n, c)" "rc x < nat n"
  shows "sum_list (map rc (h[a := x])) < sum_list (map rc h)"
proof -
  have "a < length h" "rc (h ! a) = nat n"
    using assms(1) by (auto simp: cell_at_def rc_def split: if_splits)
  then show ?thesis using sum_list_upd [of a h rc x] assms(2) by linarith
qed

termination release
  by (relation "measures [\<lambda>(vs, h). sum_list (map rc h), \<lambda>(vs, h). length vs]")
    (auto intro: rc_decreases simp: rc_def)

section \<open>Operations on variables\<close>

record ValueStore =
  cells :: vheap
  vars :: "hvalue list"

text \<open>The constructors: of a type, of a number or boolean, of a string.\<close>

datatype value_init = OfType ValueType | OfAtom JValue | OfString string

fun construct :: "value_init \<Rightarrow> vheap \<Rightarrow> hvalue \<times> vheap" where
  "construct (OfType TYPE_STRING) h = (let (a, h1) = alloc (StrCell []) h in (HString a, h1))"
| "construct (OfType TYPE_ARRAY) h = (let (a, h1) = alloc (ArrCell []) h in (HArray a, h1))"
| "construct (OfType TYPE_OBJECT) h = (let (a, h1) = alloc (ObjCell []) h in (HObject a, h1))"
| "construct (OfType t) h = (Atom (Value_of_type t), h)"
| "construct (OfAtom x) h = (Atom x, h)"
| "construct (OfString s) h = (let (a, h1) = alloc (StrCell s) h in (HString a, h1))"

definition new_var :: "value_init \<Rightarrow> ValueStore \<Rightarrow> ValueStore" where
  "new_var x s = (let (v, h) = construct x (cells s) in \<lparr>cells = h, vars = vars s @ [v]\<rparr>)"

text \<open>\<open>Value(const Value&)\<close> and \<open>Value(Value&&)\<close>: a new variable.\<close>

definition copy_var :: "nat \<Rightarrow> ValueStore \<Rightarrow> ValueStore option" where
  "copy_var j s =
     map_option (\<lambda>h. \<lparr>cells = h, vars = vars s @ [vars s ! j]\<rparr>) (incrAndGet (vars s ! j) (cells s))"

definition move_var :: "nat \<Rightarrow> ValueStore \<Rightarrow> ValueStore" where
  "move_var j s = s\<lparr>vars := (vars s)[j := Atom VNull] @ [vars s ! j]\<rparr>"

text \<open>\<open>~Value()\<close> at the end of a variable's life.\<close>

definition drop_nth :: "nat \<Rightarrow> 'a list \<Rightarrow> 'a list" where
  "drop_nth i xs = take i xs @ drop (Suc i) xs"

definition drop_var :: "nat \<Rightarrow> ValueStore \<Rightarrow> ValueStore option" where
  "drop_var i s = map_option (\<lambda>h. \<lparr>cells = h, vars = drop_nth i (vars s)\<rparr>) (release [vars s ! i] (cells s))"

text \<open>The setters, which destroy the value and construct another in its place.\<close>

definition set_var :: "nat \<Rightarrow> value_init \<Rightarrow> ValueStore \<Rightarrow> ValueStore option" where
  "set_var i x s =
     map_option (\<lambda>h. let (v, h1) = construct x h in \<lparr>cells = h1, vars = (vars s)[i := v]\<rparr>)
       (release [vars s ! i] (cells s))"

text \<open>\<open>operator=(Value&)\<close> and \<open>operator=(Value&&)\<close> between variables.\<close>

definition assign_copy :: "nat \<Rightarrow> nat \<Rightarrow> ValueStore \<Rightarrow> ValueStore option" where
  "assign_copy i j s =
     (if i = j then None
      else Option.bind (release [vars s ! i] (cells s)) (\<lambda>h.
           map_option (\<lambda>h1. \<lparr>cells = h1, vars = (vars s)[i := vars s ! j]\<rparr>) (incrAndGet (vars s ! j) h)))"

definition assign_move :: "nat \<Rightarrow> nat \<Rightarrow> ValueStore \<Rightarrow> ValueStore option" where
  "assign_move i j s =
     (if i = j then None
      else map_option (\<lambda>h. \<lparr>cells = h, vars = (vars s)[i := vars s ! j, j := Atom VNull]\<rparr>)
             (release [vars s ! i] (cells s)))"

text \<open>
  \<open>x = y[k]\<close>: the element is found first; it is read when the old value of \<open>x\<close> has been
  destroyed.
\<close>

definition array_elem :: "hvalue \<Rightarrow> nat \<Rightarrow> vheap \<Rightarrow> hvalue option" where
  "array_elem v k h =
     (case v of
        HArray a \<Rightarrow>
          (case cell_at h a of
             Some (n, ArrCell vs) \<Rightarrow> if k < length vs then Some (vs ! k) else None
           | _ \<Rightarrow> None)
      | _ \<Rightarrow> None)"

definition assign_elem :: "nat \<Rightarrow> nat \<Rightarrow> nat \<Rightarrow> ValueStore \<Rightarrow> ValueStore option" where
  "assign_elem i j k s =
     (let y = vars s ! j
      in if array_elem y k (cells s) = None then None
         else Option.bind (release [vars s ! i] (cells s)) (\<lambda>h.
              Option.bind (array_elem y k h) (\<lambda>v.
              map_option (\<lambda>h1. \<lparr>cells = h1, vars = (vars s)[i := v]\<rparr>) (incrAndGet v h))))"

text \<open>\<open>addValue\<close> of a copy, or of a moved value.\<close>

definition append_elem :: "hvalue \<Rightarrow> hvalue \<Rightarrow> vheap \<Rightarrow> vheap option" where
  "append_elem arr v h =
     (case arr of
        HArray a \<Rightarrow>
          (case cell_at h a of
             Some (n, ArrCell vs) \<Rightarrow> Some (h[a := Some (n, ArrCell (vs @ [v]))])
           | _ \<Rightarrow> None)
      | _ \<Rightarrow> None)"

definition append_copy :: "nat \<Rightarrow> nat \<Rightarrow> ValueStore \<Rightarrow> ValueStore option" where
  "append_copy i j s =
     Option.bind (incrAndGet (vars s ! j) (cells s)) (\<lambda>h.
     map_option (\<lambda>h1. s\<lparr>cells := h1\<rparr>) (append_elem (vars s ! i) (vars s ! j) h))"

definition append_move :: "nat \<Rightarrow> nat \<Rightarrow> ValueStore \<Rightarrow> ValueStore option" where
  "append_move i j s =
     map_option (\<lambda>h. \<lparr>cells = h, vars = (vars s)[j := Atom VNull]\<rparr>)
       (append_elem (vars s ! i) (vars s ! j) (cells s))"

text \<open>\<open>addMember\<close> of a copy: the key becomes a value with a cell of its own.\<close>

definition key_text :: "vheap \<Rightarrow> hvalue \<Rightarrow> string option" where
  "key_text h k =
     (case k of
        HString a \<Rightarrow> (case cell_at h a of Some (n, StrCell s) \<Rightarrow> Some s | _ \<Rightarrow> None)
      | _ \<Rightarrow> None)"

fun insert_member :: "vheap \<Rightarrow> string \<Rightarrow> hvalue \<times> hvalue \<Rightarrow> (hvalue \<times> hvalue) list \<Rightarrow> (hvalue \<times> hvalue) list"
  where
  "insert_member h key m [] = [m]"
| "insert_member h key m (m' # ms) =
     (case key_text h (fst m') of
        None \<Rightarrow> m' # insert_member h key m ms
      | Some key' \<Rightarrow> if key < key' then m # m' # ms else m' # insert_member h key m ms)"

definition add_member :: "nat \<Rightarrow> string \<Rightarrow> nat \<Rightarrow> ValueStore \<Rightarrow> ValueStore option" where
  "add_member i key j s =
     (case vars s ! i of
        HObject a \<Rightarrow>
          Option.bind (incrAndGet (vars s ! j) (cells s)) (\<lambda>h.
          let (b, h1) = alloc (StrCell key) h
          in case cell_at h1 a of
               Some (n, ObjCell ms) \<Rightarrow>
                 if list_ex (\<lambda>m. key_text h1 (fst m) = Some key) ms then None
                 else Some (s\<lparr>cells := h1[a := Some (n, ObjCell (insert_member h1 key (HString b, vars s ! j) ms))]\<rparr>)
             | _ \<Rightarrow> None)
      | _ \<Rightarrow> None)"

section \<open>Programs\<close>

datatype value_op = NewVar value_init | CopyVar nat | MoveVar nat | DropVar nat | SetVar nat value_init
  | AssignCopy nat nat | AssignMove nat nat | AssignElem nat nat nat
  | AppendCopy nat nat | AppendMove nat nat | AddMember nat string nat

fun value_do :: "value_op \<Rightarrow> ValueStore \<Rightarrow> ValueStore option" where
  "value_do (NewVar x) s = Some (new_var x s)"
| "value_do (CopyVar j) s = copy_var j s"
| "value_do (MoveVar j) s = Some (move_var j s)"
| "value_do (DropVar i) s = drop_var i s"
| "value_do (SetVar i x) s = set_var i x s"
| "value_do (AssignCopy i j) s = assign_copy i j s"
| "value_do (AssignMove i j) s = assign_move i j s"
| "value_do (AssignElem i j k) s = assign_elem i j k s"
| "value_do (AppendCopy i j) s = append_copy i j s"
| "value_do (AppendMove i j) s = append_move i j s"
| "value_do (AddMember i key j) s = add_member i key j s"

text \<open>
  What a program has to keep to: variables that exist, arrays and objects where the assertions ask
  for them, no assignment of a variable to itself or of an element of its own, and \<open>room\<close> for one
  more handle wherever a value is copied.
\<close>

definition room :: "hvalue \<Rightarrow> vheap \<Rightarrow> bool" where
  "room v h \<longleftrightarrow> (\<forall>a n c. ref_of v = Some a \<longrightarrow> cell_at h a = Some (n, c) \<longrightarrow> n < 2 ^ 31 - 1)"

definition is_array :: "hvalue \<Rightarrow> bool" where "is_array v \<longleftrightarrow> (\<exists>a. v = HArray a)"

definition has_key :: "ValueStore \<Rightarrow> nat \<Rightarrow> string \<Rightarrow> bool" where
  "has_key s i key \<longleftrightarrow> (\<exists>a n ms. vars s ! i = HObject a \<and> cell_at (cells s) a = Some (n, ObjCell ms) \<and>
     (\<exists>m \<in> set ms. key_text (cells s) (fst m) = Some key))"

fun value_legal :: "value_op \<Rightarrow> ValueStore \<Rightarrow> bool" where
  "value_legal (NewVar x) s \<longleftrightarrow> True"
| "value_legal (CopyVar j) s \<longleftrightarrow> j < length (vars s) \<and> room (vars s ! j) (cells s)"
| "value_legal (MoveVar j) s \<longleftrightarrow> j < length (vars s)"
| "value_legal (DropVar i) s \<longleftrightarrow> i < length (vars s)"
| "value_legal (SetVar i x) s \<longleftrightarrow> i < length (vars s)"
| "value_legal (AssignCopy i j) s \<longleftrightarrow> i < length (vars s) \<and> j < length (vars s) \<and> i \<noteq> j \<and>
     room (vars s ! j) (cells s)"
| "value_legal (AssignMove i j) s \<longleftrightarrow> i < length (vars s) \<and> j < length (vars s) \<and> i \<noteq> j"
| "value_legal (AssignElem i j k) s \<longleftrightarrow> i < length (vars s) \<and> j < length (vars s) \<and> i \<noteq> j \<and>
     (\<exists>v. array_elem (vars s ! j) k (cells s) = Some v \<and> room v (cells s))"
| "value_legal (AppendCopy i j) s \<longleftrightarrow> i < length (vars s) \<and> j < length (vars s) \<and> is_array (vars s ! i) \<and>
     room (vars s ! j) (cells s)"
| "value_legal (AppendMove i j) s \<longleftrightarrow> i < length (vars s) \<and> j < length (vars s) \<and> is_array (vars s ! i)"
| "value_legal (AddMember i key j) s \<longleftrightarrow> i < length (vars s) \<and> j < length (vars s) \<and>
     (\<exists>a. vars s ! i = HObject a) \<and> \<not> has_key s i key \<and> room (vars s ! j) (cells s)"

definition value_reach :: "ValueStore \<Rightarrow> bool" where
  "value_reach = reached (\<lambda>s. s = \<lparr>cells = [], vars = []\<rparr>) (acts value_legal value_do)"

lemma value_start: "value_reach \<lparr>cells = [], vars = []\<rparr>"
  by (simp add: value_reach_def reached_initial)

lemma value_next: "value_reach s \<Longrightarrow> value_legal p s \<Longrightarrow> value_do p s = Some s' \<Longrightarrow> value_reach s'"
  unfolding value_reach_def by (erule reached_step) (auto simp: acts_def)

end
