(* ===== verification/JsonHeapFacts.thy ===== *)
theory JsonHeapFacts
  imports JsonHeap
begin

text \<open>
  The counts of the cells are the numbers of handles on them, whatever a program does; so nothing
  is deleted that is in use, what a variable stands for is its own affair until somebody appends
  to an array it shares, and everything is deleted in the end unless there is a cycle.
\<close>

section \<open>Counting handles\<close>

definition one_ref :: "nat \<Rightarrow> hvalue \<Rightarrow> nat" where
  "one_ref a v = (if ref_of v = Some a then 1 else 0)"

definition refs :: "nat \<Rightarrow> hvalue list \<Rightarrow> nat" where
  "refs a vs = sum_list (map (one_ref a) vs)"

definition cell_refs :: "nat \<Rightarrow> (int \<times> jcell) option \<Rightarrow> nat" where
  "cell_refs a x = (case x of None \<Rightarrow> 0 | Some (n, c) \<Rightarrow> refs a (kids c))"

definition inner :: "nat \<Rightarrow> vheap \<Rightarrow> nat" where
  "inner a h = sum_list (map (cell_refs a) h)"

text \<open>
  \<open>counted h R\<close>: every count is the number of handles on its cell, those in cells and the
  \<open>R a\<close> outside, and is not zero.
\<close>

definition counted :: "vheap \<Rightarrow> (nat \<Rightarrow> nat) \<Rightarrow> bool" where
  "counted h R \<longleftrightarrow> (\<forall>a. R a + inner a h = rc (cell_at h a)) \<and> (\<forall>a n c. cell_at h a = Some (n, c) \<longrightarrow> 0 < n)"

lemma refs_simps [simp]:
  "refs a [] = 0" "refs a (v # vs) = one_ref a v + refs a vs" "refs a (vs @ ws) = refs a vs + refs a ws"
  by (simp_all add: refs_def)

lemma one_ref_simps [simp]:
  "one_ref a (Atom x) = 0" "one_ref a (HString b) = (if b = a then 1 else 0)"
  "one_ref a (HArray b) = (if b = a then 1 else 0)" "one_ref a (HObject b) = (if b = a then 1 else 0)"
  by (simp_all add: one_ref_def)

lemma refs_upd: "i < length vs \<Longrightarrow> refs a (vs[i := v]) + one_ref a (vs ! i) = refs a vs + one_ref a v"
  unfolding refs_def by (rule sum_list_upd)

lemma refs_drop: "i < length vs \<Longrightarrow> refs a (drop_nth i vs) + one_ref a (vs ! i) = refs a vs"
  using id_take_nth_drop [of i vs] refs_simps(3) [of a "take i vs" "vs ! i # drop (Suc i) vs"]
  by (simp add: drop_nth_def)

lemma refs_Atom_upd: "i < length vs \<Longrightarrow> refs a (vs[i := Atom x]) = refs a (drop_nth i vs)"
  using refs_upd [of i vs a "Atom x"] refs_drop [of i vs a] by simp

lemma refs_mem: "v \<in> set vs \<Longrightarrow> one_ref a v \<le> refs a vs"
  by (induction vs) auto

lemma inner_upd:
  assumes "cell_at h a = Some (n, c)"
  shows "inner b (h[a := x]) + refs b (kids c) = inner b h + cell_refs b x"
proof -
  have "a < length h" "cell_refs b (h ! a) = refs b (kids c)"
    using assms by (auto simp: cell_at_def cell_refs_def split: if_splits)
  then show ?thesis using sum_list_upd [of a h "cell_refs b" x] by (simp add: inner_def)
qed

lemma cell_at_upd [simp]:
  "cell_at (h[a := x]) b = (if b = a \<and> a < length h then x else cell_at h b)"
  by (auto simp: cell_at_def nth_list_update)

lemma cell_at_length: "cell_at h a = Some x \<Longrightarrow> a < length h"
  by (auto simp: cell_at_def split: if_splits)

lemma cell_at_snoc: "cell_at (h @ [x]) b = (if b = length h then x else cell_at h b)"
  by (auto simp: cell_at_def nth_append)

lemma inner_mem: "cell_at h b = Some (n, c) \<Longrightarrow> refs a (kids c) \<le> inner a h"
proof -
  assume "cell_at h b = Some (n, c)"
  then have "Some (n, c) \<in> set h" by (auto simp: cell_at_def in_set_conv_nth split: if_splits)
  then have "cell_refs a (Some (n, c)) \<le> sum_list (map (cell_refs a) h)"
    using member_le_sum_list [of "cell_refs a (Some (n, c))" "map (cell_refs a) h"] by auto
  then show ?thesis by (simp add: cell_refs_def inner_def)
qed

text \<open>A handle that is counted has a cell.\<close>

lemma counted_cell:
  assumes "counted h R" "0 < R a + inner a h"
  shows "\<exists>n c. cell_at h a = Some (n, c) \<and> 0 < n \<and> nat n = R a + inner a h"
proof -
  have r: "R a + inner a h = rc (cell_at h a)" using assms(1) by (simp add: counted_def)
  then obtain n c where c: "cell_at h a = Some (n, c)"
    using assms(2) by (cases "cell_at h a") (auto simp: rc_def)
  moreover have "rc (cell_at h a) = nat n" using c by (simp add: rc_def)
  ultimately show ?thesis using r assms(2) by simp
qed

lemma counted_pos: "counted h R \<Longrightarrow> cell_at h a = Some (n, c) \<Longrightarrow> 0 < n"
  unfolding counted_def by blast

text \<open>A change of one cell.\<close>

lemma countedI:
  assumes cnt: "counted h R" and a: "cell_at h a = Some (n, c)"
    and inner: "\<And>b. R' b + inner b (h[a := x]) + (if b = a then nat n else 0)
      = R b + inner b h + (if b = a then rc x else 0)"
    and pos: "\<And>m d. x = Some (m, d) \<Longrightarrow> 0 < m"
  shows "counted (h[a := x]) R'"
  unfolding counted_def
proof (intro conjI allI impI)
  fix b
  have "R b + inner b h = rc (cell_at h b)" using cnt by (simp add: counted_def)
  then show "R' b + inner b (h[a := x]) = rc (cell_at (h[a := x]) b)"
    using inner [of b] a cell_at_length [OF a] by (cases "b = a") (auto simp: rc_def)
next
  fix b m d
  assume "cell_at (h[a := x]) b = Some (m, d)"
  then show "0 < m" using pos counted_pos [OF cnt, of b] cell_at_length [OF a] by (auto split: if_splits)
qed

section \<open>The destructor\<close>

definition shrinks :: "vheap \<Rightarrow> vheap \<Rightarrow> bool" where
  "shrinks h h' \<longleftrightarrow> length h' = length h \<and>
     (\<forall>a n c. cell_at h' a = Some (n, c) \<longrightarrow> (\<exists>m. cell_at h a = Some (m, c)))"

lemma shrinks_refl: "shrinks h h"
  by (auto simp: shrinks_def)

lemma shrinks_trans: "shrinks h1 h2 \<Longrightarrow> shrinks h2 h3 \<Longrightarrow> shrinks h1 h3"
  unfolding shrinks_def by metis

lemma counted_release_last:
  assumes "counted h (\<lambda>b. one_ref b v + R b)" "ref_of v = Some a" "cell_at h a = Some (1, c)"
  shows "counted (h[a := None]) (\<lambda>b. refs b (kids c) + R b)"
proof (rule countedI [OF assms(1,3)])
  fix b
  show "refs b (kids c) + R b + inner b (h[a := None]) + (if b = a then nat 1 else 0)
      = one_ref b v + R b + inner b h + (if b = a then rc None else 0)"
    using inner_upd [OF assms(3), of b None] assms(2) by (auto simp: cell_refs_def one_ref_def rc_def)
qed simp

lemma counted_release_one:
  assumes "counted h (\<lambda>b. one_ref b v + R b)" "ref_of v = Some a" "cell_at h a = Some (n, c)" "1 < n"
  shows "counted (h[a := Some (n - 1, c)]) R"
proof (rule countedI [OF assms(1,3)])
  fix b
  show "R b + inner b (h[a := Some (n - 1, c)]) + (if b = a then nat n else 0)
      = one_ref b v + R b + inner b h + (if b = a then rc (Some (n - 1, c)) else 0)"
    using inner_upd [OF assms(3), of b "Some (n - 1, c)"] assms(2,4)
    by (simp add: cell_refs_def one_ref_def rc_def nat_diff_distrib)
qed (use assms(4) in simp)

lemma release_ok:
  "counted h (\<lambda>b. refs b vs + R b) \<Longrightarrow> \<exists>h'. release vs h = Some h' \<and> counted h' R \<and> shrinks h h'"
proof (induction vs h rule: release.induct)
  case (1 h)
  then show ?case using shrinks_refl by simp
next
  case (2 v vs h)
  show ?case
  proof (cases "ref_of v")
    case None
    then have "one_ref b v = 0" for b by (simp add: one_ref_def)
    then show ?thesis using "2.IH"(1) [OF None] "2.prems" None by simp
  next
    case (Some a)
    have cnt: "counted h (\<lambda>b. one_ref b v + (refs b vs + R b))" using "2.prems" by (simp add: add.assoc)
    have "0 < one_ref a v + (refs a vs + R a) + inner a h" using Some by (simp add: one_ref_def)
    from counted_cell [OF cnt this] obtain n c where c: "cell_at h a = Some (n, c)" "0 < n"
      by (elim exE conjE)
    show ?thesis
    proof (cases "n = 1")
      case True
      have "counted (h[a := None]) (\<lambda>b. refs b (kids c @ vs) + R b)"
        using counted_release_last [OF cnt Some] c True by (simp add: add.assoc)
      from "2.IH"(2) [OF Some c(1) refl _ True this]
      obtain h' where "release (kids c @ vs) (h[a := None]) = Some h'" "counted h' R" "shrinks (h[a := None]) h'"
        using True by auto
      moreover have "shrinks h (h[a := None])" by (auto simp: shrinks_def)
      ultimately show ?thesis using Some c True shrinks_trans by auto
    next
      case False
      then have n: "1 < n" using c by simp
      have "counted (h[a := Some (n - 1, c)]) (\<lambda>b. refs b vs + R b)"
        using counted_release_one [OF cnt Some c(1) n] .
      from "2.IH"(3) [OF Some c(1) refl _ False this]
      obtain h' where "release vs (h[a := Some (n - 1, c)]) = Some h'" "counted h' R"
        "shrinks (h[a := Some (n - 1, c)]) h'"
        using n by auto
      moreover have "shrinks h (h[a := Some (n - 1, c)])" using c by (auto simp: shrinks_def)
      ultimately show ?thesis using Some c n shrinks_trans by auto
    qed
  qed
qed

text \<open>What is left is what it was, with a count that is not higher.\<close>

lemma release_counts:
  "release vs h = Some h' \<Longrightarrow> cell_at h' b = Some (k, d) \<Longrightarrow> \<exists>m. cell_at h b = Some (m, d) \<and> k \<le> m"
proof (induction vs h rule: release.induct)
  case (2 v vs h)
  show ?case
  proof (cases "ref_of v")
    case None
    then show ?thesis using "2.IH"(1) "2.prems" by simp
  next
    case (Some a)
    then obtain n c where c: "cell_at h a = Some (n, c)" "\<not> n \<le> 0"
      using "2.prems"(1) by (auto split: option.splits if_splits)
    let ?h = "if n = 1 then h[a := None] else h[a := Some (n - 1, c)]"
    have "\<exists>m. cell_at ?h b = Some (m, d) \<and> k \<le> m"
      using "2.IH"(2,3) [OF Some c(1) refl c(2)] "2.prems" Some c by (cases "n = 1") simp_all
    then show ?thesis using c by (auto split: if_splits)
  qed
qed simp

lemma room_release: "release vs h = Some h' \<Longrightarrow> room v h \<Longrightarrow> room v h'"
  using release_counts unfolding room_def by fastforce

section \<open>Copies, new cells, appending\<close>

definition same_cells :: "vheap \<Rightarrow> vheap \<Rightarrow> bool" where
  "same_cells h h' \<longleftrightarrow> shrinks h h' \<and> shrinks h' h"

lemma incr_ok:
  assumes cnt: "counted h R" and v: "\<And>a. ref_of v = Some a \<Longrightarrow> 0 < R a + inner a h" and room: "room v h"
  shows "\<exists>h'. incrAndGet v h = Some h' \<and> counted h' (\<lambda>b. one_ref b v + R b) \<and> same_cells h h'"
proof (cases "ref_of v")
  case None
  then have "one_ref b v = 0" for b by (simp add: one_ref_def)
  then show ?thesis using None cnt shrinks_refl by (simp add: incrAndGet_def same_cells_def)
next
  case (Some a)
  obtain n c where c: "cell_at h a = Some (n, c)" "0 < n" using counted_cell [OF cnt v [OF Some]] by (elim exE conjE)
  let ?h = "h[a := Some (n + 1, c)]"
  have nc: "next_count n = n + 1" using room Some c(1) by (simp add: room_def next_count_def)
  have "counted ?h (\<lambda>b. one_ref b v + R b)"
  proof (rule countedI [OF cnt c(1)])
    fix b
    show "one_ref b v + R b + inner b ?h + (if b = a then nat n else 0)
        = R b + inner b h + (if b = a then rc (Some (n + 1, c)) else 0)"
      using inner_upd [OF c(1), of b "Some (n + 1, c)"] Some c(2)
      by (simp add: cell_refs_def one_ref_def rc_def nat_add_distrib)
  qed (use c(2) in simp)
  moreover have "same_cells h ?h" using c by (auto simp: same_cells_def shrinks_def)
  ultimately show ?thesis using Some c nc by (simp add: incrAndGet_def)
qed

lemma counted_alloc:
  assumes cnt: "counted h R" and c: "kids c = []" and v: "ref_of v = Some (length h)"
  shows "counted (h @ [Some (1, c)]) (\<lambda>b. one_ref b v + R b)"
proof -
  have "inner b (h @ [Some (1, c)]) = inner b h" for b by (simp add: inner_def cell_refs_def c)
  moreover have "cell_at h (length h) = None" by (simp add: cell_at_def)
  ultimately show ?thesis using cnt v
    by (auto simp: counted_def cell_at_snoc one_ref_def rc_def)
qed

lemma counted_move_in:
  assumes cnt: "counted h (\<lambda>b. refs b new + R b)" and c: "cell_at h a = Some (n, c)"
    and kids: "\<And>b. refs b (kids c') = refs b (kids c) + refs b new"
  shows "counted (h[a := Some (n, c')]) R"
proof (rule countedI [OF cnt c])
  fix b
  show "R b + inner b (h[a := Some (n, c')]) + (if b = a then nat n else 0)
      = refs b new + R b + inner b h + (if b = a then rc (Some (n, c')) else 0)"
    using inner_upd [OF c, of b "Some (n, c')"] kids [of b] by (simp add: cell_refs_def rc_def)
qed (use counted_pos [OF cnt c] in simp)

section \<open>Kinds of cells\<close>

fun kind_fits :: "hvalue \<Rightarrow> jcell \<Rightarrow> bool" where
  "kind_fits (HString _) (StrCell _) \<longleftrightarrow> True"
| "kind_fits (HArray _) (ArrCell _) \<longleftrightarrow> True"
| "kind_fits (HObject _) (ObjCell _) \<longleftrightarrow> True"
| "kind_fits _ _ \<longleftrightarrow> False"

definition kind_ok :: "vheap \<Rightarrow> hvalue \<Rightarrow> bool" where
  "kind_ok h v \<longleftrightarrow> (\<forall>a n c. ref_of v = Some a \<longrightarrow> cell_at h a = Some (n, c) \<longrightarrow> kind_fits v c)"

definition typed :: "vheap \<Rightarrow> hvalue set \<Rightarrow> bool" where
  "typed h V \<longleftrightarrow> (\<forall>v \<in> V. kind_ok h v) \<and>
     (\<forall>a n c. cell_at h a = Some (n, c) \<longrightarrow> (\<forall>v \<in> set (kids c). kind_ok h v))"

definition live :: "vheap \<Rightarrow> (nat \<Rightarrow> nat) \<Rightarrow> hvalue \<Rightarrow> bool" where
  "live h R v \<longleftrightarrow> (\<forall>a. ref_of v = Some a \<longrightarrow> 0 < R a + inner a h)"

lemma kind_ok_shrinks: "shrinks h h' \<Longrightarrow> kind_ok h v \<Longrightarrow> kind_ok h' v"
  unfolding shrinks_def kind_ok_def by blast

lemma typed_shrinks: "shrinks h h' \<Longrightarrow> typed h V \<Longrightarrow> typed h' V"
  unfolding typed_def using kind_ok_shrinks unfolding shrinks_def by blast

lemma typed_mono: "typed h V \<Longrightarrow> W \<subseteq> V \<Longrightarrow> typed h W"
  unfolding typed_def by blast

lemma typed_insert: "typed h V \<Longrightarrow> kind_ok h v \<Longrightarrow> typed h (insert v V)"
  unfolding typed_def by blast

lemma kind_ok_Atom [simp]: "kind_ok h (Atom x)"
  by (simp add: kind_ok_def)

lemma live_Atom [simp]: "live h R (Atom x)"
  by (simp add: live_def)

lemma refs_pos: "v \<in> set vs \<Longrightarrow> ref_of v = Some a \<Longrightarrow> 0 < refs a vs"
  using refs_mem [of v vs a] by (simp add: one_ref_def)

lemma live_var: "v \<in> set vs \<Longrightarrow> live h (\<lambda>a. refs a vs + R a) v"
  using refs_pos [of v vs] by (simp add: live_def)

lemma live_kid: "cell_at h b = Some (n, c) \<Longrightarrow> v \<in> set (kids c) \<Longrightarrow> live h R v"
  unfolding live_def
proof (intro allI impI)
  fix a
  assume "cell_at h b = Some (n, c)" "v \<in> set (kids c)" "ref_of v = Some a"
  then show "0 < R a + inner a h" using refs_pos [of v "kids c" a] inner_mem [of h b n c a] by linarith
qed

lemma live_cell:
  "counted h R \<Longrightarrow> live h R v \<Longrightarrow> ref_of v = Some a \<Longrightarrow> \<exists>n c. cell_at h a = Some (n, c)"
  using counted_cell [of h R a] by (auto simp: live_def)

lemma live_array:
  assumes "counted h R" "live h R (HArray a)" "kind_ok h (HArray a)"
  shows "\<exists>n vs. cell_at h a = Some (n, ArrCell vs)"
proof -
  obtain n c where c: "cell_at h a = Some (n, c)" using live_cell [OF assms(1,2)] by auto
  then have "kind_fits (HArray a) c" using assms(3) by (simp add: kind_ok_def)
  then show ?thesis using c by (cases c) auto
qed

lemma live_object:
  assumes "counted h R" "live h R (HObject a)" "kind_ok h (HObject a)"
  shows "\<exists>n ms. cell_at h a = Some (n, ObjCell ms)"
proof -
  obtain n c where c: "cell_at h a = Some (n, c)" using live_cell [OF assms(1,2)] by auto
  then have "kind_fits (HObject a) c" using assms(3) by (simp add: kind_ok_def)
  then show ?thesis using c by (cases c) auto
qed

text \<open>A new cell does not disturb handles that are counted; a cell that keeps its kind neither.\<close>

lemma kind_ok_alloc:
  assumes "counted h R" "live h R v" "kind_ok h v"
  shows "kind_ok (h @ [x]) v"
  using live_cell [OF assms(1,2)] assms(3) unfolding kind_ok_def
  by (force simp: cell_at_snoc dest: cell_at_length)

lemma typed_alloc:
  assumes cnt: "counted h R" and l: "\<And>v. v \<in> V \<Longrightarrow> live h R v" and t: "typed h V" and c: "kids c = []"
  shows "typed (h @ [Some (1, c)]) V"
  unfolding typed_def
proof (intro conjI allI impI ballI)
  show "kind_ok (h @ [Some (1, c)]) v" if "v \<in> V" for v
    using kind_ok_alloc [OF cnt l [OF that]] t that by (simp add: typed_def)
next
  fix a n d v
  assume "cell_at (h @ [Some (1, c)]) a = Some (n, d)" "v \<in> set (kids d)"
  then have "cell_at h a = Some (n, d)" using c by (auto simp: cell_at_snoc split: if_splits)
  then show "kind_ok (h @ [Some (1, c)]) v"
    using kind_ok_alloc [OF cnt live_kid [OF _ \<open>v \<in> set (kids d)\<close>]] t \<open>v \<in> set (kids d)\<close>
    unfolding typed_def by blast
qed

lemma kind_ok_update:
  assumes "cell_at h a = Some (n, c)" "\<And>v. kind_fits v c = kind_fits v c'" "kind_ok h v"
  shows "kind_ok (h[a := Some (m, c')]) v"
  using assms cell_at_length [OF assms(1)] unfolding kind_ok_def by (auto split: if_splits)

lemma typed_update:
  assumes c: "cell_at h a = Some (n, c)" and k: "\<And>v. kind_fits v c = kind_fits v c'" and t: "typed h V"
    and kids: "\<And>v. v \<in> set (kids c') \<Longrightarrow> v \<in> set (kids c) \<or> v \<in> V"
  shows "typed (h[a := Some (m, c')]) V"
proof -
  have "kind_ok h v" if "v \<in> V \<or> (\<exists>b n d. cell_at h b = Some (n, d) \<and> v \<in> set (kids d))" for v
    using t that unfolding typed_def by blast
  then have ok: "kind_ok (h[a := Some (m, c')]) v"
    if "v \<in> V \<or> (\<exists>b n d. cell_at h b = Some (n, d) \<and> v \<in> set (kids d))" for v
    using kind_ok_update [OF c k] that by blast
  show ?thesis
    unfolding typed_def
  proof (intro conjI allI impI ballI)
    fix b k d v
    assume b: "cell_at (h[a := Some (m, c')]) b = Some (k, d)" "v \<in> set (kids d)"
    show "kind_ok (h[a := Some (m, c')]) v"
    proof (cases "b = a")
      case True
      then have "d = c'" using b(1) cell_at_length [OF c] by simp
      then show ?thesis using ok kids c b(2) by blast
    next
      case False
      then show ?thesis using ok b by auto
    qed
  qed (use ok in blast)
qed

end
