(* ===== verification/JsonHeapInv.thy ===== *)
theory JsonHeapInv
  imports JsonHeapFacts
begin

text \<open>
  Every operation of \<open>JsonHeap\<close> keeps the counts and the kinds of the cells, and none fails when
  the program keeps to \<open>value_legal\<close>.
\<close>

definition store_inv :: "ValueStore \<Rightarrow> bool" where
  "store_inv s \<longleftrightarrow> counted (cells s) (\<lambda>a. refs a (vars s)) \<and> typed (cells s) (set (vars s))"

lemma live_in: "v \<in> set vs \<Longrightarrow> live h (\<lambda>a. refs a vs) v"
  using refs_pos [of v vs] by (simp add: live_def)

lemma live_add: "live h R v \<Longrightarrow> live h (\<lambda>a. R' a + R a) v"
  by (simp add: live_def)

lemma set_drop_nth: "set (drop_nth i vs) \<subseteq> set vs"
  unfolding drop_nth_def using set_take_subset [of i vs] set_drop_subset [of "Suc i" vs] by auto

lemma mem_drop_nth: "j < length vs \<Longrightarrow> i \<noteq> j \<Longrightarrow> vs ! j \<in> set (drop_nth i vs)"
  unfolding drop_nth_def
proof (cases "j < i")
  case True
  assume "j < length vs"
  then have "vs ! j \<in> set (take i vs)" using True by (auto simp: in_set_conv_nth intro: exI [of _ j])
  then show "vs ! j \<in> set (take i vs @ drop (Suc i) vs)" by simp
next
  case False
  assume "j < length vs" "i \<noteq> j"
  then have "vs ! j \<in> set (drop (Suc i) vs)"
    using False by (auto simp: in_set_conv_nth intro!: exI [of _ "j - Suc i"])
  then show "vs ! j \<in> set (take i vs @ drop (Suc i) vs)" by simp
qed

lemma refs_set_nth: "i < length vs \<Longrightarrow> refs a (vs[i := v]) = one_ref a v + refs a (drop_nth i vs)"
  using refs_upd [of i vs a v] refs_drop [of i vs a] by simp

lemma refs_split: "i < length vs \<Longrightarrow> refs a vs = refs a [vs ! i] + refs a (drop_nth i vs)"
  using refs_drop [of i vs a] by simp

section \<open>Releasing a variable\<close>

lemma release_var:
  assumes inv: "store_inv s" and i: "i < length (vars s)"
  shows "\<exists>h. release [vars s ! i] (cells s) = Some h \<and> counted h (\<lambda>a. refs a (drop_nth i (vars s))) \<and>
    shrinks (cells s) h \<and> typed h (set (vars s))"
proof -
  have "counted (cells s) (\<lambda>b. refs b [vars s ! i] + refs b (drop_nth i (vars s)))"
    using inv refs_split [OF i] by (simp add: store_inv_def)
  from release_ok [OF this] show ?thesis using inv typed_shrinks by (auto simp: store_inv_def)
qed

text \<open>A result from its counts.\<close>

lemma store_invI:
  assumes "counted h R" "\<And>a. refs a vs = R a" "typed h V" "set vs \<subseteq> V"
  shows "store_inv \<lparr>cells = h, vars = vs\<rparr>"
proof -
  have "(\<lambda>a. refs a vs) = R" using assms(2) by auto
  then show ?thesis using assms(1) typed_mono [OF assms(3,4)] by (simp add: store_inv_def)
qed

lemma drop_var_ok:
  assumes "store_inv s" "i < length (vars s)"
  shows "\<exists>s'. drop_var i s = Some s' \<and> store_inv s'"
  using release_var [OF assms] store_invI set_drop_nth [of i "vars s"] unfolding drop_var_def by fastforce

lemma construct_ok:
  assumes cnt: "counted h R" and l: "\<And>v. v \<in> V \<Longrightarrow> live h R v" and t: "typed h V"
  shows "\<exists>v h1. construct x h = (v, h1) \<and> counted h1 (\<lambda>a. one_ref a v + R a) \<and> typed h1 (insert v V)"
proof -
  have new: "counted (h @ [Some (1, c)]) (\<lambda>a. one_ref a v + R a) \<and> typed (h @ [Some (1, c)]) (insert v V)"
    if "kids c = []" "ref_of v = Some (length h)" "kind_fits v c" for c v
  proof
    show "counted (h @ [Some (1, c)]) (\<lambda>a. one_ref a v + R a)" using counted_alloc [OF cnt that(1,2)] .
    have "kind_ok (h @ [Some (1, c)]) v" using that by (simp add: kind_ok_def cell_at_snoc)
    then show "typed (h @ [Some (1, c)]) (insert v V)"
      using typed_insert typed_alloc [OF cnt l t that(1)] by blast
  qed
  show ?thesis
  proof (cases x)
    case (OfType ty)
    then show ?thesis
      using new [of "StrCell []" "HString (length h)"] new [of "ArrCell []" "HArray (length h)"]
        new [of "ObjCell []" "HObject (length h)"] cnt typed_insert [OF t kind_ok_Atom]
      by (cases ty) (simp_all add: alloc_def)
  next
    case (OfAtom y)
    then show ?thesis using cnt typed_insert [OF t kind_ok_Atom] by simp
  next
    case (OfString str)
    then show ?thesis using new [of "StrCell str" "HString (length h)"] by (simp add: alloc_def)
  qed
qed

lemma new_var_ok:
  assumes "store_inv s"
  shows "store_inv (new_var x s)"
proof -
  obtain v h1 where h1: "construct x (cells s) = (v, h1)"
    "counted h1 (\<lambda>a. one_ref a v + refs a (vars s))" "typed h1 (insert v (set (vars s)))"
    using construct_ok [of "cells s" "\<lambda>a. refs a (vars s)" "set (vars s)" x] assms live_in
    by (auto simp: store_inv_def)
  then show ?thesis
    using store_invI [OF h1(2) _ h1(3), of "vars s @ [v]"] by (simp add: new_var_def)
qed

lemma set_var_ok:
  assumes "store_inv s" "i < length (vars s)"
  shows "\<exists>s'. set_var i x s = Some s' \<and> store_inv s'"
proof -
  obtain h where h: "release [vars s ! i] (cells s) = Some h"
    "counted h (\<lambda>a. refs a (drop_nth i (vars s)))" "typed h (set (vars s))"
    using release_var [OF assms] by blast
  have t: "typed h (set (drop_nth i (vars s)))" using typed_mono [OF h(3) set_drop_nth] .
  obtain v h1 where h1: "construct x h = (v, h1)"
    "counted h1 (\<lambda>a. one_ref a v + refs a (drop_nth i (vars s)))" "typed h1 (insert v (set (drop_nth i (vars s))))"
    using construct_ok [OF h(2) live_in t] by blast
  have "set ((vars s)[i := v]) \<subseteq> insert v (set (drop_nth i (vars s)))"
    using assms(2) by (auto simp: drop_nth_def upd_conv_take_nth_drop)
  then have "store_inv \<lparr>cells = h1, vars = (vars s)[i := v]\<rparr>"
    using store_invI [OF h1(2) _ h1(3)] refs_set_nth [OF assms(2)] by simp
  then show ?thesis using h(1) h1(1) by (simp add: set_var_def)
qed

section \<open>Copies and moves\<close>

lemma incr_live:
  assumes "counted h R" "live h R v" "typed h V" "room v h"
  shows "\<exists>h1. incrAndGet v h = Some h1 \<and> counted h1 (\<lambda>a. one_ref a v + R a) \<and> same_cells h h1 \<and> typed h1 V"
  using incr_ok [OF assms(1), of v] assms(2-4) typed_shrinks unfolding live_def same_cells_def by blast

lemma copy_var_ok:
  assumes inv: "store_inv s" and j: "j < length (vars s)" and room: "room (vars s ! j) (cells s)"
  shows "\<exists>s'. copy_var j s = Some s' \<and> store_inv s'"
proof -
  obtain h1 where h1: "incrAndGet (vars s ! j) (cells s) = Some h1"
    "counted h1 (\<lambda>a. one_ref a (vars s ! j) + refs a (vars s))" "typed h1 (set (vars s))"
    using incr_live [of "cells s" "\<lambda>a. refs a (vars s)" "vars s ! j"] inv room live_in [OF nth_mem [OF j]]
    by (auto simp: store_inv_def)
  have "store_inv \<lparr>cells = h1, vars = vars s @ [vars s ! j]\<rparr>"
    using store_invI [OF h1(2) _ h1(3), of "vars s @ [vars s ! j]"] nth_mem [OF j] by simp
  then show ?thesis using h1(1) by (simp add: copy_var_def)
qed

lemma typed_Atom: "typed h V \<Longrightarrow> typed h (insert (Atom x) V)"
  by (simp add: typed_insert)

lemma set_upd_Atom: "set (vs[j := Atom x]) \<subseteq> insert (Atom x) (set vs)"
  by (rule set_update_subset_insert)

lemma move_var_ok:
  assumes inv: "store_inv s" and j: "j < length (vars s)"
  shows "store_inv (move_var j s)"
proof -
  have "store_inv \<lparr>cells = cells s, vars = (vars s)[j := Atom VNull] @ [vars s ! j]\<rparr>"
  proof (rule store_invI)
    show "counted (cells s) (\<lambda>a. refs a (vars s))" "typed (cells s) (insert (Atom VNull) (set (vars s)))"
      using inv typed_Atom by (simp_all add: store_inv_def)
    show "refs a ((vars s)[j := Atom VNull] @ [vars s ! j]) = refs a (vars s)" for a
      using refs_upd [OF j, of a "Atom VNull"] by simp
  qed (use set_upd_Atom nth_mem [OF j] in auto)
  then show ?thesis by (simp add: move_var_def store_inv_def)
qed

lemma assign_copy_ok:
  assumes inv: "store_inv s" and i: "i < length (vars s)" and j: "j < length (vars s)" and "i \<noteq> j"
    and room: "room (vars s ! j) (cells s)"
  shows "\<exists>s'. assign_copy i j s = Some s' \<and> store_inv s'"
proof -
  obtain h where h: "release [vars s ! i] (cells s) = Some h"
    "counted h (\<lambda>a. refs a (drop_nth i (vars s)))" "typed h (set (vars s))"
    using release_var [OF inv i] by blast
  have m: "vars s ! j \<in> set (drop_nth i (vars s))" using mem_drop_nth [OF j \<open>i \<noteq> j\<close>] .
  obtain h1 where h1: "incrAndGet (vars s ! j) h = Some h1"
    "counted h1 (\<lambda>a. one_ref a (vars s ! j) + refs a (drop_nth i (vars s)))" "typed h1 (set (vars s))"
    using incr_live [OF h(2) live_in [OF m] h(3) room_release [OF h(1) room]] by blast
  have "set ((vars s)[i := vars s ! j]) \<subseteq> set (vars s)"
    using set_update_subset_insert [of "vars s" i "vars s ! j"] nth_mem [OF j] by auto
  then have "store_inv \<lparr>cells = h1, vars = (vars s)[i := vars s ! j]\<rparr>"
    using store_invI [OF h1(2) _ h1(3)] refs_set_nth [OF i] by simp
  then show ?thesis using h(1) h1(1) \<open>i \<noteq> j\<close> by (simp add: assign_copy_def)
qed

lemma assign_move_ok:
  assumes inv: "store_inv s" and i: "i < length (vars s)" and j: "j < length (vars s)" and "i \<noteq> j"
  shows "\<exists>s'. assign_move i j s = Some s' \<and> store_inv s'"
proof -
  let ?vs = "(vars s)[i := vars s ! j, j := Atom VNull]"
  obtain h where h: "release [vars s ! i] (cells s) = Some h"
    "counted h (\<lambda>a. refs a (drop_nth i (vars s)))" "typed h (set (vars s))"
    using release_var [OF inv i] by blast
  have "refs a ?vs = refs a (drop_nth i (vars s))" for a
    using refs_upd [of j "(vars s)[i := vars s ! j]" a "Atom VNull"] refs_set_nth [OF i, of a "vars s ! j"]
      i j \<open>i \<noteq> j\<close> by simp
  moreover have "set ?vs \<subseteq> insert (Atom VNull) (set (vars s))"
    using set_update_subset_insert [of "(vars s)[i := vars s ! j]" j "Atom VNull"]
      set_update_subset_insert [of "vars s" i "vars s ! j"] nth_mem [OF j] by auto
  ultimately have "store_inv \<lparr>cells = h, vars = ?vs\<rparr>"
    using store_invI [OF h(2) _ typed_Atom [OF h(3)]] by simp
  then show ?thesis using h(1) \<open>i \<noteq> j\<close> by (simp add: assign_move_def)
qed

section \<open>Elements of arrays and members of objects\<close>

lemma array_elem_ok:
  assumes cnt: "counted h' R" and l: "live h' R y" and sh: "shrinks h h'" and e: "array_elem y k h = Some v"
  shows "array_elem y k h' = Some v \<and> live h' R v"
proof -
  obtain a n vs where y: "y = HArray a" "cell_at h a = Some (n, ArrCell vs)" "k < length vs" "v = vs ! k"
    using e by (auto simp: array_elem_def split: hvalue.splits option.splits prod.splits jcell.splits if_splits)
  obtain m c where c: "cell_at h' a = Some (m, c)" using live_cell [OF cnt l] y(1) by auto
  then have "c = ArrCell vs" using sh y(2) unfolding shrinks_def by fastforce
  then show ?thesis using y c live_kid [of h' a m "ArrCell vs" v R] by (simp add: array_elem_def)
qed

lemma array_elem_kind:
  assumes "typed h V" "array_elem y k h = Some v"
  shows "kind_ok h v"
  using assms unfolding typed_def
  by (fastforce simp: array_elem_def split: hvalue.splits option.splits prod.splits jcell.splits if_splits)

lemma assign_elem_ok:
  assumes inv: "store_inv s" and i: "i < length (vars s)" and j: "j < length (vars s)" and "i \<noteq> j"
    and e: "array_elem (vars s ! j) k (cells s) = Some v" and room: "room v (cells s)"
  shows "\<exists>s'. assign_elem i j k s = Some s' \<and> store_inv s'"
proof -
  obtain h where h: "release [vars s ! i] (cells s) = Some h"
    "counted h (\<lambda>a. refs a (drop_nth i (vars s)))" "shrinks (cells s) h" "typed h (set (vars s))"
    using release_var [OF inv i] by blast
  have m: "vars s ! j \<in> set (drop_nth i (vars s))" using mem_drop_nth [OF j \<open>i \<noteq> j\<close>] .
  have v: "array_elem (vars s ! j) k h = Some v" "live h (\<lambda>a. refs a (drop_nth i (vars s))) v"
    using array_elem_ok [OF h(2) live_in [OF m] h(3) e] by simp_all
  obtain h1 where h1: "incrAndGet v h = Some h1"
    "counted h1 (\<lambda>a. one_ref a v + refs a (drop_nth i (vars s)))" "same_cells h h1" "typed h1 (set (vars s))"
    using incr_live [OF h(2) v(2) h(4) room_release [OF h(1) room]] by blast
  have "kind_ok h1 v"
    using kind_ok_shrinks array_elem_kind [OF h(4) v(1)] h1(3) unfolding same_cells_def by blast
  then have "store_inv \<lparr>cells = h1, vars = (vars s)[i := v]\<rparr>"
    using store_invI [OF h1(2) _ typed_insert [OF h1(4)], of "(vars s)[i := v]" v] refs_set_nth [OF i]
      set_update_subset_insert [of "vars s" i v] by simp
  then show ?thesis using h(1) h1(1) e v(1) \<open>i \<noteq> j\<close> by (simp add: assign_elem_def)
qed

lemma append_elem_ok:
  assumes cnt: "counted h (\<lambda>b. one_ref b v + R b)" and l: "live h (\<lambda>b. one_ref b v + R b) (HArray a)"
    and t: "typed h V" and V: "HArray a \<in> V" "v \<in> V"
  shows "\<exists>h1. append_elem (HArray a) v h = Some h1 \<and> counted h1 R \<and> typed h1 V"
proof -
  have "kind_ok h (HArray a)" using t V(1) unfolding typed_def by blast
  from live_array [OF cnt l this] obtain n vs where c: "cell_at h a = Some (n, ArrCell vs)" by blast
  have "counted (h[a := Some (n, ArrCell (vs @ [v]))]) R"
    using counted_move_in [of h "[v]" R a n "ArrCell vs" "ArrCell (vs @ [v])"] cnt c by simp
  moreover have "typed (h[a := Some (n, ArrCell (vs @ [v]))]) V"
  proof (rule typed_update [OF c _ t])
    show "kind_fits w (ArrCell vs) = kind_fits w (ArrCell (vs @ [v]))" for w by (cases w) simp_all
  qed (use V(2) in auto)
  ultimately show ?thesis using c by (simp add: append_elem_def)
qed

lemma append_copy_ok:
  assumes inv: "store_inv s" and i: "i < length (vars s)" and j: "j < length (vars s)"
    and a: "vars s ! i = HArray a" and room: "room (vars s ! j) (cells s)"
  shows "\<exists>s'. append_copy i j s = Some s' \<and> store_inv s'"
proof -
  have m: "HArray a \<in> set (vars s)" "vars s ! j \<in> set (vars s)" using nth_mem [OF i] nth_mem [OF j] a by auto
  obtain h where h: "incrAndGet (vars s ! j) (cells s) = Some h"
    "counted h (\<lambda>b. one_ref b (vars s ! j) + refs b (vars s))" "typed h (set (vars s))"
    using incr_live [of "cells s" "\<lambda>a. refs a (vars s)" "vars s ! j"] inv room live_in [OF m(2)]
    by (auto simp: store_inv_def)
  obtain h1 where "append_elem (HArray a) (vars s ! j) h = Some h1" "counted h1 (\<lambda>b. refs b (vars s))"
    "typed h1 (set (vars s))"
    using append_elem_ok [OF h(2) live_add [OF live_in [OF m(1)]] h(3) m] by blast
  then show ?thesis using h(1) a by (simp add: append_copy_def store_inv_def)
qed

lemma append_move_ok:
  assumes inv: "store_inv s" and i: "i < length (vars s)" and j: "j < length (vars s)"
    and a: "vars s ! i = HArray a"
  shows "\<exists>s'. append_move i j s = Some s' \<and> store_inv s'"
proof -
  let ?vs = "(vars s)[j := Atom VNull]"
  let ?V = "insert (Atom VNull) (set (vars s))"
  have m: "HArray a \<in> set (vars s)" "vars s ! j \<in> set (vars s)" using nth_mem [OF i] nth_mem [OF j] a by auto
  have r: "refs b (vars s) = one_ref b (vars s ! j) + refs b ?vs" for b
    using refs_upd [OF j, of b "Atom VNull"] by simp
  then have cnt: "counted (cells s) (\<lambda>b. one_ref b (vars s ! j) + refs b ?vs)"
    using inv by (simp add: store_inv_def)
  have l: "live (cells s) (\<lambda>b. one_ref b (vars s ! j) + refs b ?vs) (HArray a)"
    using live_in [OF m(1)] r by simp
  obtain h1 where "append_elem (HArray a) (vars s ! j) (cells s) = Some h1" "counted h1 (\<lambda>b. refs b ?vs)"
    "typed h1 ?V"
    using append_elem_ok [OF cnt l, of ?V] typed_Atom m inv by (auto simp: store_inv_def)
  moreover have "set ?vs \<subseteq> ?V" by (rule set_upd_Atom)
  ultimately show ?thesis using a typed_mono by (auto simp: append_move_def store_inv_def)
qed

lemma refs_insert_member:
  "refs b (kids (ObjCell (insert_member h key (k, v) ms))) = refs b (kids (ObjCell ms)) + (one_ref b k + one_ref b v)"
  by (induction ms) (auto split: option.split)

lemma set_insert_member: "set (insert_member h key m ms) = insert m (set ms)"
  by (induction ms) (auto split: option.split)

lemma kids_insert_member:
  "w \<in> set (kids (ObjCell (insert_member h key (k, v) ms))) \<Longrightarrow> w \<in> set (kids (ObjCell ms)) \<or> w \<in> {k, v}"
  by (auto simp: set_insert_member)

lemma key_text_kept:
  assumes "counted h R" "live h R k" "shrinks h h1" "key_text (h1 @ [x]) k = Some key" "length h1 = length h"
  shows "key_text h k = Some key"
proof -
  obtain a n where k: "k = HString a" "cell_at (h1 @ [x]) a = Some (n, StrCell key)"
    using assms(4) by (auto simp: key_text_def split: hvalue.splits option.splits jcell.splits)
  obtain m c where c: "cell_at h a = Some (m, c)" using live_cell [OF assms(1,2)] k(1) by auto
  then have "cell_at h1 a = Some (n, StrCell key)"
    using k(2) cell_at_length [OF c] assms(5) by (auto simp: cell_at_snoc split: if_splits)
  then have "c = StrCell key" using assms(3) c unfolding shrinks_def by fastforce
  then show ?thesis using k(1) c by (simp add: key_text_def)
qed

lemma add_member_ok:
  assumes inv: "store_inv s" and i: "i < length (vars s)" and j: "j < length (vars s)"
    and a: "vars s ! i = HObject a" and nokey: "\<not> has_key s i key" and room: "room (vars s ! j) (cells s)"
  shows "\<exists>s'. add_member i key j s = Some s' \<and> store_inv s'"
proof -
  let ?v = "vars s ! j"
  have m: "HObject a \<in> set (vars s)" "?v \<in> set (vars s)" using nth_mem [OF i] nth_mem [OF j] a by auto
  have t0: "typed (cells s) (set (vars s))" and cnt0: "counted (cells s) (\<lambda>b. refs b (vars s))"
    using inv by (simp_all add: store_inv_def)
  obtain h where h: "incrAndGet ?v (cells s) = Some h"
    "counted h (\<lambda>b. one_ref b ?v + refs b (vars s))" "same_cells (cells s) h" "typed h (set (vars s))"
    using incr_live [OF cnt0 live_in [OF m(2)] t0 room] by blast
  let ?b = "length h"
  let ?h1 = "h @ [Some (1, StrCell key)]"
  have cnt1: "counted ?h1 (\<lambda>b. one_ref b (HString ?b) + (one_ref b ?v + refs b (vars s)))"
    by (rule counted_alloc [OF h(2)]) simp_all
  have l: "live h (\<lambda>b. one_ref b ?v + refs b (vars s)) w" if "w \<in> set (vars s)" for w
    using live_add [OF live_in [OF that]] .
  have "typed ?h1 (set (vars s))" by (rule typed_alloc [OF h(2) l h(4)]) simp_all
  then have t1: "typed ?h1 (insert (HString ?b) (set (vars s)))"
    using typed_insert by (simp add: kind_ok_def cell_at_snoc)
  obtain n ms where c: "cell_at h a = Some (n, ObjCell ms)"
    using live_object [OF h(2) l [OF m(1)]] h(4) m(1) unfolding typed_def by blast
  then have c1: "cell_at ?h1 a = Some (n, ObjCell ms)" using cell_at_length [OF c] by (simp add: cell_at_snoc)
  obtain n0 where c0: "cell_at (cells s) a = Some (n0, ObjCell ms)"
    using h(3) c unfolding same_cells_def shrinks_def by blast
  have "\<not> list_ex (\<lambda>m. key_text ?h1 (fst m) = Some key) ms"
  proof
    assume "list_ex (\<lambda>m. key_text ?h1 (fst m) = Some key) ms"
    then obtain k w where kw: "(k, w) \<in> set ms" "key_text ?h1 k = Some key" by (auto simp: list_ex_iff)
    then have "k \<in> set (kids (ObjCell ms))" by auto
    from live_kid [OF c0 this] have lk: "live (cells s) (\<lambda>b. refs b (vars s)) k" .
    have sh: "shrinks (cells s) h" using h(3) by (simp add: same_cells_def)
    then have "length h = length (cells s)" by (simp add: shrinks_def)
    then have "key_text (cells s) k = Some key" by (rule key_text_kept [OF cnt0 lk sh kw(2)])
    then show False using nokey a c0 kw(1) unfolding has_key_def by (metis fst_conv)
  qed
  moreover have "store_inv (s\<lparr>cells := ?h1[a := Some (n, ObjCell (insert_member ?h1 key (HString ?b, ?v) ms))]\<rparr>)"
  proof -
    let ?c = "ObjCell (insert_member ?h1 key (HString ?b, ?v) ms)"
    have "counted (?h1[a := Some (n, ?c)]) (\<lambda>b. refs b (vars s))"
      by (rule counted_move_in [OF _ c1, of "[HString ?b, ?v]"])
        (use cnt1 refs_insert_member in \<open>simp_all add: add.assoc del: kids.simps\<close>)
    moreover have "typed (?h1[a := Some (n, ?c)]) (insert (HString ?b) (set (vars s)))"
    proof (rule typed_update [OF c1 _ t1])
      show "kind_fits w (ObjCell ms) = kind_fits w ?c" for w by (cases w) simp_all
      show "w \<in> set (kids ?c) \<Longrightarrow> w \<in> set (kids (ObjCell ms)) \<or> w \<in> insert (HString ?b) (set (vars s))" for w
        using kids_insert_member [of w ?h1 key "HString ?b" ?v ms] m(2) by auto
    qed
    ultimately show ?thesis using typed_mono by (auto simp: store_inv_def)
  qed
  ultimately show ?thesis using a h(1) c1 by (simp add: add_member_def alloc_def)
qed

section \<open>Reachable stores\<close>

lemma value_do_ok:
  assumes inv: "store_inv s" and legal: "value_legal p s"
  shows "\<exists>s'. value_do p s = Some s' \<and> store_inv s'"
proof (cases p)
  case (AssignElem i j k)
  then obtain v where "array_elem (vars s ! j) k (cells s) = Some v" "room v (cells s)" using legal by auto
  then show ?thesis using assign_elem_ok [OF inv] legal AssignElem by simp
next
  case (AppendCopy i j)
  then show ?thesis using append_copy_ok [OF inv] legal by (auto simp: is_array_def)
next
  case (AppendMove i j)
  then show ?thesis using append_move_ok [OF inv] legal by (auto simp: is_array_def)
next
  case (AddMember i key j)
  then show ?thesis using add_member_ok [OF inv] legal by auto
qed (use legal new_var_ok [OF inv] copy_var_ok [OF inv] move_var_ok [OF inv] drop_var_ok [OF inv]
    set_var_ok [OF inv] assign_copy_ok [OF inv] assign_move_ok [OF inv] in simp_all)

interpretation store: machine "\<lambda>s. s = \<lparr>cells = [], vars = []\<rparr>" value_legal value_do store_inv
  by unfold_locales
    (simp add: store_inv_def counted_def typed_def cell_at_def inner_def rc_def, erule (1) value_do_ok)

lemma value_reach_inv: "value_reach s \<Longrightarrow> store_inv s"
  unfolding value_reach_def by (rule store.steps.reached_inv)

end
