(* ===== verification/JsonHeapProps.thy ===== *)
theory JsonHeapProps
  imports JsonHeapInv
begin

text \<open>
  What the shared storage of values means for a program: exact counts, no cell left behind without
  a cycle, values that stay what they are while others go, and the two ways in which sharing bites.
\<close>

section \<open>The tree a handle stands for\<close>

inductive denotes :: "vheap \<Rightarrow> hvalue \<Rightarrow> JValue \<Rightarrow> bool" for h where
  d_atom: "denotes h (Atom x) x"
| d_string: "cell_at h a = Some (n, StrCell s) \<Longrightarrow> denotes h (HString a) (VString s)"
| d_array: "cell_at h a = Some (n, ArrCell vs) \<Longrightarrow> list_all2 (denotes h) vs ts \<Longrightarrow>
    denotes h (HArray a) (VArray ts)"
| d_object: "cell_at h a = Some (n, ObjCell ms) \<Longrightarrow> list_all2 (denotes h) (map fst ms) (map VString ks) \<Longrightarrow>
    list_all2 (denotes h) (map snd ms) ts \<Longrightarrow> denotes h (HObject a) (VObject (zip ks ts))"
monos list_all2_mono

inductive_simps denotes_simps:
  "denotes h (Atom x) t" "denotes h (HString a) t" "denotes h (HArray a) t" "denotes h (HObject a) t"

lemma denotes_shrinks:
  "denotes h u t \<Longrightarrow> shrinks h h' \<Longrightarrow> counted h' R \<Longrightarrow> live h' R u \<Longrightarrow> denotes h' u t"
proof (induction rule: denotes.induct)
  case (d_atom x)
  show ?case by (rule denotes.d_atom)
next
  case (d_string a n s)
  obtain m c where c: "cell_at h' a = Some (m, c)" using live_cell [OF d_string.prems(2,3)] by auto
  then have "c = StrCell s" using d_string unfolding shrinks_def by fastforce
  then show ?case using c denotes.d_string by blast
next
  case (d_array a n vs ts)
  obtain m c where c: "cell_at h' a = Some (m, c)" using live_cell [OF d_array.prems(2,3)] by auto
  then have e: "c = ArrCell vs" using d_array unfolding shrinks_def by fastforce
  have "live h' R x" if "x \<in> set vs" for x using live_kid [OF c] e that by simp
  then have "list_all2 (denotes h') vs ts"
    using d_array.prems by (intro list.rel_mono_strong [OF d_array.IH]) auto
  then show ?case using c e denotes.d_array by blast
next
  case (d_object a n ms ks ts)
  obtain m c where c: "cell_at h' a = Some (m, c)" using live_cell [OF d_object.prems(2,3)] by auto
  then have e: "c = ObjCell ms" using d_object unfolding shrinks_def by fastforce
  have "live h' R x" if "x \<in> set (map fst ms) \<union> set (map snd ms)" for x
  proof -
    have "x \<in> set (kids c)" using that e by force
    then show ?thesis by (rule live_kid [OF c])
  qed
  then have "list_all2 (denotes h') (map fst ms) (map VString ks)" "list_all2 (denotes h') (map snd ms) ts"
    using d_object.prems
    by (intro list.rel_mono_strong [OF d_object.IH(1)] list.rel_mono_strong [OF d_object.IH(2)]; auto)+
  then show ?case using c e denotes.d_object by blast
qed

section \<open>Nothing is left behind\<close>

definition acyclic_cells :: "vheap \<Rightarrow> bool" where
  "acyclic_cells h \<longleftrightarrow> (\<exists>rank :: nat \<Rightarrow> nat. \<forall>a n c v b. cell_at h a = Some (n, c) \<longrightarrow> v \<in> set (kids c) \<longrightarrow>
     ref_of v = Some b \<longrightarrow> rank b < rank a)"

lemma inner_pos: "0 < inner a h \<Longrightarrow> \<exists>b n c v. cell_at h b = Some (n, c) \<and> v \<in> set (kids c) \<and> ref_of v = Some a"
proof -
  assume "0 < inner a h"
  then have "0 < sum_list (map (cell_refs a) h)" by (simp add: inner_def)
  then obtain x where x: "x \<in> set h" "0 < cell_refs a x"
    by (metis (no_types, lifting) gr0I in_set_conv_nth length_map nth_map sum_list_eq_0_iff less_irrefl set_map imageE)
  then obtain n c where c: "x = Some (n, c)" "0 < refs a (kids c)" by (auto simp: cell_refs_def split: option.splits)
  then obtain v where "v \<in> set (kids c)" "one_ref a v \<noteq> 0"
    unfolding refs_def by (metis (no_types, lifting) less_irrefl sum_list_eq_0_iff set_map imageE)
  moreover obtain b where "b < length h" "h ! b = x" using x(1) by (auto simp: in_set_conv_nth)
  ultimately show ?thesis using c by (auto simp: cell_at_def one_ref_def split: if_splits)
qed

lemma all_freed:
  assumes cnt: "counted h (\<lambda>_. 0)" and "acyclic_cells h"
  shows "cell_at h a = None"
proof (rule ccontr)
  assume a: "cell_at h a \<noteq> None"
  obtain rank :: "nat \<Rightarrow> nat" where rank: "\<forall>a n c v b. cell_at h a = Some (n, c) \<longrightarrow> v \<in> set (kids c) \<longrightarrow>
      ref_of v = Some b \<longrightarrow> rank b < rank a"
    using assms(2) unfolding acyclic_cells_def by (elim exE)
  let ?L = "{b. cell_at h b \<noteq> None}"
  have "?L \<subseteq> {..< length h}" by (auto simp: cell_at_def split: if_splits)
  then have fin: "finite ?L" using finite_subset by blast
  then have "Max (rank ` ?L) \<in> rank ` ?L" using a by (intro Max_in) auto
  then obtain b where "b \<in> ?L" and mx: "rank b = Max (rank ` ?L)" by (rule imageE) simp
  then have b: "cell_at h b \<noteq> None" by simp
  then obtain n c where c: "cell_at h b = Some (n, c)" by auto
  then have "0 < inner b h" using cnt counted_pos [OF cnt c] unfolding counted_def by (auto simp: rc_def)
  from inner_pos [OF this] obtain d m e v
    where d: "cell_at h d = Some (m, e)" "v \<in> set (kids e)" "ref_of v = Some b" by blast
  then have "rank b < rank d" using rank by blast
  moreover have "rank d \<le> Max (rank ` ?L)" using fin d(1) by (intro Max_ge) auto
  ultimately show False using mx by simp
qed

text \<open>As many copies of a string as its count can hold.\<close>

definition many_names :: "nat \<Rightarrow> ValueStore" where
  "many_names n = \<lparr>cells = [Some (int n, StrCell [])], vars = replicate n (HString 0)\<rparr>"

lemma many_names_reach: "int n \<le> 2 ^ 31 - 1 \<Longrightarrow> 0 < n \<Longrightarrow> value_reach (many_names n)"
proof (induction n)
  case (Suc n)
  show ?case
  proof (cases "n = 0")
    case True
    show ?thesis
      by (rule value_next [OF value_start, of "NewVar (OfType TYPE_STRING)"])
        (simp_all add: True many_names_def new_var_def alloc_def)
  next
    case False
    have e: "vars (many_names n) ! 0 = HString 0" using False by (simp add: many_names_def)
    have c: "cell_at (cells (many_names n)) 0 = Some (int n, StrCell [])"
      by (simp add: many_names_def cell_at_def)
    have nc: "next_count (int n) = int (Suc n)" using Suc.prems(1) by (simp add: next_count_def)
    have "value_do (CopyVar 0) (many_names n) = Some (many_names (Suc n))"
      using False nc c e by (simp add: copy_var_def incrAndGet_def)
        (simp add: many_names_def replicate_append_same)
    moreover have "value_legal (CopyVar 0) (many_names n)"
      using False Suc.prems(1) by (simp add: e room_def c) (simp add: many_names_def)
    moreover have "value_reach (many_names n)" using Suc False by simp
    ultimately show ?thesis using value_next by blast
  qed
qed simp

lemma count_wraps:
  "\<exists>s. value_reach s \<and> (\<exists>s'. value_do (CopyVar 0) s = Some s' \<and> value_do (CopyVar 0) s' = None \<and>
     value_do (DropVar 0) s' = None)"
proof -
  let ?n = "2 ^ 31 - 1 :: nat"
  let ?s = "many_names ?n"
  have n: "int ?n = 2 ^ 31 - 1" by simp
  have r: "value_reach ?s" by (rule many_names_reach) simp_all
  have e: "vars ?s ! 0 = HString 0" "vars ?s \<noteq> []" by (simp_all add: many_names_def)
  have c: "cell_at (cells ?s) 0 = Some (2 ^ 31 - 1, StrCell [])" by (simp add: many_names_def cell_at_def)
  have l: "0 < length (cells ?s)" by (simp add: many_names_def)
  let ?t = "\<lparr>cells = (cells ?s)[0 := Some (- (2 ^ 31), StrCell [])], vars = vars ?s @ [HString 0]\<rparr>"
  have "value_do (CopyVar 0) ?s = Some ?t"
    using c e by (simp add: copy_var_def incrAndGet_def next_count_def)
  moreover have "cell_at (cells ?t) 0 = Some (- (2 ^ 31), StrCell [])" "vars ?t ! 0 = HString 0"
    using l e by (simp_all add: nth_append)
  then have "value_do (CopyVar 0) ?t = None" "value_do (DropVar 0) ?t = None"
    by (simp_all add: copy_var_def incrAndGet_def drop_var_def)
  ultimately show ?thesis using r by blast
qed

section \<open>Properties\<close>

text \<open>
  C34: whatever a program does with values (constructing, copying, moving, assigning, setting,
  appending, adding members, destroying) within the conditions of \<open>value_legal\<close>, the reference count
  of a cell is the number of the handles on it, in variables and in other cells, and is never zero;
  no such operation fails an assertion or touches a deleted cell; and when the last variable is
  gone, every cell has been deleted, unless cells refer to each other in a cycle. The conditions
  are those of the code's assertions (variables that exist, arrays, objects and new keys where they
  are asked for, no assignment of a variable to itself), that no element of an array is assigned to
  the variable of that array, and that no value is copied whose count is the largest 32-bit number:
  that count would wrap around, and every later use of the value fails an assertion, as the last
  part shows for a string with \<open>2 ^ 31 - 1\<close> names.
\<close>

theorem value_counts:
  assumes "value_reach s"
  shows "(\<forall>a n c. cell_at (cells s) a = Some (n, c) \<longrightarrow>
      n = int (refs a (vars s) + inner a (cells s)) \<and> 0 < n) \<and>
    (value_legal p s \<longrightarrow> (\<exists>s'. value_do p s = Some s')) \<and>
    (vars s = [] \<and> acyclic_cells (cells s) \<longrightarrow> cell_at (cells s) a = None) \<and>
    (\<exists>s. value_reach s \<and> (\<exists>s'. value_do (CopyVar 0) s = Some s' \<and> value_do (CopyVar 0) s' = None \<and>
      value_do (DropVar 0) s' = None))"
proof (intro conjI impI allI)
  have inv: "store_inv s" using value_reach_inv [OF assms] .
  then have cnt: "counted (cells s) (\<lambda>a. refs a (vars s))" by (simp add: store_inv_def)
  show "\<exists>s'. value_do p s = Some s'" if "value_legal p s" using value_do_ok [OF inv that] by blast
  show "cell_at (cells s) a = None" if "vars s = [] \<and> acyclic_cells (cells s)"
    using all_freed [of "cells s"] cnt that by simp
  fix b n c
  assume b: "cell_at (cells s) b = Some (n, c)"
  show pos: "0 < n" using counted_pos [OF cnt b] .
  have "refs b (vars s) + inner b (cells s) = rc (cell_at (cells s) b)" using cnt by (simp add: counted_def)
  then show "n = int (refs b (vars s) + inner b (cells s))" using b pos by (simp add: rc_def)
qed (rule count_wraps)

text \<open>A program: two names for an array with one string.\<close>

definition two_names :: ValueStore where
  "two_names = \<lparr>cells = [Some (2, ArrCell [HString 1]), Some (1, StrCell ''x'')], vars = [HArray 0, HArray 0]\<rparr>"

lemma two_names_reach: "value_reach two_names"
proof -
  let ?s0 = "\<lparr>cells = [], vars = []\<rparr> :: ValueStore"
  let ?s1 = "\<lparr>cells = [Some (1, ArrCell [])], vars = [HArray 0]\<rparr>"
  let ?s2 = "\<lparr>cells = [Some (1, ArrCell []), Some (1, StrCell ''x'')], vars = [HArray 0, HString 1]\<rparr>"
  let ?s3 = "\<lparr>cells = [Some (1, ArrCell [HString 1]), Some (1, StrCell ''x'')], vars = [HArray 0, Atom VNull]\<rparr>"
  let ?s4 = "\<lparr>cells = [Some (1, ArrCell [HString 1]), Some (1, StrCell ''x'')], vars = [HArray 0]\<rparr>"
  have "value_reach ?s1"
    by (rule value_next [OF value_start, of "NewVar (OfType TYPE_ARRAY)"]) (simp_all add: new_var_def alloc_def)
  then have "value_reach ?s2"
    by (rule value_next [of _ "NewVar (OfString ''x'')"]) (simp_all add: new_var_def alloc_def)
  then have "value_reach ?s3"
    by (rule value_next [of _ "AppendMove 0 1"])
      (simp_all add: append_move_def append_elem_def cell_at_def is_array_def)
  then have "value_reach ?s4"
    by (rule value_next [of _ "DropVar 1"]) (simp_all add: drop_var_def drop_nth_def)
  then show ?thesis
    by (rule value_next [of _ "CopyVar 0"])
      (simp_all add: copy_var_def incrAndGet_def next_count_def room_def cell_at_def two_names_def)
qed

theorem value_counts_witness:
  "2 = int (refs 0 (vars two_names) + inner 0 (cells two_names)) \<and> (\<exists>s'. value_do (DropVar 0) two_names = Some s')"
proof -
  have "cell_at (cells two_names) 0 = Some (2, ArrCell [HString 1])" by (simp add: two_names_def cell_at_def)
  moreover have "value_legal (DropVar 0) two_names" by (simp add: two_names_def)
  ultimately show ?thesis using value_counts [OF two_names_reach, of "DropVar 0"] by blast
qed

text \<open>
  C35: a copy gets the handle of its original, destroying a variable takes away this one only, and
  an assignment gives the variable the handle of the other one (which a move sets to null): all
  other variables keep their handles, and everything that a variable still there stood for before
  it stands for afterwards, though they share storage. But storage is shared for writing too: a
  value appended to an array is appended for every variable that has the same handle. As in C34,
  values are only copied while their counts have room.
\<close>

theorem value_sharing:
  assumes "value_reach s"
  shows "(j < length (vars s) \<and> room (vars s ! j) (cells s) \<and> u \<in> set (vars s) \<and> denotes (cells s) u t \<longrightarrow>
      (\<exists>s'. copy_var j s = Some s' \<and> vars s' = vars s @ [vars s ! j] \<and> denotes (cells s') u t)) \<and>
    (i < length (vars s) \<and> u \<in> set (drop_nth i (vars s)) \<and> denotes (cells s) u t \<longrightarrow>
      (\<exists>s'. drop_var i s = Some s' \<and> vars s' = drop_nth i (vars s) \<and> denotes (cells s') u t)) \<and>
    (i < length (vars s) \<and> j < length (vars s) \<and> i \<noteq> j \<and> room (vars s ! j) (cells s) \<and>
        u \<in> set (drop_nth i (vars s)) \<and> denotes (cells s) u t \<longrightarrow>
      (\<exists>s'. assign_copy i j s = Some s' \<and> vars s' = (vars s)[i := vars s ! j] \<and> denotes (cells s') u t)) \<and>
    (i < length (vars s) \<and> j < length (vars s) \<and> i \<noteq> j \<and>
        u \<in> set (drop_nth i (vars s)) \<and> denotes (cells s) u t \<longrightarrow>
      (\<exists>s'. assign_move i j s = Some s' \<and> vars s' = (vars s)[i := vars s ! j, j := Atom VNull] \<and>
        denotes (cells s') u t)) \<and>
    (i < length (vars s) \<and> j < length (vars s) \<and> room (vars s ! j) (cells s) \<and>
        vars s ! i = HArray a \<and> vars s ! k = HArray a \<longrightarrow>
      (\<exists>s' n m ws. append_copy i j s = Some s' \<and> cell_at (cells s) a = Some (n, ArrCell ws) \<and>
        cell_at (cells s') a = Some (m, ArrCell (ws @ [vars s ! j])) \<and> vars s' = vars s))"
proof (intro conjI impI; (elim conjE)?)
  have inv: "store_inv s" using value_reach_inv [OF assms] .
  then have cnt: "counted (cells s) (\<lambda>a. refs a (vars s))" and ty: "typed (cells s) (set (vars s))"
    by (simp_all add: store_inv_def)
  {
    assume j: "j < length (vars s)" and room: "room (vars s ! j) (cells s)"
      and u: "u \<in> set (vars s)" "denotes (cells s) u t"
    obtain h where h: "incrAndGet (vars s ! j) (cells s) = Some h"
      "counted h (\<lambda>a. one_ref a (vars s ! j) + refs a (vars s))" "same_cells (cells s) h"
      using incr_live [OF cnt live_in [OF nth_mem [OF j]] ty room] by blast
    have "denotes h u t"
      using denotes_shrinks [OF u(2) _ h(2) live_add [OF live_in [OF u(1)]]] h(3) by (simp add: same_cells_def)
    then show "\<exists>s'. copy_var j s = Some s' \<and> vars s' = vars s @ [vars s ! j] \<and> denotes (cells s') u t"
      using h(1) by (simp add: copy_var_def)
  next
    assume i: "i < length (vars s)" and u: "u \<in> set (drop_nth i (vars s))" "denotes (cells s) u t"
    obtain h where h: "release [vars s ! i] (cells s) = Some h"
      "counted h (\<lambda>a. refs a (drop_nth i (vars s)))" "shrinks (cells s) h" "typed h (set (vars s))"
      using release_var [OF inv i] by blast
    have d: "denotes h u t" using denotes_shrinks [OF u(2) h(3,2) live_in [OF u(1)]] .
    then show "\<exists>s'. drop_var i s = Some s' \<and> vars s' = drop_nth i (vars s) \<and> denotes (cells s') u t"
      using h(1) by (simp add: drop_var_def)
    assume j: "j < length (vars s)" "i \<noteq> j"
    show "\<exists>s'. assign_move i j s = Some s' \<and> vars s' = (vars s)[i := vars s ! j, j := Atom VNull] \<and>
        denotes (cells s') u t"
      using d h(1) j(2) by (simp add: assign_move_def)
    assume room: "room (vars s ! j) (cells s)"
    have m: "vars s ! j \<in> set (drop_nth i (vars s))" using mem_drop_nth [OF j] .
    obtain h1 where h1: "incrAndGet (vars s ! j) h = Some h1"
      "counted h1 (\<lambda>a. one_ref a (vars s ! j) + refs a (drop_nth i (vars s)))" "same_cells h h1"
      using incr_live [OF h(2) live_in [OF m] h(4) room_release [OF h(1) room]] by blast
    have "denotes h1 u t"
      using denotes_shrinks [OF d _ h1(2) live_add [OF live_in [OF u(1)]]] h1(3) by (simp add: same_cells_def)
    then show "\<exists>s'. assign_copy i j s = Some s' \<and> vars s' = (vars s)[i := vars s ! j] \<and> denotes (cells s') u t"
      using h(1) h1(1) j(2) by (simp add: assign_copy_def)
  next
    assume i: "i < length (vars s)" and j: "j < length (vars s)" and room: "room (vars s ! j) (cells s)"
      and a: "vars s ! i = HArray a" "vars s ! k = HArray a"
    have m: "HArray a \<in> set (vars s)" using nth_mem [OF i] a by simp
    obtain h where h: "incrAndGet (vars s ! j) (cells s) = Some h"
      "counted h (\<lambda>a. one_ref a (vars s ! j) + refs a (vars s))" "same_cells (cells s) h" "typed h (set (vars s))"
      using incr_live [OF cnt live_in [OF nth_mem [OF j]] ty room] by blast
    have "kind_ok h (HArray a)" using h(4) m unfolding typed_def by blast
    from live_array [OF h(2) live_add [OF live_in [OF m]] this]
    obtain n ws where c: "cell_at h a = Some (n, ArrCell ws)" by blast
    obtain n0 where "cell_at (cells s) a = Some (n0, ArrCell ws)"
      using h(3) c unfolding same_cells_def shrinks_def by blast
    then show "\<exists>s' n m ws. append_copy i j s = Some s' \<and> cell_at (cells s) a = Some (n, ArrCell ws) \<and>
        cell_at (cells s') a = Some (m, ArrCell (ws @ [vars s ! j])) \<and> vars s' = vars s"
      using h(1) c a cell_at_length [OF c] by (simp add: append_copy_def append_elem_def)
  }
qed

theorem value_sharing_witness:
  "\<exists>s'. drop_var 0 two_names = Some s' \<and> denotes (cells s') (HArray 0) (VArray [VString ''x''])"
proof -
  have "denotes (cells two_names) (HArray 0) (VArray [VString ''x''])"
    by (simp add: two_names_def denotes_simps cell_at_def)
  moreover have "HArray 0 \<in> set (drop_nth 0 (vars two_names))" "0 < length (vars two_names)"
    by (simp_all add: two_names_def drop_nth_def)
  ultimately show ?thesis using value_sharing [OF two_names_reach] by blast
qed

text \<open>
  C36: the assignment of an element to the variable that holds the only handle on its array
  destroys the array first and then reads the element from the deleted storage. And an array that
  is appended to itself is never deleted: its count stays at one when no variable is left.
\<close>

theorem value_hazards:
  assumes "i < length (vars s)" and "vars s ! i = HArray a" and "cell_at (cells s) a = Some (1, c)"
  shows "value_do (AssignElem i i k) s = None \<and>
    (\<exists>s1 s2. value_do (NewVar (OfType TYPE_ARRAY)) \<lparr>cells = [], vars = []\<rparr> = Some s1 \<and>
       value_do (AppendCopy 0 0) s1 = Some s2 \<and>
       value_do (DropVar 0) s2 = Some \<lparr>cells = [Some (1, ArrCell [HArray 0])], vars = []\<rparr>)"
proof
  have "array_elem (HArray a) k h = None" if r: "release (kids c) ((cells s)[a := None]) = Some h" for h
  proof -
    have "cell_at h a = None"
    proof (rule ccontr)
      assume "cell_at h a \<noteq> None"
      then obtain n d where "cell_at h a = Some (n, d)" by auto
      then have "\<exists>m. cell_at ((cells s)[a := None]) a = Some (m, d)"
        using release_counts [OF r] by blast
      then show False using cell_at_length [OF assms(3)] by simp
    qed
    then show ?thesis by (simp add: array_elem_def)
  qed
  then show "value_do (AssignElem i i k) s = None"
    using assms by (cases "release (kids c) ((cells s)[a := None])") (auto simp: assign_elem_def Let_def)
  show "\<exists>s1 s2. value_do (NewVar (OfType TYPE_ARRAY)) \<lparr>cells = [], vars = []\<rparr> = Some s1 \<and>
       value_do (AppendCopy 0 0) s1 = Some s2 \<and>
       value_do (DropVar 0) s2 = Some \<lparr>cells = [Some (1, ArrCell [HArray 0])], vars = []\<rparr>"
    by (simp add: new_var_def alloc_def append_copy_def append_elem_def incrAndGet_def next_count_def
        cell_at_def drop_var_def drop_nth_def)
qed

theorem value_hazards_witness:
  "value_do (AssignElem 0 0 0) \<lparr>cells = [Some (1, ArrCell [Atom VNull])], vars = [HArray 0]\<rparr> = None"
  using value_hazards [of 0 "\<lparr>cells = [Some (1, ArrCell [Atom VNull])], vars = [HArray 0]\<rparr>" 0]
  by (simp add: cell_at_def)

end
