(* ===== verification/JsonFileStream.thy ===== *)
theory JsonFileStream
  imports JsonReader JsonWriter
begin

text \<open>
  \<open>FileReadStream\<close> of \<open>JsonServer/ReadStream.h\<close> and \<open>FileWriteStream\<close> of \<open>WriteStream.h\<close>. A file
  is the string of its bytes. The constructor of the read stream copies the file through an array
  on the stack, of which only the first 1024 bytes are initialised; \<open>None\<close> is a read of a byte
  without a value or behind the end of the array. The other operations walk the buffer with an
  iterator; they refine the streams that the reader is modelled on.
\<close>

section \<open>FileReadStream\<close>

definition bufSize :: nat where "bufSize = 65536"

definition zeroed :: nat where "zeroed = 1024"

text \<open>\<open>strlen\<close> of an array; \<open>None\<close> in the array is a byte without a value.\<close>

fun c_strlen :: "char option list \<Rightarrow> nat option" where
  "c_strlen [] = None"
| "c_strlen (None # cs) = None"
| "c_strlen (Some c # cs) = (if c = CHR 0x00 then Some 0 else map_option Suc (c_strlen cs))"

definition fresh_buf :: "char option list" where
  "fresh_buf = replicate zeroed (Some (CHR 0x00)) @ replicate (bufSize - zeroed) None"

text \<open>\<open>read\<close> fills the array as far as the file goes, and sees the end of the file if it is not full.\<close>

function readLoop :: "char option list \<Rightarrow> string \<Rightarrow> string \<Rightarrow> string option" where
  "readLoop buf rest buffer =
     (let buf1 = map Some (take bufSize rest) @ drop (length rest) buf
      in case c_strlen buf1 of
           None \<Rightarrow> None
         | Some n \<Rightarrow>
             (let buffer1 = buffer @ map the (take n buf1)
              in if length rest < bufSize then Some buffer1
                 else readLoop buf1 (drop bufSize rest) buffer1))"
  by pat_completeness auto
termination
  by (relation "measure (\<lambda>(buf, rest, buffer). length rest)") (auto simp: bufSize_def)

declare readLoop.simps [simp del]

definition readStream :: "string \<Rightarrow> string option" where
  "readStream file = readLoop fresh_buf file []"

text \<open>The buffer and its iterator, as an index.\<close>

record FileReadStream =
  fileBuffer :: string
  iter :: nat

definition FileReadStream_new :: "string \<Rightarrow> FileReadStream option" where
  "FileReadStream_new file = map_option (\<lambda>b. \<lparr>fileBuffer = b, iter = 0\<rparr>) (readStream file)"

definition file_hasNext :: "FileReadStream \<Rightarrow> bool" where
  "file_hasNext f \<longleftrightarrow> iter f \<noteq> length (fileBuffer f)"

definition file_front :: "FileReadStream \<Rightarrow> char" where
  "file_front f = (if file_hasNext f then fileBuffer f ! iter f else CHR 0x00)"

definition file_pop :: "FileReadStream \<Rightarrow> FileReadStream" where
  "file_pop f = f\<lparr>iter := Suc (iter f)\<rparr>"

definition file_next :: "FileReadStream \<Rightarrow> char \<times> FileReadStream" where
  "file_next f = (if file_hasNext f then (fileBuffer f ! iter f, f\<lparr>iter := Suc (iter f)\<rparr>) else (CHR 0x00, f))"

definition file_expect :: "FileReadStream \<Rightarrow> char \<Rightarrow> FileReadStream option" where
  "file_expect f ch = (if file_front f = ch then Some (file_pop f) else None)"

section \<open>FileWriteStream\<close>

text \<open>Opening truncates the file.\<close>

definition FileWriteStream_new :: string where
  "FileWriteStream_new = []"

definition file_put :: "string \<Rightarrow> string \<Rightarrow> string" where
  "file_put str file = file @ str"

section \<open>Facts\<close>

lemma c_strlen_nul_free:
  "CHR 0x00 \<notin> set s \<Longrightarrow> c_strlen (map Some s @ cs) = map_option ((+) (length s)) (c_strlen cs)"
proof (induction s)
  case Nil
  show ?case by (cases "c_strlen cs") simp_all
next
  case (Cons c s)
  then show ?case by (cases "c_strlen cs") auto
qed

lemma zeroed_less: "zeroed < bufSize"
  by (simp add: zeroed_def bufSize_def)

lemma c_strlen_fresh:
  "n \<le> bufSize \<Longrightarrow> c_strlen (drop n fresh_buf) = (if n < zeroed then Some 0 else None)"
proof -
  assume n: "n \<le> bufSize"
  show ?thesis
  proof (cases "n < zeroed")
    case True
    then obtain k where "zeroed - n = Suc k" by (metis Suc_diff_Suc)
    then show ?thesis using True by (simp add: fresh_buf_def)
  next
    case False
    then have "drop n fresh_buf = replicate (bufSize - n) None" using zeroed_less by (simp add: fresh_buf_def)
    then show ?thesis using False by (cases "bufSize - n") simp_all
  qed
qed

text \<open>
  What is left of a stream, and that the iterator is inside. A \<open>pop\<close> at the end leaves the buffer;
  the reader pops only characters that it has seen.
\<close>

definition rest :: "FileReadStream \<Rightarrow> rstream" where
  "rest f = drop (iter f) (fileBuffer f)"

definition inside :: "FileReadStream \<Rightarrow> bool" where
  "inside f \<longleftrightarrow> iter f \<le> length (fileBuffer f)"

lemma file_new_rest: "FileReadStream_new file = Some f \<Longrightarrow> inside f \<and> readStream file = Some (rest f)"
  by (auto simp: FileReadStream_new_def inside_def rest_def)

lemma file_rest_cons: "inside f \<Longrightarrow> file_hasNext f \<Longrightarrow> rest f = fileBuffer f ! iter f # rest (file_pop f) \<and> inside (file_pop f)"
  by (simp add: inside_def file_hasNext_def rest_def file_pop_def Cons_nth_drop_Suc)

lemma file_stream_refines:
  assumes "inside f"
  shows "hasNext (rest f) = file_hasNext f" "front (rest f) = file_front f"
    "file_front f \<noteq> CHR 0x00 \<Longrightarrow> inside (file_pop f) \<and> rest (file_pop f) = pop (rest f)"
    "inside (snd (file_next f)) \<and> next_char (rest f) = (fst (file_next f), rest (snd (file_next f)))"
    "ch \<noteq> CHR 0x00 \<Longrightarrow> expect (rest f) ch = map_option rest (file_expect f ch)"
proof -
  show h: "hasNext (rest f) = file_hasNext f"
    using assms by (auto simp: hasNext_def file_hasNext_def rest_def inside_def)
  show fr: "front (rest f) = file_front f"
    using file_rest_cons [OF assms] h by (cases "file_hasNext f") (auto simp: file_front_def hasNext_def)
  show p: "inside (file_pop f) \<and> rest (file_pop f) = pop (rest f)" if "file_front f \<noteq> CHR 0x00"
    using file_rest_cons [OF assms] that by (auto simp: file_front_def split: if_splits)
  show "inside (snd (file_next f)) \<and> next_char (rest f) = (fst (file_next f), rest (snd (file_next f)))"
    using file_rest_cons [OF assms] h assms
    by (cases "file_hasNext f") (auto simp: file_next_def file_pop_def [symmetric] hasNext_def)
  show "expect (rest f) ch = map_option rest (file_expect f ch)" if "ch \<noteq> CHR 0x00"
    using p that fr by (auto simp: expect_def file_expect_def)
qed

section \<open>Property\<close>

text \<open>
  A file without NUL bytes is read as it is if it is shorter than 1024 bytes; if it is longer,
  the constructor reads bytes that were never written, or behind the end of its array.
\<close>

theorem file_stream_limit:
  assumes "CHR 0x00 \<notin> set file"
  shows "readStream file = (if length file < zeroed then Some file else None)"
proof (cases "length file < bufSize")
  case True
  let ?buf = "map Some file @ drop (length file) fresh_buf"
  have len: "c_strlen ?buf = (if length file < zeroed then Some (length file) else None)"
    using c_strlen_nul_free [OF assms, of "drop (length file) fresh_buf"] c_strlen_fresh [of "length file"] True
    by simp
  have "take (length file) ?buf = map Some file" by simp
  then have "map the (take (length file) ?buf) = file" by (simp add: map_idI)
  then show ?thesis
    using len True by (simp add: readStream_def readLoop.simps [of fresh_buf "file" "[]"])
next
  case False
  have "CHR 0x00 \<notin> set (take bufSize file)" using assms by (meson in_set_takeD)
  from c_strlen_nul_free [OF this, of "drop (length file) fresh_buf"]
  have "c_strlen (map Some (take bufSize file) @ drop (length file) fresh_buf) = None"
    using False zeroed_less by (simp add: fresh_buf_def)
  then show ?thesis
    using False zeroed_less by (simp add: readStream_def readLoop.simps [of fresh_buf "file" "[]"])
qed

theorem file_stream_limit_witness:
  "readStream ''[1, 2]'' = Some ''[1, 2]''"
  using file_stream_limit [of "''[1, 2]''"] by (simp add: zeroed_def)

end
