(* ===== verification/RpcBatch.thy ===== *)
theory RpcBatch
  imports RpcServerFacts Machines
begin

text \<open>
  \<open>ThreadSafeBatchResponse\<close> of \<open>RpcServer/Server/RpcServer.cpp\<close>: the responses of a batch, in an
  object shared by the loop of \<open>handleRequestBatch\<close> and by every callback the loop has handed out.
  A procedure may keep its callback and call it later, on any thread; the destructor of the shared
  data, which the last copy of the pointer runs, passes the responses to \<open>done\<close>. The actions of
  the copies interleave; \<open>None\<close> is a failed assertion or an access to the destroyed data.
\<close>

section \<open>The shared data\<close>

text \<open>
  One entry of \<open>copies\<close> is one copy of the \<open>shared_ptr\<close>, with what its owner is doing:
  \<open>Inside v\<close> has the mutex and is about to add \<open>v\<close>, \<open>Leaving\<close> has added it and is about to
  unlock, \<open>Gone\<close> is destroyed. \<open>given\<close> are the responses passed to \<open>addResponse\<close>, in the order
  in which the mutex was taken, and \<open>doneCalls\<close> what \<open>done\<close> was called with.
\<close>

datatype copy = Idle | Inside JValue | Leaving | Gone

record ThreadSafeData =
  batchMutex :: "nat option"
  batchResponses :: JValue
  useCount :: nat
  copies :: "copy list"
  given :: "JValue list"
  doneCalls :: "JValue list"

definition ThreadSafeBatchResponse_new :: ThreadSafeData where
  "ThreadSafeBatchResponse_new =
     \<lparr>batchMutex = None, batchResponses = Value_of_type TYPE_ARRAY, useCount = 1, copies = [Idle],
      given = [], doneCalls = []\<rparr>"

definition alive :: "ThreadSafeData \<Rightarrow> bool" where
  "alive d \<longleftrightarrow> 0 < useCount d"

text \<open>Copying the pointer: a capture of the lambda, or a copy of the callback made from it.\<close>

definition copyPointer :: "ThreadSafeData \<Rightarrow> ThreadSafeData option" where
  "copyPointer d =
     (if alive d then Some (d\<lparr>useCount := Suc (useCount d), copies := copies d @ [Idle]\<rparr>) else None)"

text \<open>\<open>addResponse\<close>: taking the mutex, adding the response, and releasing the mutex.\<close>

definition takeMutex :: "nat \<Rightarrow> JValue \<Rightarrow> ThreadSafeData \<Rightarrow> ThreadSafeData option" where
  "takeMutex i v d =
     (if alive d then Some (d\<lparr>batchMutex := Some i, copies := (copies d)[i := Inside v], given := given d @ [v]\<rparr>)
      else None)"

definition addToResponses :: "nat \<Rightarrow> JValue \<Rightarrow> ThreadSafeData \<Rightarrow> ThreadSafeData option" where
  "addToResponses i v d =
     (if alive d then
        map_option (\<lambda>rs. d\<lparr>batchResponses := rs, copies := (copies d)[i := Leaving]\<rparr>)
          (addValue (batchResponses d) v)
      else None)"

definition dropMutex :: "nat \<Rightarrow> ThreadSafeData \<Rightarrow> ThreadSafeData option" where
  "dropMutex i d =
     (if alive d then Some (d\<lparr>batchMutex := None, copies := (copies d)[i := Idle]\<rparr>) else None)"

definition addResponse :: "nat \<Rightarrow> JValue \<Rightarrow> ThreadSafeData \<Rightarrow> ThreadSafeData option" where
  "addResponse i v d =
     Option.bind (takeMutex i v d) (\<lambda>d1. Option.bind (addToResponses i v d1) (dropMutex i))"

text \<open>Destroying a copy; the last one runs \<open>~ThreadSafeData\<close>.\<close>

definition dropPointer :: "nat \<Rightarrow> ThreadSafeData \<Rightarrow> ThreadSafeData option" where
  "dropPointer i d =
     (if alive d then
        (let d1 = d\<lparr>useCount := useCount d - 1, copies := (copies d)[i := Gone]\<rparr>
         in Some (if useCount d1 = 0 then d1\<lparr>doneCalls := doneCalls d1 @ [batchResponses d1]\<rparr> else d1))
      else None)"

section \<open>The copies among threads\<close>

datatype batch_action = Copy nat | Take nat JValue | Add nat | Leave nat | Drop nat

fun batch_act :: "batch_action \<Rightarrow> ThreadSafeData \<Rightarrow> ThreadSafeData option" where
  "batch_act (Copy i) d = copyPointer d"
| "batch_act (Take i v) d = takeMutex i v d"
| "batch_act (Add i) d = (case copies d ! i of Inside v \<Rightarrow> addToResponses i v d | _ \<Rightarrow> None)"
| "batch_act (Leave i) d = dropMutex i d"
| "batch_act (Drop i) d = dropPointer i d"

text \<open>
  An owner copies, uses or destroys its copy while it has one and does nothing else with it;
  \<open>std::mutex\<close> blocks while another owner has it.
\<close>

definition owner_is :: "copy \<Rightarrow> nat \<Rightarrow> ThreadSafeData \<Rightarrow> bool" where
  "owner_is c i d \<longleftrightarrow> i < length (copies d) \<and> copies d ! i = c"

fun batch_legal :: "batch_action \<Rightarrow> ThreadSafeData \<Rightarrow> bool" where
  "batch_legal (Copy i) d = owner_is Idle i d"
| "batch_legal (Take i v) d = (owner_is Idle i d \<and> batchMutex d = None)"
| "batch_legal (Add i) d = (\<exists>v. owner_is (Inside v) i d)"
| "batch_legal (Leave i) d = owner_is Leaving i d"
| "batch_legal (Drop i) d = owner_is Idle i d"

definition batch_reach :: "ThreadSafeData \<Rightarrow> bool" where
  "batch_reach = reached (\<lambda>d. d = ThreadSafeBatchResponse_new) (acts batch_legal batch_act)"

section \<open>The invariant\<close>

text \<open>
  The mutex is held by the one owner inside \<open>addResponse\<close>, the count is the number of living
  copies, what was given is in the array but for the response about to be added, and \<open>done\<close> was
  called once, with all of it, when no copy is left.
\<close>

fun in_flight :: "copy \<Rightarrow> JValue list" where
  "in_flight (Inside v) = [v]"
| "in_flight _ = []"

definition busy :: "copy \<Rightarrow> bool" where
  "busy c \<longleftrightarrow> c = Leaving \<or> (\<exists>v. c = Inside v)"

lemma busy_simps [simp]: "busy Leaving" "busy (Inside v)" "\<not> busy Idle" "\<not> busy Gone"
  by (simp_all add: busy_def)

definition live_copies :: "copy list \<Rightarrow> nat" where
  "live_copies cs = length (filter (\<lambda>c. c \<noteq> Gone) cs)"

definition mutex_inv :: "nat option \<Rightarrow> copy list \<Rightarrow> bool" where
  "mutex_inv m cs \<longleftrightarrow> (\<forall>i < length cs. busy (cs ! i) \<longleftrightarrow> m = Some i) \<and> (\<forall>i. m = Some i \<longrightarrow> i < length cs)"

definition waiting :: "ThreadSafeData \<Rightarrow> JValue list" where
  "waiting d = (case batchMutex d of None \<Rightarrow> [] | Some i \<Rightarrow> in_flight (copies d ! i))"

definition batch_inv :: "ThreadSafeData \<Rightarrow> bool" where
  "batch_inv d \<longleftrightarrow> mutex_inv (batchMutex d) (copies d) \<and> useCount d = live_copies (copies d) \<and>
     (\<exists>rs. batchResponses d = VArray rs \<and> given d = rs @ waiting d) \<and>
     doneCalls d = (if alive d then [] else [VArray (given d)])"

lemma live_copies_simps [simp]:
  "live_copies [] = 0" "live_copies (c # cs) = (if c = Gone then 0 else 1) + live_copies cs"
  "live_copies (cs @ cs') = live_copies cs + live_copies cs'"
  by (simp_all add: live_copies_def)

lemma live_copies_update:
  "i < length cs \<Longrightarrow> live_copies (cs[i := c]) + (if cs ! i = Gone then 0 else 1)
     = live_copies cs + (if c = Gone then 0 else 1)"
proof (induction cs arbitrary: i)
  case (Cons a cs)
  then show ?case by (cases i) (auto split: if_splits)
qed simp

lemma live_copies_owner: "owner_is c i d \<Longrightarrow> c \<noteq> Gone \<Longrightarrow> 0 < live_copies (copies d)"
  using live_copies_update [of i "copies d" Gone] by (simp add: owner_is_def)

lemma live_copies_keep:
  "owner_is c i d \<Longrightarrow> c \<noteq> Gone \<Longrightarrow> c' \<noteq> Gone \<Longrightarrow> live_copies ((copies d)[i := c']) = live_copies (copies d)"
  using live_copies_update [of i "copies d" c'] by (simp add: owner_is_def)

lemma batch_inv_alive: "batch_inv d \<Longrightarrow> owner_is c i d \<Longrightarrow> c \<noteq> Gone \<Longrightarrow> alive d"
  using live_copies_owner by (simp add: batch_inv_def alive_def)

lemma mutex_inv_update:
  "mutex_inv m cs \<Longrightarrow> i < length cs \<Longrightarrow> (m = None \<or> m = Some i) \<Longrightarrow>
     mutex_inv (if busy c then Some i else None) (cs[i := c])"
  by (auto simp: mutex_inv_def nth_list_update)

lemma mutex_inv_idle: "mutex_inv m cs \<Longrightarrow> i < length cs \<Longrightarrow> \<not> busy (cs ! i) \<Longrightarrow> \<not> busy c \<Longrightarrow> mutex_inv m (cs[i := c])"
  by (auto simp: mutex_inv_def nth_list_update)

lemma mutex_inv_append: "mutex_inv m cs \<Longrightarrow> mutex_inv m (cs @ [Idle])"
  by (auto simp: mutex_inv_def nth_append less_Suc_eq)

lemma mutex_inv_busy: "mutex_inv (batchMutex d) (copies d) \<Longrightarrow> owner_is c i d \<Longrightarrow> busy c \<longleftrightarrow> batchMutex d = Some i"
  by (auto simp: mutex_inv_def owner_is_def)

lemma batch_act_inv:
  assumes inv: "batch_inv d" and legal: "batch_legal a d"
  shows "\<exists>d'. batch_act a d = Some d' \<and> batch_inv d'"
proof -
  obtain rs where rs: "batchResponses d = VArray rs" "given d = rs @ waiting d"
    and m: "mutex_inv (batchMutex d) (copies d)" and n: "useCount d = live_copies (copies d)"
    and dn: "doneCalls d = (if alive d then [] else [VArray (given d)])"
    using inv by (auto simp: batch_inv_def)
  note keep = live_copies_keep [where d = d] and upd = mutex_inv_update [OF m]
  show ?thesis
  proof (cases a)
    case (Copy i)
    then have "alive d" using legal batch_inv_alive [OF inv] by auto
    moreover have "waiting (d\<lparr>useCount := k, copies := copies d @ [Idle]\<rparr>) = waiting d" for k
      using m by (auto simp: waiting_def mutex_inv_def nth_append split: option.splits)
    ultimately show ?thesis using Copy rs n dn mutex_inv_append [OF m]
      by (simp add: batch_inv_def copyPointer_def alive_def)
  next
    case (Take i v)
    then have o: "owner_is Idle i d" and u: "batchMutex d = None" using legal by auto
    then have al: "alive d" using batch_inv_alive [OF inv] by auto
    then show ?thesis using Take o u rs n dn upd [of i "Inside v"] keep [of Idle i "Inside v"]
      by (simp add: batch_inv_def takeMutex_def alive_def waiting_def owner_is_def)
  next
    case (Add i)
    then obtain v where o: "owner_is (Inside v) i d" using legal by auto
    then have u: "batchMutex d = Some i" using mutex_inv_busy [OF m, of _ i] by fastforce
    from o have al: "alive d" using batch_inv_alive [OF inv] by auto
    then show ?thesis using Add o u rs n dn upd [of i Leaving] keep [of "Inside v" i Leaving]
      by (simp add: batch_inv_def addToResponses_def alive_def waiting_def owner_is_def)
  next
    case (Leave i)
    then have o: "owner_is Leaving i d" using legal by auto
    then have u: "batchMutex d = Some i" using mutex_inv_busy [OF m, of _ i] by fastforce
    from o have al: "alive d" using batch_inv_alive [OF inv] by auto
    then show ?thesis using Leave o u rs n dn upd [of i Idle] keep [of Leaving i Idle]
      by (simp add: batch_inv_def dropMutex_def alive_def waiting_def owner_is_def)
  next
    case (Drop i)
    then have o: "owner_is Idle i d" using legal by auto
    then have al: "alive d" using batch_inv_alive [OF inv] by auto
    have u: "batchMutex d \<noteq> Some i" using mutex_inv_busy [OF m o] by auto
    have lc: "useCount d - 1 = live_copies ((copies d)[i := Gone])"
      using live_copies_update [of i "copies d" Gone] o n by (simp add: owner_is_def)
    have m': "mutex_inv (batchMutex d) ((copies d)[i := Gone])"
      using mutex_inv_idle [OF m, of i Gone] o by (simp add: owner_is_def)
    have w: "waiting (d\<lparr>useCount := k, copies := (copies d)[i := Gone]\<rparr>) = waiting d" for k
      using u by (auto simp: waiting_def nth_list_update split: option.splits)
    have last: "waiting d = []" if "live_copies ((copies d)[i := Gone]) = 0"
    proof (cases "batchMutex d")
      case (Some j)
      then have "busy ((copies d)[i := Gone] ! j)" "j < length (copies d)" using m' by (auto simp: mutex_inv_def)
      then have "0 < live_copies ((copies d)[i := Gone])"
        using live_copies_owner [of "(copies d)[i := Gone] ! j" j "d\<lparr>copies := (copies d)[i := Gone]\<rparr>"]
        by (auto simp: owner_is_def busy_def)
      with that show ?thesis by simp
    qed (simp add: waiting_def)
    have w': "waiting (d\<lparr>useCount := k, copies := (copies d)[i := Gone], doneCalls := ds\<rparr>) = waiting d" for k ds
      using u by (auto simp: waiting_def nth_list_update split: option.splits)
    show ?thesis using Drop al rs dn m' w w' lc last
      by (simp add: batch_inv_def dropPointer_def alive_def Let_def)
  qed
qed

interpretation batch: machine "\<lambda>d. d = ThreadSafeBatchResponse_new" batch_legal batch_act batch_inv
proof
  show "batch_inv d" if "d = ThreadSafeBatchResponse_new" for d
    using that by (simp add: batch_inv_def ThreadSafeBatchResponse_new_def mutex_inv_def waiting_def alive_def)
qed (rule batch_act_inv)

lemma batch_reach_inv: "batch_reach d \<Longrightarrow> batch_inv d"
  unfolding batch_reach_def by (rule batch.steps.reached_inv)

lemma batch_start: "batch_reach ThreadSafeBatchResponse_new"
  by (simp add: batch_reach_def reached_initial)

lemma batch_next: "batch_reach d \<Longrightarrow> batch_legal a d \<Longrightarrow> batch_act a d = Some d' \<Longrightarrow> batch_reach d'"
  unfolding batch_reach_def by (rule reached_step) (auto simp: acts_def)

lemma batch_given_grows: "batch_act a d = Some d' \<Longrightarrow> \<exists>vs. given d' = given d @ vs"
  by (cases a) (auto simp: copyPointer_def takeMutex_def addToResponses_def dropMutex_def dropPointer_def Let_def
      split: if_splits copy.splits)

text \<open>A sequence of legal actions.\<close>

fun batch_acts :: "batch_action list \<Rightarrow> ThreadSafeData \<Rightarrow> ThreadSafeData option" where
  "batch_acts [] d = Some d"
| "batch_acts (a # as) d = (if batch_legal a d then Option.bind (batch_act a d) (batch_acts as) else None)"

lemma batch_acts_reach: "batch_reach d \<Longrightarrow> batch_acts as d = Some d' \<Longrightarrow> batch_reach d'"
  by (induction as d rule: batch_acts.induct) (auto simp: bind_eq_Some_conv split: if_splits intro: batch_next)

section \<open>Winding down\<close>

text \<open>The actions that remain when no callback is copied or called any more.\<close>

fun winds_down :: "batch_action \<Rightarrow> bool" where
  "winds_down (Copy i) = False"
| "winds_down (Take i v) = False"
| "winds_down _ = True"

definition wind :: "ThreadSafeData \<Rightarrow> ThreadSafeData \<Rightarrow> bool" where
  "wind = acts (\<lambda>a d. batch_legal a d \<and> winds_down a) batch_act"

fun copy_work :: "copy \<Rightarrow> nat" where
  "copy_work Gone = 0" | "copy_work Idle = 1" | "copy_work Leaving = 2" | "copy_work (Inside v) = 3"

definition batch_work :: "ThreadSafeData \<Rightarrow> nat" where
  "batch_work d = sum_list (map copy_work (copies d))"

lemma copy_work_update:
  "i < length cs \<Longrightarrow> copy_work c < copy_work (cs ! i) \<Longrightarrow>
     sum_list (map copy_work (cs[i := c])) < sum_list (map copy_work cs)"
  using member_le_sum_list [of "copy_work (cs ! i)" "map copy_work cs"]
  by (simp add: map_update sum_list_update)

lemma wind_decreases:
  assumes "wind d d'"
  shows "batch_work d' < batch_work d \<and> given d' = given d"
proof -
  obtain a where a: "batch_legal a d" "winds_down a" "batch_act a d = Some d'"
    using assms by (auto simp: wind_def acts_def)
  then show ?thesis
    by (cases a) (auto simp: owner_is_def batch_work_def addToResponses_def dropMutex_def dropPointer_def Let_def
        intro!: copy_work_update split: if_splits copy.splits)
qed

lemma wind_reach: "batch_reach d \<Longrightarrow> wind d d' \<Longrightarrow> batch_reach d'"
  using batch_next by (auto simp: wind_def acts_def)

lemma wind_possible:
  assumes r: "batch_reach d" and al: "alive d"
  shows "\<exists>d'. wind d d'"
proof -
  have "0 < live_copies (copies d)" using batch_reach_inv [OF r] al by (simp add: batch_inv_def alive_def)
  then obtain c where c: "c \<in> set (copies d)" "c \<noteq> Gone"
    by (auto simp: live_copies_def filter_empty_conv)
  then obtain i where i: "i < length (copies d)" "copies d ! i = c" by (auto simp: in_set_conv_nth)
  define a where "a = (case c of Idle \<Rightarrow> Drop i | Inside v \<Rightarrow> Add i | _ \<Rightarrow> Leave i)"
  have "batch_legal a d" "winds_down a" using i c by (auto simp: a_def owner_is_def split: copy.splits)
  then show ?thesis
    using batch_act_inv [OF batch_reach_inv [OF r], of a] by (auto simp: wind_def acts_def)
qed

lemma wind_finishes:
  "batch_reach d \<Longrightarrow> \<exists>d'. wind\<^sup>*\<^sup>* d d' \<and> doneCalls d' = [VArray (given d)]"
proof (induction "batch_work d" arbitrary: d rule: less_induct)
  case less
  show ?case
  proof (cases "alive d")
    case True
    then obtain d1 where d1: "wind d d1" using wind_possible less.prems by blast
    have "batch_work d1 < batch_work d" "given d1 = given d" using wind_decreases [OF d1] by simp_all
    then show ?thesis
      using less.hyps [of d1] wind_reach [OF less.prems d1] d1 by (metis converse_rtranclp_into_rtranclp)
  next
    case False
    then show ?thesis using batch_reach_inv [OF less.prems] by (auto simp: batch_inv_def)
  qed
qed

section \<open>The batch handler on the shared data\<close>

text \<open>
  \<open>handleRequestBatch\<close> as the code has it, for callbacks that are called and dropped before the
  procedure returns: copy 0 is the local variable \<open>responses\<close>, every request that is handed on gets
  a copy of its own.
\<close>

fun addResponses :: "nat \<Rightarrow> JValue list \<Rightarrow> ThreadSafeData \<Rightarrow> ThreadSafeData option" where
  "addResponses i [] d = Some d"
| "addResponses i (v # vs) d = Option.bind (addResponse i v d) (addResponses i vs)"

definition handsOn :: "JValue \<Rightarrow> bool" where
  "handsOn request \<longleftrightarrow> isObject request \<and> isNotify request = Ret False"

definition sharedOne ::
    "RpcServer \<Rightarrow> JValue \<Rightarrow> ThreadSafeData \<Rightarrow> ThreadSafeData option \<times> (rpc_exception, unit) outcome" where
  "sharedOne S request d =
     (case handleOne S request of
        (rs, out) \<Rightarrow>
          (if handsOn request then
             (let i = length (copies d)
              in Option.bind (copyPointer d) (\<lambda>d1. Option.bind (addResponses i rs d1) (dropPointer i)))
           else Some d, out))"

fun sharedLoop ::
    "RpcServer \<Rightarrow> JValue list \<Rightarrow> ThreadSafeData \<Rightarrow> ThreadSafeData option \<times> (rpc_exception, unit) outcome" where
  "sharedLoop S [] d = (Some d, Ret ())"
| "sharedLoop S (request # rest) d =
     (case sharedOne S request d of
        (Some d1, Ret _) \<Rightarrow> sharedLoop S rest d1
      | r \<Rightarrow> r)"

definition leaveBatch :: "ThreadSafeData \<Rightarrow> run" where
  "leaveBatch d = (case dropPointer 0 d of None \<Rightarrow> aborts | Some d1 \<Rightarrow> (doneCalls d1, Ret ()))"

definition sharedRequestBatch :: "(string \<Rightarrow> string) \<Rightarrow> RpcServer \<Rightarrow> JValue \<Rightarrow> run" where
  "sharedRequestBatch freed S requests =
     (if getSize requests = 0 then
        throws (RequestException RPC_INVALID_REQUEST VNull (Literal ''batch request is empty''))
      else run_bind (of_option (getArray requests)) (\<lambda>vs.
        (case sharedLoop S vs ThreadSafeBatchResponse_new of
           (None, _) \<Rightarrow> aborts
         | (Some d, Ret _) \<Rightarrow> leaveBatch d
         | (Some d, Throw (RequestException err ident det)) \<Rightarrow>
             run_bind (of_option (wrapException freed err det)) (\<lambda>response.
               (case addResponse 0 response d of None \<Rightarrow> aborts | Some d1 \<Rightarrow> leaveBatch d1))
         | (Some d, Throw (NotifyException err det)) \<Rightarrow> leaveBatch d
         | (Some d, Abort) \<Rightarrow> aborts)))"

text \<open>The data between two requests: only copy 0 is left.\<close>

definition quiet :: "JValue list \<Rightarrow> nat \<Rightarrow> ThreadSafeData" where
  "quiet rs n = \<lparr>batchMutex = None, batchResponses = VArray rs, useCount = 1,
     copies = Idle # replicate n Gone, given = rs, doneCalls = []\<rparr>"

lemma addResponse_ok:
  "alive d \<Longrightarrow> batchResponses d = VArray vs \<Longrightarrow> addResponse i v d = Some (d\<lparr>batchMutex := None,
     batchResponses := VArray (vs @ [v]), copies := (copies d)[i := Idle], given := given d @ [v]\<rparr>)"
  by (simp add: addResponse_def takeMutex_def addToResponses_def dropMutex_def alive_def)

lemma addResponses_ok:
  "alive d \<Longrightarrow> batchMutex d = None \<Longrightarrow> batchResponses d = VArray vs \<Longrightarrow> owner_is Idle i d \<Longrightarrow>
     addResponses i rs d = Some (d\<lparr>batchResponses := VArray (vs @ rs), given := given d @ rs\<rparr>)"
proof (induction rs arbitrary: d vs)
  case (Cons v rs)
  have "(copies d)[i := Idle] = copies d" using Cons.prems(4) by (metis list_update_id owner_is_def)
  then show ?case
    using Cons.prems addResponse_ok [OF Cons.prems(1,3), of i v]
      Cons.IH [of "d\<lparr>batchMutex := None, batchResponses := VArray (vs @ [v]), copies := copies d, given := given d @ [v]\<rparr>"]
    by (simp add: alive_def owner_is_def)
qed simp

lemma handleOne_silent: "\<not> handsOn request \<Longrightarrow> fst (handleOne S request) = []"
  by (cases "isNotify request"; cases "handleNotifySingle S request")
    (auto simp: handsOn_def handleOne_def run_defs)

lemma sharedOne_quiet:
  "\<exists>n'. sharedOne S request (quiet rs n) =
     (Some (quiet (rs @ fst (handleOne S request)) n'), snd (handleOne S request))"
proof (cases "handsOn request")
  case True
  obtain vs out where h: "handleOne S request = (vs, out)" by fastforce
  let ?d = "(quiet rs n)\<lparr>useCount := 2, copies := Idle # replicate n Gone @ [Idle]\<rparr>"
  have c: "copyPointer (quiet rs n) = Some ?d" by (simp add: copyPointer_def quiet_def alive_def numeral_2_eq_2)
  have a: "addResponses (Suc n) vs ?d = Some (?d\<lparr>batchResponses := VArray (rs @ vs), given := rs @ vs\<rparr>)"
    using addResponses_ok [of ?d rs "Suc n" vs] by (simp add: alive_def quiet_def owner_is_def nth_append)
  have u: "(replicate n Gone @ [Idle])[n := Gone] = replicate (Suc n) Gone"
    using list_update_length [of "replicate n Gone" Idle "[]" Gone] by (simp add: replicate_append_same)
  have "dropPointer (Suc n) (?d\<lparr>batchResponses := VArray (rs @ vs), given := rs @ vs\<rparr>) = Some (quiet (rs @ vs) (Suc n))"
    using u by (simp add: dropPointer_def alive_def Let_def quiet_def)
  then have "sharedOne S request (quiet rs n) = (Some (quiet (rs @ vs) (Suc n)), out)"
    using True h c a by (simp add: sharedOne_def quiet_def Let_def)
  then show ?thesis using h by auto
next
  case False
  then show ?thesis using handleOne_silent [OF False, of S]
    by (cases "handleOne S request") (auto simp: sharedOne_def)
qed

lemma sharedLoop_quiet:
  "\<exists>n'. sharedLoop S vs (quiet rs n) = (Some (quiet (rs @ fst (batchLoop S vs)) n'), snd (batchLoop S vs))"
proof (induction vs arbitrary: rs n)
  case Nil
  then show ?case by (auto simp: returns_def)
next
  case (Cons v vs)
  obtain n1 where 1: "sharedOne S v (quiet rs n) = (Some (quiet (rs @ fst (handleOne S v)) n1), snd (handleOne S v))"
    using sharedOne_quiet by blast
  show ?case
  proof (cases "snd (handleOne S v)")
    case (Ret u)
    then show ?thesis using 1 Cons.IH [of "rs @ fst (handleOne S v)" n1] by (simp add: run_seq_def)
  qed (use 1 in \<open>auto simp: run_seq_def\<close>)
qed

lemma leaveBatch_quiet: "leaveBatch (quiet rs n) = ([VArray rs], Ret ())"
  by (simp add: leaveBatch_def dropPointer_def alive_def quiet_def Let_def)

lemma addResponse_quiet: "addResponse 0 v (quiet rs n) = Some (quiet (rs @ [v]) n)"
  by (simp add: addResponse_ok [of _ rs] quiet_def alive_def)

section \<open>Properties\<close>

text \<open>
  C13: however the owners of the callbacks of a batch interleave, \<open>done\<close> is called once: when the
  last copy of the pointer is destroyed, with the array of all responses that were added, in the order
  in which the mutex was taken; not while a callback is left; and no owner finds the data destroyed.
\<close>

theorem batch_done_once:
  assumes "batch_reach d"
  shows "(alive d \<longleftrightarrow> (\<exists>c \<in> set (copies d). c \<noteq> Gone))
    \<and> doneCalls d = (if alive d then [] else [VArray (given d)])
    \<and> (batch_legal a d \<longrightarrow> (\<exists>d' vs. batch_act a d = Some d' \<and> batch_reach d' \<and> given d' = given d @ vs))"
proof (intro conjI impI)
  have inv: "batch_inv d" by (rule batch_reach_inv [OF assms])
  then show "alive d \<longleftrightarrow> (\<exists>c \<in> set (copies d). c \<noteq> Gone)"
    by (auto simp: batch_inv_def alive_def live_copies_def filter_empty_conv)
  show "doneCalls d = (if alive d then [] else [VArray (given d)])" using inv by (simp add: batch_inv_def)
  assume "batch_legal a d"
  then show "\<exists>d' vs. batch_act a d = Some d' \<and> batch_reach d' \<and> given d' = given d @ vs"
    using batch_act_inv [OF inv] batch_next [OF assms] batch_given_grows by blast
qed

text \<open>Two callbacks; the second answers first, when the loop is over, and the first holds the mutex.\<close>

definition two_callbacks :: "batch_action list" where
  "two_callbacks = [Copy 0, Copy 0, Drop 0, Take 2 (VBool True), Add 2, Leave 2, Drop 2, Take 1 VNull, Add 1]"

definition nearly_done :: ThreadSafeData where
  "nearly_done = \<lparr>batchMutex = Some 1, batchResponses = VArray [VBool True, VNull], useCount = 1,
     copies = [Gone, Leaving, Gone], given = [VBool True, VNull], doneCalls = []\<rparr>"

lemma nearly_done_reach: "batch_reach nearly_done"
  by (rule batch_acts_reach [OF batch_start, of two_callbacks])
    (simp add: two_callbacks_def nearly_done_def ThreadSafeBatchResponse_new_def copyPointer_def takeMutex_def
      addToResponses_def dropMutex_def dropPointer_def alive_def owner_is_def Let_def numeral_2_eq_2)

theorem batch_done_once_witness:
  "batch_reach nearly_done \<and> doneCalls nearly_done = [] \<and>
   (\<exists>d'. batch_act (Leave 1) nearly_done = Some d' \<and> batch_reach d')"
  using batch_done_once [OF nearly_done_reach, of "Leave 1"] nearly_done_reach
  by (auto simp: nearly_done_def alive_def owner_is_def)

text \<open>
  A batch cannot get stuck in its container: as long as a copy is left some action that adds,
  unlocks or destroys is possible, every such action brings the batch nearer to its end, and they lead
  to the call of \<open>done\<close> with everything that was given.
\<close>

theorem batch_winds_down:
  assumes "batch_reach d"
  shows "(alive d \<longrightarrow> (\<exists>d'. wind d d')) \<and> (\<forall>d'. wind d d' \<longrightarrow> batch_work d' < batch_work d)
    \<and> (\<exists>d'. wind\<^sup>*\<^sup>* d d' \<and> doneCalls d' = [VArray (given d)])"
  using wind_possible [OF assms] wind_decreases wind_finishes [OF assms] by blast

theorem batch_winds_down_witness:
  "\<exists>d'. wind\<^sup>*\<^sup>* nearly_done d' \<and> doneCalls d' = [VArray [VBool True, VNull]]"
  using batch_winds_down [OF nearly_done_reach] by (simp add: nearly_done_def)

text \<open>
  C14: for procedures that call their callback before they return, \<open>handleRequestBatch\<close> on the shared,
  counted and locked container is the function that collects the responses in a list.
\<close>

theorem batch_container_refines:
  "sharedRequestBatch freed S requests = handleRequestBatch freed S requests"
proof (cases requests)
  case (VArray vs)
  have q: "ThreadSafeBatchResponse_new = quiet [] 0" by (simp add: ThreadSafeBatchResponse_new_def quiet_def)
  obtain n where "sharedLoop S vs (quiet [] 0) = (Some (quiet (fst (batchLoop S vs)) n), snd (batchLoop S vs))"
    using sharedLoop_quiet [of S vs "[]" 0] by auto
  then show ?thesis
    by (cases "batchLoop S vs")
      (auto simp: VArray q sharedRequestBatch_def handleRequestBatch_def leaveBatch_quiet addResponse_quiet
        split: outcome.splits rpc_exception.splits)
qed (simp_all add: sharedRequestBatch_def handleRequestBatch_def)

end
