(* ===== verification/RpcStub.thy ===== *)
theory RpcStub
  imports RpcTypes
begin

text \<open>
  \<open>RpcServer/Stub\<close>: the generators of C++ stubs from a service description, with the text of
  their templates. \<open>StubGen\<close> validates the description (\<open>Throw\<close> is its \<open>StubException\<close>);
  the generators fill templates with \<open>replaceAll\<close>. A \<open>None\<close> of a generator means that it does
  not return: a replacement loops forever, an assertion fails, or control flows off the end of a
  function that should return a string.
\<close>

section \<open>StubGen: the description of a service\<close>

record RpcReturn =
  returnName :: string
  returnParams :: JValue
  returnReturns :: JValue

record RpcNotify =
  notifyName :: string
  notifyParams :: JValue

record ServiceInfo =
  serviceName :: string
  rpcReturns :: "RpcReturn list"
  rpcNotifys :: "RpcNotify list"

definition expectStub :: "bool \<Rightarrow> string \<Rightarrow> (string, unit) outcome" where
  "expectStub result errMsg = (if \<not> result then Throw errMsg else Ret ())"

text \<open>The loop of \<open>validateParams\<close> over the members, with the set of names seen.\<close>

fun validateParams_loop :: "string set \<Rightarrow> member_list \<Rightarrow> (string, unit) outcome" where
  "validateParams_loop paramsSet [] = Ret ()"
| "validateParams_loop paramsSet ((key, v) # ms) =
     out_bind (expectStub (key \<notin> paramsSet) ''duplicate param name'') (\<lambda>_.
     out_bind (case getType v of TYPE_NULL \<Rightarrow> expectStub False ''bad param type'' | _ \<Rightarrow> Ret ()) (\<lambda>_.
     validateParams_loop (insert key paramsSet) ms))"

definition validateParams :: "JValue \<Rightarrow> (string, unit) outcome" where
  "validateParams ps = out_bind (of_option (getObject ps)) (validateParams_loop {})"

definition validateReturns :: "JValue \<Rightarrow> (string, unit) outcome" where
  "validateReturns ret =
     (case getType ret of
        TYPE_NULL \<Rightarrow> expectStub False ''bad returns type''
      | TYPE_ARRAY \<Rightarrow> expectStub False ''bad returns type''
      | TYPE_OBJECT \<Rightarrow> validateParams ret
      | _ \<Rightarrow> Ret ())"

text \<open>One round of the loop of \<open>parseRpc\<close>, the loop, and the checks before it.\<close>

definition parseRpc_one :: "JValue \<Rightarrow> ServiceInfo \<Rightarrow> (string, ServiceInfo) outcome" where
  "parseRpc_one func info =
     out_bind (expectStub (isObject func) ''expect func is object type'') (\<lambda>_.
     out_bind (of_option (hasMember func ''name'')) (\<lambda>h.
     out_bind (expectStub h ''expect func has name member'') (\<lambda>_.
     out_bind (of_option (member_at func ''name'')) (\<lambda>name.
     out_bind (expectStub (isString name) ''expect func: name is string type'') (\<lambda>_.
     out_bind (of_option (hasMember func ''params'')) (\<lambda>h.
     out_bind (expectStub h ''expect func has params member'') (\<lambda>_.
     out_bind (of_option (member_at func ''params'')) (\<lambda>ps.
     out_bind (expectStub (isObject ps) ''expect func: params is object type'') (\<lambda>_.
     out_bind (validateParams ps) (\<lambda>_.
     out_bind (of_option (getString name)) (\<lambda>n.
     out_bind (of_option (hasMember func ''returns'')) (\<lambda>h.
     if h then
       out_bind (of_option (member_at func ''returns'')) (\<lambda>ret.
       out_bind (validateReturns ret) (\<lambda>_.
       Ret (info\<lparr>rpcReturns := rpcReturns info @
         [\<lparr>returnName = n, returnParams = ps, returnReturns = ret\<rparr>]\<rparr>)))
     else
       Ret (info\<lparr>rpcNotifys := rpcNotifys info @ [\<lparr>notifyName = n, notifyParams = ps\<rparr>]\<rparr>)))))))))))))"

fun parseRpc_loop :: "JValue list \<Rightarrow> ServiceInfo \<Rightarrow> (string, ServiceInfo) outcome" where
  "parseRpc_loop [] info = Ret info"
| "parseRpc_loop (func # fs) info = out_bind (parseRpc_one func info) (parseRpc_loop fs)"

definition parseRpc :: "JValue \<Rightarrow> ServiceInfo \<Rightarrow> (string, ServiceInfo) outcome" where
  "parseRpc rpc info =
     out_bind (expectStub (getSize rpc > 0) (''expect rpc'' @ [CHR 0x27] @ ''s size > 0 '')) (\<lambda>_.
     out_bind (of_option (getArray rpc)) (\<lambda>fs. parseRpc_loop fs info))"

definition StubGen :: "JValue \<Rightarrow> (string, ServiceInfo) outcome" where
  "StubGen proto =
     out_bind (expectStub (isObject proto) ''expect object'') (\<lambda>_.
     out_bind (expectStub (getSize proto = 2)
       (''expect '' @ [CHR 0x27] @ ''name'' @ [CHR 0x27] @ '' and '' @ [CHR 0x27] @ ''rpc''
          @ [CHR 0x27] @ '' fields in object'')) (\<lambda>_.
     out_bind (of_option (hasMember proto ''name'')) (\<lambda>h.
     out_bind (expectStub h ''expect name'') (\<lambda>_.
     out_bind (of_option (member_at proto ''name'')) (\<lambda>name.
     out_bind (expectStub (isString name) ''expect name is string type'') (\<lambda>_.
     out_bind (of_option (hasMember proto ''rpc'')) (\<lambda>h.
     out_bind (expectStub h ''expect rpc'') (\<lambda>_.
     out_bind (of_option (member_at proto ''rpc'')) (\<lambda>rpc.
     out_bind (expectStub (isArray rpc) ''expect rpc is array type'') (\<lambda>_.
     out_bind (of_option (getString name)) (\<lambda>n.
     parseRpc rpc \<lparr>serviceName = n, rpcReturns = [], rpcNotifys = []\<rparr>)))))))))))"

section \<open>replaceAll\<close>

definition str_replace :: "nat \<Rightarrow> nat \<Rightarrow> string \<Rightarrow> string \<Rightarrow> string" where
  "str_replace pos len to str = take pos str @ to @ drop (pos + len) str"

partial_function (option) replaceAll :: "string \<Rightarrow> string \<Rightarrow> string \<Rightarrow> string option" where
  "replaceAll src to str =
     (case str_find src str of
        None \<Rightarrow> Some str
      | Some pos \<Rightarrow> replaceAll src to (str_replace pos (length src) to str))"

declare replaceAll.simps [code]

text \<open>The sequence of \<open>replaceAll\<close> calls that fills a template.\<close>

fun replaces :: "(string \<times> string) list \<Rightarrow> string \<Rightarrow> string option" where
  "replaces [] str = Some str"
| "replaces ((src, to) # rs) str = Option.bind (replaceAll src to str) (replaces rs)"

text \<open>Template texts are lists of lines; \<open>quoted\<close> puts a string into double quotes.\<close>

fun join_lines :: "string list \<Rightarrow> string" where
  "join_lines [] = []"
| "join_lines [l] = l"
| "join_lines (l # ls) = l @ [CHR 0x0A] @ join_lines ls"

definition quoted :: "string \<Rightarrow> string" where
  "quoted s = [CHR 0x22] @ s @ [CHR 0x22]"

text \<open>
  The two loops the generators are made of: one text per item, each followed by an end of line;
  and arguments separated by commas, with a last comma on request (\<open>first\<close> is \<open>\<not> bk\<close>).
\<close>

fun gen_each :: "('a \<Rightarrow> string option) \<Rightarrow> string \<Rightarrow> 'a list \<Rightarrow> string option" where
  "gen_each f eol [] = Some []"
| "gen_each f eol (x # xs) =
     Option.bind (f x) (\<lambda>one. map_option (\<lambda>rest. one @ eol @ rest) (gen_each f eol xs))"

fun gen_args :: "('a \<Rightarrow> string option) \<Rightarrow> bool \<Rightarrow> bool \<Rightarrow> 'a list \<Rightarrow> string option" where
  "gen_args f first hasLast [] = Some (if hasLast then '', '' else [])"
| "gen_args f first hasLast (x # xs) =
     Option.bind (f x) (\<lambda>arg.
       map_option (\<lambda>rest. (if first then [] else '', '') @ arg @ rest) (gen_args f False hasLast xs))"

definition eol :: string where "eol = [CHR 0x0A]"

section \<open>ClientStubGen\<close>

definition clientTemplate_text :: string where
  "clientTemplate_text = join_lines [
     [],
     ''        #ifndef __RPCSERVER_[macroName]_H__'',
     ''        #define __RPCSERVER_[macroName]_H__'',
     [],
     ''        #include<RpcServer/common.h>'',
     ''        #include<RpcServer/Client/BaseClient.h>'',
     [],
     ''        class [clientName]'',
     ''        {'',
     ''        public:'',
     ''            [clientName](net::EventLoop* loop, const net::InetAddress& serverAddr)'',
     ''                :   client_(loop, serverAddr),'',
     ''                    latch_(1)'',
     ''            {'',
     ''                client_.setConnectionCallback([&](const net::TcpConnectionPtr conn){'',
     ''                    if(conn->connected()){'',
     ''                        info('' @ [CHR 0x5C] @ [CHR 0x22] @ ''tcp connected'' @ [CHR 0x5C] @ [CHR 0x22] @ '');'',
     ''                        connetcion_ = conn;'',
     ''                        latch_.countDown();'',
     ''                    }else{'',
     ''                        info('' @ [CHR 0x5C] @ [CHR 0x22] @ ''tcp disconnected'' @ [CHR 0x5C] @ [CHR 0x22] @ '');'',
     ''                    }'',
     ''                });'',
     ''            }'',
     [],
     ''            ~[clientName]() = default;'',
     [],
     ''            void start()'',
     ''            {'',
     ''                client_.start();'',
     ''            }'',
     [],
     ''            void wait()'',
     ''            {'',
     ''                latch_.wait();'',
     ''            }'',
     [],
     ''            [procedureReturns]'',
     [],
     ''            [procedureNotifys]'',
     [],
     ''        private:'',
     ''            net::CountDownLatch latch_;'',
     ''            net::TcpConnectionPtr connetcion_;'',
     ''            rpc::BaseClient client_;'',
     ''        };'',
     [],
     ''        #endif'',
     [],
     ''        '']"

definition clientTemplate ::
    "string \<Rightarrow> string \<Rightarrow> string \<Rightarrow> string \<Rightarrow> string option" where
  "clientTemplate macroName clientName procedureReturns procedureNotifys =
     replaces
       [(''[macroName]'', macroName),
        (''[clientName]'', clientName),
        (''[procedureReturns]'', procedureReturns),
        (''[procedureNotifys]'', procedureNotifys)]
       clientTemplate_text"

definition procedureReturn_text :: string where
  "procedureReturn_text = join_lines [
     [],
     ''        void [methodName]([methodArg] const rpc::ResponseCallback& cb)'',
     ''        {'',
     ''            rpc::Value params(json::ValueType::TYPE_OBJECT);'',
     ''            [paramsMember]'',
     [],
     ''            rpc::Value json(json::ValueType::TYPE_OBJECT);'',
     ''            json.addMember('' @ quoted ''jsonrpc'' @ '', '' @ quoted ''2.0'' @ '');'',
     ''            json.addMember('' @ quoted ''method'' @ '', '' @ quoted ''[serviceName].[methodName]'' @ '');'',
     ''            json.addMember('' @ quoted ''params'' @ '', params);'',
     [],
     ''            assert(connetcion_ != nullptr);'',
     ''            client_.sendCall(connetcion_, json, cb);'',
     ''        }'',
     ''    '']"

definition procedureReturnTemplate ::
    "string \<Rightarrow> string \<Rightarrow> string \<Rightarrow> string \<Rightarrow> string option" where
  "procedureReturnTemplate svc methodName methodArg paramsMember =
     replaces
       [(''[serviceName]'', svc),
        (''[methodName]'', methodName),
        (''[methodArg]'', methodArg),
        (''[paramsMember]'', paramsMember)]
       procedureReturn_text"

definition procedureNotify_text :: string where
  "procedureNotify_text = join_lines [
     [],
     ''        void [methodName]([methodArg])'',
     ''        {'',
     ''            rpc::Value params(json::ValueType::TYPE_OBJECT);'',
     ''            [paramsMember]'',
     [],
     ''            rpc::Value json(json::ValueType::TYPE_OBJECT);'',
     ''            json.addMember('' @ quoted ''jsonrpc'' @ '', '' @ quoted ''2.0'' @ '');'',
     ''            json.addMember('' @ quoted ''method'' @ '', '' @ quoted ''[serviceName].[methodName]'' @ '');'',
     ''            json.addMember('' @ quoted ''params'' @ '', params);'',
     [],
     ''            assert(connetcion_ != nullptr);'',
     ''            client_.sendNotify(connetcion_, json);'',
     ''        }'',
     ''    '']"

definition procedureNotifyTemplate ::
    "string \<Rightarrow> string \<Rightarrow> string \<Rightarrow> string \<Rightarrow> string option" where
  "procedureNotifyTemplate svc methodName methodArg paramsMember =
     replaces
       [(''[serviceName]'', svc),
        (''[methodName]'', methodName),
        (''[methodArg]'', methodArg),
        (''[paramsMember]'', paramsMember)]
       procedureNotify_text"

definition methodArg_text :: string where
  "methodArg_text = '' [argType] [argName]    ''"

fun argTypeName :: "ValueType \<Rightarrow> string option" where
  "argTypeName TYPE_INT32 = Some ''int32_t''"
| "argTypeName TYPE_INT64 = Some ''int64_t''"
| "argTypeName TYPE_DOUBLE = Some ''double''"
| "argTypeName TYPE_BOOL = Some ''bool''"
| "argTypeName TYPE_STRING = Some ''std::string''"
| "argTypeName TYPE_OBJECT = Some ''json::Value''"
| "argTypeName TYPE_ARRAY = Some ''json::Value''"
| "argTypeName TYPE_NULL = None"

definition methodArgTemplate :: "ValueType \<Rightarrow> string \<Rightarrow> string option" where
  "methodArgTemplate type argName =
     Option.bind (argTypeName type) (\<lambda>argType.
       replaces [(''[argType]'', argType), (''[argName]'', argName)] methodArg_text)"

definition methodMember_text :: string where
  "methodMember_text = join_lines [
     [],
     ''        params.addMember('' @ quoted ''[argName]'' @ '', [argName]);'',
     ''    '']"

definition methodMemberTemplate ::
    "string \<Rightarrow> string option" where
  "methodMemberTemplate argName =
     replaces
       [(''[argName]'', argName)]
       methodMember_text"

definition client_genArg :: "JValue \<Rightarrow> bool \<Rightarrow> string option" where
  "client_genArg ps hasLast = Option.bind (getObject ps)
     (gen_args (\<lambda>(k, v). methodArgTemplate (getType v) k) True hasLast)"

definition client_genMember :: "JValue \<Rightarrow> string option" where
  "client_genMember ps = Option.bind (getObject ps)
     (gen_each (\<lambda>(k, v). methodMemberTemplate k) eol)"

definition client_genProcedureReturns :: "ServiceInfo \<Rightarrow> string option" where
  "client_genProcedureReturns info =
     gen_each (\<lambda>func.
       Option.bind (client_genArg (returnParams func) True) (\<lambda>methodArg.
       Option.bind (client_genMember (returnParams func)) (\<lambda>paramsMember.
       procedureReturnTemplate (serviceName info) (returnName func) methodArg paramsMember)))
     eol (rpcReturns info)"

definition client_genProcedureNotifys :: "ServiceInfo \<Rightarrow> string option" where
  "client_genProcedureNotifys info =
     gen_each (\<lambda>func.
       Option.bind (client_genArg (notifyParams func) False) (\<lambda>methodArg.
       Option.bind (client_genMember (notifyParams func)) (\<lambda>paramsMember.
       procedureNotifyTemplate (serviceName info) (notifyName func) methodArg paramsMember)))
     eol (rpcNotifys info)"

definition client_genMacroName :: "ServiceInfo \<Rightarrow> string" where
  "client_genMacroName info = serviceName info @ ''CLIENT''"

definition client_genClientName :: "ServiceInfo \<Rightarrow> string" where
  "client_genClientName info = serviceName info @ ''Client''"

definition genClient :: "ServiceInfo \<Rightarrow> string option" where
  "genClient info =
     (let macroName = client_genMacroName info;
          clientName = client_genClientName info
      in Option.bind (client_genProcedureReturns info) (\<lambda>procedureReturns.
         Option.bind (client_genProcedureNotifys info) (\<lambda>procedureNotifys.
         clientTemplate macroName clientName procedureReturns procedureNotifys)))"

section \<open>ServerStubGen\<close>

definition serverTemplate_text :: string where
  "serverTemplate_text = join_lines [
     [],
     ''        #ifndef __RPCSERVER_[macroStubName]_H__'',
     ''        #define __RPCSERVER_[macroStubName]_H__'',
     [],
     ''        #include<RpcServer/Server/RpcServer.h>'',
     ''        #include<RpcServer/common.h>'',
     ''        #include<string>'',
     ''        #include<RpcServer/Server/Service.h>'',
     ''        #include<RpcServer/Server/Procedure.h>'',
     ''        using std::placeholders::_1;'',
     ''        using std::placeholders::_2;'',
     [],
     ''        class [serverStubName] : public net::noncopyable'',
     ''        {'',
     ''        public:'',
     ''            explicit [serverStubName](rpc::RpcServer& rpcServer)'',
     ''            {'',
     ''                rpc::Service* serviceInfo = new rpc::Service();'',
     [],
     ''                [procedureBind]'',
     [],
     ''                rpcServer.addService('' @ quoted ''[serverName]'' @ '', serviceInfo);'',
     ''            }'',
     [],
     ''           [procedureReturnsStub]'',
     [],
     ''           [procedureNotifysStub]'',
     [],
     ''           [procedureReturns]'',
     [],
     ''           [procedureNotifys]'',
     ''            '',
     ''        };'',
     ''    '']"

definition serverTemplate ::
    "string \<Rightarrow> string \<Rightarrow> string \<Rightarrow> string \<Rightarrow> string \<Rightarrow> string \<Rightarrow> string \<Rightarrow> string \<Rightarrow> string option" where
  "serverTemplate macroStubName serverStubName serverName procedureBind procedureReturnsStub procedureNotifysStub procedureReturns procedureNotifys =
     replaces
       [(''[macroStubName]'', macroStubName),
        (''[serverStubName]'', serverStubName),
        (''[serverName]'', serverName),
        (''[procedureBind]'', procedureBind),
        (''[procedureReturnsStub]'', procedureReturnsStub),
        (''[procedureNotifysStub]'', procedureNotifysStub),
        (''[procedureReturns]'', procedureReturns),
        (''[procedureNotifys]'', procedureNotifys)]
       serverTemplate_text"

definition bindTypeReturn_text :: string where
  "bindTypeReturn_text = join_lines [
     '' '',
     ''        paramType.push_back([paramType]);'',
     ''        paramName.push_back([paramName];'',
     ''    '']"

definition bindTypeNotify_text :: string where
  "bindTypeNotify_text = join_lines [
     '' '',
     ''        paramTypeN.push_back([paramType]);'',
     ''        paramNameN.push_back([paramName];'',
     ''    '']"

fun paramTypeName :: "ValueType \<Rightarrow> string option" where
  "paramTypeName TYPE_INT32 = Some ''json::ValueType::TYPE_INT32''"
| "paramTypeName TYPE_INT64 = Some ''json::ValueType::TYPE_INT64''"
| "paramTypeName TYPE_DOUBLE = Some ''json::ValueType::TYPE_DOUBLE''"
| "paramTypeName TYPE_BOOL = Some ''json::ValueType::TYPE_BOOL''"
| "paramTypeName TYPE_STRING = Some ''json::ValueType::TYPE_STRING''"
| "paramTypeName _ = None"

definition procedureBindNameTypeTemplateReturn :: "ValueType \<Rightarrow> string \<Rightarrow> string option" where
  "procedureBindNameTypeTemplateReturn type argName =
     Option.bind (paramTypeName type) (\<lambda>paramType.
       replaces [(''[paramType]'', paramType), (''[argName]'', argName)] bindTypeReturn_text)"

definition procedureBindNameTypeTemplateBind :: "ValueType \<Rightarrow> string \<Rightarrow> string option" where
  "procedureBindNameTypeTemplateBind type argName =
     Option.bind (paramTypeName type) (\<lambda>paramType.
       replaces [(''[paramType]'', paramType), (''[argName]'', argName)] bindTypeNotify_text)"

text \<open>
  The two binding templates have no \<open>return\<close> statement: after the replacements control flows
  off their end.
\<close>

definition bindReturn_text :: string where
  "bindReturn_text = join_lines [
     [],
     ''        [TypeName]'',
     ''        serviceInfo->addProcedureReturn([methodName], '',
     ''                                            new rpc::ProcedureReturn('',
     ''                                                std::bind(&[serverStubName]:[methodNameStub], this, _1, _2),'',
     ''                                                paramName,'',
     ''                                                paramType)'',
     ''                                            );'',
     ''    '']"

definition procedureBindReturnTemplate ::
    "string \<Rightarrow> string \<Rightarrow> string \<Rightarrow> string \<Rightarrow> string option" where
  "procedureBindReturnTemplate methodName methodNameStub TypeName serverStubName =
     Option.bind (replaces
       [(''[methodName]'', methodName),
        (''[methodNameStub]'', methodNameStub),
        (''[TypeName]'', TypeName),
        (''[serverStubName]'', serverStubName)]
       bindReturn_text)
       (\<lambda>_. None)"

definition bindNotify_text :: string where
  "bindNotify_text = join_lines [
     [],
     ''        [TypeName]'',
     ''        serviceInfo->addProcedureReturn([methodName], '',
     ''                                            new rpc::ProcedureReturn('',
     ''                                                std::bind(&[serverStubName]:[methodNameStub], this, _1, _2),'',
     ''                                                paramNameN,'',
     ''                                                paramTypeN)'',
     ''                                            );'',
     ''    '']"

definition procedureBindNotifyTemplate ::
    "string \<Rightarrow> string \<Rightarrow> string \<Rightarrow> string \<Rightarrow> string option" where
  "procedureBindNotifyTemplate methodName methodNameStub TypeName serverStubName =
     Option.bind (replaces
       [(''[methodName]'', methodName),
        (''[methodNameStub]'', methodNameStub),
        (''[TypeName]'', TypeName),
        (''[serverStubName]'', serverStubName)]
       bindNotify_text)
       (\<lambda>_. None)"

definition returnsStub_text :: string where
  "returnsStub_text = join_lines [
     [],
     ''        void [methodStubName](json::Value& request, const rpc::ResponseCallback& cb)'',
     ''        {'',
     ''            auto& params = request['' @ quoted ''params'' @ ''];'',
     ''            auto& params = request['' @ quoted ''params'' @ ''];'',
     ''            if(request.isArray()){'',
     ''                [methodName]([methodArg] rpc::UserDoneCallback(request, done));'',
     ''            }else{'',
     ''                [methodName]([methodArg] rpc::UserDoneCallback(request, done));'',
     ''            }'',
     ''        }'',
     ''    '']"

definition procedureReturnsStubTemplate ::
    "string \<Rightarrow> string \<Rightarrow> string \<Rightarrow> string option" where
  "procedureReturnsStubTemplate methodStubName methodName methodArg =
     replaces
       [(''[methodStubName]'', methodStubName),
        (''[methodName]'', methodName),
        (''[methodArg]'', methodArg)]
       returnsStub_text"

definition notifyStub_text :: string where
  "notifyStub_text = join_lines [
     [],
     ''        void [methodStubName](json::Value& request)'',
     ''        {'',
     ''            auto& params = request['' @ quoted ''params'' @ ''];'',
     ''            if(request.isArray()){'',
     ''                [methodName]([methodArg]);'',
     ''            }else{'',
     ''                [methodName]([methodArg]);'',
     ''            }'',
     ''        }'',
     ''    '']"

definition procedureNotifyStubTemplate ::
    "string \<Rightarrow> string \<Rightarrow> string \<Rightarrow> string option" where
  "procedureNotifyStubTemplate methodStubName methodName methodArg =
     replaces
       [(''[methodStubName]'', methodStubName),
        (''[methodName]'', methodName),
        (''[methodArg]'', methodArg)]
       notifyStub_text"

definition returns_text :: string where
  "returns_text = join_lines [
     [],
     ''        virtual void [methodName]([methodArg] const rpc::UserDoneCallback& done) = 0;'',
     ''    '']"

definition procedureReturnsTemplate ::
    "string \<Rightarrow> string \<Rightarrow> string option" where
  "procedureReturnsTemplate methodName methodArg =
     replaces
       [(''[methodName]'', methodName),
        (''[methodArg]'', methodArg)]
       returns_text"

definition notifys_text :: string where
  "notifys_text = join_lines [
     [],
     ''        virtual void [methodName]([methodArg]) = 0;'',
     ''    '']"

definition procedureNotifysTemplate ::
    "string \<Rightarrow> string \<Rightarrow> string option" where
  "procedureNotifysTemplate methodName methodArg =
     replaces
       [(''[methodName]'', methodName),
        (''[methodArg]'', methodArg)]
       notifys_text"

definition serverMethodArg_text :: string where
  "serverMethodArg_text = '' [argType] [argName]    ''"

definition server_methodArgTemplate :: "ValueType \<Rightarrow> string \<Rightarrow> string option" where
  "server_methodArgTemplate type argName =
     Option.bind (argTypeName type) (\<lambda>argType.
       replaces [(''[argType]'', argType), (''[argName]'', argName)] serverMethodArg_text)"

fun parseMethodName :: "ValueType \<Rightarrow> string option" where
  "parseMethodName TYPE_BOOL = Some ''.getBool()''"
| "parseMethodName TYPE_INT32 = Some ''.getInt32()''"
| "parseMethodName TYPE_INT64 = Some ''.getInt64()''"
| "parseMethodName TYPE_DOUBLE = Some ''.getDouble()''"
| "parseMethodName TYPE_STRING = Some ''.getString()''"
| "parseMethodName TYPE_OBJECT = Some []"
| "parseMethodName TYPE_ARRAY = Some []"
| "parseMethodName TYPE_NULL = None"

definition parseMethodArg_text :: string where
  "parseMethodArg_text = ''params[[index]][method];''"

definition parseMethodArgTemplate :: "string \<Rightarrow> ValueType \<Rightarrow> string option" where
  "parseMethodArgTemplate index type =
     Option.bind (parseMethodName type) (\<lambda>method.
       replaces [(''[index]'', index), (''[method]'', method)] parseMethodArg_text)"

text \<open>The declarations in front of the first binding, and what resets them for the others.\<close>

definition declareReturn_text :: string where
  "declareReturn_text = join_lines [
     '' '',
     ''                    vector<json::ValueType> paramType;'',
     ''                    std::vector<std::string> paramName;'',
     ''            '']"

definition clearReturn_text :: string where
  "clearReturn_text = join_lines [
     [],
     ''                paramType.clear();'',
     ''                paramName.clear();'',
     ''            '']"

definition declareNotify_text :: string where
  "declareNotify_text = join_lines [
     '' '',
     ''                    vector<json::ValueType> paramTypeN;'',
     ''                    std::vector<std::string> paramNameN;'',
     ''            '']"

definition clearNotify_text :: string where
  "clearNotify_text = join_lines [
     [],
     ''                paramTypeN.clear();'',
     ''                paramNameN.clear();'',
     ''            '']"

definition genServerStubName :: "ServiceInfo \<Rightarrow> string" where
  "genServerStubName info = serviceName info @ ''ServerStub''"

definition genMacroStubName :: "ServiceInfo \<Rightarrow> string" where
  "genMacroStubName info = serviceName info @ ''SERVERSTUB''"

definition genServerName :: "ServiceInfo \<Rightarrow> string" where
  "genServerName info = serviceName info"

fun bindReturn_loop :: "string \<Rightarrow> bool \<Rightarrow> RpcReturn list \<Rightarrow> string option" where
  "bindReturn_loop serverStubName bk [] = Some []"
| "bindReturn_loop serverStubName bk (func # fs) =
     Option.bind (getObject (returnParams func)) (\<lambda>ms.
     Option.bind (gen_each (\<lambda>(k, v). procedureBindNameTypeTemplateReturn (getType v) k) [] ms) (\<lambda>types.
     Option.bind (procedureBindReturnTemplate (returnName func) (returnName func @ ''Stub'')
       ((if \<not> bk then declareReturn_text else clearReturn_text) @ types) serverStubName) (\<lambda>one.
     map_option ((@) one) (bindReturn_loop serverStubName True fs))))"

fun bindNotify_loop :: "string \<Rightarrow> bool \<Rightarrow> RpcNotify list \<Rightarrow> string option" where
  "bindNotify_loop serverStubName bk [] = Some []"
| "bindNotify_loop serverStubName bk (func # fs) =
     Option.bind (getObject (notifyParams func)) (\<lambda>ms.
     Option.bind (gen_each (\<lambda>(k, v). procedureBindNameTypeTemplateBind (getType v) k) [] ms) (\<lambda>types.
     Option.bind (procedureBindNotifyTemplate (notifyName func) (notifyName func @ ''Stub'')
       ((if \<not> bk then declareNotify_text else clearNotify_text) @ types) serverStubName) (\<lambda>one.
     map_option ((@) one) (bindNotify_loop serverStubName True fs))))"

definition genProcedureBindReturn :: "ServiceInfo \<Rightarrow> string option" where
  "genProcedureBindReturn info = bindReturn_loop (genServerStubName info) False (rpcReturns info)"

definition genProcedureBindNotify :: "ServiceInfo \<Rightarrow> string option" where
  "genProcedureBindNotify info = bindNotify_loop (genServerStubName info) False (rpcNotifys info)"

definition genProcedureBind :: "ServiceInfo \<Rightarrow> string option" where
  "genProcedureBind info =
     Option.bind (genProcedureBindReturn info) (\<lambda>r. map_option ((@) r) (genProcedureBindNotify info))"

text \<open>Both take \<open>params.getObject()\<close>, so an array fails an assertion in either of them.\<close>

fun index_members :: "nat \<Rightarrow> member_list \<Rightarrow> (string \<times> JValue) list" where
  "index_members i [] = []"
| "index_members i ((k, v) # ms) = (nat_to_string i, v) # index_members (Suc i) ms"

definition genParseMethodArgArray :: "JValue \<Rightarrow> bool \<Rightarrow> string option" where
  "genParseMethodArgArray ps hasLast = Option.bind (getObject ps) (\<lambda>ms.
     gen_args (\<lambda>(i, v). parseMethodArgTemplate i (getType v)) True hasLast (index_members 0 ms))"

definition genParseMethodArgObject :: "JValue \<Rightarrow> bool \<Rightarrow> string option" where
  "genParseMethodArgObject ps hasLast = Option.bind (getObject ps)
     (gen_args (\<lambda>(k, v). parseMethodArgTemplate k (getType v)) True hasLast)"

definition genMethodArg :: "JValue \<Rightarrow> bool \<Rightarrow> string option" where
  "genMethodArg ps hasLast = Option.bind (getObject ps)
     (gen_args (\<lambda>(k, v). server_methodArgTemplate (getType v) k) True hasLast)"

definition genProcedureReturnsStub :: "ServiceInfo \<Rightarrow> string option" where
  "genProcedureReturnsStub info =
     gen_each (\<lambda>func.
       Option.bind (if isArray (returnParams func) then genParseMethodArgArray (returnParams func) True
                    else genParseMethodArgObject (returnParams func) True)
         (procedureReturnsStubTemplate (returnName func @ ''Stub'') (returnName func)))
     eol (rpcReturns info)"

definition genProcedureNotifysStub :: "ServiceInfo \<Rightarrow> string option" where
  "genProcedureNotifysStub info =
     gen_each (\<lambda>func.
       Option.bind (if isArray (notifyParams func) then genParseMethodArgArray (notifyParams func) False
                    else genParseMethodArgObject (notifyParams func) False)
         (procedureNotifyStubTemplate (notifyName func @ ''Stub'') (notifyName func)))
     eol (rpcNotifys info)"

definition genProcedureReturns :: "ServiceInfo \<Rightarrow> string option" where
  "genProcedureReturns info =
     gen_each (\<lambda>func.
       Option.bind (genMethodArg (returnParams func) True) (procedureReturnsTemplate (returnName func)))
     eol (rpcReturns info)"

definition genProcedureNotifys :: "ServiceInfo \<Rightarrow> string option" where
  "genProcedureNotifys info =
     gen_each (\<lambda>func.
       Option.bind (genMethodArg (notifyParams func) False) (procedureReturnsTemplate (notifyName func)))
     eol (rpcNotifys info)"

definition genServer :: "ServiceInfo \<Rightarrow> string option" where
  "genServer info =
     Option.bind (genProcedureBind info) (\<lambda>procedureBind.
     Option.bind (genProcedureReturnsStub info) (\<lambda>procedureReturnsStub.
     Option.bind (genProcedureNotifysStub info) (\<lambda>procedureNotifysStub.
     Option.bind (genProcedureReturns info) (\<lambda>procedureReturns.
     Option.bind (genProcedureNotifys info) (\<lambda>procedureNotifys.
     serverTemplate (genMacroStubName info) (genServerStubName info) (genServerName info) procedureBind
       procedureReturnsStub procedureNotifysStub procedureReturns procedureNotifys)))))"

end
