(* ===== verification/RpcStubFacts.thy ===== *)
theory RpcStubFacts
  imports RpcStub
begin

text \<open>
  The generators of stubs: when \<open>replaceAll\<close> terminates, which descriptions \<open>StubGen\<close> accepts,
  that the client generator fills its templates as one pass over them would, and that the
  server generator never returns.
\<close>

section \<open>Finding\<close>

lemma str_find_None_iff: "p \<noteq> [] \<Longrightarrow> str_find p s = None \<longleftrightarrow> \<not> sublist p s"
proof (induction p s rule: str_find.induct)
  case (2 p c s)
  then show ?case by (auto simp: sublist_Cons_right)
qed simp

lemma str_find_prefix: "str_find p s = Some i \<Longrightarrow> prefix p (drop i s)"
  by (induction p s arbitrary: i rule: str_find.induct) (auto split: if_splits)

lemma str_find_split:
  assumes "str_find p s = Some i"
  shows "s = take i s @ p @ drop (i + length p) s"
proof -
  obtain r where r: "drop i s = p @ r" using str_find_prefix [OF assms] by (auto simp: prefix_def)
  then have "drop (i + length p) s = r"
    by (metis add.commute append_eq_conv_conj drop_drop)
  then show ?thesis using r append_take_drop_id [of i s] by simp
qed

text \<open>Characters that cannot start the pattern are skipped.\<close>

lemma str_find_skip:
  "b \<notin> set u \<Longrightarrow> str_find (b # p) (u @ s) = map_option ((+) (length u)) (str_find (b # p) s)"
  by (cases "str_find (b # p) s"; induction u; auto)

section \<open>Termination of replaceAll\<close>

lemma replaceAll_None [simp]: "str_find p s = None \<Longrightarrow> replaceAll p to s = Some s"
  by (simp add: replaceAll.simps)

lemma replaceAll_Some:
  "str_find p s = Some i \<Longrightarrow> replaceAll p to s = replaceAll p to (take i s @ to @ drop (i + length p) s)"
  by (subst replaceAll.simps) (simp add: str_replace_def)

lemma replaceAll_result:
  assumes "replaceAll p to s = Some r"
  shows "str_find p r = None"
proof (rule replaceAll.raw_induct [where P = "\<lambda>p to s r. str_find p r = None", OF _ assms])
  fix f p to s r
  assume "\<And>p to s r. f p to s = Some r \<Longrightarrow> str_find p r = None"
    and "(case str_find p s of None \<Rightarrow> Some s
       | Some pos \<Rightarrow> f p to (str_replace pos (length p) to s)) = Some r"
  then show "str_find p r = None" by (cases "str_find p s") auto
qed

text \<open>What was put in stays in, unless it is a part of what is replaced.\<close>

lemma replaceAll_loops:
  assumes "p \<noteq> []" "sublist p to" "str_find p s \<noteq> None"
  shows "replaceAll p to s = None"
proof -
  have "sublist p to \<longrightarrow> p \<noteq> [] \<longrightarrow> str_find p s = None" if ret: "replaceAll p to s = Some r" for r
  proof (rule replaceAll.raw_induct [where P = "\<lambda>p to s r. sublist p to \<longrightarrow> p \<noteq> [] \<longrightarrow> str_find p s = None",
        OF _ ret], intro impI)
    fix f p to s r
    assume IH: "\<And>p to s r. f p to s = Some r \<Longrightarrow> sublist p to \<longrightarrow> p \<noteq> [] \<longrightarrow> str_find p s = None"
      and eq: "(case str_find p s of None \<Rightarrow> Some s
         | Some pos \<Rightarrow> f p to (str_replace pos (length p) to s)) = Some r"
      and sub: "sublist p to" and ne: "p \<noteq> []"
    show "str_find p s = None"
    proof (cases "str_find p s")
      case (Some pos)
      then have "str_find p (take pos s @ to @ drop (pos + length p) s) = None"
        using IH eq sub ne by (fastforce simp: str_replace_def)
      moreover have "sublist p (take pos s @ to @ drop (pos + length p) s)"
        using sub sublist_order.order.trans [OF sub sublist_appendI] by blast
      ultimately show ?thesis using str_find_None_iff [OF ne] by blast
    qed simp
  qed
  then show ?thesis using assms by (cases "replaceAll p to s") auto
qed

lemma replaceAll_terminates:
  assumes "count_list to c < count_list p c"
  shows "\<exists>r. replaceAll p to s = Some r"
proof (induction "count_list s c" arbitrary: s rule: less_induct)
  case less
  show ?case
  proof (cases "str_find p s")
    case (Some i)
    let ?s' = "take i s @ to @ drop (i + length p) s"
    have "count_list s c = count_list (take i s @ p @ drop (i + length p) s) c"
      using str_find_split [OF Some] by simp
    then have "count_list ?s' c < count_list s c" using assms by simp
    then show ?thesis using less replaceAll_Some [OF Some] by simp
  qed simp
qed

section \<open>Templates as tokens\<close>

text \<open>
  A text whose brackets are not nested is a sequence of characters and of groups \<open>[w]\<close>, where
  \<open>w\<close> is \<open>plain\<close>: it has no brackets.
\<close>

datatype token = Chr char | Grp string

definition plain :: "string \<Rightarrow> bool" where
  "plain s \<longleftrightarrow> CHR ''['' \<notin> set s \<and> CHR '']'' \<notin> set s"

definition bracket :: "string \<Rightarrow> string" where
  "bracket w = CHR ''['' # w @ [CHR '']'']"

fun token_text :: "token \<Rightarrow> string" where
  "token_text (Chr c) = [c]"
| "token_text (Grp w) = bracket w"

definition flat :: "token list \<Rightarrow> string" where
  "flat ts = concat (map token_text ts)"

fun token_ok :: "token \<Rightarrow> bool" where
  "token_ok (Chr c) = plain [c]"
| "token_ok (Grp w) = plain w"

fun tokens :: "string \<Rightarrow> string option \<Rightarrow> token list option" where
  "tokens [] None = Some []"
| "tokens [] (Some w) = None"
| "tokens (c # s) None =
     (if c = CHR ''['' then tokens s (Some []) else if c = CHR '']'' then None
      else map_option ((#) (Chr c)) (tokens s None))"
| "tokens (c # s) (Some w) =
     (if c = CHR ''['' then None
      else if c = CHR '']'' then map_option ((#) (Grp w)) (tokens s None)
      else tokens s (Some (w @ [c])))"

text \<open>Filling a template in one pass; a text that is not well bracketed stays as it is.\<close>

fun fill_token :: "(string \<rightharpoonup> string) \<Rightarrow> token \<Rightarrow> string" where
  "fill_token env (Chr c) = [c]"
| "fill_token env (Grp w) = (case env w of None \<Rightarrow> bracket w | Some v \<Rightarrow> v)"

definition fill :: "(string \<times> string) list \<Rightarrow> string \<Rightarrow> string" where
  "fill env s = (case tokens s None of None \<Rightarrow> s | Some ts \<Rightarrow> concat (map (fill_token (map_of env)) ts))"

lemma flat_simps [simp]:
  "flat [] = []" "flat (t # ts) = token_text t @ flat ts" "flat (ts @ us) = flat ts @ flat us"
  by (simp_all add: flat_def)

lemma plain_simps [simp]:
  "plain []" "plain (c # s) \<longleftrightarrow> c \<noteq> CHR ''['' \<and> c \<noteq> CHR '']'' \<and> plain s"
  "plain (s @ t) \<longleftrightarrow> plain s \<and> plain t"
  by (auto simp: plain_def)

lemma flat_map_Chr [simp]: "flat (map Chr v) = v"
  by (induction v) auto

lemma token_ok_map_Chr: "plain v \<Longrightarrow> list_all token_ok (map Chr v)"
  by (induction v) auto

lemma tokens_flat:
  "tokens s acc = Some ts \<Longrightarrow> (case acc of None \<Rightarrow> True | Some w \<Rightarrow> plain w) \<Longrightarrow>
   list_all token_ok ts \<and> (case acc of None \<Rightarrow> flat ts = s | Some w \<Rightarrow> flat ts = CHR ''['' # w @ s)"
proof (induction s acc arbitrary: ts rule: tokens.induct)
  case (3 c s)
  then show ?case by (auto split: if_splits)
next
  case (4 c s w)
  then show ?case by (auto split: if_splits simp: bracket_def)
qed auto

lemma plain_bracket_eq:
  assumes "plain n" "plain w" "n @ CHR '']'' # x = w @ CHR '']'' # y"
  shows "n = w"
proof -
  have "takeWhile (\<lambda>c. c \<noteq> CHR '']'') (u @ CHR '']'' # z) = u" if "plain u" for u z
    using that by (induction u) auto
  then show ?thesis using assms by metis
qed

lemma prefix_bracket:
  assumes "plain n" "plain w"
  shows "prefix (bracket n) (bracket w @ s) \<longleftrightarrow> w = n"
proof
  assume "prefix (bracket n) (bracket w @ s)"
  then obtain z where "w @ CHR '']'' # s = n @ CHR '']'' # z"
    by (auto simp: prefix_def bracket_def)
  then show "w = n" using plain_bracket_eq assms by blast
qed simp

text \<open>The first occurrence of a placeholder is its first group.\<close>

lemma str_find_flat:
  assumes "plain n"
  shows "list_all token_ok ts \<Longrightarrow> str_find (bracket n) (flat ts) =
    (if Grp n \<in> set ts then Some (length (flat (takeWhile (\<lambda>t. t \<noteq> Grp n) ts))) else None)"
proof (induction ts)
  case Nil
  then show ?case by (simp add: bracket_def)
next
  case (Cons t ts)
  show ?case
  proof (cases t)
    case (Chr c)
    then have "str_find (bracket n) ([c] @ flat ts) = map_option Suc (str_find (bracket n) (flat ts))"
      using Cons.prems by (auto simp: bracket_def prefix_def)
    then show ?thesis using Cons Chr by auto
  next
    case (Grp w)
    show ?thesis
    proof (cases "w = n")
      case True
      then show ?thesis using Grp assms prefix_bracket [of n n "flat ts"]
        by (auto simp: bracket_def)
    next
      case False
      have w: "plain w" using Cons.prems Grp by simp
      have np: "\<not> prefix (bracket n) (bracket w @ flat ts)"
        using prefix_bracket [OF assms w] False by simp
      have sk: "str_find (bracket n) ((w @ [CHR '']'']) @ flat ts)
          = map_option ((+) (length (w @ [CHR '']'']))) (str_find (bracket n) (flat ts))"
        unfolding bracket_def by (rule str_find_skip) (use w in \<open>simp add: plain_def\<close>)
      have "str_find (bracket n) (bracket w @ flat ts)
          = map_option (\<lambda>k. Suc (length w + 1 + k)) (str_find (bracket n) (flat ts))"
        using np sk by (simp add: bracket_def [of w] option.map_comp comp_def)
      then show ?thesis using Cons Grp False by (auto simp: bracket_def)
    qed
  qed
qed

definition putTok :: "string \<Rightarrow> string \<Rightarrow> token list \<Rightarrow> token list" where
  "putTok n v ts = concat (map (\<lambda>t. if t = Grp n then map Chr v else [t]) ts)"

lemma putTok_simps [simp]:
  "putTok n v [] = []" "putTok n v (t # ts) = (if t = Grp n then map Chr v else [t]) @ putTok n v ts"
  "putTok n v (ts @ us) = putTok n v ts @ putTok n v us"
  by (simp_all add: putTok_def)

lemma putTok_id: "Grp n \<notin> set ts \<Longrightarrow> putTok n v ts = ts"
  by (induction ts) auto

lemma putTok_ok: "plain v \<Longrightarrow> list_all token_ok ts \<Longrightarrow> list_all token_ok (putTok n v ts)"
  by (induction ts) (auto simp: token_ok_map_Chr)

lemma takeWhile_before: "x \<notin> set a \<Longrightarrow> takeWhile (\<lambda>t. t \<noteq> x) (a @ x # b) = a"
  by (induction a) auto

lemma replaceAll_flat:
  assumes "plain n" "plain v"
  shows "list_all token_ok ts \<Longrightarrow> replaceAll (bracket n) v (flat ts) = Some (flat (putTok n v ts))"
proof (induction "count_list ts (Grp n)" arbitrary: ts rule: less_induct)
  case less
  show ?case
  proof (cases "Grp n \<in> set ts")
    case False
    then show ?thesis using str_find_flat [OF assms(1) less.prems] by (simp add: putTok_id)
  next
    case True
    obtain a b where ts: "ts = a @ Grp n # b" and na: "Grp n \<notin> set a"
      using split_list_first [OF True] by blast
    have tw: "takeWhile (\<lambda>t. t \<noteq> Grp n) ts = a"
      using takeWhile_before [OF na] by (simp only: ts)
    let ?ts = "a @ map Chr v @ b"
    have nv: "Grp n \<notin> set (map Chr v)" by auto
    have "str_find (bracket n) (flat ts) = Some (length (flat a))"
      using str_find_flat [OF assms(1) less.prems] True tw by simp
    moreover have "take (length (flat a)) (flat ts) @ v @ drop (length (flat a) + length (bracket n)) (flat ts)
        = flat ?ts"
      by (simp add: ts)
    ultimately have "replaceAll (bracket n) v (flat ts) = replaceAll (bracket n) v (flat ?ts)"
      using replaceAll_Some by metis
    moreover have "count_list ?ts (Grp n) < count_list ts (Grp n)"
      using nv by (simp add: ts)
    moreover have "list_all token_ok ?ts"
      using less.prems token_ok_map_Chr [OF assms(2)] by (simp add: ts)
    moreover have "putTok n v ?ts = putTok n v ts"
      using nv by (simp add: ts putTok_id)
    ultimately show ?thesis using less.hyps [of ?ts] by simp
  qed
qed

text \<open>A sequence of replacements by plain texts is one pass.\<close>

lemma replaces_flat:
  "list_all token_ok ts \<Longrightarrow> list_all (\<lambda>(n, v). plain n \<and> plain v) env \<Longrightarrow>
   replaces (map (\<lambda>(n, v). (bracket n, v)) env) (flat ts)
     = Some (concat (map (fill_token (map_of env)) ts))"
proof (induction env arbitrary: ts)
  case Nil
  have "concat (map (fill_token (map_of [])) ts) = flat ts"
  proof (induction ts)
    case (Cons t ts)
    then show ?case by (cases t) simp_all
  qed simp
  then show ?case by simp
next
  case (Cons e env)
  obtain n v where e: "e = (n, v)" by (cases e)
  have "concat (map (fill_token (map_of env)) (putTok n v ts))
      = concat (map (fill_token (map_of (e # env))) ts)"
  proof (induction ts)
    case (Cons t ts)
    have "concat (map (fill_token (map_of env)) (map Chr v)) = v" by (induction v) auto
    with Cons show ?case by (cases t) (auto simp: e)
  qed simp
  then show ?case
    using Cons e replaceAll_flat [of n v ts] putTok_ok [of v ts n] by (simp add: fun_upd_def)
qed

lemma replaces_fill:
  assumes "tokens s None \<noteq> None" "list_all (\<lambda>(n, v). plain n \<and> plain v) env"
    "rs = map (\<lambda>(n, v). (bracket n, v)) env"
  shows "replaces rs s = Some (fill env s)"
proof -
  obtain ts where ts: "tokens s None = Some ts" using assms(1) by auto
  then have "list_all token_ok ts" "flat ts = s" using tokens_flat [OF ts] by auto
  then show ?thesis using replaces_flat [of ts env] assms(2,3) ts by (simp add: fill_def)
qed

section \<open>StubGen\<close>

text \<open>The descriptions that \<open>StubGen\<close> accepts, and the service it reads from them.\<close>

definition params_ok :: "JValue \<Rightarrow> bool" where
  "params_ok v \<longleftrightarrow> (case v of VObject ms \<Rightarrow> distinct (map fst ms) \<and> VNull \<notin> snd ` set ms | _ \<Rightarrow> False)"

definition returns_ok :: "JValue \<Rightarrow> bool" where
  "returns_ok v \<longleftrightarrow> \<not> isNull v \<and> \<not> isArray v \<and> (isObject v \<longrightarrow> params_ok v)"

definition func_ok :: "JValue \<Rightarrow> bool" where
  "func_ok func \<longleftrightarrow> (case func of
     VObject ms \<Rightarrow> (\<exists>n. map_of ms ''name'' = Some (VString n)) \<and>
       (\<exists>ps. map_of ms ''params'' = Some ps \<and> params_ok ps) \<and>
       (case map_of ms ''returns'' of None \<Rightarrow> True | Some r \<Rightarrow> returns_ok r)
   | _ \<Rightarrow> False)"

definition proto_ok :: "JValue \<Rightarrow> bool" where
  "proto_ok proto \<longleftrightarrow> (case proto of
     VObject ms \<Rightarrow> length ms = 2 \<and> (\<exists>n. map_of ms ''name'' = Some (VString n)) \<and>
       (\<exists>fs. map_of ms ''rpc'' = Some (VArray fs) \<and> fs \<noteq> [] \<and> list_all func_ok fs)
   | _ \<Rightarrow> False)"

lemma expectStub_simps [simp]:
  "expectStub True m = Ret ()" "expectStub False m = Throw m" "expectStub b m \<noteq> Abort"
  "expectStub b m = Ret () \<longleftrightarrow> b"
  by (simp_all add: expectStub_def)

lemma validateParams_loop_iff:
  "validateParams_loop seen ms = Ret () \<longleftrightarrow>
     distinct (map fst ms) \<and> fst ` set ms \<inter> seen = {} \<and> VNull \<notin> snd ` set ms"
proof (induction seen ms rule: validateParams_loop.induct)
  case (2 seen k v ms)
  then show ?case by (cases v) (auto simp: expectStub_def)
qed simp

lemma validateParams_loop_no_abort: "validateParams_loop seen ms \<noteq> Abort"
proof (induction seen ms rule: validateParams_loop.induct)
  case (2 seen k v ms)
  then show ?case by (cases v; cases "k \<in> seen") auto
qed simp

lemma validateParams_iff: "validateParams v = Ret () \<longleftrightarrow> params_ok v"
  by (cases v) (auto simp: validateParams_def params_ok_def validateParams_loop_iff)

lemma validateParams_no_abort: "isObject v \<Longrightarrow> validateParams v \<noteq> Abort"
  by (cases v) (auto simp: validateParams_def isObject_def validateParams_loop_no_abort)

lemma validateReturns_stub_iff: "validateReturns v = Ret () \<longleftrightarrow> returns_ok v"
  by (cases v) (auto simp: validateReturns_def returns_ok_def validateParams_iff is_type_defs)

lemma validateReturns_no_abort: "validateReturns v \<noteq> Abort"
  using validateParams_no_abort [of v] by (cases v) (auto simp: validateReturns_def isObject_def)

text \<open>What a function of the description contributes: a call with a result or a notification.\<close>

definition return_of :: "JValue \<Rightarrow> RpcReturn option" where
  "return_of func = (case func of
     VObject ms \<Rightarrow> (case (map_of ms ''name'', map_of ms ''params'', map_of ms ''returns'') of
       (Some (VString n), Some ps, Some r) \<Rightarrow> Some \<lparr>returnName = n, returnParams = ps, returnReturns = r\<rparr>
     | _ \<Rightarrow> None)
   | _ \<Rightarrow> None)"

definition notify_of :: "JValue \<Rightarrow> RpcNotify option" where
  "notify_of func = (case func of
     VObject ms \<Rightarrow> (case (map_of ms ''name'', map_of ms ''params'', map_of ms ''returns'') of
       (Some (VString n), Some ps, None) \<Rightarrow> Some \<lparr>notifyName = n, notifyParams = ps\<rparr>
     | _ \<Rightarrow> None)
   | _ \<Rightarrow> None)"

definition add_func :: "JValue \<Rightarrow> ServiceInfo \<Rightarrow> ServiceInfo" where
  "add_func func info = info\<lparr>
     rpcReturns := rpcReturns info @ (case return_of func of None \<Rightarrow> [] | Some r \<Rightarrow> [r]),
     rpcNotifys := rpcNotifys info @ (case notify_of func of None \<Rightarrow> [] | Some r \<Rightarrow> [r])\<rparr>"

definition service_read :: "JValue \<Rightarrow> ServiceInfo \<Rightarrow> bool" where
  "service_read proto info \<longleftrightarrow> (case proto of
     VObject ms \<Rightarrow> map_of ms ''name'' = Some (VString (serviceName info)) \<and>
       (case map_of ms ''rpc'' of
          Some (VArray fs) \<Rightarrow> rpcReturns info = List.map_filter return_of fs \<and>
            rpcNotifys info = List.map_filter notify_of fs
        | _ \<Rightarrow> False)
   | _ \<Rightarrow> False)"

lemma expect_bind:
  "out_bind (expectStub b m) f = (if b then f () else Throw m)"
  by (simp add: expectStub_def)

lemma unit_outcome_cases:
  "(m :: (string, unit) outcome) = Ret () \<or> (\<exists>e. m = Throw e) \<or> m = Abort"
  by (cases m) auto

lemma parseRpc_one_object:
  "parseRpc_one (VObject ms) info =
     (case map_of ms ''name'' of
        None \<Rightarrow> Throw ''expect func has name member''
      | Some name \<Rightarrow>
          (case name of VString n \<Rightarrow>
             (case map_of ms ''params'' of
                None \<Rightarrow> Throw ''expect func has params member''
              | Some ps \<Rightarrow> if \<not> isObject ps then Throw ''expect func: params is object type''
                  else out_bind (validateParams ps) (\<lambda>_.
                    out_bind (case map_of ms ''returns'' of None \<Rightarrow> Ret () | Some r \<Rightarrow> validateReturns r)
                      (\<lambda>_. Ret (add_func (VObject ms) info))))
           | _ \<Rightarrow> Throw ''expect func: name is string type''))"
proof (cases "map_of ms ''name''")
  case None
  then show ?thesis by (simp add: parseRpc_one_def expect_bind is_type_defs)
next
  case (Some name)
  show ?thesis
  proof (cases "isString name")
    case False
    then show ?thesis using Some
      by (cases name) (simp_all add: parseRpc_one_def expect_bind is_type_defs)
  next
    case True
    then obtain n where n: "name = VString n" by (cases name) (simp_all add: is_type_defs)
    show ?thesis
    proof (cases "map_of ms ''params''")
      case None
      then show ?thesis using Some n by (simp add: parseRpc_one_def expect_bind is_type_defs)
    next
      case ps: (Some ps)
      show ?thesis
      proof (cases "map_of ms ''returns''")
        case None
        then show ?thesis using Some n ps
          by (simp add: parseRpc_one_def expect_bind is_type_defs add_func_def return_of_def notify_of_def)
      next
        case (Some r)
        then show ?thesis using \<open>map_of ms ''name'' = Some name\<close> n ps
          by (simp add: parseRpc_one_def expect_bind is_type_defs add_func_def return_of_def notify_of_def)
      qed
    qed
  qed
qed

lemma parseRpc_one_result:
  "case parseRpc_one func info of Ret i \<Rightarrow> func_ok func \<and> i = add_func func info
   | Throw _ \<Rightarrow> \<not> func_ok func | Abort \<Rightarrow> False"
proof (cases func)
  case (VObject ms)
  show ?thesis
  proof (cases "(\<exists>n. map_of ms ''name'' = Some (VString n)) \<and> (\<exists>ps. map_of ms ''params'' = Some ps \<and> isObject ps)")
    case True
    then obtain n ps where n: "map_of ms ''name'' = Some (VString n)" "map_of ms ''params'' = Some ps" "isObject ps"
      by blast
    let ?r = "case map_of ms ''returns'' of None \<Rightarrow> Ret () | Some r \<Rightarrow> validateReturns r"
    have p: "parseRpc_one func info = out_bind (validateParams ps) (\<lambda>_. out_bind ?r (\<lambda>_. Ret (add_func func info)))"
      using n VObject by (simp add: parseRpc_one_object)
    have ok: "func_ok func \<longleftrightarrow> validateParams ps = Ret () \<and> ?r = Ret ()"
      using n VObject by (auto simp: func_ok_def validateParams_iff validateReturns_stub_iff split: option.splits)
    have na: "validateParams ps \<noteq> Abort" "?r \<noteq> Abort"
      using validateParams_no_abort [OF n(3)] validateReturns_no_abort by (auto split: option.split)
    show ?thesis
      using unit_outcome_cases [of "validateParams ps"] unit_outcome_cases [of ?r] na ok unfolding p by auto
  next
    case False
    have *: "params_ok ps \<Longrightarrow> isObject ps" for ps
      by (cases ps) (simp_all add: params_ok_def is_type_defs)
    have "\<not> func_ok func" using False VObject * by (auto simp: func_ok_def)
    moreover have "\<exists>m. parseRpc_one func info = Throw m"
      using False VObject by (auto simp: parseRpc_one_object split: option.splits JValue.splits)
    ultimately show ?thesis by auto
  qed
qed (simp_all add: parseRpc_one_def is_type_defs func_ok_def)

lemma parseRpc_loop_result:
  "case parseRpc_loop fs info of
     Ret i \<Rightarrow> list_all func_ok fs \<and> serviceName i = serviceName info \<and>
       rpcReturns i = rpcReturns info @ List.map_filter return_of fs \<and>
       rpcNotifys i = rpcNotifys info @ List.map_filter notify_of fs
   | Throw _ \<Rightarrow> \<not> list_all func_ok fs | Abort \<Rightarrow> False"
proof (induction fs arbitrary: info)
  case Nil
  then show ?case by (simp add: map_filter_simps)
next
  case (Cons func fs)
  show ?case
  proof (cases "parseRpc_one func info")
    case (Ret i)
    then have "func_ok func" "i = add_func func info"
      using parseRpc_one_result [of func info] by auto
    then show ?thesis
      using Cons [of i] Ret
      by (auto simp: map_filter_simps add_func_def split: outcome.splits option.splits)
  qed (use parseRpc_one_result [of func info] in auto)
qed

section \<open>The client as one pass over its templates\<close>

fun join_with :: "string \<Rightarrow> string list \<Rightarrow> string" where
  "join_with sep [] = []"
| "join_with sep [x] = x"
| "join_with sep (x # xs) = x @ sep @ join_with sep xs"

definition arg_ref :: "string \<times> JValue \<Rightarrow> string" where
  "arg_ref m = fill [(''argType'', the (argTypeName (getType (snd m)))), (''argName'', fst m)] methodArg_text"

definition args_ref :: "JValue \<Rightarrow> bool \<Rightarrow> string" where
  "args_ref ps hasLast =
     join_with '', '' (map arg_ref (the (getObject ps))) @ (if hasLast then '', '' else [])"

definition member_ref :: "string \<times> JValue \<Rightarrow> string" where
  "member_ref m = fill [(''argName'', fst m)] methodMember_text"

definition members_ref :: "JValue \<Rightarrow> string" where
  "members_ref ps = concat (map (\<lambda>m. member_ref m @ eol) (the (getObject ps)))"

definition return_ref :: "string \<Rightarrow> RpcReturn \<Rightarrow> string" where
  "return_ref svc f = fill [(''serviceName'', svc), (''methodName'', returnName f),
     (''methodArg'', args_ref (returnParams f) True), (''paramsMember'', members_ref (returnParams f))]
     procedureReturn_text"

definition notify_ref :: "string \<Rightarrow> RpcNotify \<Rightarrow> string" where
  "notify_ref svc f = fill [(''serviceName'', svc), (''methodName'', notifyName f),
     (''methodArg'', args_ref (notifyParams f) False), (''paramsMember'', members_ref (notifyParams f))]
     procedureNotify_text"

definition client_ref :: "ServiceInfo \<Rightarrow> string" where
  "client_ref info = fill
     [(''macroName'', serviceName info @ ''CLIENT''), (''clientName'', serviceName info @ ''Client''),
      (''procedureReturns'', concat (map (\<lambda>f. return_ref (serviceName info) f @ eol) (rpcReturns info))),
      (''procedureNotifys'', concat (map (\<lambda>f. notify_ref (serviceName info) f @ eol) (rpcNotifys info)))]
     clientTemplate_text"

text \<open>The names of a service have no brackets.\<close>

definition plain_params :: "JValue \<Rightarrow> bool" where
  "plain_params ps \<longleftrightarrow> list_all (\<lambda>m. plain (fst m)) (case ps of VObject ms \<Rightarrow> ms | _ \<Rightarrow> [])"

definition names_plain :: "ServiceInfo \<Rightarrow> bool" where
  "names_plain info \<longleftrightarrow> plain (serviceName info) \<and>
     list_all (\<lambda>f. plain (returnName f) \<and> plain_params (returnParams f)) (rpcReturns info) \<and>
     list_all (\<lambda>f. plain (notifyName f) \<and> plain_params (notifyParams f)) (rpcNotifys info)"

text \<open>A template whose placeholders all have a value becomes a text without brackets.\<close>

fun bound :: "string list \<Rightarrow> token \<Rightarrow> bool" where
  "bound ns (Chr c) \<longleftrightarrow> True"
| "bound ns (Grp w) \<longleftrightarrow> w \<in> set ns"

definition template_ok :: "string list \<Rightarrow> string \<Rightarrow> bool" where
  "template_ok ns s \<longleftrightarrow> (case tokens s None of None \<Rightarrow> False
     | Some ts \<Rightarrow> list_all (bound ns) ts)"

lemma fill_plain:
  assumes "template_ok (map fst env) s" "list_all (\<lambda>(n, v). plain n \<and> plain v) env"
  shows "plain (fill env s)"
proof -
  obtain ts where ts: "tokens s None = Some ts"
    "list_all (bound (map fst env)) ts"
    using assms(1) by (auto simp: template_ok_def split: option.splits)
  have ok: "list_all token_ok ts" using tokens_flat [OF ts(1)] by simp
  have v: "plain x" if "map_of env w = Some x" for w x
    using map_of_SomeD [OF that] assms(2) by (auto simp: list_all_iff)
  have "list_all token_ok ts \<Longrightarrow> list_all (bound (map fst env)) ts \<Longrightarrow>
    plain (concat (map (fill_token (map_of env)) ts))"
  proof (induction ts)
    case (Cons t ts)
    then show ?case
      by (cases t) (auto simp: v map_of_eq_None_iff split: option.split dest!: v)
  qed simp
  then show ?thesis using ts ok by (simp add: fill_def)
qed

lemma template_tokens: "template_ok ns s \<Longrightarrow> tokens s None \<noteq> None"
  by (cases "tokens s None") (simp_all add: template_ok_def)

lemma gen_each_ok: "\<forall>x \<in> set xs. f x = Some (g x) \<Longrightarrow> gen_each f e xs = Some (concat (map (\<lambda>x. g x @ e) xs))"
  by (induction xs) auto

lemma gen_args_rest:
  "\<forall>x \<in> set xs. f x = Some (g x) \<Longrightarrow> gen_args f False hasLast xs
     = Some (concat (map (\<lambda>x. '', '' @ g x) xs) @ (if hasLast then '', '' else []))"
  by (induction xs) auto

lemma join_with_Cons: "join_with sep (x # xs) = x @ concat (map (\<lambda>y. sep @ y) xs)"
  by (induction xs arbitrary: x) auto

lemma gen_args_ok:
  assumes "\<forall>x \<in> set xs. f x = Some (g x)"
  shows "gen_args f True hasLast xs = Some (join_with '', '' (map g xs) @ (if hasLast then '', '' else []))"
proof (cases xs)
  case (Cons x ys)
  then show ?thesis using assms gen_args_rest [of ys f g hasLast]
    by (simp add: join_with_Cons comp_def del: join_with.simps)
qed simp

lemma plain_concat: "plain (concat xs) \<longleftrightarrow> list_all plain xs"
  by (induction xs) auto

lemma plain_join_with: "plain sep \<Longrightarrow> list_all plain xs \<Longrightarrow> plain (join_with sep xs)"
  by (induction sep xs rule: join_with.induct) auto

text \<open>The same without the list of tokens; it goes through a template line by line.\<close>

fun bracketed :: "string list \<Rightarrow> string \<Rightarrow> string option \<Rightarrow> bool" where
  "bracketed ns [] acc = (acc = None)"
| "bracketed ns (c # s) None =
     (if c = CHR ''['' then bracketed ns s (Some []) else c \<noteq> CHR '']'' \<and> bracketed ns s None)"
| "bracketed ns (c # s) (Some w) =
     (if c = CHR ''['' then False else if c = CHR '']'' then w \<in> set ns \<and> bracketed ns s None
      else bracketed ns s (Some (w @ [c])))"

lemma bracketed_tokens: "bracketed ns s acc \<Longrightarrow> \<exists>ts. tokens s acc = Some ts \<and> list_all (bound ns) ts"
  by (induction ns s acc rule: bracketed.induct) (auto split: if_splits)

lemma bracketed_append: "bracketed ns s acc \<Longrightarrow> bracketed ns t None \<Longrightarrow> bracketed ns (s @ t) acc"
  by (induction ns s acc rule: bracketed.induct) auto

lemma bracketed_lines: "list_all (\<lambda>l. bracketed ns l None) ls \<Longrightarrow> bracketed ns (join_lines ls) None"
  by (induction ls rule: join_lines.induct) (auto intro!: bracketed_append)

lemma template_lines: "list_all (\<lambda>l. bracketed ns l None) ls \<Longrightarrow> template_ok ns (join_lines ls)"
  using bracketed_tokens [OF bracketed_lines] by (force simp: template_ok_def)

lemma templates:
  "template_ok [''argType'', ''argName''] methodArg_text"
  "template_ok [''argName''] methodMember_text"
  "template_ok [''serviceName'', ''methodName'', ''methodArg'', ''paramsMember''] procedureReturn_text"
  "template_ok [''serviceName'', ''methodName'', ''methodArg'', ''paramsMember''] procedureNotify_text"
  by code_simp+

lemma client_template:
  "template_ok [''macroName'', ''clientName'', ''procedureReturns'', ''procedureNotifys'', ''&''] clientTemplate_text"
  unfolding clientTemplate_text_def by (rule template_lines) code_simp

lemma argTypeName_plain: "t \<noteq> TYPE_NULL \<Longrightarrow> \<exists>n. argTypeName t = Some n \<and> plain n"
  by (cases t) auto

lemma bracket_names:
  "''[argType]'' = bracket ''argType''" "''[argName]'' = bracket ''argName''"
  "''[serviceName]'' = bracket ''serviceName''" "''[methodName]'' = bracket ''methodName''"
  "''[methodArg]'' = bracket ''methodArg''" "''[paramsMember]'' = bracket ''paramsMember''"
  "''[macroName]'' = bracket ''macroName''" "''[clientName]'' = bracket ''clientName''"
  "''[procedureReturns]'' = bracket ''procedureReturns''"
  "''[procedureNotifys]'' = bracket ''procedureNotifys''"
  by (simp_all add: bracket_def)

text \<open>Each template function fills its template, and the result is plain again.\<close>

lemma methodArgTemplate_ref:
  assumes "getType v \<noteq> TYPE_NULL" "plain k"
  shows "methodArgTemplate (getType v) k = Some (arg_ref (k, v)) \<and> plain (arg_ref (k, v))"
proof -
  obtain n where n: "argTypeName (getType v) = Some n" "plain n" using argTypeName_plain assms(1) by blast
  let ?env = "[(''argType'', n), (''argName'', k)]"
  have e: "list_all (\<lambda>(n, v). plain n \<and> plain v) ?env" using n assms(2) by simp
  show ?thesis
    using replaces_fill [OF template_tokens [OF templates(1)] e] fill_plain [of ?env] templates(1) e n
    by (simp add: methodArgTemplate_def arg_ref_def bracket_names)
qed

lemma methodMemberTemplate_ref:
  assumes "plain k"
  shows "methodMemberTemplate k = Some (member_ref (k, v)) \<and> plain (member_ref (k, v))"
proof -
  let ?env = "[(''argName'', k)]"
  have e: "list_all (\<lambda>(n, v). plain n \<and> plain v) ?env" using assms by simp
  show ?thesis
    using replaces_fill [OF template_tokens [OF templates(2)] e] fill_plain [of ?env] templates(2) e
    by (simp add: methodMemberTemplate_def member_ref_def bracket_names)
qed

definition good_params :: "JValue \<Rightarrow> bool" where
  "good_params ps \<longleftrightarrow> params_ok ps \<and> plain_params ps"

lemma genArg_ref:
  assumes "good_params ps"
  shows "client_genArg ps l = Some (args_ref ps l) \<and> plain (args_ref ps l)"
    and "client_genMember ps = Some (members_ref ps) \<and> plain (members_ref ps)"
proof -
  obtain ms where ms: "ps = VObject ms" "VNull \<notin> snd ` set ms" "list_all (\<lambda>m. plain (fst m)) ms"
    using assms by (cases ps) (auto simp: good_params_def params_ok_def plain_params_def)
  have t: "getType (snd m) \<noteq> TYPE_NULL" if "m \<in> set ms" for m
    using ms(2) that by (cases "snd m") (auto simp: rev_image_eqI)
  have a: "\<forall>m \<in> set ms. (\<lambda>(k, v). methodArgTemplate (getType v) k) m = Some (arg_ref m) \<and> plain (arg_ref m)"
    using methodArgTemplate_ref t ms(3) by (fastforce simp: list_all_iff)
  have b: "\<forall>m \<in> set ms. (\<lambda>(k, v). methodMemberTemplate k) m = Some (member_ref m) \<and> plain (member_ref m)"
    using methodMemberTemplate_ref ms(3) by (fastforce simp: list_all_iff)
  show "client_genArg ps l = Some (args_ref ps l) \<and> plain (args_ref ps l)"
    using a gen_args_ok [of ms _ arg_ref l] ms(1)
    by (auto simp: client_genArg_def args_ref_def list_all_iff intro!: plain_join_with)
  show "client_genMember ps = Some (members_ref ps) \<and> plain (members_ref ps)"
    using b gen_each_ok [of ms _ member_ref eol] ms(1)
    by (auto simp: client_genMember_def members_ref_def plain_concat list_all_iff eol_def)
qed

lemma procedureTemplates_ref:
  assumes "plain svc" "plain m" "plain a" "plain p"
  defines "env \<equiv> [(''serviceName'', svc), (''methodName'', m), (''methodArg'', a), (''paramsMember'', p)]"
  shows "procedureReturnTemplate svc m a p = Some (fill env procedureReturn_text) \<and>
      plain (fill env procedureReturn_text)"
    and "procedureNotifyTemplate svc m a p = Some (fill env procedureNotify_text) \<and>
      plain (fill env procedureNotify_text)"
proof -
  have e: "list_all (\<lambda>(n, v). plain n \<and> plain v) env" using assms by simp
  show "procedureReturnTemplate svc m a p = Some (fill env procedureReturn_text) \<and>
      plain (fill env procedureReturn_text)"
    using replaces_fill [OF template_tokens [OF templates(3)] e] fill_plain [of env] templates(3) e
    by (simp add: procedureReturnTemplate_def env_def bracket_names)
  show "procedureNotifyTemplate svc m a p = Some (fill env procedureNotify_text) \<and>
      plain (fill env procedureNotify_text)"
    using replaces_fill [OF template_tokens [OF templates(4)] e] fill_plain [of env] templates(4) e
    by (simp add: procedureNotifyTemplate_def env_def bracket_names)
qed

lemma genClient_ref:
  assumes "names_plain info" "\<forall>f \<in> set (rpcReturns info). params_ok (returnParams f)"
    "\<forall>f \<in> set (rpcNotifys info). params_ok (notifyParams f)"
  shows "genClient info = Some (client_ref info)"
proof -
  let ?svc = "serviceName info"
  have svc: "plain ?svc" using assms(1) by (simp add: names_plain_def)
  let ?rs = "concat (map (\<lambda>f. return_ref ?svc f @ eol) (rpcReturns info))"
  let ?ns = "concat (map (\<lambda>f. notify_ref ?svc f @ eol) (rpcNotifys info))"
  have gr: "good_params (returnParams f) \<and> plain (returnName f)" if "f \<in> set (rpcReturns info)" for f
    using that assms by (auto simp: names_plain_def good_params_def list_all_iff)
  have gn: "good_params (notifyParams f) \<and> plain (notifyName f)" if "f \<in> set (rpcNotifys info)" for f
    using that assms by (auto simp: names_plain_def good_params_def list_all_iff)
  have r: "client_genProcedureReturns info = Some ?rs" "list_all (\<lambda>f. plain (return_ref ?svc f)) (rpcReturns info)"
    unfolding client_genProcedureReturns_def list_all_iff
    using procedureTemplates_ref(1) [OF svc] genArg_ref gr
    by (auto simp: return_ref_def intro!: gen_each_ok)
  have n: "client_genProcedureNotifys info = Some ?ns" "list_all (\<lambda>f. plain (notify_ref ?svc f)) (rpcNotifys info)"
    unfolding client_genProcedureNotifys_def list_all_iff
    using procedureTemplates_ref(2) [OF svc] genArg_ref gn
    by (auto simp: notify_ref_def intro!: gen_each_ok)
  have p: "plain ?rs" "plain ?ns"
    using r(2) n(2) by (auto simp: plain_concat list_all_iff eol_def)
  let ?env = "[(''macroName'', ?svc @ ''CLIENT''), (''clientName'', ?svc @ ''Client''),
    (''procedureReturns'', ?rs), (''procedureNotifys'', ?ns)]"
  have e: "list_all (\<lambda>(n, v). plain n \<and> plain v) ?env" using svc p by simp
  show ?thesis
    using replaces_fill [OF template_tokens [OF client_template] e] r(1) n(1)
    by (simp add: genClient_def clientTemplate_def client_ref_def client_genMacroName_def
        client_genClientName_def bracket_names)
qed

section \<open>The server generator\<close>

lemma bind_None [simp]: "Option.bind m (\<lambda>_. None) = None"
  by (cases m) simp_all

lemma bind_templates_None:
  "procedureBindReturnTemplate a b c d = None" "procedureBindNotifyTemplate a b c d = None"
  by (simp_all add: procedureBindReturnTemplate_def procedureBindNotifyTemplate_def)

lemma bind_loops_None:
  "rs \<noteq> [] \<Longrightarrow> bindReturn_loop svc bk rs = None"
  "ns \<noteq> [] \<Longrightarrow> bindNotify_loop svc bk ns = None"
  by (cases rs; simp add: bind_templates_None) (cases ns; simp add: bind_templates_None)

section \<open>Properties\<close>

lemma StubGen_object:
  assumes "proto = VObject ms" "length ms = 2" "map_of ms ''name'' = Some (VString n)"
    "map_of ms ''rpc'' = Some (VArray fs)" "fs \<noteq> []"
  shows "StubGen proto = parseRpc_loop fs \<lparr>serviceName = n, rpcReturns = [], rpcNotifys = []\<rparr>"
  using assms by (cases fs) (simp_all add: StubGen_def parseRpc_def expect_bind is_type_defs)

lemma StubGen_rejects:
  assumes "\<not> (\<exists>ms n fs. proto = VObject ms \<and> length ms = 2 \<and> map_of ms ''name'' = Some (VString n) \<and>
    map_of ms ''rpc'' = Some (VArray fs) \<and> fs \<noteq> [])"
  shows "\<exists>msg. StubGen proto = Throw msg"
proof (cases proto)
  case (VObject ms)
  show ?thesis
  proof (cases "length ms = 2 \<and> map_of ms ''name'' \<noteq> None \<and> map_of ms ''rpc'' \<noteq> None")
    case True
    then obtain name rpc where *: "length ms = 2" "map_of ms ''name'' = Some name" "map_of ms ''rpc'' = Some rpc"
      by auto
    show ?thesis
      using assms * VObject
      by (cases name; cases rpc) (auto simp: StubGen_def parseRpc_def expect_bind is_type_defs)
  next
    case False
    then show ?thesis
      using VObject by (cases "map_of ms ''name''") (auto simp: StubGen_def expect_bind is_type_defs)
  qed
qed (simp_all add: StubGen_def expect_bind is_type_defs)

lemma StubGen_result:
  "case StubGen proto of Ret info \<Rightarrow> proto_ok proto \<and> service_read proto info
   | Throw msg \<Rightarrow> \<not> proto_ok proto | Abort \<Rightarrow> False"
proof (cases "\<exists>ms n fs. proto = VObject ms \<and> length ms = 2 \<and> map_of ms ''name'' = Some (VString n) \<and>
    map_of ms ''rpc'' = Some (VArray fs) \<and> fs \<noteq> []")
  case True
  then obtain ms n fs where p: "proto = VObject ms" "length ms = 2" "map_of ms ''name'' = Some (VString n)"
    "map_of ms ''rpc'' = Some (VArray fs)" "fs \<noteq> []"
    by blast
  show ?thesis
    using parseRpc_loop_result [of fs "\<lparr>serviceName = n, rpcReturns = [], rpcNotifys = []\<rparr>"] p
    unfolding StubGen_object [OF p]
    by (auto simp: proto_ok_def service_read_def split: outcome.splits)
next
  case False
  then have "\<not> proto_ok proto" by (auto simp: proto_ok_def split: JValue.splits)
  then show ?thesis using StubGen_rejects [OF False] by auto
qed

text \<open>What the accepted functions guarantee.\<close>

lemma StubGen_funcs:
  assumes "StubGen proto = Ret info"
  shows "\<exists>fs. fs \<noteq> [] \<and> list_all func_ok fs \<and> rpcReturns info = List.map_filter return_of fs \<and>
    rpcNotifys info = List.map_filter notify_of fs"
  using StubGen_result [of proto] assms
  by (auto simp: proto_ok_def service_read_def split: JValue.splits option.splits)

lemma func_of_ok:
  assumes "func_ok func"
  shows "return_of func \<noteq> None \<or> notify_of func \<noteq> None"
    and "return_of func = Some r \<Longrightarrow> params_ok (returnParams r)"
    and "notify_of func = Some m \<Longrightarrow> params_ok (notifyParams m)"
  using assms by (auto simp: func_ok_def return_of_def notify_of_def split: JValue.splits option.splits)

lemma StubGen_info:
  assumes "StubGen proto = Ret info"
  shows "rpcReturns info \<noteq> [] \<or> rpcNotifys info \<noteq> []"
    and "\<forall>f \<in> set (rpcReturns info). params_ok (returnParams f)"
    and "\<forall>f \<in> set (rpcNotifys info). params_ok (notifyParams f)"
proof -
  obtain fs where fs: "fs \<noteq> []" "list_all func_ok fs" "rpcReturns info = List.map_filter return_of fs"
    "rpcNotifys info = List.map_filter notify_of fs"
    using StubGen_funcs [OF assms] by blast
  have ok: "func_ok f" if "f \<in> set fs" for f using fs(2) that by (simp add: list_all_iff)
  obtain f rest where f: "fs = f # rest" using fs(1) by (cases fs) auto
  show "rpcReturns info \<noteq> [] \<or> rpcNotifys info \<noteq> []"
    using func_of_ok(1) [OF ok [of f]] f fs(3,4) by (auto simp: map_filter_simps split: option.splits)
  show "\<forall>f \<in> set (rpcReturns info). params_ok (returnParams f)"
    using func_of_ok(2) ok fs(3) by (fastforce simp: List.map_filter_def)
  show "\<forall>f \<in> set (rpcNotifys info). params_ok (notifyParams f)"
    using func_of_ok(3) ok fs(4) by (fastforce simp: List.map_filter_def)
qed

text \<open>
  A description is accepted exactly when it is an object of a string \<open>name\<close> and a non-empty
  array \<open>rpc\<close> of functions with a name, an object of distinctly named, non-null parameters and,
  if any, admissible returns; the service read from it lists the calls and the notifications in
  their order. Every other description raises a \<open>StubException\<close>; no assertion fails.
\<close>

theorem stubgen_accepts:
  "case StubGen proto of Ret info \<Rightarrow> proto_ok proto \<and> service_read proto info
   | Throw msg \<Rightarrow> \<not> proto_ok proto | Abort \<Rightarrow> False"
  by (rule StubGen_result)

text \<open>
  \<open>replaceAll\<close> returns, and leaves no occurrence, if some character is rarer in the
  replacement than in the pattern; it loops forever on a text with the pattern if the
  replacement contains the pattern.
\<close>

theorem replaceAll_return:
  assumes "p \<noteq> []"
  shows "(count_list to c < count_list p c \<longrightarrow> (\<exists>r. replaceAll p to s = Some r \<and> \<not> sublist p r)) \<and>
    (sublist p to \<and> sublist p s \<longrightarrow> replaceAll p to s = None)"
  using replaceAll_terminates [of to c p s] replaceAll_result [of p to s] replaceAll_loops [OF assms, of to s]
    str_find_None_iff [OF assms] by blast

theorem replaceAll_return_witness:
  "(\<exists>r. replaceAll ''[argName]'' ''text'' (''int '' @ ''[argName]'') = Some r \<and> \<not> sublist ''[argName]'' r) \<and>
   replaceAll ''[argName]'' ''[argName]'' ''[argName]'' = None"
proof -
  have "count_list ''text'' (CHR ''['') < count_list ''[argName]'' (CHR ''['')" by simp
  then show ?thesis
    using replaceAll_return [of "''[argName]''" "''text''" "CHR ''[''" "''int '' @ ''[argName]''"]
      replaceAll_return [of "''[argName]''" "''[argName]''" "CHR ''[''" "''[argName]''"]
    by blast
qed

text \<open>
  C26: for every accepted description whose names have no brackets the client generator returns,
  and the many passes of \<open>replaceAll\<close> over the templates and over each other's results give the
  text that one pass filling every placeholder gives.
\<close>

theorem client_stub_fills:
  assumes "StubGen proto = Ret info" and "names_plain info"
  shows "genClient info = Some (client_ref info)"
  using genClient_ref [OF assms(2)] StubGen_info [OF assms(1)] by blast

definition echo_proto :: JValue where
  "echo_proto = VObject [(''name'', VString ''Echo''), (''rpc'', VArray
     [VObject [(''name'', VString ''Echo''), (''params'', VObject [(''message'', VString ''s'')]),
        (''returns'', VString ''s'')]])]"

definition echo_info :: ServiceInfo where
  "echo_info = \<lparr>serviceName = ''Echo'', rpcReturns =
     [\<lparr>returnName = ''Echo'', returnParams = VObject [(''message'', VString ''s'')],
       returnReturns = VString ''s''\<rparr>], rpcNotifys = []\<rparr>"

lemma echo_stub: "StubGen echo_proto = Ret echo_info"
  by code_simp

theorem client_stub_fills_witness:
  "genClient echo_info = Some (client_ref echo_info)"
proof -
  have "names_plain echo_info"
    by (simp add: names_plain_def echo_info_def plain_params_def)
  then show ?thesis by (rule client_stub_fills [OF echo_stub])
qed

text \<open>
  The server generator never returns: every accepted description has a function, and the
  template that binds it flows off the end of a function without a \<open>return\<close>.
\<close>

theorem server_stub_never_returns:
  assumes "StubGen proto = Ret info"
  shows "genServer info = None"
  using StubGen_info(1) [OF assms]
  by (cases "genProcedureBindReturn info")
    (auto simp: genServer_def genProcedureBind_def genProcedureBindReturn_def genProcedureBindNotify_def
      bind_loops_None)

theorem server_stub_never_returns_witness: "genServer echo_info = None"
  by (rule server_stub_never_returns [OF echo_stub])

end
