(* ===== verification/JsonFacts.thy ===== *)
theory JsonFacts
  imports JsonRoundtrip
begin

text \<open>
  The properties of the JSON component: the reader terminates, reads every text of a value, and
  builds well-formed values; the encoder of code points is UTF-8; and the corners where the
  reader departs from its own error codes.
\<close>

section \<open>Termination and results\<close>

text \<open>
  C17: the reader terminates on every input: any fuel above the length of the text is enough.
\<close>

theorem reader_terminates:
  assumes "length is < n"
  shows "parseValue n is v \<noteq> Out_of_fuel"
  using parseValue_fuelled [of n] assms by (simp add: fuelled_def)

lemma reader_terminates_witness: "parseValue 8 ''[1i32,]'' VNull \<noteq> Out_of_fuel"
  by (rule reader_terminates) simp

text \<open>
  C23: the value of a successful parse has sorted, distinct keys in all its objects, and no
  input ever yields \<open>PARSE_MISS_COMMA_OR_SQUARE_BRACKET\<close>: the array loop overwrites it.
\<close>

theorem reader_results:
  assumes "parse is v = Some (e, v')"
  shows "(e = PARSE_OK \<longrightarrow> wf_value v') \<and> e \<noteq> PARSE_MISS_COMMA_OR_SQUARE_BRACKET"
  using parse_sound [OF assms] by blast

lemma read_two_members:
  "parse ''{\"b\":null,\"a\":null}'' VNull = Some (PARSE_OK, VObject [(''a'', VNull), (''b'', VNull)])"
  by code_simp

lemma reader_results_witness: "wf_value (VObject [(''a'', VNull), (''b'', VNull)])"
  using reader_results [OF read_two_members] by simp

section \<open>Errors\<close>

text \<open>
  An integer with the suffix \<open>i32\<close> that does not fit 32 bits is \<open>PARSE_NUMBER_TOO_BIG\<close>,
  and the caller's value becomes null; this is exactly the range check of \<open>int32_t\<close>.
\<close>

theorem int32_out_of_range:
  assumes "int_text i s" "- (2 ^ 63) \<le> i" "i < 2 ^ 63" "i < - (2 ^ 31) \<or> 2 ^ 31 \<le> i" "delim r"
  shows "parse (s @ ''i32'' @ r) u = Some (PARSE_NUMBER_TOO_BIG, VNull)"
proof -
  have ex: "\<exists>c s'. s @ ''i32'' @ r = c # s' \<and> (isDigit c \<or> c = CHR ''-'')"
    by (rule int_text_head [OF assms(1)])
  then obtain c s' where c: "s @ ''i32'' @ r = c # s'" "isDigit c \<or> c = CHR ''-''" by blast
  then have w: "parseWhitespace (s @ ''i32'' @ r) = s @ ''i32'' @ r"
    using not_ws_digit by (auto simp: c(1))
  have "parseValue (fuel_for (s @ ''i32'' @ r)) (s @ ''i32'' @ r) VNull = Done PARSE_NUMBER_TOO_BIG VNull r"
    using parseNumber_int32_range [OF assms(1-4), of r VNull] parseValue_number_text [OF _ ex]
    by (simp add: fuel_for_def del: parseValue.simps)
  with w show ?thesis by (simp add: parse_def del: parseValue.simps)
qed

lemma int32_out_of_range_witness:
  "parse (''2147483648'' @ ''i32'' @ []) VNull = Some (PARSE_NUMBER_TOO_BIG, VNull)"
proof (rule int32_out_of_range)
  show "int_text 2147483648 ''2147483648''"
    using int_textI [of "[]" "''2147483648''"]
    by (simp add: sign_text_def int_part_def digits_def isDigit_iff isDigit19_iff digit_val_def)
qed simp_all

text \<open>
  An object with the same key twice aborts the reader: \<open>addMember\<close> asserts that the key is
  new. The texts of the two keys may differ (escapes).
\<close>

theorem duplicate_key_aborts:
  assumes "jchars k kt" "jchars k kt'" "jtext v t" "jtext v' t'" "delim r"
  shows "parse (''{'' @ [CHR 0x22] @ kt @ [CHR 0x22] @ '':'' @ t @ '',''
      @ [CHR 0x22] @ kt' @ [CHR 0x22] @ '':'' @ t' @ r) u = None"
proof -
  let ?s2 = "CHR 0x22 # kt' @ CHR 0x22 # CHR '':'' # t' @ r"
  let ?s1 = "CHR 0x22 # kt @ CHR 0x22 # CHR '':'' # t @ CHR '','' # ?s2"
  have key: "parseString (CHR 0x22 # q @ CHR 0x22 # x) VNull = Done PARSE_OK (VString k) x"
    if "jchars k q" for q x
    using parseString_jchars [OF that] by simp
  have val: "parseValue n (t @ CHR '','' # ?s2) VNull = Done PARSE_OK v (CHR '','' # ?s2)"
    "parseValue n (t' @ r) VNull = Done PARSE_OK v' r"
    if "length t + length t' < n" for n
    using reads_text [OF assms(3), of n "CHR '','' # ?s2" VNull] reads_text [OF assms(4) _ assms(5), of n VNull] that
    by simp_all
  have ws: "parseWhitespace (t @ x) = t @ x" "parseWhitespace (t' @ x) = t' @ x" for x
    using parseWhitespace_jtext(1) [OF assms(3), of "[]" x] parseWhitespace_jtext(1) [OF assms(4), of "[]" x]
    by simp_all
  have loop2: "parseObjectLoop (parseValue n) (Suc m) ?s2 (VObject [(k, v)]) = Assert_fail"
    if "length t + length t' < n" for n m
    using key [OF assms(2)] val(2) [OF that] ws(2) by simp
  have loop1: "parseObjectLoop (parseValue n) (Suc (Suc m)) ?s1 (VObject []) = Assert_fail"
    if "length t + length t' < n" for n m
    using key [OF assms(1)] val(1) [OF that] ws(1) loop2 [OF that] by simp
  obtain m where m: "fuel_for (CHR ''{'' # ?s1) = Suc (Suc (Suc m))" "length t + length t' < Suc (Suc m)"
    by (simp add: fuel_for_def)
  then have "parseValue (fuel_for (CHR ''{'' # ?s1)) (CHR ''{'' # ?s1) VNull = Assert_fail"
    using loop1 [OF m(2), of m] by (simp add: parseObject_def expect_def setObject_def)
  then show ?thesis
    by (simp add: parse_def is_ws_def del: parseValue.simps)
qed

lemma duplicate_key_aborts_witness:
  "parse (''{'' @ [CHR 0x22] @ ''a'' @ [CHR 0x22] @ '':'' @ ''null'' @ '',''
      @ [CHR 0x22] @ ''a'' @ [CHR 0x22] @ '':'' @ ''true'' @ ''}'') VNull = None"
  by (rule duplicate_key_aborts [where k = "''a''"])
    (auto intro!: jchars_plain gtext_gelems_gmembers.intros simp: plain_key_def char_le_iff)

text \<open>
  A string whose closing quote is missing is not an error: \<open>parse\<close> returns \<open>PARSE_OK\<close>, and
  the value is null.
\<close>

theorem unterminated_string_ok:
  assumes "plain_key s"
  shows "parse (CHR 0x22 # s) u = Some (PARSE_OK, VNull)"
proof -
  have "parseChars s VNull b = Done PARSE_OK VNull []" for b
    using assms
    by (induction s arbitrary: b) (auto simp: plain_key_def char_le_iff char_less_iff)
  then show ?thesis
    by (simp add: parse_def fuel_for_def parseString_def expect_def hasNext_def is_ws_def)
qed

lemma unterminated_string_ok_witness: "parse (CHR 0x22 # ''abc'') VNull = Some (PARSE_OK, VNull)"
  by (rule unterminated_string_ok) (simp add: plain_key_def char_le_iff)

text \<open>
  Between two elements of an array any character but whitespace and the closing bracket is
  taken for the separator, because the \<open>default\<close> case of the switch does not leave the loop.
\<close>

theorem array_any_separator:
  assumes "jtext v t" "jtext v' t'" "delim (c # t' @ CHR '']'' # r)" "c \<noteq> CHR '']''" "\<not> is_ws c"
    "ws r"
  shows "parse (CHR ''['' # t @ c # t' @ CHR '']'' # r) u = Some (PARSE_OK, VArray [v, v'])"
proof -
  let ?s2 = "t' @ CHR '']'' # r" and ?s1 = "t @ c # t' @ CHR '']'' # r"
  have val: "parseValue n ?s1 VNull = Done PARSE_OK v (c # ?s2)" "parseValue n ?s2 VNull = Done PARSE_OK v' (CHR '']'' # r)"
    if "length t + length t' < n" for n
    using reads_text [OF assms(1), of n "c # ?s2" VNull] reads_text [OF assms(2), of n "CHR '']'' # r" VNull]
      that assms(3) by simp_all
  have ws: "parseWhitespace (t @ x) = t @ x" "parseWhitespace (t' @ x) = t' @ x" for x
    using parseWhitespace_jtext(1) [OF assms(1), of "[]" x] parseWhitespace_jtext(1) [OF assms(2), of "[]" x]
    by simp_all
  have "parseArrayLoop (parseValue n) (Suc (Suc m)) ?s1 (VArray []) = Done PARSE_OK (VArray [v, v']) r"
    if "length t + length t' < n" for n m
    using val [OF that] ws assms(4,5) by simp
  moreover have "front (t @ x) \<noteq> CHR '']''" for x
    using jtext_head(1) [OF assms(1)] by auto
  moreover obtain m where "fuel_for (CHR ''['' # ?s1) = Suc (Suc (Suc m))" "length t + length t' < Suc (Suc m)"
    by (simp add: fuel_for_def)
  ultimately have "parseValue (fuel_for (CHR ''['' # ?s1)) (CHR ''['' # ?s1) VNull = Done PARSE_OK (VArray [v, v']) r"
    using ws(1) by (simp add: parseArray_def expect_def setArray_def del: parseArrayLoop.simps)
  then show ?thesis
    using parseWhitespace_ws [OF assms(6), of "[]"]
    by (simp add: parse_def is_ws_def hasNext_def del: parseValue.simps)
qed

lemma array_any_separator_witness:
  "parse (CHR ''['' # ''null'' @ CHR ''}'' # ''null'' @ CHR '']'' # []) VNull = Some (PARSE_OK, VArray [VNull, VNull])"
  by (rule array_any_separator) (auto intro: jt_null simp: is_ws_def)

section \<open>UTF-8\<close>

definition cont_byte :: "nat \<Rightarrow> bool" where "cont_byte b \<longleftrightarrow> 0x80 \<le> b \<and> b < 0xC0"

text \<open>The code point of a UTF-8 sequence.\<close>

fun utf8_decode :: "nat list \<Rightarrow> nat option" where
  "utf8_decode [a] = (if a < 0x80 then Some a else None)"
| "utf8_decode [a, b] =
     (if 0xC0 \<le> a \<and> a < 0xE0 \<and> cont_byte b then Some ((a - 0xC0) * 0x40 + (b - 0x80)) else None)"
| "utf8_decode [a, b, c] =
     (if 0xE0 \<le> a \<and> a < 0xF0 \<and> cont_byte b \<and> cont_byte c
      then Some (((a - 0xE0) * 0x40 + (b - 0x80)) * 0x40 + (c - 0x80)) else None)"
| "utf8_decode [a, b, c, d] =
     (if 0xF0 \<le> a \<and> a < 0xF8 \<and> cont_byte b \<and> cont_byte c \<and> cont_byte d
      then Some ((((a - 0xF0) * 0x40 + (b - 0x80)) * 0x40 + (c - 0x80)) * 0x40 + (d - 0x80)) else None)"
| "utf8_decode _ = None"

lemma or_push_bit:
  assumes "(d :: nat) < 2 ^ k"
  shows "or (push_bit k u) d = u * 2 ^ k + d"
proof -
  have d: "take_bit k d = d" using assms by (simp add: take_bit_nat_eq_self)
  have b: "n < k" if "bit d n" for n
    using that bit_take_bit_iff [of k d n] by (simp add: d)
  then have "and (push_bit k u) d = 0"
    by (intro bit_eqI) (auto simp: bit_simps dest: b)
  then show ?thesis
    using disjunctive_add_eq_or [of "push_bit k u" d] by (simp add: push_bit_eq_mult)
qed

lemma lead_bits:
  "d < 32 \<Longrightarrow> or 0xC0 d = 0xC0 + (d :: nat)" "d < 16 \<Longrightarrow> or 0xE0 d = 0xE0 + (d :: nat)"
  "d < 8 \<Longrightarrow> or 0xF0 d = 0xF0 + (d :: nat)" "d < 64 \<Longrightarrow> or 0x80 d = 0x80 + (d :: nat)"
  using or_push_bit [of d 5 6] or_push_bit [of d 4 14] or_push_bit [of d 3 30] or_push_bit [of d 6 2]
  by (simp_all add: push_bit_eq_mult)

lemma low_bits: "and (u :: nat) 0x3F = u mod 64" "and (u :: nat) 0xFF = u mod 256"
  using take_bit_eq_mask [of 6 u] take_bit_eq_mask [of 8 u]
  by (simp_all add: mask_eq_exp_minus_1 take_bit_eq_mod)

text \<open>
  C22: \<open>encodeUtf8\<close> encodes every code point up to \<open>0x10FFFF\<close> as UTF-8 (its decoding is the
  code point), and its assertion fails above.
\<close>

theorem encodeUtf8_correct:
  "case encodeUtf8 u of
     Some bs \<Rightarrow> u \<le> 0x10FFFF \<and> utf8_decode (map of_char bs) = Some u
   | None \<Rightarrow> 0x10FFFF < u"
proof -
  have byte: "of_char (byte n) = n mod 256" for n :: nat
    by (simp add: byte_def)
  consider "u \<le> 0x7F" | "0x7F < u" "u \<le> 0x7FF" | "0x7FF < u" "u \<le> 0xFFFF"
    | "0xFFFF < u" "u \<le> 0x10FFFF" | "0x10FFFF < u" by linarith
  then show ?thesis
  proof cases
    case 1
    then show ?thesis by (simp add: encodeUtf8_def byte low_bits)
  next
    case 2
    then have "u div 64 < 32" by simp
    with 2 show ?thesis
      by (simp add: encodeUtf8_def byte low_bits lead_bits drop_bit_eq_div cont_byte_def)
  next
    case 3
    then have l: "u div 4096 < 16" by simp
    have "u div 4096 = u div 64 div 64" by (simp flip: div_mult2_eq)
    then have "(u div 4096 * 64 + u div 64 mod 64) * 64 + u mod 64 = u"
      by (simp only: div_mult_mod_eq)
    with 3 l show ?thesis
      by (simp add: encodeUtf8_def byte low_bits lead_bits drop_bit_eq_div cont_byte_def
          del: div_mult_mod_eq)
  next
    case 4
    then have l: "u div 262144 < 8" by simp
    have "u div 4096 = u div 64 div 64" "u div 262144 = u div 4096 div 64" by (simp_all flip: div_mult2_eq)
    then have "((u div 262144 * 64 + u div 4096 mod 64) * 64 + u div 64 mod 64) * 64 + u mod 64 = u"
      by (simp only: div_mult_mod_eq)
    with 4 l show ?thesis
      by (simp add: encodeUtf8_def byte low_bits lead_bits drop_bit_eq_div cont_byte_def
          del: div_mult_mod_eq)
  next
    case 5
    then show ?thesis by (simp add: encodeUtf8_def)
  qed
qed

end
