(* ===== verification/NetBufferFacts.thy ===== *)
theory NetBufferFacts
  imports NetBuffer
begin

text \<open>
  The properties of the byte buffer: it refines a queue of bytes under every sequence of
  operations, integers come back as they went in, and what \<open>readFd\<close> does with the result of
  \<open>readv\<close>.
\<close>

section \<open>Refinement of a queue\<close>

datatype buffer_op = Append string | Take nat

fun run_buffer :: "buffer_op list \<Rightarrow> Buffer \<Rightarrow> (string list \<times> Buffer) option" where
  "run_buffer [] b = Some ([], b)"
| "run_buffer (Append s # ops) b = Option.bind (append_str b s) (run_buffer ops)"
| "run_buffer (Take n # ops) b =
     Option.bind (retrieveAsString b n) (\<lambda>(s, b1).
       map_option (apfst ((#) s)) (run_buffer ops b1))"

fun run_queue :: "buffer_op list \<Rightarrow> string \<Rightarrow> (string list \<times> string) option" where
  "run_queue [] q = Some ([], q)"
| "run_queue (Append s # ops) q = run_queue ops (q @ s)"
| "run_queue (Take n # ops) q =
     (if n \<le> length q
      then map_option (apfst ((#) (take n q))) (run_queue ops (drop n q)) else None)"

lemma retrieveAsString_None: "readableBytes b < n \<Longrightarrow> retrieveAsString b n = None"
  by (simp add: retrieveAsString_def)

text \<open>
  C8: under every sequence of appends and reads the buffer is the queue of its readable bytes:
  the same strings come out, the same bytes remain, growing and moving the contents loses
  nothing, and the only failing call is a read of more than there is.
\<close>

theorem buffer_refines_queue:
  assumes "buffer_inv b"
  shows "map_option (\<lambda>(out, b'). (out, readable b')) (run_buffer ops b) = run_queue ops (readable b)
    \<and> (\<forall>out b'. run_buffer ops b = Some (out, b') \<longrightarrow> buffer_inv b')"
  using assms
proof (induction ops arbitrary: b)
  case Nil
  then show ?case by simp
next
  case (Cons x ops)
  show ?case
  proof (cases x)
    case (Append s)
    obtain b1 where b1: "append_str b s = Some b1" "buffer_inv b1" "readable b1 = readable b @ s"
      using bq.app_spec [OF Cons.prems] by blast
    from Cons.IH [OF b1(2)] show ?thesis by (simp add: Append b1)
  next
    case (Take n)
    show ?thesis
    proof (cases "n \<le> readableBytes b")
      case True
      then obtain b1 where b1: "retrieveAsString b n = Some (take n (readable b), b1)" "buffer_inv b1"
        "readable b1 = drop n (readable b)"
        using bq.get_spec [OF Cons.prems, of n] Cons.prems by (auto simp: length_readable)
      from Cons.IH [OF b1(2), THEN conjunct1, symmetric] Cons.IH [OF b1(2), THEN conjunct2]
        b1 True Cons.prems show ?thesis
        by (cases "run_buffer ops b1") (auto simp: Take length_readable)
    next
      case False
      with Cons.prems show ?thesis
        by (simp add: Take retrieveAsString_None length_readable)
    qed
  qed
qed

lemma buffer_refines_queue_witness:
  "map_option (\<lambda>(out, b'). (out, readable b')) (run_buffer [Append ''abc'', Take 2, Append ''d'', Take 2] (Buffer_new 4))
    = Some ([''ab'', ''cd''], [])"
  using buffer_refines_queue [OF buffer_new_inv [of 4], of "[Append ''abc'', Take 2, Append ''d'', Take 2]"]
  by (simp add: readable_new)

section \<open>Integers\<close>

lemma word_of_be:
  "word_of_nat (be_val (be_bytes 8 (unat (x :: 64 word)))) = x"
  "word_of_nat (be_val (be_bytes 4 (unat (y :: 32 word)))) = y"
  "word_of_nat (be_val (be_bytes 2 (unat (z :: 16 word)))) = z"
  using unsigned_less [of x, where 'a = nat] unsigned_less [of y, where 'a = nat] unsigned_less [of z, where 'a = nat]
  by (simp_all add: be_val_be_bytes)

lemma readInt_front:
  assumes "buffer_inv b"
  shows "readable b = be_bytes 8 (unat (x :: 64 word)) @ r \<Longrightarrow>
      \<exists>b'. readInt64 b = Some (x, b') \<and> buffer_inv b' \<and> readable b' = r"
    and "readable b = be_bytes 4 (unat (y :: 32 word)) @ r \<Longrightarrow>
      \<exists>b'. readInt32 b = Some (y, b') \<and> buffer_inv b' \<and> readable b' = r"
    and "readable b = be_bytes 2 (unat (z :: 16 word)) @ r \<Longrightarrow>
      \<exists>b'. readInt16 b = Some (z, b') \<and> buffer_inv b' \<and> readable b' = r"
    and "readable b = char_of (unat (w :: 8 word)) # r \<Longrightarrow>
      \<exists>b'. readInt8 b = Some (w, b') \<and> buffer_inv b' \<and> readable b' = r"
proof -
  note len = length_readable [OF assms, symmetric]
  show "\<exists>b'. readInt64 b = Some (x, b') \<and> buffer_inv b' \<and> readable b' = r"
    if "readable b = be_bytes 8 (unat x) @ r"
    using bq.skip_front [OF assms that] that
    by (auto simp: readInt64_def peekInt64_def retrieveInt64_def len word_of_be)
  show "\<exists>b'. readInt32 b = Some (y, b') \<and> buffer_inv b' \<and> readable b' = r"
    if "readable b = be_bytes 4 (unat y) @ r"
    using bq.skip_front [OF assms that] that
    by (auto simp: readInt32_def peekInt32_def retrieveInt32_def len word_of_be)
  show "\<exists>b'. readInt16 b = Some (z, b') \<and> buffer_inv b' \<and> readable b' = r"
    if "readable b = be_bytes 2 (unat z) @ r"
    using bq.skip_front [OF assms that] that
    by (auto simp: readInt16_def peekInt16_def retrieveInt16_def len word_of_be)
  show "\<exists>b'. readInt8 b = Some (w, b') \<and> buffer_inv b' \<and> readable b' = r"
    if "readable b = char_of (unat w) # r"
    using bq.skip_front [OF assms, of "[char_of (unat w)]" r 1] that unsigned_less [of w, where 'a = nat]
    by (auto simp: readInt8_def peekInt8_def retrieveInt8_def len)
qed

text \<open>
  An integer of any width that is prepended (a length field, for which eight bytes are kept
  free) is read back first, and what was readable is left as it was.
\<close>

theorem prepend_read_int:
  assumes "buffer_inv b" "8 \<le> prependableBytes b"
  shows "(\<exists>b1 b2. prependInt64 b x = Some b1 \<and> readInt64 b1 = Some (x, b2) \<and> readable b2 = readable b)
    \<and> (\<exists>b1 b2. prependInt32 b y = Some b1 \<and> readInt32 b1 = Some (y, b2) \<and> readable b2 = readable b)
    \<and> (\<exists>b1 b2. prependInt16 b z = Some b1 \<and> readInt16 b1 = Some (z, b2) \<and> readable b2 = readable b)
    \<and> (\<exists>b1 b2. prependInt8 b w = Some b1 \<and> readInt8 b1 = Some (w, b2) \<and> readable b2 = readable b)"
proof -
  have p: "\<exists>b'. prepend b dat = Some b' \<and> buffer_inv b' \<and> readable b' = dat @ readable b"
    if "length dat \<le> 8" for dat
    using prepend_ok [OF assms(1)] that assms(2) by simp
  have "\<exists>b1 b2. prependInt64 b x = Some b1 \<and> readInt64 b1 = Some (x, b2) \<and> readable b2 = readable b"
    using p [of "be_bytes 8 (unat x)"] readInt_front(1) unfolding prependInt64_def by force
  moreover have "\<exists>b1 b2. prependInt32 b y = Some b1 \<and> readInt32 b1 = Some (y, b2) \<and> readable b2 = readable b"
    using p [of "be_bytes 4 (unat y)"] readInt_front(2) unfolding prependInt32_def by force
  moreover have "\<exists>b1 b2. prependInt16 b z = Some b1 \<and> readInt16 b1 = Some (z, b2) \<and> readable b2 = readable b"
    using p [of "be_bytes 2 (unat z)"] readInt_front(3) unfolding prependInt16_def by force
  moreover have "\<exists>b1 b2. prependInt8 b w = Some b1 \<and> readInt8 b1 = Some (w, b2) \<and> readable b2 = readable b"
    using p [of "[char_of (unat w)]"] readInt_front(4) [of _ w "readable b"] unfolding prependInt8_def by force
  ultimately show ?thesis by blast
qed

lemma prepend_read_int_witness:
  "\<exists>b1 b2. prependInt32 (Buffer_new 0) 77 = Some b1 \<and> readInt32 b1 = Some (77, b2) \<and> readable b2 = []"
  using prepend_read_int [OF buffer_new_inv, of 0 0 77 0 0]
  by (simp add: Buffer_new_def prependableBytes_def kCheapPrepend_def readable_def readableBytes_def)

text \<open>
  An integer appended to an empty buffer is read back, for each width.
\<close>

theorem append_read_int:
  assumes "buffer_inv b" "readable b = []"
  shows "(\<exists>b1 b2. appendInt64 b x = Some b1 \<and> readInt64 b1 = Some (x, b2) \<and> readable b2 = [])
    \<and> (\<exists>b1 b2. appendInt32 b y = Some b1 \<and> readInt32 b1 = Some (y, b2) \<and> readable b2 = [])
    \<and> (\<exists>b1 b2. appendInt16 b z = Some b1 \<and> readInt16 b1 = Some (z, b2) \<and> readable b2 = [])
    \<and> (\<exists>b1 b2. appendInt8 b w = Some b1 \<and> readInt8 b1 = Some (w, b2) \<and> readable b2 = [])"
proof -
  have a: "\<exists>b'. append_str b s = Some b' \<and> buffer_inv b' \<and> readable b' = s @ []" for s
    using append_ok [OF assms(1), of s] assms(2) by simp
  have "\<exists>b1 b2. appendInt64 b x = Some b1 \<and> readInt64 b1 = Some (x, b2) \<and> readable b2 = []"
    using a [of "be_bytes 8 (unat x)"] readInt_front(1) unfolding appendInt64_def by blast
  moreover have "\<exists>b1 b2. appendInt32 b y = Some b1 \<and> readInt32 b1 = Some (y, b2) \<and> readable b2 = []"
    using a [of "be_bytes 4 (unat y)"] readInt_front(2) unfolding appendInt32_def by blast
  moreover have "\<exists>b1 b2. appendInt16 b z = Some b1 \<and> readInt16 b1 = Some (z, b2) \<and> readable b2 = []"
    using a [of "be_bytes 2 (unat z)"] readInt_front(3) unfolding appendInt16_def by blast
  moreover have "\<exists>b1 b2. appendInt8 b w = Some b1 \<and> readInt8 b1 = Some (w, b2) \<and> readable b2 = []"
    using a [of "[char_of (unat w)]"] readInt_front(4) [of _ w "[]"] unfolding appendInt8_def by force
  ultimately show ?thesis by blast
qed

lemma append_read_int_witness:
  "\<exists>b1 b2. appendInt64 (Buffer_new 0) 5 = Some b1 \<and> readInt64 b1 = Some (5, b2) \<and> readable b2 = []"
  using append_read_int [OF buffer_new_inv readable_new, of 0 5 0 0 0] by blast

section \<open>Reading from a descriptor\<close>

text \<open>
  When \<open>readv\<close> delivers bytes, \<open>readFd\<close> appends exactly these, also those that went into
  the extra buffer, and returns their number; when \<open>readv\<close> fails, the error branch is not
  taken and a copy far out of bounds follows.
\<close>

theorem readFd_result:
  assumes "buffer_inv b" "length s \<le> readv_capacity b" "length s < 2 ^ 63" "length (bytes b) < 2 ^ 63"
  shows "(\<exists>b'. readFd b (ReadvData s) = Some (b', int (length s), None) \<and> buffer_inv b'
      \<and> readable b' = readable b @ s)
    \<and> readFd b (ReadvError e) = None"
  using readFd_ok [OF assms(1-3)] readFd_error [OF assms(4)] by blast

lemma readv_capacity_ge: "65536 \<le> readv_capacity b"
  by (simp add: readv_capacity_def extrabuf_size_def)

lemma readFd_result_witness:
  "\<exists>b'. readFd (Buffer_new 2) (ReadvData ''hello'') = Some (b', 5, None) \<and> readable b' = ''hello''"
  using readFd_result [OF buffer_new_inv [of 2], of "''hello''"]
    readv_capacity_ge [of "Buffer_new 2"]
  unfolding readable_new by (auto simp: Buffer_new_def kCheapPrepend_def)

end
