(* ===== verification/Spec2Isabelle.thy ===== *)
theory Spec2Isabelle
  imports NetAddress NetLog NetDispatch NetEcho NetServed NetLoop RpcPipeline NetTcpClientFacts LogLine LogWriter
    JsonHeapProps JsonFileStream RpcBatch TcpConnectionFacts RpcStubFacts RpcClientFacts JsonFacts NetBufferFacts
begin

text \<open>
  A model of RpcLearning, a small RPC library in C++: a JSON reader and writer, a network library of
  event loops and TCP connections, an RPC layer on both, a generator of stubs, and a log server.

  \<^bold>\<open>How the program works.\<close> A client builds a request (\<open>json::Value\<close>), writes it
  with \<open>FastWriter\<close> into a message with a length header, and sends it through a
  \<open>TcpConnection\<close>. The server's connection reads into a \<open>Buffer\<close>, \<open>BaseServer\<close> cuts
  the messages out, \<open>RpcServer\<close> parses and validates them and calls a procedure, whose answer
  goes back the same way to a callback of the client. Connections live in event loops
  (\<open>EventLoop\<close> with its \<open>EPoller\<close>, \<open>Channel\<close>s, tasks and timers), which run in
  threads of their own.

  \<^bold>\<open>Conventions.\<close> A C++ class is a record with the fields of its members, an operation a
  function on it that is named as in the source (with a prefix where a name occurs twice, as in
  \<open>fw_String\<close>, \<open>client_retry\<close>). A failed assertion, an access outside an array or to a
  deleted object is the value \<open>None\<close>, or \<open>Abort\<close> where exceptions are possible
  (\<open>Prelude.outcome\<close>: \<open>Ret\<close>, \<open>Throw\<close>, \<open>Abort\<close>); assertions are taken as
  enabled. \<open>intN_t\<close> and \<open>uintN_t\<close> are \<open>N word\<close>; \<open>size_t\<close> is \<open>nat\<close> where sizes
  are those of objects in memory. What the kernel answers (\<open>readv\<close>, \<open>write\<close>, \<open>accept4\<close>,
  \<open>epoll_wait\<close>, \<open>connect\<close>) is an argument; \<open>enabled\<close>, \<open>write_ok\<close>, \<open>read_ok\<close> and
  \<open>poll_ok\<close> state what it is documented to answer. Threads are step relations whose steps
  are what one thread does between two points at which another may act.

  \<^bold>\<open>Theories and sources.\<close>
    \<^item> \<open>Prelude\<close>: outcomes, pieces of the C++ library, lemmas on strings and numerals.
    \<open>Machines\<close>: reachable states, and the two locales (\<open>step_system\<close>, \<open>machine\<close>) under
    which invariants are proved; every state machine below is an interpretation.
    \<^item> \<open>NetBuffer\<close>, \<open>NetBufferFacts\<close>: \<open>NetServer/Buffer.h\<close>, \<open>Buffer.cpp\<close>; the vector with
    two indices is a queue of bytes (locale \<open>byte_queue\<close>).
    \<^item> \<open>JsonNumber\<close>, \<open>JsonValue\<close>: \<open>JsonServer/Value.h\<close> as a tree; doubles as exact numbers with
    rounding written out. \<open>JsonHeap\<close>, \<open>JsonHeapFacts\<close>, \<open>JsonHeapInv\<close>, \<open>JsonHeapProps\<close>: the
    reference-counted storage behind a value, its constructors, assignments and destructor; the
    counts are exact as long as they fit into 32 bits, and what a variable stands for is the tree of \<open>JsonValue\<close>.
    \<^item> \<open>JsonReader\<close>, \<open>JsonReaderFacts\<close>, \<open>JsonGrammar\<close>: \<open>Reader.h\<close>, \<open>ReadStream.h\<close>; termination,
    and an inductive grammar all of whose texts are read; \<open>JsonLanguage\<close>: nothing else is
    accepted, but for unterminated strings. \<open>JsonWriter\<close>: \<open>FastWriter.h\<close>, \<open>StyleWriter.h\<close>,
    \<open>WriteStream.h\<close> (locale \<open>json_writer\<close>, interpreted for both writers). \<open>JsonRoundtrip\<close>,
    \<open>JsonFacts\<close>: reading what was written, errors. \<open>JsonFileStream\<close>: the streams on files.
    \<^item> \<open>RpcTypes\<close>, \<open>RpcService\<close>, \<open>RpcServer\<close>, \<open>RpcEcho\<close>, \<open>RpcServerFacts\<close>: \<open>RpcServer/RpcError.h\<close>,
    \<open>Exception.h\<close>, \<open>common.h\<close>, \<open>Server/Procedure.h\<close>, \<open>Service.h\<close>, \<open>Service.cpp\<close>,
    \<open>RpcServer.cpp\<close>, \<open>test/EchoServer.cpp\<close>; dispatch, validation and batches, branch by branch.
    \<open>RpcBatch\<close>: the container of a batch (\<open>ThreadSafeBatchResponse\<close>), its mutex and its counted
    pointers, among the threads that answer; it refines the list of \<open>RpcServer\<close>.
    \<^item> \<open>RpcFraming\<close>, \<open>RpcFramingFacts\<close>: \<open>Server/BaseServer.cpp\<close> over the byte buffer;
    \<open>RpcConnection\<close>: the same on a connection, with partial writes and shutdown.
    \<open>RpcClient\<close>, \<open>RpcClientFacts\<close>: \<open>Client/BaseClient.cpp\<close>. \<open>RpcSystem\<close>: the client and the server, each
    on its connection, and the bytes between them; \<open>RpcPipeline\<close>: calls made while others wait.
    \<^item> \<open>RpcStub\<close>, \<open>RpcStubFacts\<close>: \<open>Stub/StubGen.cpp\<close>, \<open>ClientStubGen.cpp\<close>, \<open>ServerStubGen.cpp\<close>, with the
    text of their templates; what the client generator returns is the template filled in one pass.
    \<^item> \<open>NetChannel\<close>: \<open>Channel.h\<close>, \<open>Channel.cpp\<close>, \<open>EPoller.cpp\<close>. \<open>TcpConnection\<close>,
    \<open>TcpConnectionInv\<close>, \<open>TcpConnectionFacts\<close>: \<open>TcpConnection.cpp\<close>, its tasks and the calls of other
    threads; the invariant, the order of bytes, shutdown and close. \<open>NetDispatch\<close>: \<open>handleEvents\<close> with
    the tie to the owner and what the callbacks do to both. \<open>NetEcho\<close>: \<open>Echo/EchoServer.cpp\<close> on a
    connection.
    \<^item> \<open>TimerQueue\<close>, \<open>TimerFacts\<close>: \<open>Timer.h\<close>, \<open>TimerQueue.cpp\<close>. \<open>NetEventLoop\<close>: \<open>EventLoop.cpp\<close>,
    the queue of tasks and the wake-up. \<open>NetLoop\<close>: the loop with its timer queue, called from any
    thread and, while the \<open>timerfd\<close> is read timer by timer, from callbacks. \<open>NetThreads\<close>: \<open>CountDownLatch.cpp\<close>, \<open>EventLoopThread.cpp\<close>,
    \<open>EventLoopThreadPool.cpp\<close>. \<open>NetAcceptor\<close>, \<open>NetTcpServer\<close>: \<open>Acceptor.cpp\<close>, \<open>TcpServer.cpp\<close>.
    \<open>ConnHistory\<close>, \<open>NetServed\<close>: the server with its connections, each in its loop, and the shared
    pointers that keep them alive; their destruction and the destructor of the server.
    \<open>NetTcpClient\<close>, \<open>NetTcpClientFacts\<close>: \<open>Connector.cpp\<close>, \<open>TcpClient.cpp\<close>, composed with the
    connection, the channel, the latch and the timer queue.
    \<^item> \<open>NetAddress\<close>: \<open>InetAddress.h\<close>, \<open>InetAddress.cpp\<close>. \<open>NetLog\<close>: \<open>TimeTool.cpp\<close> and the macros of
    \<open>NetServer/Log.h\<close>.
    \<^item> \<open>LogLine\<close>: \<open>LogServer/log_line.cpp\<close>, \<open>log_line.hpp\<close>. \<open>LogWriter\<close>: \<open>LogServer.h\<close>.

  \<^bold>\<open>Properties.\<close> A block with a label \<open>C<n>\<close> states a property of the program, followed by
  its theorem and, if it has hypotheses, an instance of it. Here in the root theory are those that
  span all layers: calls come back, and no answer goes to a wrong callback. Other theorems describe branches of single operations and
  have no label. Several properties show faults of the code: they say exactly when it fails.

  \<^bold>\<open>Bounds.\<close> The reader is recursive on its input and takes fuel; more fuel than the text has
  characters is enough (\<open>reader_terminates\<close>), and \<open>parse\<close> starts with that. \<open>replaceAll\<close> may run
  forever and is a \<open>partial_function\<close> whose \<open>None\<close> is that; \<open>replaceAll_return\<close> says when it
  returns. All other loops are recursions with a measure. The limits in the statements (64 KiB
  reads, \<open>kMaxMessageLen\<close>, 1024 bytes of a file stream, 32-bit log sizes and reference counts, the
  64-bit clock) are those of the code.

  \<^bold>\<open>Not modelled, and why.\<close> \<open>Callbacks.h\<close>, \<open>noncopyable.h\<close> and \<open>EasyLog\<close>: type definitions and an
  include. The destructors of \<open>EventLoop\<close>, \<open>EventLoopThread\<close> and \<open>TcpClient\<close> while a loop runs, the end
  of the members of \<open>TcpServer\<close> after its connections, and several calls of \<open>start\<close> on one client.
  Several threads on one store of values: it is used by one thread. \<open>createSocket\<close> of \<open>Connector.cpp\<close> has
  no return statement; its caller is taken to get the socket. Overflow of the numbers of calls
  (\<open>BaseClient::id_\<close>) and of the counters of the writers. The example
  and test programs, except the two echo servers. A log file that cannot be opened. How the C++
  library prints doubles in log lines, the local time and thread ids, which are parameters.

  \<^bold>\<open>Open.\<close> Values in the RPC layer on the store of \<open>JsonHeap\<close> instead of trees; connections that
  end while calls wait in \<open>RpcSystem\<close>.
\<close>

section \<open>Calls on two connections\<close>

text \<open>
  C1: calls made one after the other, as long as neither side closes: however the bytes between client
  and server are cut, delayed and buffered, the callbacks are
  called in the order of the calls, each once, with the result of the procedure that the request of
  its call names; the client's map holds exactly the call that waits; while a call waits there are
  bytes on the way or in an output buffer that is being written; and no handler fails on either side.
\<close>

theorem calls_come_back:
  assumes r: "system_reach freed S s"
  shows "list_all2 (fires S) (take (length (fired s)) (made s)) (fired s) \<and>
    (length (fired s) = length (made s) \<and> idToResponse (rpcClient s) = Map.empty \<or>
     length (made s) = Suc (length (fired s)) \<and> (\<exists>i. idToResponse (rpcClient s) = [i \<mapsto> fst (last (made s))]) \<and>
       (to_server s \<noteq> [] \<or> to_client s \<noteq> [] \<or> isWriting (channel (clientConn s)) \<or>
        isWriting (channel (rpcConn (serverSide s))))) \<and>
    (\<forall>a. system_legal freed S a s \<longrightarrow> (\<exists>s'. system_do freed S a s = Some s' \<and> system_reach freed S s'))"
proof (intro conjI)
  note inv = system_reach_inv [OF r]
  obtain d x where d: "made s = d @ x" "list_all2 (fires S) d (fired s)"
    "call_waits freed S x (readable (inputBuffer (clientConn s))) (idToResponse (rpcClient s))"
    using inv unfolding system_inv_def client_ok_def by blast
  have len: "length (fired s) = length d" using d(2) by (simp add: list_all2_lengthD)
  then show "list_all2 (fires S) (take (length (fired s)) (made s)) (fired s)" using d(1,2) by simp
  consider "x = []" | cb req where "x = [(cb, req)]"
    using d(3) by (cases "(freed, S, x, readable (inputBuffer (clientConn s)), idToResponse (rpcClient s))" rule: call_waits.cases) auto
  then show "length (fired s) = length (made s) \<and> idToResponse (rpcClient s) = Map.empty \<or>
     length (made s) = Suc (length (fired s)) \<and> (\<exists>i. idToResponse (rpcClient s) = [i \<mapsto> fst (last (made s))]) \<and>
       (to_server s \<noteq> [] \<or> to_client s \<noteq> [] \<or> isWriting (channel (clientConn s)) \<or>
        isWriting (channel (rpcConn (serverSide s))))"
  proof cases
    case 2
    then have "length (made s) = Suc (length (fired s))" "\<exists>i. idToResponse (rpcClient s) = [i \<mapsto> fst (last (made s))]"
      using d(1,3) len by auto
    then show ?thesis using quiet_answered [OF inv] by fastforce
  qed (use d(1,3) len in simp)
  show "\<forall>a. system_legal freed S a s \<longrightarrow> (\<exists>s'. system_do freed S a s = Some s' \<and> system_reach freed S s')"
    using whole.never_fails r unfolding system_reach_def by blast
qed

text \<open>
  C2: no state of the two connections is a dead end: from every one of them events that need no further
  call (writes, and reads of what is on the way) lead to a state where every call made so far has come
  back to its callback with the result of its procedure.
\<close>

theorem calls_finish:
  assumes "system_reach freed S s"
  shows "\<exists>s'. (acts (system_legal freed S) (system_do freed S))\<^sup>*\<^sup>* s s' \<and> system_reach freed S s' \<and>
    made s' = made s \<and> length (fired s') = length (made s) \<and> list_all2 (fires S) (made s) (fired s')"
proof -
  obtain s' where s': "(acts (system_legal freed S) (system_do freed S))\<^sup>*\<^sup>* s s'" "system_reach freed S s'"
    "made s' = made s" "length (fired s') = length (made s')" using system_finishes [OF assms] by blast
  obtain d x where d: "made s' = d @ x" "list_all2 (fires S) d (fired s')"
    using system_reach_inv [OF s'(2)] unfolding system_inv_def client_ok_def by blast
  then have "x = []" using s'(4) by (simp add: list_all2_lengthD)
  then show ?thesis using s' d by auto
qed

section \<open>An echo\<close>

abbreviation echo_numbered :: "32 word \<Rightarrow> JValue" where
  "echo_numbered i \<equiv> VObject [(''id'', VInt32 i), (''jsonrpc'', VString ''2.0''), (''method'', VString ''EchoServer.Echo''),
     (''params'', VObject [(''message'', VString ''hi'')])]"

abbreviation echo_request :: JValue where "echo_request \<equiv> echo_numbered 0"

lemma echo_answers:
  assumes "short (body (echo_numbered i))" "client_short (body (VObject (response_ms i False (VString ''hi''))))"
  shows "answered echo_server (echo_numbered i) i (VString ''hi'')"
  unfolding answered_def
  by (intro exI [of _ "[(''id'', VInt32 i), (''jsonrpc'', VString ''2.0''), (''method'', VString ''EchoServer.Echo''),
      (''params'', VObject [(''message'', VString ''hi'')])]"] exI [of _ "''EchoServer''"] exI [of _ "''Echo''"]
      exI [of _ "the (services echo_server ''EchoServer'')"] exI [of _ "\<lparr>callBack = EchoStub, params = echo_params\<rparr>"])
    (use assms in \<open>simp add: char_less_iff char_le_iff valid_request_def call_fields_def
        has_type_def expected_size_def echo_server_services params_match_def echo_params_def
        sorted_keys_def plain_key_def EchoStub_def echo_message_def UserDoneCallback_Some
        response_ms_def\<close>)

lemma echo_answered:
  "answered echo_server (echo_numbered 0) 0 (VString ''hi'')" "answered echo_server (echo_numbered 1) 1 (VString ''hi'')"
  "answered echo_server (echo_numbered 2) 2 (VString ''hi'')"
  by (rule echo_answers; simp add: response_ms_def short_def client_short_def kMaxMessageLen_def clientMaxMessageLen_def
        JsonWriter.quoted_def escape_def int_to_string_def nat_to_string.simps)+

lemma echo_called:
  "\<exists>s. system_reach (\<lambda>s. s) echo_server s \<and> made s = [(''cb'', echo_request)]"
proof -
  obtain c where c: "connectEstablished (TcpConnection_new False None) = Some c"
    using establish_ok [OF conn_inv_new, of False None] by (auto simp: TcpConnection_new_def)
  let ?s = "\<lparr>rpcClient = BaseClient_new, clientConn = c, clientRead = [], serverSide = \<lparr>rpcConn = c, chunks = []\<rparr>,
    made = [], fired = []\<rparr> :: string RpcSystem"
  let ?a = "ClientCalls (the (echo_call ''EchoServer.Echo'' ''hi'')) ''cb'' (WriteError EAGAIN)"
  have "RpcSystem_new ?s" using c by (simp add: RpcSystem_new_def RpcConn_new_def)
  then have r: "system_reach (\<lambda>s. s) echo_server ?s" unfolding system_reach_def by (rule reached_initial)
  have m: "addMember (the (echo_call ''EchoServer.Echo'' ''hi'')) ''id'' (VInt32 0) = Some echo_request"
    by (simp add: echo_call_Some char_less_iff char_le_iff)
  have n: "nextId (rpcClient ?s) = 0" "idToResponse (rpcClient ?s) = Map.empty" by (simp_all add: BaseClient_new_def)
  have l: "system_legal (\<lambda>s. s) echo_server ?a ?s"
    using sendCall_message [of _ "rpcClient ?s", unfolded n, OF m] m n echo_answered(1)
    by (auto simp: callable_def write_ok_def no_fault_def)
  obtain s' where s': "system_do (\<lambda>s. s) echo_server ?a ?s = Some s'" "system_reach (\<lambda>s. s) echo_server s'"
    using whole.never_fails r l unfolding system_reach_def by blast
  have "made s' = [(''cb'', echo_request)]"
    using s'(1) sendCall_message [of _ "rpcClient ?s", unfolded n, OF m] by (auto simp: client_calls_def)
  then show ?thesis using s'(2) by blast
qed

text \<open>A call is made, and comes back.\<close>

lemma calls_come_back_witness:
  "\<exists>s. system_reach (\<lambda>s. s) echo_server s \<and> made s = [(''cb'', echo_request)] \<and>
     (fired s = [] \<longrightarrow> (\<exists>i. idToResponse (rpcClient s) = [i \<mapsto> ''cb'']))"
proof -
  obtain s where s: "system_reach (\<lambda>s. s) echo_server s" "made s = [(''cb'', echo_request)]" using echo_called by blast
  then show ?thesis using calls_come_back [OF s(1)] by auto
qed

lemma fires_echo: "fires echo_server (cb, echo_request) e \<longleftrightarrow> e = Callback cb (VString ''hi'') False"
proof -
  have "v = VString ''hi''" if "answered echo_server echo_request i v" for i v
    using answeredD(1) [OF that, of "\<lambda>s. s"] answeredD(1) [OF echo_answered(1), of "\<lambda>s. s"] by (simp add: response_ms_def)
  then show ?thesis using echo_answered(1) by (auto simp: fires_def)
qed

lemma calls_finish_witness:
  "\<exists>s :: string RpcSystem. system_reach (\<lambda>s. s) echo_server s \<and> fired s = [Callback ''cb'' (VString ''hi'') False]"
proof -
  obtain s where s: "system_reach (\<lambda>s. s) echo_server s" "made s = [(''cb'', echo_request)]" using echo_called by blast
  obtain s' where s': "system_reach (\<lambda>s. s) echo_server s'" "list_all2 (fires echo_server) (made s) (fired s')"
    using calls_finish [OF s(1)] by blast
  then show ?thesis using s(2) by (auto simp: list_all2_Cons1 fires_echo)
qed

section \<open>Calls made while others wait\<close>

text \<open>
  C3: when calls are made at any time, also while others wait, answers can get lost, because the client
  takes whatever has arrived for one message; but whatever is cut, delayed and joined, the callbacks
  called belong to calls with increasing numbers, so each is called at most once, and each gets the
  result of its own request; the callbacks that wait belong to other calls, each under the number of its
  call; and only a read of the client can fail. A call that the server refuses shuts the connection: its
  callback and those of all calls behind it are never called.
\<close>

theorem overlapping_calls:
  assumes r: "pipe_reach freed S s"
  shows "(\<exists>ns. sorted_wrt (<) ns \<and> list_all2 (\<lambda>n. fires S (made s ! n)) ns (fired s) \<and>
      (\<forall>n \<in> set ns. n < length (made s) \<and> (\<forall>k \<le> n. \<not> refused freed S (snd (made s ! k)))) \<and>
      (\<forall>k cb. idToResponse (rpcClient s) k = Some cb \<longrightarrow>
        (\<exists>n < length (made s). n \<notin> set ns \<and> k = sint (word_of_nat n :: 32 word) \<and> cb = fst (made s ! n)))) \<and>
    (\<forall>a. pipe_legal freed S a s \<longrightarrow> (\<exists>n. a = ClientReads n) \<or> (\<exists>s'. system_do freed S a s = Some s' \<and> pipe_reach freed S s'))"
proof
  obtain p where "heard_calls freed S (made s) (idToResponse (rpcClient s)) (fired s) p"
    using pipe_reach_inv [OF r] unfolding pipe_inv_def by blast
  then obtain ns where ns: "sorted_wrt (<) ns" "list_all2 (\<lambda>n. fires S (made s ! n)) ns (fired s)"
    "\<forall>n \<in> set ns. n < length (reply_bodies freed S (map snd (made s)))"
    "\<forall>k cb. idToResponse (rpcClient s) k = Some cb \<longrightarrow>
        (\<exists>n < length (made s). n \<notin> set ns \<and> k = sint (word_of_nat n :: 32 word) \<and> cb = fst (made s ! n))"
    unfolding heard_calls_def by blast
  have "n < length (made s) \<and> (\<forall>k \<le> n. \<not> refused freed S (snd (made s ! k)))" if n: "n \<in> set ns" for n
  proof -
    obtain e where "fires S (made s ! n) e" using ns(2) n by (auto simp: list_all2_conv_all_nth in_set_conv_nth)
    then have "\<not> refused freed S (snd (made s ! n))" using answered_not_refused by (auto simp: fires_def)
    then show ?thesis using reply_nth [of n freed S "map snd (made s)"] ns(3) n by (auto simp: le_less)
  qed
  then show "\<exists>ns. sorted_wrt (<) ns \<and> list_all2 (\<lambda>n. fires S (made s ! n)) ns (fired s) \<and>
      (\<forall>n \<in> set ns. n < length (made s) \<and> (\<forall>k \<le> n. \<not> refused freed S (snd (made s ! k)))) \<and>
      (\<forall>k cb. idToResponse (rpcClient s) k = Some cb \<longrightarrow>
        (\<exists>n < length (made s). n \<notin> set ns \<and> k = sint (word_of_nat n :: 32 word) \<and> cb = fst (made s ! n)))"
    using ns(1,2,4) by blast
qed (use pipe_act [OF r] in blast)

text \<open>An echo comes back, then two calls are made: the second does not wait for the first, and is refused.\<close>

definition unknown_request :: JValue where
  "unknown_request = VObject [(''id'', VInt32 2), (''jsonrpc'', VString ''2.0''), (''method'', VString ''EchoServer.No''),
     (''params'', VObject [(''message'', VString ''hi'')])]"

lemma unknown_is_refused: "refused freed echo_server unknown_request"
  unfolding unknown_request_def
  by (rule unknown_refused [of _ "''EchoServer''" "''No''"])
    (simp_all add: char_less_iff char_le_iff valid_request_def call_fields_def has_type_def expected_size_def echo_server_services
        sorted_keys_def plain_key_def short_def kMaxMessageLen_def JsonWriter.quoted_def escape_def int_to_string_def
        nat_to_string.simps)

lemma overlapping_calls_witness:
  "\<exists>s :: string RpcSystem. pipe_reach (\<lambda>s. s) echo_server s \<and> length (made s) = 3 \<and>
     fired s = [Callback ''cb'' (VString ''hi'') False] \<and>
     (\<exists>n < 2. list_all2 (\<lambda>n. fires echo_server (made s ! n)) [n] (fired s))"
proof -
  obtain s0 where s0: "system_reach (\<lambda>s. s) echo_server s0" "made s0 = [(''cb'', echo_request)]" using echo_called by blast
  obtain s1 where s1: "system_reach (\<lambda>s. s) echo_server s1" "made s1 = made s0" "length (fired s1) = length (made s1)"
    using system_finishes [OF s0(1)] by blast
  have f: "fired s1 = [Callback ''cb'' (VString ''hi'') False]"
  proof -
    obtain d x where "made s1 = d @ x" "list_all2 (fires echo_server) d (fired s1)"
      using system_reach_inv [OF s1(1)] unfolding system_inv_def client_ok_def by blast
    then show ?thesis using s1(2,3) s0(2) by (auto simp: list_all2_Cons1 Cons_eq_append_conv fires_echo dest: list_all2_lengthD)
  qed
  have p1: "pipe_reach (\<lambda>s. s) echo_server s1" using one_by_one [OF s1(1)] s1(2) s0(2) by simp
  have c: "addMember (the (echo_call ''EchoServer.Echo'' ''hi'')) ''id'' (VInt32 i) = Some (echo_numbered i)" for i
    by (simp add: echo_call_Some char_less_iff char_le_iff)
  obtain s2 where s2: "pipe_reach (\<lambda>s. s) echo_server s2" "made s2 = made s1 @ [(''cb'', echo_numbered 1)]" "fired s2 = fired s1"
    using pipe_call [OF p1 _ c, of "VString ''hi''" "''cb''"] echo_answered(2) s1(2) s0(2) by auto
  have c2: "addMember (the (echo_call ''EchoServer.No'' ''hi'')) ''id'' (VInt32 2) = Some unknown_request"
    by (simp add: unknown_request_def echo_call_Some char_less_iff char_le_iff)
  have l2: "length (made s2) = 2" using s2(2) s1(2) s0(2) by simp
  obtain s3 where s3: "pipe_reach (\<lambda>s. s) echo_server s3" "made s3 = made s2 @ [(''cb'', unknown_request)]" "fired s3 = fired s2"
    using pipe_call [OF s2(1), of "the (echo_call ''EchoServer.No'' ''hi'')" unknown_request _ "''cb''"] c2 l2 unknown_is_refused by auto
  have l: "length (made s3) = 3" "made s3 ! 2 = (''cb'', unknown_request)" using s3(2) l2 by (simp_all add: nth_append)
  obtain ns where ns: "\<forall>n \<in> set ns. n < 3 \<and> (\<forall>k \<le> n. \<not> refused (\<lambda>s. s) echo_server (snd (made s3 ! k)))"
    "list_all2 (\<lambda>n. fires echo_server (made s3 ! n)) ns (fired s3)"
    using overlapping_calls [OF s3(1)] l(1) by auto
  then obtain n where n: "ns = [n]" using f s2(3) s3(3) by (auto simp: list_all2_Cons2)
  have "n \<noteq> 2" using ns(1) n l(2) unknown_is_refused by fastforce
  then have "n < 2 \<and> list_all2 (\<lambda>n. fires echo_server (made s3 ! n)) [n] (fired s3)" using ns n by auto
  moreover have "fired s3 = [Callback ''cb'' (VString ''hi'') False]" using f s2(3) s3(3) by simp
  ultimately show ?thesis using s3(1) l(1) by blast
qed

section \<open>One call, layer by layer\<close>

text \<open>
  A call that matches a registered procedure comes back: the message of \<open>sendCall\<close>, in
  whatever chunks it reaches the server, makes the server send one message, and that message
  makes the client call the callback of this call with the procedure's result, once, and
  forget the call. (Values without doubles, which the six printed decimals could change.)
\<close>

theorem call_roundtrip:
  assumes "addMember (VObject ms) ''id'' (VInt32 (nextId c)) = Some (VObject req)"
    and "valid_request req" "map_of req ''method'' = Some (VString (svc @ CHR ''.'' # m))"
      "CHR ''.'' \<notin> set svc" "svc \<noteq> []" "m \<noteq> []" "services S svc = Some s"
      "procedureReturn s m = Some p" "params_match (params p) (map_of req ''params'')"
    and "writable (VObject req)" "no_double (VObject req)"
    and "callBack p (VObject req) = ([VObject (response_ms (nextId c) False v)], Ret ())"
    and "writable v" "no_double v"
    and "short (layout (\<lambda>_. []) 0 (VObject req))"
      "client_short (layout (\<lambda>_. []) 0 (VObject (response_ms (nextId c) False v)))"
  shows "\<exists>c1 call_msg response_msg.
     sendCall c (VObject ms) cb = Some (c1, VObject req, CSend call_msg)
   \<and> (\<forall>chunks. concat chunks = call_msg \<and> (\<forall>x \<in> set chunks. length x \<le> 65536) \<longrightarrow>
        (\<exists>b'. receive_all freed (handleRequest freed S) (Buffer_new kInitialSize) chunks
           = (b', [Send response_msg], Ret ()) \<and> readable b' = []))
   \<and> (\<forall>b. buffer_inv b \<and> readable b = response_msg \<longrightarrow>
        (\<exists>b' c2. clientOnMessage c1 b = (b', c2, [Callback cb v False], Ret ()) \<and> readable b' = []
           \<and> idToResponse c2 = (idToResponse c)(sint (nextId c) := None)))"
proof -
  let ?t = "layout (\<lambda>_. []) 0 (VObject req)"
  let ?rv = "VObject (response_ms (nextId c) False v)"
  let ?c1 = "c\<lparr>idToResponse := (idToResponse c)(sint (nextId c) \<mapsto> cb), nextId := nextId c + 1\<rparr>"
  have send: "sendCall c (VObject ms) cb = Some (?c1, VObject req, CSend (message_of ?t))"
    using assms(1) fast.write_root [of "FastWriter_new []" "VObject req"]
    by (auto simp: sendCall_def clientSendJson_def FastWriter_new_def ws_get_def)
  have h: "handleRequest freed S (?t @ crlf_str) = ([?rv], Ret ())"
    using handleRequest_call [OF assms(2-11)] assms(12) by simp
  have served: "\<exists>b'. receive_all freed (handleRequest freed S) (Buffer_new kInitialSize) chunks
      = (b', [Send (message_of (layout (\<lambda>_. []) 0 ?rv))], Ret ()) \<and> readable b' = []"
    if "concat chunks = message_of ?t" "\<forall>x \<in> set chunks. length x \<le> 65536" for chunks
  proof -
    have "pending (readable (Buffer_new kInitialSize)) [?t]"
      by (simp add: pending_def readable_new message_of_def strict_prefix_def)
    from receive_stream [OF buffer_new_inv _ this, of chunks "handleRequest freed S" freed]
    show ?thesis
      using that h assms(15) by (simp add: readable_new served_effects_def answers_def is_type_defs)
  qed
  have called_back: "\<exists>b' c2. clientOnMessage ?c1 b = (b', c2, [Callback cb v False], Ret ()) \<and> readable b' = []
      \<and> idToResponse c2 = (idToResponse c)(sint (nextId c) := None)"
    if "buffer_inv b" "readable b = message_of (layout (\<lambda>_. []) 0 ?rv)" for b
    using clientHandleMessage_frame [OF that(1) _ assms(16), of "[]" ?c1] that(2)
      handleResponse_call [of ?c1 "nextId c" cb v] assms(13,14)
    by (auto simp: clientOnMessage_def)
  show ?thesis
    using send served called_back by blast
qed

lemma call_roundtrip_witness:
  "\<exists>c1 call_msg. sendCall (BaseClient_new :: string BaseClient)
      (the (echo_call ''EchoServer.Echo'' ''hi'')) ''cb'' = Some (c1, VObject [(''id'', VInt32 0),
        (''jsonrpc'', VString ''2.0''), (''method'', VString ''EchoServer.Echo''),
        (''params'', VObject [(''message'', VString ''hi'')])], CSend call_msg)"
proof -
  let ?ms = "[(''jsonrpc'', VString ''2.0''), (''method'', VString ''EchoServer.Echo''),
        (''params'', VObject [(''message'', VString ''hi'')])]"
  let ?req = "(''id'', VInt32 0) # ?ms"
  have "\<exists>c1 call_msg response_msg.
     sendCall (BaseClient_new :: string BaseClient) (VObject ?ms) ''cb''
       = Some (c1, VObject ?req, CSend call_msg)
   \<and> (\<forall>chunks. concat chunks = call_msg \<and> (\<forall>x \<in> set chunks. length x \<le> 65536) \<longrightarrow>
        (\<exists>b'. receive_all (\<lambda>s. s) (handleRequest (\<lambda>s. s) echo_server) (Buffer_new kInitialSize) chunks
           = (b', [Send response_msg], Ret ()) \<and> readable b' = []))
   \<and> (\<forall>b. buffer_inv b \<and> readable b = response_msg \<longrightarrow>
        (\<exists>b' c2. clientOnMessage c1 b = (b', c2, [Callback ''cb'' (VString ''hi'') False], Ret ()) \<and> readable b' = []
           \<and> idToResponse c2 = (idToResponse BaseClient_new)(sint (nextId (BaseClient_new :: string BaseClient)) := None)))"
    by (rule call_roundtrip [where svc = "''EchoServer''" and m = "''Echo''"
          and s = "the (services echo_server ''EchoServer'')"
          and p = "\<lparr>callBack = EchoStub, params = echo_params\<rparr>"])
      (simp_all add: BaseClient_new_def char_less_iff char_le_iff valid_request_def call_fields_def
        has_type_def expected_size_def echo_server_services params_match_def echo_params_def
        sorted_keys_def plain_key_def EchoStub_def echo_message_def UserDoneCallback_Some
        response_ms_def short_def client_short_def kMaxMessageLen_def clientMaxMessageLen_def
        JsonWriter.quoted_def escape_def int_to_string_def nat_to_string.simps)
  then show ?thesis unfolding echo_call_Some option.sel by blast
qed

end
